(* ===== verification/Prelude.thy ===== *)
theory Prelude
  imports Main "HOL-Library.AList" "HOL-Library.Char_ord" "HOL-Library.List_Lexorder"
    "HOL-Library.Multiset" "HOL-Library.Product_Lexorder"
begin

text \<open>
  What the Go language and its standard library give every component of the model:
  fixed-width signed integers, maps, the comparator-driven sorts of package \<open>sort\<close>,
  decimal rendering of integers, and a few generic facts about lists.
\<close>

section \<open>Fixed-width signed integers\<close>

text \<open>
  A Go \<open>int32\<close> or \<open>int64\<close> is the \<open>int\<close> it denotes; every arithmetic operation of the
  source that can leave the range is followed by the two's complement wrap-around.
\<close>

definition i32 :: "int \<Rightarrow> int" where
  "i32 x = signed_take_bit 31 x"

definition i64 :: "int \<Rightarrow> int" where
  "i64 x = signed_take_bit 63 x"

definition in_i32 :: "int \<Rightarrow> bool" where
  "in_i32 x \<longleftrightarrow> - (2 ^ 31) \<le> x \<and> x < 2 ^ 31"

definition in_i64 :: "int \<Rightarrow> bool" where
  "in_i64 x \<longleftrightarrow> - (2 ^ 63) \<le> x \<and> x < 2 ^ 63"

definition max_i32 :: int where
  "max_i32 = 2 ^ 31 - 1"

lemma i32_id: "in_i32 x \<Longrightarrow> i32 x = x"
  unfolding i32_def in_i32_def by (rule signed_take_bit_int_eq_self) auto

lemma i64_id: "in_i64 x \<Longrightarrow> i64 x = x"
  unfolding i64_def in_i64_def by (rule signed_take_bit_int_eq_self) auto

lemma in_i64_i64: "in_i64 (i64 x)"
  using signed_take_bit_int_greater_eq_minus_exp [of 63 x] signed_take_bit_int_less_exp [of 63 x]
  by (simp add: i64_def in_i64_def)

text \<open>Go's integer division truncates towards zero.\<close>

definition go_div :: "int \<Rightarrow> int \<Rightarrow> int" where
  "go_div a b = sgn a * sgn b * (\<bar>a\<bar> div \<bar>b\<bar>)"

lemma go_div_nonneg: "0 \<le> a \<Longrightarrow> 0 < b \<Longrightarrow> go_div a b = a div b"
  unfolding go_div_def by (cases "a = 0") auto

section \<open>Maps\<close>

text \<open>
  A Go map is an association list with distinct keys. Its list order is the iteration
  order of a \<open>range\<close> loop, which Go leaves unspecified: a result that does not depend on it
  is proved for every order.
\<close>

type_synonym ('k, 'v) gomap = "('k \<times> 'v) list"

abbreviation gm_get :: "('k, 'v) gomap \<Rightarrow> 'k \<Rightarrow> 'v option" where
  "gm_get \<equiv> map_of"

abbreviation gm_set :: "'k \<Rightarrow> 'v \<Rightarrow> ('k, 'v) gomap \<Rightarrow> ('k, 'v) gomap" where
  "gm_set \<equiv> AList.update"

abbreviation gm_del :: "'k \<Rightarrow> ('k, 'v) gomap \<Rightarrow> ('k, 'v) gomap" where
  "gm_del \<equiv> AList.delete"

abbreviation gm_ok :: "('k, 'v) gomap \<Rightarrow> bool" where
  "gm_ok m \<equiv> distinct (map fst m)"

text \<open>\<open>m[k]\<close> of a missing key is the zero value of the element type.\<close>

definition gm_at :: "'v \<Rightarrow> ('k, 'v) gomap \<Rightarrow> 'k \<Rightarrow> 'v" where
  "gm_at z m k = (case gm_get m k of None \<Rightarrow> z | Some v \<Rightarrow> v)"

text \<open>\<open>m[k] = append(m[k], x)\<close>.\<close>

definition gm_append :: "'k \<Rightarrow> 'a \<Rightarrow> ('k, 'a list) gomap \<Rightarrow> ('k, 'a list) gomap" where
  "gm_append k x m = gm_set k (gm_at [] m k @ [x]) m"

named_theorems gm "facts about maps"

lemma gm_get_set [gm, simp]: "gm_get (gm_set k v m) = (gm_get m)(k \<mapsto> v)"
  by (rule update_conv')

lemma gm_get_del [gm, simp]: "gm_get (gm_del k m) = (gm_get m)(k := None)"
  by (rule delete_conv')

lemma gm_ok_set [gm, intro]: "gm_ok m \<Longrightarrow> gm_ok (gm_set k v m)"
  by (rule distinct_update)

lemma gm_ok_del [gm, intro]: "gm_ok m \<Longrightarrow> gm_ok (gm_del k m)"
  by (rule distinct_delete)

lemma gm_at_set [gm, simp]: "gm_at z (gm_set k v m) k' = (if k' = k then v else gm_at z m k')"
  by (auto simp: gm_at_def)

lemma gm_at_del [gm, simp]: "gm_at z (gm_del k m) k' = (if k' = k then z else gm_at z m k')"
  by (auto simp: gm_at_def)

lemma gm_at_append [gm, simp]:
  "gm_at [] (gm_append k x m) k' = (if k' = k then gm_at [] m k @ [x] else gm_at [] m k')"
  by (auto simp: gm_append_def)

lemma gm_ok_append [gm, intro]: "gm_ok m \<Longrightarrow> gm_ok (gm_append k x m)"
  by (auto simp: gm_append_def intro: distinct_update)

lemma gm_get_some_iff: "gm_ok m \<Longrightarrow> gm_get m k = Some v \<longleftrightarrow> (k, v) \<in> set m"
  by (rule map_of_eq_Some_iff)

lemma gm_get_none_iff: "gm_get m k = None \<longleftrightarrow> k \<notin> fst ` set m"
  by (rule map_of_eq_None_iff)

lemma gm_mem_set: "kv \<in> set (gm_set k v m) \<Longrightarrow> kv = (k, v) \<or> kv \<in> set m"
  by (induction m) (auto split: if_splits)

lemma gm_mem_del: "kv \<in> set (gm_del k m) \<longleftrightarrow> kv \<in> set m \<and> fst kv \<noteq> k"
  by (induction m) auto

lemma gm_keys_set [simp]: "fst ` set (gm_set k v m) = insert k (fst ` set m)"
  by (auto simp: dom_update)

lemma gm_keys_del [simp]: "fst ` set (gm_del k m) = fst ` set m - {k}"
  by (force simp: gm_mem_del image_iff)

text \<open>Grouping a list by a key, the way \<open>for ... { m[k] = append(m[k], x) }\<close> does.\<close>

definition group_by :: "('a \<Rightarrow> 'k) \<Rightarrow> 'a list \<Rightarrow> ('k, 'a list) gomap" where
  "group_by f xs = foldl (\<lambda>m x. gm_append (f x) x m) [] xs"

lemma gm_at_foldl_append:
  "gm_at [] (foldl (\<lambda>m x. gm_append (f x) (g x) m) m xs) k
    = gm_at [] m k @ map g (filter (\<lambda>x. f x = k) xs)"
  by (induction xs arbitrary: m) auto

lemma gm_keys_foldl_append:
  "fst ` set (foldl (\<lambda>m x. gm_append (f x) (g x) m) m xs) = fst ` set m \<union> f ` set xs"
  by (induction xs arbitrary: m) (auto simp: gm_append_def)

lemma gm_ok_foldl_append:
  "gm_ok m \<Longrightarrow> gm_ok (foldl (\<lambda>m x. gm_append (f x) (g x) m) m xs)"
proof (induction xs arbitrary: m)
  case (Cons x xs)
  then show ?case by (simp add: gm_ok_append)
qed simp

lemma gm_at_group_by [gm]: "gm_at [] (group_by f xs) k = filter (\<lambda>x. f x = k) xs"
  using gm_at_foldl_append [where g = "\<lambda>x. x" and m = "[]"]
  by (simp add: group_by_def gm_at_def)

lemma gm_ok_group_by [gm]: "gm_ok (group_by f xs)"
  using gm_ok_foldl_append [where g = "\<lambda>x. x" and m = "[]"] by (simp add: group_by_def)

lemma gm_keys_group_by [gm]: "fst ` set (group_by f xs) = f ` set xs"
  using gm_keys_foldl_append [where g = "\<lambda>x. x" and m = "[]"] by (simp add: group_by_def)

section \<open>Sorting with a comparator\<close>

text \<open>
  \<open>sort.Slice\<close>, \<open>sort.SliceStable\<close> and \<open>slices.SortFunc\<close> take the order as a function.
  Insertion before the first element that is not smaller is stable, as \<open>SliceStable\<close> is;
  where the source uses an unstable sort, its comparator is total on the elements it is
  given, so that the sorted list is the only one (\<open>sort_less_unique\<close>).
\<close>

fun insort_less :: "('a \<Rightarrow> 'a \<Rightarrow> bool) \<Rightarrow> 'a \<Rightarrow> 'a list \<Rightarrow> 'a list" where
  "insort_less lt x [] = [x]"
| "insort_less lt x (y # ys) = (if lt y x then y # insort_less lt x ys else x # y # ys)"

definition sort_less :: "('a \<Rightarrow> 'a \<Rightarrow> bool) \<Rightarrow> 'a list \<Rightarrow> 'a list" where
  "sort_less lt xs = foldr (insort_less lt) xs []"

lemma sort_less_simps [simp]:
  "sort_less lt [] = []"
  "sort_less lt (x # xs) = insort_less lt x (sort_less lt xs)"
  by (simp_all add: sort_less_def)

lemma mset_insort_less [simp]: "mset (insort_less lt x xs) = add_mset x (mset xs)"
  by (induction xs) auto

lemma mset_sort_less [simp]: "mset (sort_less lt xs) = mset xs"
  by (induction xs) auto

lemma set_insort_less [simp]: "set (insort_less lt x xs) = insert x (set xs)"
  by (induction xs) auto

lemma set_sort_less [simp]: "set (sort_less lt xs) = set xs"
  by (induction xs) auto

lemma length_insort_less [simp]: "length (insort_less lt x xs) = Suc (length xs)"
  by (induction xs) auto

lemma length_sort_less [simp]: "length (sort_less lt xs) = length xs"
  by (induction xs) auto

lemma sort_less_nil [simp]: "sort_less lt xs = [] \<longleftrightarrow> xs = []"
  by (metis length_0_conv length_sort_less)

lemma distinct_sort_less [simp]: "distinct (sort_less lt xs) = distinct xs"
  by (metis mset_sort_less mset_eq_imp_distinct_iff)

lemma distinct_map_sort_less [simp]: "distinct (map f (sort_less lt xs)) = distinct (map f xs)"
  by (metis mset_sort_less mset_map mset_eq_imp_distinct_iff)

text \<open>Sorting through an order embedding, as the index sorts of the source do.\<close>

lemma insort_less_map:
  "insort_less lt (f x) (map f xs) = map f (insort_less (\<lambda>a b. lt (f a) (f b)) x xs)"
  by (induction xs) auto

lemma sort_less_map: "sort_less lt (map f xs) = map f (sort_less (\<lambda>a b. lt (f a) (f b)) xs)"
  by (induction xs) (auto simp: insort_less_map)

lemma insort_less_cong:
  "(\<And>y. y \<in> set ys \<Longrightarrow> lt y x = lt' y x) \<Longrightarrow> insort_less lt x ys = insort_less lt' x ys"
  by (induction ys) auto

lemma sort_less_cong:
  "(\<And>x y. x \<in> set xs \<Longrightarrow> y \<in> set xs \<Longrightarrow> lt x y = lt' x y) \<Longrightarrow> sort_less lt xs = sort_less lt' xs"
proof (induction xs)
  case (Cons x xs)
  then have "sort_less lt xs = sort_less lt' xs" by auto
  moreover have "insort_less lt x (sort_less lt' xs) = insort_less lt' x (sort_less lt' xs)"
    using Cons.prems by (intro insort_less_cong) auto
  ultimately show ?case by simp
qed simp

subsection \<open>The contract of a comparator\<close>

text \<open>
  What \<open>package sort\<close> asks of its callers: a strict weak order, on the values the caller
  sorts (\<open>ok\<close>).
\<close>

locale comparator =
  fixes lt :: "'a \<Rightarrow> 'a \<Rightarrow> bool" and ok :: "'a \<Rightarrow> bool"
  assumes lt_irrefl: "ok x \<Longrightarrow> \<not> lt x x"
    and lt_trans: "ok x \<Longrightarrow> ok y \<Longrightarrow> ok z \<Longrightarrow> lt x y \<Longrightarrow> lt y z \<Longrightarrow> lt x z"
    and lt_weak: "ok x \<Longrightarrow> ok y \<Longrightarrow> ok z \<Longrightarrow> lt x z \<Longrightarrow> lt x y \<or> lt y z"
begin

lemma lt_asym: "ok x \<Longrightarrow> ok y \<Longrightarrow> lt x y \<Longrightarrow> \<not> lt y x"
  using lt_irrefl lt_trans by blast

lemma insort_sorted:
  assumes "ok x" "\<forall>y\<in>set xs. ok y" "sorted_wrt (\<lambda>a b. \<not> lt b a) xs"
  shows "sorted_wrt (\<lambda>a b. \<not> lt b a) (insort_less lt x xs)"
  using assms
proof (induction xs)
  case (Cons y ys)
  have oy: "ok y" using Cons.prems by simp
  show ?case
  proof (cases "lt y x")
    case True
    then show ?thesis
      using Cons lt_asym [OF oy Cons.prems(1)] by auto
  next
    case False
    have "\<not> lt z x" if "z \<in> set ys" for z
      using that False Cons.prems lt_weak [of z y x] by auto
    then show ?thesis using False Cons.prems by auto
  qed
qed simp

lemma sort_sorted:
  "\<forall>x\<in>set xs. ok x \<Longrightarrow> sorted_wrt (\<lambda>a b. \<not> lt b a) (sort_less lt xs)"
proof (induction xs)
  case (Cons x xs)
  then show ?case by (simp add: insort_sorted)
qed simp

lemma insort_unique_head:
  assumes "ok x" "\<forall>y\<in>set xs. ok y" "\<forall>y\<in>set xs. lt x y"
  shows "insort_less lt x xs = x # xs"
  using assms lt_asym by (cases xs) auto

lemma sorted_unique:
  assumes "mset xs = mset ys" "\<forall>x\<in>set xs. ok x" "distinct xs"
    and "\<forall>x\<in>set xs. \<forall>y\<in>set xs. x \<noteq> y \<longrightarrow> lt x y \<or> lt y x"
    and "sorted_wrt (\<lambda>a b. \<not> lt b a) xs" "sorted_wrt (\<lambda>a b. \<not> lt b a) ys"
  shows "xs = ys"
  using assms
proof (induction xs arbitrary: ys)
  case (Cons x xs)
  obtain y ys' where ys: "ys = y # ys'" using Cons.prems(1) by (cases ys) auto
  have seteq: "set (x # xs) = set ys" using Cons.prems(1) by (rule mset_eq_setD)
  have "x = y"
  proof (rule ccontr)
    assume ne: "x \<noteq> y"
    have yin: "y \<in> set xs" using ne seteq ys by auto
    have xin: "x \<in> set ys'" using ne seteq ys by auto
    have "\<not> lt y x" using yin Cons.prems(5) by simp
    moreover have "\<not> lt x y" using xin ys Cons.prems(6) by simp
    ultimately show False using Cons.prems(4) yin ne by auto
  qed
  moreover have "xs = ys'"
    using Cons ys calculation by (intro Cons.IH) auto
  ultimately show ?case using ys by simp
qed auto

lemma sort_less_unique:
  assumes "mset xs = mset ys" "\<forall>x\<in>set xs. ok x" "distinct xs"
    and "\<forall>x\<in>set xs. \<forall>y\<in>set xs. x \<noteq> y \<longrightarrow> lt x y \<or> lt y x"
  shows "sort_less lt xs = sort_less lt ys"
proof (rule sorted_unique)
  have se: "set xs = set ys" using assms(1) by (rule mset_eq_setD)
  show "sorted_wrt (\<lambda>a b. \<not> lt b a) (sort_less lt xs)" using assms(2) by (rule sort_sorted)
  show "sorted_wrt (\<lambda>a b. \<not> lt b a) (sort_less lt ys)" using assms(2) se by (intro sort_sorted) simp
qed (use assms in auto)

lemma insort_filter_neq:
  assumes "\<not> P x" shows "filter P (insort_less lt x xs) = filter P xs"
  using assms by (induction xs) auto

lemma insort_filter_class:
  assumes "ok x" "\<forall>y\<in>set xs. ok y" "sorted_wrt (\<lambda>a b. \<not> lt b a) xs" "P x"
    and P: "\<And>y. y \<in> set xs \<Longrightarrow> P y \<Longrightarrow> \<not> lt y x"
  shows "filter P (insort_less lt x xs) = x # filter P xs"
  using assms
proof (induction xs)
  case (Cons y ys)
  show ?case
  proof (cases "lt y x")
    case True
    then have "\<not> P y" using Cons.prems by auto
    then show ?thesis using True Cons by auto
  qed (use Cons.prems in auto)
qed simp

text \<open>Stability: a class of elements none of which is smaller than another keeps its order.\<close>

lemma sort_stable:
  assumes "\<forall>x\<in>set xs. ok x"
    and "\<And>x y. x \<in> set xs \<Longrightarrow> y \<in> set xs \<Longrightarrow> P x \<Longrightarrow> P y \<Longrightarrow> \<not> lt x y"
  shows "filter P (sort_less lt xs) = filter P xs"
  using assms
proof (induction xs)
  case (Cons x xs)
  have IH: "filter P (sort_less lt xs) = filter P xs" using Cons by auto
  show ?case
  proof (cases "P x")
    case True
    then have "filter P (insort_less lt x (sort_less lt xs)) = x # filter P (sort_less lt xs)"
      using Cons.prems by (intro insort_filter_class sort_sorted) auto
    then show ?thesis using IH True by simp
  next
    case False
    then show ?thesis using IH by (simp add: insort_filter_neq)
  qed
qed simp

text \<open>
  A stable sort depends on the order of equivalent elements only: two lists whose classes
  of equivalent elements are in the same order sort to the same list.
\<close>

lemma sorted_classes_unique:
  assumes "\<forall>x\<in>set xs. ok x" "\<forall>x\<in>set ys. ok x"
    and "sorted_wrt (\<lambda>a b. \<not> lt b a) xs" "sorted_wrt (\<lambda>a b. \<not> lt b a) ys"
    and "\<And>z. ok z \<Longrightarrow> filter (\<lambda>y. \<not> lt z y \<and> \<not> lt y z) xs = filter (\<lambda>y. \<not> lt z y \<and> \<not> lt y z) ys"
  shows "xs = ys"
  using assms
proof (induction xs arbitrary: ys)
  case Nil
  then show ?case
  proof (cases ys)
    case (Cons y ys')
    then have "ok y" using Nil.prems(2) by simp
    then show ?thesis using Nil.prems(5) [of y] Cons lt_irrefl [of y] by simp
  qed simp
next
  case (Cons x xs)
  let ?E = "\<lambda>z y. \<not> lt z y \<and> \<not> lt y z"
  have okx: "ok x" using Cons.prems(1) by simp
  have fx: "filter (?E x) (x # xs) = x # filter (?E x) xs" using lt_irrefl [OF okx] by simp
  then obtain y ys' where ys: "ys = y # ys'" using Cons.prems(5) [OF okx] by (cases ys) auto
  have oky: "ok y" using Cons.prems(2) ys by simp
  have xin: "x \<in> set ys"
  proof -
    have "x \<in> set (filter (?E x) (x # xs))" using fx by simp
    then show ?thesis using Cons.prems(5) [OF okx] by simp
  qed
  have yin: "y \<in> set (x # xs)"
  proof -
    have "y \<in> set (filter (?E y) ys)" using ys lt_irrefl [OF oky] by simp
    then have "y \<in> set (filter (?E y) (x # xs))" using Cons.prems(5) [OF oky] by simp
    then show ?thesis by (simp only: set_filter mem_Collect_eq)
  qed
  have "\<not> lt y x" using yin Cons.prems(3) lt_irrefl [OF okx] by auto
  moreover have "\<not> lt x y" using xin ys Cons.prems(4) lt_irrefl [OF oky] by auto
  ultimately have "filter (?E x) ys = y # filter (?E x) ys'" using ys by simp
  then have "x = y" using Cons.prems(5) [OF okx] fx by simp
  moreover have "xs = ys'"
  proof (rule Cons.IH)
    fix z assume "ok z"
    then show "filter (?E z) xs = filter (?E z) ys'"
      using Cons.prems(5) [of z] ys \<open>x = y\<close> by (simp split: if_splits)
  qed (use Cons.prems ys in auto)
  ultimately show ?case using ys by simp
qed

lemma sort_less_classes:
  assumes "\<forall>x\<in>set xs. ok x" "\<forall>x\<in>set ys. ok x"
    and cls: "\<And>z. ok z \<Longrightarrow> filter (\<lambda>y. \<not> lt z y \<and> \<not> lt y z) xs = filter (\<lambda>y. \<not> lt z y \<and> \<not> lt y z) ys"
  shows "sort_less lt xs = sort_less lt ys"
proof (rule sorted_classes_unique)
  fix z assume z: "ok z"
  let ?E = "\<lambda>y. \<not> lt z y \<and> \<not> lt y z"
  have "filter ?E (sort_less lt us) = filter ?E us" if us: "\<forall>x\<in>set us. ok x" for us
  proof (rule sort_stable [OF us])
    fix a b assume "a \<in> set us" "b \<in> set us" "?E a" "?E b"
    then show "\<not> lt a b" using lt_weak [of a z b] us z by blast
  qed
  then show "filter ?E (sort_less lt xs) = filter ?E (sort_less lt ys)"
    using assms z by simp
qed (use assms in \<open>auto intro: sort_sorted\<close>)

end

text \<open>Comparators compose: first by a key with a total order, then by another comparator.\<close>

lemma comparator_lex:
  assumes r: "comparator r ok"
    and irrefl: "\<And>x. ok x \<Longrightarrow> \<not> klt (key x) (key x)"
    and trans: "\<And>x y z. klt x y \<Longrightarrow> klt y z \<Longrightarrow> klt x z"
    and total: "\<And>x y. ok x \<Longrightarrow> ok y \<Longrightarrow> klt (key x) (key y) \<or> key x = key y \<or> klt (key y) (key x)"
  shows "comparator (\<lambda>a b. klt (key a) (key b) \<or> key a = key b \<and> r a b) ok"
proof
  fix x y z
  show "ok x \<Longrightarrow> \<not> (klt (key x) (key x) \<or> key x = key x \<and> r x x)"
    using irrefl comparator.lt_irrefl [OF r] by blast
  show "ok x \<Longrightarrow> ok y \<Longrightarrow> ok z \<Longrightarrow> klt (key x) (key y) \<or> key x = key y \<and> r x y \<Longrightarrow>
    klt (key y) (key z) \<or> key y = key z \<and> r y z \<Longrightarrow> klt (key x) (key z) \<or> key x = key z \<and> r x z"
    using trans comparator.lt_trans [OF r] by metis
  assume ok: "ok x" "ok y" "ok z" and xz: "klt (key x) (key z) \<or> key x = key z \<and> r x z"
  show "(klt (key x) (key y) \<or> key x = key y \<and> r x y) \<or> klt (key y) (key z) \<or> key y = key z \<and> r y z"
    using total [OF ok(1,2)]
  proof (elim disjE)
    assume e: "key x = key y"
    then show ?thesis using xz comparator.lt_weak [OF r ok] by metis
  next
    assume "klt (key y) (key x)"
    then show ?thesis using xz trans by metis
  qed blast
qed

lemma comparator_cong:
  assumes "comparator r ok" "\<And>x y. ok x \<Longrightarrow> ok y \<Longrightarrow> lt x y \<longleftrightarrow> r x y"
  shows "comparator lt ok"
proof
  fix x y z
  show "ok x \<Longrightarrow> \<not> lt x x" using assms comparator.lt_irrefl by metis
  show "ok x \<Longrightarrow> ok y \<Longrightarrow> ok z \<Longrightarrow> lt x y \<Longrightarrow> lt y z \<Longrightarrow> lt x z"
    using assms comparator.lt_trans [OF assms(1)] by metis
  show "ok x \<Longrightarrow> ok y \<Longrightarrow> ok z \<Longrightarrow> lt x z \<Longrightarrow> lt x y \<or> lt y z"
    using assms comparator.lt_weak [OF assms(1)] by metis
qed

lemma comparator_key:
  fixes key :: "'a \<Rightarrow> 'k :: linorder"
  shows "comparator (\<lambda>a b. key a < key b) ok"
  by unfold_locales auto

text \<open>Strings are ordered bytewise, as Go's \<open><\<close> on strings.\<close>

interpretation str_cmp: comparator "(<) :: string \<Rightarrow> string \<Rightarrow> bool" "\<lambda>_. True"
  by unfold_locales auto

text \<open>The running best of a loop that keeps the first element no later one beats.\<close>

definition pick_best :: "('a \<Rightarrow> 'a \<Rightarrow> bool) \<Rightarrow> 'a list \<Rightarrow> 'a option" where
  "pick_best lt xs = foldl (\<lambda>best x. case best of None \<Rightarrow> Some x
     | Some y \<Rightarrow> if lt x y then Some x else best) None xs"

lemma pick_best_snoc: "pick_best lt (xs @ [x]) = (case pick_best lt xs of None \<Rightarrow> Some x
    | Some y \<Rightarrow> if lt x y then Some x else Some y)"
  by (simp add: pick_best_def split: option.splits)

lemma pick_best_nil [simp]: "pick_best lt [] = None"
  by (simp add: pick_best_def)

lemma pick_best_none [simp]: "pick_best lt xs = None \<longleftrightarrow> xs = []"
  by (cases xs rule: rev_cases) (auto simp: pick_best_snoc split: option.splits if_splits)

context comparator begin

lemma pick_best_min:
  assumes "\<forall>x\<in>set xs. ok x" "pick_best lt xs = Some m"
  shows "m \<in> set xs \<and> (\<forall>x\<in>set xs. \<not> lt x m)"
  using assms
proof (induction xs arbitrary: m rule: rev_induct)
  case (snoc x xs)
  show ?case
  proof (cases "pick_best lt xs")
    case None
    then have "xs = []" by simp
    then show ?thesis using snoc.prems lt_irrefl by (simp add: pick_best_def)
  next
    case (Some y)
    then have IH: "y \<in> set xs" "\<forall>x\<in>set xs. \<not> lt x y" using snoc by auto
    show ?thesis
    proof (cases "lt x y")
      case True
      then have "m = x" using snoc.prems(2) Some by (simp add: pick_best_snoc)
      moreover have "\<not> lt z x" if "z \<in> set xs" for z
        using that IH True lt_trans [of z x y] snoc.prems(1) by auto
      ultimately show ?thesis using lt_irrefl snoc.prems(1) by auto
    next
      case False
      then have "m = y" using snoc.prems(2) Some by (simp add: pick_best_snoc)
      then show ?thesis using IH False by auto
    qed
  qed
qed simp

lemma pick_best_unique:
  assumes "set xs = set ys" "\<forall>x\<in>set xs. ok x"
    and "\<forall>x\<in>set xs. \<forall>y\<in>set xs. x \<noteq> y \<longrightarrow> lt x y \<or> lt y x"
  shows "pick_best lt xs = pick_best lt ys"
proof (cases "pick_best lt xs")
  case None
  then show ?thesis using assms(1) by (metis pick_best_none set_empty)
next
  case (Some m)
  then have "ys \<noteq> []" using assms(1) by auto
  then obtain m' where m': "pick_best lt ys = Some m'" by (metis not_Some_eq pick_best_none)
  then show ?thesis using pick_best_min [OF assms(2) Some] pick_best_min [of ys m'] Some assms by metis
qed

end

text \<open>Two comparators, one for the elements a flag holds of, which come first.\<close>

lemma comparator_split:
  assumes "comparator r ok" "comparator r' ok"
  shows "comparator (\<lambda>a b. p a \<and> \<not> p b \<or> p a = p b \<and> (if p a then r a b else r' a b)) ok"
proof
  fix x y z
  note L = comparator.lt_irrefl [OF assms(1)] comparator.lt_irrefl [OF assms(2)]
  show "ok x \<Longrightarrow> \<not> (p x \<and> \<not> p x \<or> p x = p x \<and> (if p x then r x x else r' x x))"
    using L by auto
  show "ok x \<Longrightarrow> ok y \<Longrightarrow> ok z \<Longrightarrow> p x \<and> \<not> p y \<or> p x = p y \<and> (if p x then r x y else r' x y) \<Longrightarrow>
    p y \<and> \<not> p z \<or> p y = p z \<and> (if p y then r y z else r' y z) \<Longrightarrow>
    p x \<and> \<not> p z \<or> p x = p z \<and> (if p x then r x z else r' x z)"
    using comparator.lt_trans [OF assms(1), of x y z] comparator.lt_trans [OF assms(2), of x y z]
    by (auto split: if_splits)
  show "ok x \<Longrightarrow> ok y \<Longrightarrow> ok z \<Longrightarrow> p x \<and> \<not> p z \<or> p x = p z \<and> (if p x then r x z else r' x z) \<Longrightarrow>
    (p x \<and> \<not> p y \<or> p x = p y \<and> (if p x then r x y else r' x y))
    \<or> p y \<and> \<not> p z \<or> p y = p z \<and> (if p y then r y z else r' y z)"
    using comparator.lt_weak [OF assms(1), of x y z] comparator.lt_weak [OF assms(2), of x y z]
    by (auto split: if_splits)
qed

section \<open>Decimal rendering of integers\<close>

definition digit_char :: "nat \<Rightarrow> char" where
  "digit_char d = char_of (48 + d)"

fun dec_nat :: "nat \<Rightarrow> string" where
  "dec_nat n = (if n < 10 then [digit_char n] else dec_nat (n div 10) @ [digit_char (n mod 10)])"

declare dec_nat.simps [simp del]

text \<open>\<open>strconv.FormatInt (x, 10)\<close>.\<close>

definition dec_int :: "int \<Rightarrow> string" where
  "dec_int x = (if x < 0 then CHR ''-'' # dec_nat (nat (- x)) else dec_nat (nat x))"

definition is_digit :: "char \<Rightarrow> bool" where
  "is_digit c \<longleftrightarrow> 48 \<le> (of_char c :: nat) \<and> (of_char c :: nat) \<le> 57"

definition digit_val :: "char \<Rightarrow> nat" where
  "digit_val c = (of_char c :: nat) - 48"

definition dec_val :: "string \<Rightarrow> nat" where
  "dec_val s = foldl (\<lambda>a c. 10 * a + digit_val c) 0 s"

lemma of_char_digit: "d < 10 \<Longrightarrow> (of_char (digit_char d) :: nat) = 48 + d"
  by (simp add: digit_char_def)

lemma is_digit_digit: "d < 10 \<Longrightarrow> is_digit (digit_char d)"
  by (simp add: is_digit_def of_char_digit)

lemma digit_val_digit: "d < 10 \<Longrightarrow> digit_val (digit_char d) = d"
  by (simp add: digit_val_def of_char_digit)

lemma dec_val_snoc: "dec_val (s @ [c]) = 10 * dec_val s + digit_val c"
  by (simp add: dec_val_def)

lemma dec_nat_digits: "\<forall>c\<in>set (dec_nat n). is_digit c"
proof (induction n rule: dec_nat.induct)
  case (1 n)
  then show ?case by (subst dec_nat.simps) (auto simp: is_digit_digit)
qed

lemma dec_nat_nonempty: "dec_nat n \<noteq> []"
  by (subst dec_nat.simps) simp

lemma dec_val_dec_nat: "dec_val (dec_nat n) = n"
proof (induction n rule: dec_nat.induct)
  case (1 n)
  show ?case
  proof (cases "n < 10")
    case True
    then show ?thesis by (subst dec_nat.simps) (simp add: dec_val_def digit_val_digit)
  next
    case False
    then show ?thesis
      using "1" by (subst dec_nat.simps) (simp add: dec_val_snoc digit_val_digit)
  qed
qed

lemma minus_not_digit: "\<not> is_digit (CHR ''-'')"
  by (simp add: is_digit_def)

lemma dec_int_inj: "dec_int x = dec_int y \<Longrightarrow> x = y"
proof -
  assume e: "dec_int x = dec_int y"
  have nd: "dec_nat n \<noteq> CHR ''-'' # s" for n s
    using dec_nat_digits [of n] minus_not_digit by auto
  have inj: "dec_nat a = dec_nat b \<Longrightarrow> a = b" for a b
    using dec_val_dec_nat by metis
  show ?thesis
    using e nd nd [symmetric] by (auto simp: dec_int_def split: if_splits dest!: inj)
qed

text \<open>
  \<open>strconv.ParseInt (s, 10, w)\<close>: an optional sign, at least one digit, nothing else, and
  a value in the range \<open>inr\<close> of the width.
\<close>

definition parse_dec :: "(int \<Rightarrow> bool) \<Rightarrow> string \<Rightarrow> int option" where
  "parse_dec inr s =
    (let (neg, ds) = (case s of
           [] \<Rightarrow> (False, [])
         | c # cs \<Rightarrow> if c = CHR ''-'' then (True, cs) else if c = CHR ''+'' then (False, cs)
                    else (False, s))
     in if ds = [] \<or> \<not> list_all is_digit ds then None
        else let v = (if neg then - int (dec_val ds) else int (dec_val ds))
             in if inr v then Some v else None)"

lemma plus_not_digit: "\<not> is_digit (CHR ''+'')"
  by (simp add: is_digit_def)

lemma parse_dec_int: "inr v \<Longrightarrow> parse_dec inr (dec_int v) = Some v"
proof -
  assume v: "inr v"
  have all: "list_all is_digit (dec_nat n)" for n by (simp add: list_all_iff dec_nat_digits)
  show ?thesis
  proof (cases "v < 0")
    case True
    then show ?thesis
      using v all dec_nat_nonempty by (simp add: dec_int_def parse_dec_def dec_val_dec_nat)
  next
    case False
    obtain c cs where c: "dec_nat (nat v) = c # cs"
      using dec_nat_nonempty [of "nat v"] by (cases "dec_nat (nat v)") auto
    have "is_digit c" using all [of "nat v"] c by simp
    then have "c \<noteq> CHR ''-''" "c \<noteq> CHR ''+''" using minus_not_digit plus_not_digit by auto
    then show ?thesis
      using False v all [of "nat v"] c dec_val_dec_nat [of "nat v"]
      by (simp add: dec_int_def parse_dec_def)
  qed
qed

lemma dec_int_shape: "dec_int v \<noteq> [] \<and> (\<forall>c\<in>set (dec_int v). is_digit c \<or> c = CHR ''-'')"
  using dec_nat_digits dec_nat_nonempty by (auto simp: dec_int_def)

section \<open>Lists\<close>

lemma filter_eq_nil_iff: "filter P xs = [] \<longleftrightarrow> (\<forall>x\<in>set xs. \<not> P x)"
  by (induction xs) auto

lemma foldl_filter_skip:
  "foldl (\<lambda>s x. if P x then f s x else s) a xs = foldl f a (filter P xs)"
  by (induction xs arbitrary: a) auto

text \<open>A run that appends one entry per event: each entry came from the entries before it.\<close>

lemma run_entry:
  assumes "run [] = []" and step: "\<And>es e. \<exists>x. P (run es) e x \<and> run (es @ [e]) = run es @ [x]"
    and "run es = before @ y # after"
  shows "\<exists>e. P before e y"
  using assms(3)
proof (induction es arbitrary: after rule: rev_induct)
  case (snoc e es)
  note ih = snoc.IH and eq = snoc.prems
  obtain x where x: "P (run es) e x" "run (es @ [e]) = run es @ [x]" using step by blast
  show ?case
  proof (cases after rule: rev_cases)
    case Nil
    then show ?thesis using snoc.prems x by auto
  next
    case (snoc as z)
    then have "run es = before @ y # as" using eq x(2) by simp
    then show ?thesis by (rule ih)
  qed
qed (simp add: assms(1))

end
