(* ===== verification/Fencing.thy ===== *)
theory Fencing
  imports Prelude
begin

text \<open>
  Package \<open>fencing\<close> (\<open>pkg/fencing/fencing.go\<close>): the high-water mark of coordinator terms, the
  shard epoch persisted on disk, and the sequence counter of outbound provider calls.
\<close>

section \<open>Coordinator terms\<close>

datatype fencing_error =
    ErrStaleTerm int int
  | ErrEpochPathEmpty
  | ErrEpochDir
  | ErrEpochParse
  | ErrEpochRead
  | ErrEpochWrite

text \<open>\<open>hwm\<close> is the whole state of a \<open>CoordinatorTerm\<close>; a fresh tracker is at term 0.\<close>

definition new_coordinator_term :: int where
  "new_coordinator_term = 0"

definition term_validate :: "int \<Rightarrow> int \<Rightarrow> fencing_error option \<times> int" where
  "term_validate hwm t =
    (if t < hwm then (Some (ErrStaleTerm t hwm), hwm)
     else if t > hwm then (None, t)
     else (None, hwm))"

text \<open>A run of instructions: the terms it accepts, and the mark it leaves.\<close>

fun term_run :: "int \<Rightarrow> int list \<Rightarrow> int list \<times> int" where
  "term_run hwm [] = ([], hwm)"
| "term_run hwm (t # ts) =
    (let (err, hwm') = term_validate hwm t; (acc, h) = term_run hwm' ts
     in (if err = None then t # acc else acc, h))"

lemma term_validate_mono: "hwm \<le> snd (term_validate hwm t)"
  by (simp add: term_validate_def)

lemma term_run_accepted:
  "term_run hwm ts = (acc, h) \<Longrightarrow> sorted acc \<and> (\<forall>t\<in>set acc. hwm \<le> t \<and> t \<le> h) \<and> hwm \<le> h"
proof (induction ts arbitrary: hwm acc h)
  case (Cons t ts)
  show ?case
  proof (cases "t < hwm")
    case True
    then show ?thesis using Cons by (auto simp: term_validate_def split: prod.splits)
  next
    case False
    then have v: "term_validate hwm t = (None, t)" by (auto simp: term_validate_def)
    obtain acc' h' where r: "term_run t ts = (acc', h')" by (cases "term_run t ts")
    have "acc = t # acc'" "h = h'" using Cons.prems v r by auto
    then show ?thesis using Cons.IH [OF r] False by auto
  qed
qed simp

section \<open>Epochs\<close>

text \<open>
  What the file system answers: whether the directory could be made, what reading the file
  gives, whether the write succeeded.
\<close>

datatype read_result = ReadOk string | ReadNotExist | ReadError

definition is_space :: "char \<Rightarrow> bool" where
  "is_space c \<longleftrightarrow> c = CHR '' '' \<or> (9 \<le> (of_char c :: nat) \<and> (of_char c :: nat) \<le> 13)"

text \<open>\<open>strings.TrimSpace\<close> on ASCII text.\<close>

definition trim_space :: "string \<Rightarrow> string" where
  "trim_space s = rev (dropWhile is_space (rev (dropWhile is_space s)))"

text \<open>The epoch a start advertises, or the error, and what is left in the file if it was written.\<close>

definition load_epoch ::
    "string \<Rightarrow> bool \<Rightarrow> read_result \<Rightarrow> bool \<Rightarrow> (fencing_error + int) \<times> string option" where
  "load_epoch path mkdir_ok rd write_ok =
    (if path = '''' then (Inl ErrEpochPathEmpty, None)
     else if \<not> mkdir_ok then (Inl ErrEpochDir, None)
     else
       let prev = (case rd of
              ReadOk dat \<Rightarrow> (case parse_dec in_i64 (trim_space dat) of
                   None \<Rightarrow> Inl ErrEpochParse | Some v \<Rightarrow> Inr v)
            | ReadNotExist \<Rightarrow> Inr 0
            | ReadError \<Rightarrow> Inl ErrEpochRead)
       in (case prev of
             Inl e \<Rightarrow> (Inl e, None)
           | Inr v \<Rightarrow>
               let nxt = i64 (v + 1)
               in if \<not> write_ok then (Inl ErrEpochWrite, None)
                  else (Inr nxt, Some (dec_int nxt))))"

lemma trim_space_dec_int: "trim_space (dec_int v) = dec_int v"
proof -
  have ns: "\<not> is_space c" if "c \<in> set (dec_int v)" for c
    using that dec_int_shape [of v] by (auto simp: is_space_def is_digit_def)
  have dw: "dropWhile is_space xs = xs" if "\<forall>c\<in>set xs. \<not> is_space c" for xs
    using that by (cases xs) auto
  show ?thesis using ns by (simp add: trim_space_def dw)
qed

lemma load_epoch_reload:
  assumes "path \<noteq> ''''" "in_i64 v" "v < 2 ^ 63 - 1"
  shows "load_epoch path True (ReadOk (dec_int v)) True = (Inr (v + 1), Some (dec_int (v + 1)))"
proof -
  have "in_i64 (v + 1)" using assms by (simp add: in_i64_def)
  then show ?thesis
    using assms by (simp add: load_epoch_def trim_space_dec_int parse_dec_int i64_id Let_def)
qed

text \<open>
  The epochs of successive starts of one shard on one data directory, each start reading
  what the one before wrote.
\<close>

fun epoch_starts :: "string \<Rightarrow> read_result \<Rightarrow> nat \<Rightarrow> (fencing_error + int) list" where
  "epoch_starts path rd 0 = []"
| "epoch_starts path rd (Suc n) =
    (let (r, w) = load_epoch path True rd True
     in r # epoch_starts path (case w of None \<Rightarrow> rd | Some s \<Rightarrow> ReadOk s) n)"

lemma epoch_starts_from:
  assumes "path \<noteq> ''''" "0 \<le> v" "v + int n < 2 ^ 63"
  shows "epoch_starts path (ReadOk (dec_int v)) n = map Inr [v + 1 .. v + int n]"
  using assms
proof (induction n arbitrary: v)
  case (Suc n)
  have st: "load_epoch path True (ReadOk (dec_int v)) True = (Inr (v + 1), Some (dec_int (v + 1)))"
    using Suc.prems by (intro load_epoch_reload) (auto simp: in_i64_def)
  have up: "[v + 1 .. v + 1 + int n] = (v + 1) # [v + 1 + 1 .. v + 1 + int n]"
    by (rule upto_rec1) simp
  have "epoch_starts path (ReadOk (dec_int (v + 1))) n = map Inr [v + 1 + 1 .. v + 1 + int n]"
    using Suc.prems by (intro Suc.IH) auto
  then show ?case using st up by (simp add: ac_simps)
qed simp

section \<open>Sequence numbers\<close>

definition sequence_next :: "int \<Rightarrow> int \<times> int" where
  "sequence_next s = (let s' = i64 (s + 1) in (s', s'))"

fun sequence_run :: "int \<Rightarrow> nat \<Rightarrow> int list" where
  "sequence_run s 0 = []"
| "sequence_run s (Suc n) = (let (v, s') = sequence_next s in v # sequence_run s' n)"

lemma sequence_run_upto:
  "0 \<le> s \<Longrightarrow> s + int n < 2 ^ 63 \<Longrightarrow> sequence_run s n = [s + 1 .. s + int n]"
proof (induction n arbitrary: s)
  case (Suc n)
  have id: "i64 (s + 1) = s + 1" using Suc.prems by (intro i64_id) (simp add: in_i64_def)
  have up: "[s + 1 .. s + 1 + int n] = (s + 1) # [s + 1 + 1 .. s + 1 + int n]"
    by (rule upto_rec1) simp
  have "sequence_run (s + 1) n = [s + 1 + 1 .. s + 1 + int n]"
    using Suc.prems by (intro Suc.IH) auto
  then show ?case using id up by (simp add: sequence_next_def Let_def ac_simps)
qed simp

end
