(* ===== verification/Resources.thy ===== *)
theory Resources
  imports Prelude Complex_Main
begin

text \<open>
  Resource-vector arithmetic (\<open>pkg/needs/resources.go\<close>). Quantity strings are parsed, added
  and printed by \<open>k8s.io/apimachinery/pkg/api/resource\<close>, which is not part of the
  repository: its operations are the argument \<open>Q\<close> of every definition here, and
  \<open>quantity_laws\<close> states what its documentation promises of them.
\<close>

section \<open>The quantity library\<close>

record 'q qlib =
  qParse :: "string \<Rightarrow> 'q option"
  qZero :: 'q
  qAdd :: "'q \<Rightarrow> 'q \<Rightarrow> 'q"
  qSub :: "'q \<Rightarrow> 'q \<Rightarrow> 'q"
  qCmp :: "'q \<Rightarrow> 'q \<Rightarrow> int"
  qSign :: "'q \<Rightarrow> int"
  qString :: "'q \<Rightarrow> string"
  qMilli :: "'q \<Rightarrow> int"

text \<open>
  \<open>val\<close> is the number a quantity denotes. A parsed quantity is capped at \<open>2 ^ 63 - 1\<close>; the
  canonical form of a quantity within the cap parses back to the same number.
\<close>

definition q_cap :: rat where
  "q_cap = 2 ^ 63 - 1"

definition quantity_laws :: "'q qlib \<Rightarrow> ('q \<Rightarrow> rat) \<Rightarrow> bool" where
  "quantity_laws Q val \<longleftrightarrow>
    val (qZero Q) = 0
    \<and> (\<forall>x y. val (qAdd Q x y) = val x + val y)
    \<and> (\<forall>x y. val (qSub Q x y) = val x - val y)
    \<and> (\<forall>x y. (qCmp Q x y < 0 \<longleftrightarrow> val x < val y) \<and> (qCmp Q x y > 0 \<longleftrightarrow> val y < val x))
    \<and> (\<forall>x. (qSign Q x < 0 \<longleftrightarrow> val x < 0) \<and> (qSign Q x > 0 \<longleftrightarrow> 0 < val x))
    \<and> (\<forall>s q. qParse Q s = Some q \<longrightarrow> \<bar>val q\<bar> \<le> q_cap)
    \<and> (\<forall>x. \<bar>val x\<bar> \<le> q_cap \<longrightarrow> (\<exists>y. qParse Q (qString Q x) = Some y \<and> val y = val x))
    \<and> (\<forall>x. in_i64 (qMilli Q x))
    \<and> (\<forall>x. in_i64 \<lceil>1000 * val x\<rceil> \<longrightarrow> qMilli Q x = \<lceil>1000 * val x\<rceil>)"

lemma quantity_lawsD:
  assumes "quantity_laws Q val"
  shows "val (qZero Q) = 0"
    and "val (qAdd Q x y) = val x + val y"
    and "val (qSub Q x y) = val x - val y"
    and "qCmp Q x y < 0 \<longleftrightarrow> val x < val y"
    and "qCmp Q x y > 0 \<longleftrightarrow> val y < val x"
    and "qSign Q x < 0 \<longleftrightarrow> val x < 0"
    and "qSign Q x > 0 \<longleftrightarrow> 0 < val x"
    and "qParse Q s = Some q \<Longrightarrow> \<bar>val q\<bar> \<le> q_cap"
    and "in_i64 (qMilli Q x)"
    and "in_i64 \<lceil>1000 * val x\<rceil> \<Longrightarrow> qMilli Q x = \<lceil>1000 * val x\<rceil>"
  using assms unfolding quantity_laws_def by blast+

lemma quantity_string:
  assumes "quantity_laws Q val" "\<bar>val x\<bar> \<le> q_cap"
  obtains y where "qParse Q (qString Q x) = Some y" "val y = val x"
  using assms unfolding quantity_laws_def by blast

section \<open>Vectors\<close>

record resource_qty =
  rqName :: string
  rqQuantity :: string

text \<open>A quantity that does not parse counts as zero.\<close>

definition parse_or_zero :: "'q qlib \<Rightarrow> string \<Rightarrow> 'q" where
  "parse_or_zero Q s = (case qParse Q s of None \<Rightarrow> qZero Q | Some q \<Rightarrow> q)"

definition to_qty_map :: "'q qlib \<Rightarrow> resource_qty list \<Rightarrow> (string, 'q) gomap" where
  "to_qty_map Q v = foldl (\<lambda>m r. gm_set (rqName r) (parse_or_zero Q (rqQuantity r)) m) [] v"

definition name_less :: "resource_qty \<Rightarrow> resource_qty \<Rightarrow> bool" where
  "name_less a b \<longleftrightarrow> rqName a < rqName b"

definition combine_resources ::
    "'q qlib \<Rightarrow> ('q \<Rightarrow> 'q \<Rightarrow> 'q) \<Rightarrow> resource_qty list \<Rightarrow> resource_qty list \<Rightarrow> resource_qty list" where
  "combine_resources Q fn a b =
    (let am = to_qty_map Q a; bm = to_qty_map Q b;
         names = remdups (map fst am @ map fst bm);
         out = map (\<lambda>n. \<lparr>rqName = n,
                  rqQuantity = qString Q (fn (gm_at (qZero Q) am n) (gm_at (qZero Q) bm n))\<rparr>) names
     in sort_less name_less out)"

definition add_resources :: "'q qlib \<Rightarrow> resource_qty list \<Rightarrow> resource_qty list \<Rightarrow> resource_qty list" where
  "add_resources Q = combine_resources Q (qAdd Q)"

definition max_resources :: "'q qlib \<Rightarrow> resource_qty list \<Rightarrow> resource_qty list \<Rightarrow> resource_qty list" where
  "max_resources Q = combine_resources Q (\<lambda>x y. if qCmp Q y x > 0 then y else x)"

definition sub_resources :: "'q qlib \<Rightarrow> resource_qty list \<Rightarrow> resource_qty list \<Rightarrow> resource_qty list" where
  "sub_resources Q = combine_resources Q
    (\<lambda>x y. let d = qSub Q x y in if qSign Q d < 0 then qZero Q else d)"

definition covers :: "'q qlib \<Rightarrow> resource_qty list \<Rightarrow> resource_qty list \<Rightarrow> bool" where
  "covers Q have want =
    (let hm = to_qty_map Q have
     in list_all (\<lambda>w. \<not> qCmp Q (gm_at (qZero Q) hm (rqName w)) (parse_or_zero Q (rqQuantity w)) < 0) want)"

definition is_zero :: "'q qlib \<Rightarrow> resource_qty list \<Rightarrow> bool" where
  "is_zero Q v = list_all (\<lambda>r. \<not> qSign Q (parse_or_zero Q (rqQuantity r)) > 0) v"

definition scale_resources :: "'q qlib \<Rightarrow> resource_qty list \<Rightarrow> int \<Rightarrow> resource_qty list" where
  "scale_resources Q v n =
    (if n \<le> 0 \<or> v = [] then []
     else map (\<lambda>r. let q = parse_or_zero Q (rqQuantity r)
                   in r\<lparr>rqQuantity := qString Q (((\<lambda>s. qAdd Q s q) ^^ nat (n - 1)) q)\<rparr>) v)"

definition resource_qtys_from_map :: "(string, string) gomap \<Rightarrow> resource_qty list" where
  "resource_qtys_from_map m =
    (if length m = 0 then []
     else sort_less name_less (map (\<lambda>(k, v). \<lparr>rqName = k, rqQuantity = v\<rparr>) m))"

section \<open>What the vectors mean\<close>

text \<open>The number a vector holds in a dimension; an absent dimension is zero.\<close>

definition rval :: "'q qlib \<Rightarrow> ('q \<Rightarrow> rat) \<Rightarrow> resource_qty list \<Rightarrow> string \<Rightarrow> rat" where
  "rval Q val v n = val (gm_at (qZero Q) (to_qty_map Q v) n)"

text \<open>Vectors whose dimensions are named once, as every vector the operations return is.\<close>

definition rv_ok :: "resource_qty list \<Rightarrow> bool" where
  "rv_ok v \<longleftrightarrow> distinct (map rqName v)"

interpretation name_cmp: comparator name_less "\<lambda>_. True"
  by unfold_locales (auto simp: name_less_def)

lemma gm_ok_to_qty_map: "gm_ok (to_qty_map Q v)"
proof -
  have "gm_ok (foldl (\<lambda>m r. gm_set (rqName r) (parse_or_zero Q (rqQuantity r)) m) m v)"
    if "gm_ok m" for m :: "(string, 'a) gomap"
    using that by (induction v arbitrary: m) (auto intro: distinct_update)
  then show ?thesis by (simp add: to_qty_map_def)
qed

lemma to_qty_map_foldl_notin:
  "n \<notin> rqName ` set v \<Longrightarrow>
    gm_get (foldl (\<lambda>m r. gm_set (rqName r) (parse_or_zero Q (rqQuantity r)) m) m v) n = gm_get m n"
  by (induction v arbitrary: m) auto

lemma to_qty_map_get:
  assumes "rv_ok v"
  shows "gm_get (to_qty_map Q v) n =
    (case find (\<lambda>r. rqName r = n) v of None \<Rightarrow> None | Some r \<Rightarrow> Some (parse_or_zero Q (rqQuantity r)))"
proof -
  have "gm_get (foldl (\<lambda>m r. gm_set (rqName r) (parse_or_zero Q (rqQuantity r)) m) m v) n =
    (case find (\<lambda>r. rqName r = n) v of None \<Rightarrow> gm_get m n
       | Some r \<Rightarrow> Some (parse_or_zero Q (rqQuantity r)))" for m :: "(string, 'a) gomap"
    using assms
  proof (induction v arbitrary: m)
    case (Cons r v)
    then show ?case
      by (cases "rqName r = n") (auto simp: rv_ok_def to_qty_map_foldl_notin split: option.splits)
  qed simp
  then show ?thesis by (simp add: to_qty_map_def split: option.splits)
qed

lemma find_distinct:
  "rv_ok v \<Longrightarrow> r \<in> set v \<Longrightarrow> find (\<lambda>x. rqName x = rqName r) v = Some r"
  by (induction v) (auto simp: rv_ok_def)

lemma rval_mem:
  "rv_ok v \<Longrightarrow> r \<in> set v \<Longrightarrow> rval Q val v (rqName r) = val (parse_or_zero Q (rqQuantity r))"
  by (simp add: rval_def gm_at_def to_qty_map_get find_distinct)

lemma find_none_iff: "find P xs = None \<longleftrightarrow> (\<forall>x\<in>set xs. \<not> P x)"
  by (induction xs) auto

lemma rval_absent:
  "quantity_laws Q val \<Longrightarrow> n \<notin> rqName ` set v \<Longrightarrow> rval Q val v n = 0"
proof -
  assume q: "quantity_laws Q val" and n: "n \<notin> rqName ` set v"
  have "gm_get (to_qty_map Q v) n = None"
    using n by (simp add: to_qty_map_def to_qty_map_foldl_notin)
  then show ?thesis using quantity_lawsD(1) [OF q] by (simp add: rval_def gm_at_def)
qed

lemma rval_nil [simp]: "quantity_laws Q val \<Longrightarrow> rval Q val [] n = 0"
  by (rule rval_absent) auto

lemma rval_cap:
  assumes "quantity_laws Q val"
  shows "\<bar>rval Q val v n\<bar> \<le> q_cap"
proof -
  have z: "\<bar>val (parse_or_zero Q s)\<bar> \<le> q_cap" for s
    using quantity_lawsD(1,8) [OF assms]
    by (auto simp: parse_or_zero_def q_cap_def split: option.splits)
  have "\<bar>val (gm_at (qZero Q) (foldl (\<lambda>m r. gm_set (rqName r) (parse_or_zero Q (rqQuantity r)) m) m v) n)\<bar> \<le> q_cap"
    if "\<And>n. \<bar>val (gm_at (qZero Q) m n)\<bar> \<le> q_cap" for m :: "(string, 'a) gomap"
    using that
  proof (induction v arbitrary: m)
    case (Cons r v)
    then show ?case using z by (auto intro!: Cons.IH)
  qed simp
  moreover have "\<bar>val (gm_at (qZero Q) ([] :: (string, 'a) gomap) n)\<bar> \<le> q_cap" for n
    using quantity_lawsD(1) [OF assms] by (simp add: gm_at_def q_cap_def)
  ultimately show ?thesis unfolding rval_def to_qty_map_def by blast
qed

lemma rv_ok_combine: "rv_ok (combine_resources Q fn a b)"
proof -
  have "map rqName (map (\<lambda>n. \<lparr>rqName = n, rqQuantity = f n\<rparr>) ns) = ns" for f ns
    by (induction ns) auto
  then show ?thesis
    by (simp add: rv_ok_def combine_resources_def Let_def comp_def del: map_map)
qed

lemma names_combine:
  "rqName ` set (combine_resources Q fn a b) = rqName ` set a \<union> rqName ` set b"
proof -
  have k: "fst ` set (foldl (\<lambda>m r. gm_set (rqName r) (parse_or_zero Q (rqQuantity r)) m) m v)
      = fst ` set m \<union> rqName ` set v" for m :: "(string, 'a) gomap" and v
    by (induction v arbitrary: m) auto
  have k': "fst ` set (to_qty_map Q v) = rqName ` set v" for v
    using k [of "[]" v] by (simp add: to_qty_map_def)
  show ?thesis
    using k' [of a] k' [of b]
    by (simp add: combine_resources_def Let_def image_image image_Un [symmetric])
qed

lemma combine_val:
  assumes q: "quantity_laws Q val"
    and z: "val (fn (qZero Q) (qZero Q)) = 0"
    and c: "\<bar>val (fn (gm_at (qZero Q) (to_qty_map Q a) n) (gm_at (qZero Q) (to_qty_map Q b) n))\<bar> \<le> q_cap"
  shows "rval Q val (combine_resources Q fn a b) n
    = val (fn (gm_at (qZero Q) (to_qty_map Q a) n) (gm_at (qZero Q) (to_qty_map Q b) n))"
proof (cases "n \<in> rqName ` set a \<union> rqName ` set b")
  case True
  let ?r = "\<lambda>n. \<lparr>rqName = n, rqQuantity = qString Q (fn (gm_at (qZero Q) (to_qty_map Q a) n)
      (gm_at (qZero Q) (to_qty_map Q b) n))\<rparr>"
  have "n \<in> rqName ` set (combine_resources Q fn a b)" using True names_combine by metis
  then obtain r where r: "r \<in> set (combine_resources Q fn a b)" "rqName r = n" by auto
  then have re: "r = ?r n" by (auto simp: combine_resources_def Let_def)
  have "rval Q val (combine_resources Q fn a b) n = val (parse_or_zero Q (rqQuantity r))"
    using rval_mem [OF rv_ok_combine r(1)] r(2) by metis
  moreover obtain y where "qParse Q (rqQuantity (?r n)) = Some y"
      "val y = val (fn (gm_at (qZero Q) (to_qty_map Q a) n) (gm_at (qZero Q) (to_qty_map Q b) n))"
    using quantity_string [OF q c] by auto
  ultimately show ?thesis by (simp only: re parse_or_zero_def option.case)
next
  case False
  then have "n \<notin> rqName ` set (combine_resources Q fn a b)" using names_combine by metis
  moreover have "gm_get (to_qty_map Q a) n = None" "gm_get (to_qty_map Q b) n = None"
    using False by (auto simp: to_qty_map_def to_qty_map_foldl_notin)
  ultimately show ?thesis using rval_absent [OF q] z by (simp add: gm_at_def)
qed

lemma rval_add:
  assumes "quantity_laws Q val" "\<bar>rval Q val a n + rval Q val b n\<bar> \<le> q_cap"
  shows "rval Q val (add_resources Q a b) n = rval Q val a n + rval Q val b n"
  using assms combine_val [of Q val "qAdd Q" a n b] quantity_lawsD(1,2) [OF assms(1)]
  by (simp add: add_resources_def rval_def)

lemma rval_max:
  assumes "quantity_laws Q val"
  shows "rval Q val (max_resources Q a b) n = max (rval Q val a n) (rval Q val b n)"
proof -
  let ?f = "\<lambda>x y. if qCmp Q y x > 0 then y else x"
  have m: "val (?f x y) = max (val x) (val y)" for x y
    using quantity_lawsD(5) [OF assms] by (auto simp: max_def not_less)
  have "\<bar>val (?f (gm_at (qZero Q) (to_qty_map Q a) n) (gm_at (qZero Q) (to_qty_map Q b) n))\<bar> \<le> q_cap"
    using m rval_cap [OF assms, of a n] rval_cap [OF assms, of b n]
    by (simp add: rval_def max_def)
  then show ?thesis
    using combine_val [of Q val ?f a n b] assms m quantity_lawsD(1) [OF assms]
    by (simp add: max_resources_def rval_def)
qed

lemma rval_sub:
  assumes "quantity_laws Q val" "0 \<le> rval Q val b n"
  shows "rval Q val (sub_resources Q a b) n = max 0 (rval Q val a n - rval Q val b n)"
proof -
  let ?f = "\<lambda>x y. let d = qSub Q x y in if qSign Q d < 0 then qZero Q else d"
  have m: "val (?f x y) = max 0 (val x - val y)" for x y
    using quantity_lawsD(1,3,6) [OF assms(1)] by (auto simp: Let_def max_def not_less)
  have capped: "\<bar>max 0 (x - y)\<bar> \<le> q_cap" if "\<bar>x\<bar> \<le> q_cap" "0 \<le> y" for x y :: rat
    using that by (auto simp: max_def abs_le_iff)
  have "\<bar>val (?f (gm_at (qZero Q) (to_qty_map Q a) n) (gm_at (qZero Q) (to_qty_map Q b) n))\<bar> \<le> q_cap"
    using capped [OF rval_cap [OF assms(1)] assms(2), of a n] by (simp only: m rval_def)
  then show ?thesis
    using combine_val [of Q val ?f a n b] assms m quantity_lawsD(1) [OF assms(1)]
    by (simp add: sub_resources_def rval_def)
qed

lemma rval_sub_nonneg:
  assumes "quantity_laws Q val" "0 \<le> rval Q val b n"
  shows "0 \<le> rval Q val (sub_resources Q a b) n"
  using rval_sub [OF assms] by simp

lemma covers_iff:
  assumes "quantity_laws Q val" "rv_ok want"
  shows "covers Q have want \<longleftrightarrow> (\<forall>w\<in>set want. rval Q val want (rqName w) \<le> rval Q val have (rqName w))"
proof -
  have "\<not> qCmp Q (gm_at (qZero Q) (to_qty_map Q have) (rqName w)) (parse_or_zero Q (rqQuantity w)) < 0
      \<longleftrightarrow> rval Q val want (rqName w) \<le> rval Q val have (rqName w)" if "w \<in> set want" for w
  proof -
    have "val (parse_or_zero Q (rqQuantity w)) = rval Q val want (rqName w)"
      by (rule rval_mem [OF assms(2) that, symmetric])
    moreover have "val (gm_at (qZero Q) (to_qty_map Q have) (rqName w)) = rval Q val have (rqName w)"
      by (simp add: rval_def)
    ultimately show ?thesis by (simp only: quantity_lawsD(4) [OF assms(1)] not_less)
  qed
  then show ?thesis by (auto simp: covers_def Let_def list_all_iff)
qed

lemma is_zero_iff:
  assumes "quantity_laws Q val" "rv_ok v"
  shows "is_zero Q v \<longleftrightarrow> (\<forall>n. rval Q val v n \<le> 0)"
proof
  assume z: "is_zero Q v"
  show "\<forall>n. rval Q val v n \<le> 0"
  proof
    fix n
    show "rval Q val v n \<le> 0"
    proof (cases "n \<in> rqName ` set v")
      case True
      then obtain r where r: "r \<in> set v" "rqName r = n" by auto
      have "\<not> 0 < val (parse_or_zero Q (rqQuantity r))"
        using z r quantity_lawsD(7) [OF assms(1)] by (auto simp: is_zero_def list_all_iff)
      moreover have "rval Q val v n = val (parse_or_zero Q (rqQuantity r))"
        unfolding r(2) [symmetric] by (rule rval_mem [OF assms(2) r(1)])
      ultimately show ?thesis by simp
    qed (use rval_absent [OF assms(1)] in simp)
  qed
next
  assume le: "\<forall>n. rval Q val v n \<le> 0"
  have "\<not> 0 < val (parse_or_zero Q (rqQuantity r))" if "r \<in> set v" for r
  proof -
    have "rval Q val v (rqName r) = val (parse_or_zero Q (rqQuantity r))"
      by (rule rval_mem [OF assms(2) that])
    then show ?thesis using le by (metis not_less)
  qed
  then show "is_zero Q v"
    using quantity_lawsD(7) [OF assms(1)] by (auto simp: is_zero_def list_all_iff)
qed

lemma is_zero_nil [simp]: "is_zero Q []"
  by (simp add: is_zero_def)

text \<open>A map's vector does not depend on the map's iteration order.\<close>

lemma resource_qtys_from_map_perm:
  assumes "mset m = mset m'" "gm_ok m"
  shows "resource_qtys_from_map m = resource_qtys_from_map m'"
proof -
  let ?f = "\<lambda>(k, v). \<lparr>rqName = k, rqQuantity = v\<rparr>"
  have n: "map rqName (map ?f l) = map fst l" for l :: "(string, string) gomap"
    by (induction l) auto
  then have d: "distinct (map rqName (map ?f m))" using assms(2) by metis
  have "sort_less name_less (map ?f m) = sort_less name_less (map ?f m')"
  proof (rule name_cmp.sort_less_unique)
    show "mset (map ?f m) = mset (map ?f m')" using assms(1) by simp
    show "distinct (map ?f m)" using d by (simp only: distinct_map)
    show "\<forall>x\<in>set (map ?f m). \<forall>y\<in>set (map ?f m). x \<noteq> y \<longrightarrow> name_less x y \<or> name_less y x"
    proof (intro ballI impI)
      fix x y assume xy: "x \<in> set (map ?f m)" "y \<in> set (map ?f m)" "x \<noteq> y"
      have "rqName x \<noteq> rqName y" using xy d by (metis distinct_map inj_onD)
      then show "name_less x y \<or> name_less y x" by (auto simp: name_less_def)
    qed
  qed simp
  moreover have "length m = length m'" using assms(1) by (metis size_mset)
  ultimately show ?thesis by (simp add: resource_qtys_from_map_def)
qed

lemma rv_ok_from_map: "gm_ok m \<Longrightarrow> rv_ok (resource_qtys_from_map m)"
proof -
  assume "gm_ok m"
  moreover have "map rqName (map (\<lambda>(k, v). \<lparr>rqName = k, rqQuantity = v\<rparr>) m) = map fst m"
    by (induction m) auto
  ultimately show ?thesis
    by (auto simp: rv_ok_def resource_qtys_from_map_def simp del: map_map)
qed

end
