(* ===== verification/Float64.thy ===== *)
theory Float64
  imports Prelude Complex_Main "HOL-Library.Log_Nat"
begin

text \<open>
  Go's \<open>float64\<close>: IEEE 754 binary64 values and the operations the source uses, rounding to
  nearest with ties to even. A finite value is the rational number it denotes, so the two
  signed zeros are one value: the source never prints or divides by a zero, and compares
  floats only with operators that identify them. Fused multiply-add, which the language
  permits on some targets, is not modelled.
\<close>

section \<open>Values and comparisons\<close>

datatype f64 = FNaN | FNInf | FFin rat | FPInf

fun f64_le :: "f64 \<Rightarrow> f64 \<Rightarrow> bool" where
  "f64_le FNaN _ = False"
| "f64_le _ FNaN = False"
| "f64_le FNInf _ = True"
| "f64_le _ FPInf = True"
| "f64_le (FFin x) (FFin y) = (x \<le> y)"
| "f64_le _ _ = False"

fun f64_lt :: "f64 \<Rightarrow> f64 \<Rightarrow> bool" where
  "f64_lt FNaN _ = False"
| "f64_lt _ FNaN = False"
| "f64_lt FNInf y = (y \<noteq> FNInf)"
| "f64_lt x FPInf = (x \<noteq> FPInf)"
| "f64_lt (FFin x) (FFin y) = (x < y)"
| "f64_lt _ _ = False"

definition f64_eq :: "f64 \<Rightarrow> f64 \<Rightarrow> bool" where
  "f64_eq x y \<longleftrightarrow> x \<noteq> FNaN \<and> x = y"

abbreviation f64_gt :: "f64 \<Rightarrow> f64 \<Rightarrow> bool" where
  "f64_gt x y \<equiv> f64_lt y x"

abbreviation f64_ge :: "f64 \<Rightarrow> f64 \<Rightarrow> bool" where
  "f64_ge x y \<equiv> f64_le y x"

abbreviation f64_zero :: f64 where
  "f64_zero \<equiv> FFin 0"

lemma f64_lt_irrefl [simp]: "\<not> f64_lt x x"
  by (cases x) auto

lemma f64_lt_trans: "f64_lt x y \<Longrightarrow> f64_lt y z \<Longrightarrow> f64_lt x z"
  by (cases x; cases y; cases z) auto

lemma f64_lt_asym: "f64_lt x y \<Longrightarrow> \<not> f64_lt y x"
  using f64_lt_trans f64_lt_irrefl by blast

lemma f64_lt_total: "x \<noteq> FNaN \<Longrightarrow> y \<noteq> FNaN \<Longrightarrow> x \<noteq> y \<Longrightarrow> f64_lt x y \<or> f64_lt y x"
  by (cases x; cases y) auto

lemma f64_le_iff: "f64_le x y \<longleftrightarrow> x \<noteq> FNaN \<and> y \<noteq> FNaN \<and> \<not> f64_lt y x"
  by (cases x; cases y) auto

lemma f64_not_lt: "x \<noteq> FNaN \<Longrightarrow> y \<noteq> FNaN \<Longrightarrow> \<not> f64_lt x y \<longleftrightarrow> f64_le y x"
  by (simp add: f64_le_iff)

lemma f64_le_refl: "x \<noteq> FNaN \<Longrightarrow> f64_le x x"
  by (simp add: f64_le_iff)

lemma f64_le_trans: "f64_le x y \<Longrightarrow> f64_le y z \<Longrightarrow> f64_le x z"
  by (cases x; cases y; cases z) auto

lemma f64_le_antisym: "f64_le x y \<Longrightarrow> f64_le y x \<Longrightarrow> x = y"
  by (cases x; cases y) auto

lemma f64_lt_le_trans: "f64_lt x y \<Longrightarrow> f64_le y z \<Longrightarrow> f64_lt x z"
  by (cases x; cases y; cases z) auto

lemma f64_le_lt_trans: "f64_le x y \<Longrightarrow> f64_lt y z \<Longrightarrow> f64_lt x z"
  by (cases x; cases y; cases z) auto

lemma f64_lt_imp_le: "f64_lt x y \<Longrightarrow> f64_le x y"
  by (cases x; cases y) auto

section \<open>Rounding\<close>

text \<open>Nearest integer, ties to the even one.\<close>

definition rne :: "rat \<Rightarrow> int" where
  "rne q = (let f = \<lfloor>q\<rfloor>; d = q - of_int f
            in if d < 1 / 2 then f else if 1 / 2 < d then f + 1
               else if even f then f else f + 1)"

lemma rne_bounds: "\<lfloor>q\<rfloor> \<le> rne q" "rne q \<le> \<lfloor>q\<rfloor> + 1"
  by (auto simp: rne_def Let_def)

lemma rne_of_int [simp]: "rne (of_int k) = k"
  by (simp add: rne_def)

lemma rne_mono: "x \<le> y \<Longrightarrow> rne x \<le> rne y"
proof -
  assume le: "x \<le> y"
  then have fl: "\<lfloor>x\<rfloor> \<le> \<lfloor>y\<rfloor>" by (rule floor_mono)
  show ?thesis
  proof (cases "\<lfloor>x\<rfloor> = \<lfloor>y\<rfloor>")
    case True
    then show ?thesis using le by (auto simp: rne_def Let_def)
  next
    case False
    then have "\<lfloor>x\<rfloor> + 1 \<le> \<lfloor>y\<rfloor>" using fl by simp
    then show ?thesis using rne_bounds [of x] rne_bounds [of y] by linarith
  qed
qed

text \<open>The binary exponent of a positive rational: \<open>2 powi ilog2 q \<le> q < 2 powi (ilog2 q + 1)\<close>.\<close>

definition ilog2 :: "rat \<Rightarrow> int" where
  "ilog2 q = (let (n, d) = quotient_of q;
                  k = int (floorlog 2 (nat n)) - int (floorlog 2 (nat d))
              in if 2 powi k \<le> q then k else k - 1)"

lemma floorlog_pow:
  assumes "0 < (n::nat)"
  shows "2 ^ (floorlog 2 n - 1) \<le> n" "n < 2 ^ floorlog 2 n" "0 < floorlog 2 n"
  using floorlog_bounds [of n 2] assms by (auto simp: floorlog_def)

lemma powi_rat_pos: "(0::rat) < 2 powi k"
  by (rule zero_less_power_int) simp

lemma powi_quot: "e \<le> k \<Longrightarrow> (2::rat) powi k / 2 powi e = of_int (2 ^ nat (k - e))"
proof -
  assume le: "e \<le> k"
  have "(2::rat) powi k / 2 powi e = 2 powi (k - e)" by (rule power_int_diff [symmetric]) simp
  also have "\<dots> = 2 ^ nat (k - e)" using le by (simp add: power_int_def)
  finally show ?thesis by simp
qed

lemma ilog2_bounds:
  assumes "0 < q"
  shows "2 powi (ilog2 q) \<le> q" "q < 2 powi (ilog2 q + 1)"
proof -
  obtain n d where nd: "quotient_of q = (n, d)" by (cases "quotient_of q")
  have dpos: "0 < d" using quotient_of_denom_pos [OF nd] .
  have qe: "q = of_int n / of_int d" using quotient_of_div [OF nd] .
  have npos: "0 < n" using assms dpos qe by (simp add: zero_less_divide_iff)
  define a where "a = floorlog 2 (nat n)"
  define b where "b = floorlog 2 (nat d)"
  define k where "k = int a - int b"
  have A: "2 ^ (a - 1) \<le> nat n" "nat n < 2 ^ a" "0 < a"
    using floorlog_pow [of "nat n"] npos by (simp_all add: a_def)
  have B: "2 ^ (b - 1) \<le> nat d" "nat d < 2 ^ b" "0 < b"
    using floorlog_pow [of "nat d"] dpos by (simp_all add: b_def)
  have natpow: "(of_nat (2 ^ m) :: int) = 2 ^ m" for m by simp
  have A': "(2::int) ^ (a - 1) \<le> n" "n < 2 ^ a"
    using A npos by (simp_all add: nat_less_iff le_nat_iff)
  have B': "(2::int) ^ (b - 1) \<le> d" "d < 2 ^ b"
    using B dpos by (simp_all add: nat_less_iff le_nat_iff)
  have A2: "(2::rat) ^ (a - 1) \<le> of_int n" "of_int n < (2::rat) ^ a"
    using A' by (metis of_int_le_iff of_int_numeral of_int_power,
        metis of_int_less_iff of_int_numeral of_int_power)
  have B2: "(2::rat) ^ (b - 1) \<le> of_int d" "of_int d < (2::rat) ^ b"
    using B' by (metis of_int_le_iff of_int_numeral of_int_power,
        metis of_int_less_iff of_int_numeral of_int_power)
  have pk: "2 powi k = (2::rat) ^ a / 2 ^ b"
    by (simp add: k_def power_int_diff)
  have pk1: "2 powi (k + 1) = (2::rat) ^ a / 2 ^ (b - 1)"
  proof -
    have "2 powi (k + 1) = (2::rat) powi (int a - int (b - 1))"
      using B(3) by (simp add: k_def of_nat_diff algebra_simps)
    then show ?thesis by (simp add: power_int_diff)
  qed
  have pk0: "2 powi (k - 1) = (2::rat) ^ (a - 1) / 2 ^ b"
  proof -
    have "2 powi (k - 1) = (2::rat) powi (int (a - 1) - int b)"
      using A(3) by (simp add: k_def of_nat_diff algebra_simps)
    then show ?thesis by (simp add: power_int_diff)
  qed
  have up: "q < 2 powi (k + 1)"
  proof -
    have "of_int n / of_int d < (2::rat) ^ a / 2 ^ (b - 1)"
      using A2 B2 npos dpos by (intro frac_less) auto
    then show ?thesis by (simp add: qe pk1)
  qed
  have lo: "2 powi (k - 1) \<le> q"
  proof -
    have "(2::rat) ^ (a - 1) / 2 ^ b \<le> of_int n / of_int d"
      using A2 B2 npos dpos by (intro frac_le) auto
    then show ?thesis by (simp add: qe pk0)
  qed
  have il: "ilog2 q = (if 2 powi k \<le> q then k else k - 1)"
    by (simp add: ilog2_def nd k_def a_def b_def)
  show "2 powi (ilog2 q) \<le> q" using il lo by simp
  show "q < 2 powi (ilog2 q + 1)" using il up by simp
qed

text \<open>
  Rounding of a positive magnitude: the spacing of binary64 numbers around \<open>q\<close> is
  \<open>2 powi f64_exp q\<close>, 53 bits below its exponent and never below \<open>2 powi - 1074\<close>.
\<close>

definition f64_exp :: "rat \<Rightarrow> int" where
  "f64_exp q = max (ilog2 q - 52) (- 1074)"

definition round_mag :: "rat \<Rightarrow> rat" where
  "round_mag q = (if q \<le> 0 then 0 else of_int (rne (q / 2 powi f64_exp q)) * 2 powi f64_exp q)"

definition f64_limit :: rat where
  "f64_limit = 2 ^ 1024"

definition f64_round :: "rat \<Rightarrow> f64" where
  "f64_round q =
     (if q < 0 then let m = round_mag (- q) in if f64_limit \<le> m then FNInf else FFin (- m)
      else let m = round_mag q in if f64_limit \<le> m then FPInf else FFin m)"

lemma ilog2_mono: "0 < x \<Longrightarrow> x \<le> y \<Longrightarrow> ilog2 x \<le> ilog2 y"
proof (rule ccontr)
  assume x: "0 < x" and le: "x \<le> y" and "\<not> ilog2 x \<le> ilog2 y"
  then have "ilog2 y + 1 \<le> ilog2 x" by simp
  then have "(2::rat) powi (ilog2 y + 1) \<le> 2 powi (ilog2 x)"
    by (intro power_int_increasing) auto
  then show False using ilog2_bounds [of x] ilog2_bounds [of y] x le by linarith
qed

lemma round_mag_nonneg: "0 \<le> round_mag q"
proof (cases "0 < q")
  case True
  have "rne 0 \<le> rne (q / 2 powi f64_exp q)"
    using True powi_rat_pos [of "f64_exp q"] by (intro rne_mono) simp
  then show ?thesis
    using True rne_of_int [of 0] powi_rat_pos [of "f64_exp q"] by (simp add: round_mag_def)
qed (simp add: round_mag_def)

lemma round_mag_mono_same:
  assumes "0 < x" "x \<le> y" "f64_exp x = f64_exp y"
  shows "round_mag x \<le> round_mag y"
proof -
  have "rne (x / 2 powi f64_exp x) \<le> rne (y / 2 powi f64_exp x)"
    using assms powi_rat_pos [of "f64_exp x"] by (intro rne_mono divide_right_mono) auto
  then show ?thesis
    using assms powi_rat_pos [of "f64_exp y"] by (simp add: round_mag_def mult_right_mono)
qed

lemma round_mag_below_pow:
  assumes "0 < x" "x \<le> 2 powi k" "f64_exp x \<le> k"
  shows "round_mag x \<le> 2 powi k"
proof -
  let ?e = "f64_exp x"
  have pe: "(0::rat) < 2 powi ?e" by (rule powi_rat_pos)
  have quo: "(2::rat) powi k / 2 powi ?e = of_int (2 ^ nat (k - ?e))"
    using assms(3) by (rule powi_quot)
  have "x / 2 powi ?e \<le> 2 powi k / 2 powi ?e"
    using assms pe by (intro divide_right_mono) auto
  then have "rne (x / 2 powi ?e) \<le> 2 ^ nat (k - ?e)"
    using rne_mono quo rne_of_int by metis
  then have "of_int (rne (x / 2 powi ?e)) * (2::rat) powi ?e \<le> of_int (2 ^ nat (k - ?e)) * 2 powi ?e"
    using pe by (intro mult_right_mono) (simp_all only: of_int_le_iff less_imp_le)
  also have "\<dots> = 2 powi k" using quo pe by (simp add: field_simps)
  finally show ?thesis using assms(1) by (simp add: round_mag_def)
qed

lemma round_mag_above_pow:
  assumes "0 < y" "2 powi k \<le> y" "f64_exp y \<le> k"
  shows "2 powi k \<le> round_mag y"
proof -
  let ?e = "f64_exp y"
  have pe: "(0::rat) < 2 powi ?e" by (rule powi_rat_pos)
  have quo: "(2::rat) powi k / 2 powi ?e = of_int (2 ^ nat (k - ?e))"
    using assms(3) by (rule powi_quot)
  have "2 powi k / 2 powi ?e \<le> y / 2 powi ?e"
    using assms pe by (intro divide_right_mono) auto
  then have "2 ^ nat (k - ?e) \<le> rne (y / 2 powi ?e)"
    using rne_mono quo rne_of_int by metis
  then have m: "of_int (2 ^ nat (k - ?e)) * (2::rat) powi ?e \<le> of_int (rne (y / 2 powi ?e)) * 2 powi ?e"
    using pe by (intro mult_right_mono) (simp_all only: of_int_le_iff less_imp_le)
  have "2 powi k = of_int (2 ^ nat (k - ?e)) * (2::rat) powi ?e"
    using quo pe by (simp add: field_simps)
  also note m
  finally show ?thesis using assms(1) by (simp add: round_mag_def)
qed

lemma round_mag_mono: "x \<le> y \<Longrightarrow> round_mag x \<le> round_mag y"
proof (cases "0 < x")
  case True
  assume le: "x \<le> y"
  show ?thesis
  proof (cases "f64_exp x = f64_exp y")
    case True
    then show ?thesis using \<open>0 < x\<close> le by (intro round_mag_mono_same)
  next
    case False
    have il: "ilog2 x \<le> ilog2 y" using \<open>0 < x\<close> le by (rule ilog2_mono)
    then have lt: "ilog2 x + 1 \<le> ilog2 y" "f64_exp y = ilog2 y - 52" "f64_exp x < f64_exp y"
      using False by (auto simp: f64_exp_def max_def split: if_splits)
    have "x \<le> 2 powi (ilog2 y)"
      using ilog2_bounds(2) [OF \<open>0 < x\<close>] power_int_increasing [OF lt(1), of "2::rat"] by linarith
    then have "round_mag x \<le> 2 powi (ilog2 y)"
      using \<open>0 < x\<close> lt by (intro round_mag_below_pow) auto
    also have "\<dots> \<le> round_mag y"
      using \<open>0 < x\<close> le lt ilog2_bounds(1) [of y] by (intro round_mag_above_pow) auto
    finally show ?thesis .
  qed
next
  case False
  then show ?thesis using round_mag_nonneg [of y] by (simp add: round_mag_def)
qed

lemma f64_round_not_nan [simp]: "f64_round q \<noteq> FNaN"
  by (simp add: f64_round_def Let_def)

lemma f64_round_zero [simp]: "f64_round 0 = FFin 0"
  by (simp add: f64_round_def round_mag_def f64_limit_def)

lemma f64_round_mono: "x \<le> y \<Longrightarrow> f64_le (f64_round x) (f64_round y)"
  using round_mag_mono [of x y] round_mag_mono [of "- y" "- x"]
    round_mag_nonneg [of "- x"] round_mag_nonneg [of y]
  by (auto simp: f64_round_def Let_def)

subsection \<open>Exactness\<close>

lemma ilog2_unique: "2 powi k \<le> q \<Longrightarrow> q < 2 powi (k + 1) \<Longrightarrow> ilog2 q = k"
proof -
  assume k: "2 powi k \<le> q" "q < 2 powi (k + 1)"
  have "0 < q" using k(1) powi_rat_pos [of k] by linarith
  note b = ilog2_bounds [OF this]
  have "\<not> k + 1 \<le> ilog2 q"
    using k b power_int_increasing [of "k + 1" "ilog2 q" "2::rat"] by linarith
  moreover have "\<not> ilog2 q + 1 \<le> k"
    using k b power_int_increasing [of "ilog2 q + 1" k "2::rat"] by linarith
  ultimately show ?thesis by simp
qed

lemma ilog2_less: "0 < q \<Longrightarrow> q < 2 powi k \<Longrightarrow> ilog2 q < k"
  using ilog2_bounds(1) [of q] power_int_increasing [of k "ilog2 q" "2::rat"]
  by (meson le_less_trans not_le one_le_numeral)

lemma round_mag_exact:
  assumes "q = of_int m * 2 powi e" "f64_exp q \<le> e" "0 \<le> q"
  shows "round_mag q = q"
proof (cases "q = 0")
  case False
  have "q / 2 powi f64_exp q = of_int m * (2 powi e / 2 powi f64_exp q)"
    using assms(1) by simp
  also have "\<dots> = of_int (m * 2 ^ nat (e - f64_exp q))"
    using powi_quot [OF assms(2)] by simp
  finally have "of_int (rne (q / 2 powi f64_exp q)) = q / 2 powi f64_exp q"
    by (metis rne_of_int)
  then show ?thesis using False assms(3) powi_rat_pos [of "f64_exp q"] by (simp add: round_mag_def)
qed (simp add: round_mag_def)

lemma f64_exp_int: "0 < q \<Longrightarrow> q < 2 ^ 53 \<Longrightarrow> f64_exp q \<le> 0"
  using ilog2_less [of q 53] by (simp add: f64_exp_def)

lemma round_mag_int: "0 \<le> n \<Longrightarrow> n < 2 ^ 53 \<Longrightarrow> round_mag (of_int n) = of_int n"
proof (cases "n = 0")
  case False
  assume n: "0 \<le> n" "n < 2 ^ 53"
  then have "(of_int n :: rat) < of_int (2 ^ 53)" by (simp only: of_int_less_iff)
  then have "(of_int n :: rat) < 2 ^ 53" by simp
  then show ?thesis using n False by (intro round_mag_exact [of _ n 0] f64_exp_int) auto
qed (simp add: round_mag_def)

lemma f64_round_int: "\<bar>n\<bar> < 2 ^ 53 \<Longrightarrow> f64_round (of_int n) = FFin (of_int n)"
proof -
  assume n: "\<bar>n\<bar> < 2 ^ 53"
  have lim: "of_int k < f64_limit" if "k < 2 ^ 53" for k :: int
  proof -
    have "(of_int k :: rat) < of_int (2 ^ 53)" using that by (simp only: of_int_less_iff)
    also have "\<dots> \<le> f64_limit" unfolding f64_limit_def by simp
    finally show ?thesis .
  qed
  show ?thesis
    using n round_mag_int [of n] round_mag_int [of "- n"] lim [of n] lim [of "- n"]
    by (auto simp: f64_round_def Let_def not_le [symmetric])
qed

lemma f64_round_numeral [simp]:
  "numeral k < (2 ^ 53 :: int) \<Longrightarrow> f64_round (numeral k) = FFin (numeral k)"
  "f64_round 1 = FFin 1"
  using f64_round_int [of "numeral k"] f64_round_int [of 1] by simp_all

section \<open>Arithmetic\<close>

fun f64_neg :: "f64 \<Rightarrow> f64" where
  "f64_neg FNaN = FNaN"
| "f64_neg FNInf = FPInf"
| "f64_neg FPInf = FNInf"
| "f64_neg (FFin x) = FFin (- x)"

fun f64_add :: "f64 \<Rightarrow> f64 \<Rightarrow> f64" where
  "f64_add (FFin x) (FFin y) = f64_round (x + y)"
| "f64_add FNaN _ = FNaN"
| "f64_add _ FNaN = FNaN"
| "f64_add FPInf FNInf = FNaN"
| "f64_add FNInf FPInf = FNaN"
| "f64_add FPInf _ = FPInf"
| "f64_add _ FPInf = FPInf"
| "f64_add FNInf _ = FNInf"
| "f64_add _ FNInf = FNInf"

definition f64_sub :: "f64 \<Rightarrow> f64 \<Rightarrow> f64" where
  "f64_sub x y = f64_add x (f64_neg y)"

definition f64_sign_inf :: "bool \<Rightarrow> f64" where
  "f64_sign_inf neg = (if neg then FNInf else FPInf)"

fun f64_mul :: "f64 \<Rightarrow> f64 \<Rightarrow> f64" where
  "f64_mul (FFin x) (FFin y) = f64_round (x * y)"
| "f64_mul FNaN _ = FNaN"
| "f64_mul _ FNaN = FNaN"
| "f64_mul FPInf FPInf = FPInf"
| "f64_mul FNInf FNInf = FPInf"
| "f64_mul FPInf FNInf = FNInf"
| "f64_mul FNInf FPInf = FNInf"
| "f64_mul FPInf (FFin y) = (if y = 0 then FNaN else f64_sign_inf (y < 0))"
| "f64_mul FNInf (FFin y) = (if y = 0 then FNaN else f64_sign_inf (0 < y))"
| "f64_mul (FFin x) FPInf = (if x = 0 then FNaN else f64_sign_inf (x < 0))"
| "f64_mul (FFin x) FNInf = (if x = 0 then FNaN else f64_sign_inf (0 < x))"

text \<open>A division by zero takes the zero as positive; no caller divides by zero.\<close>

fun f64_div :: "f64 \<Rightarrow> f64 \<Rightarrow> f64" where
  "f64_div (FFin x) (FFin y) =
     (if y = 0 then if x = 0 then FNaN else f64_sign_inf (x < 0) else f64_round (x / y))"
| "f64_div FNaN _ = FNaN"
| "f64_div _ FNaN = FNaN"
| "f64_div (FFin x) _ = FFin 0"
| "f64_div FPInf (FFin y) = f64_sign_inf (y < 0)"
| "f64_div FNInf (FFin y) = f64_sign_inf (0 \<le> y)"
| "f64_div _ _ = FNaN"

definition f64_of_int :: "int \<Rightarrow> f64" where
  "f64_of_int n = f64_round (of_int n)"

text \<open>
  Conversion of a non-negative float to \<open>int\<close> truncates the fraction (the source only
  converts products that fit).
\<close>

fun f64_to_int :: "f64 \<Rightarrow> int" where
  "f64_to_int (FFin x) = (if 0 \<le> x then \<lfloor>x\<rfloor> else \<lceil>x\<rceil>)"
| "f64_to_int _ = - (2 ^ 63)"

named_theorems f64_mono "monotonicity of float operations"

definition f64_nonneg :: "f64 \<Rightarrow> bool" where
  "f64_nonneg x \<longleftrightarrow> f64_le f64_zero x"

lemma f64_nonneg_simps [simp]:
  "f64_nonneg (FFin x) \<longleftrightarrow> 0 \<le> x" "f64_nonneg FPInf" "\<not> f64_nonneg FNaN" "\<not> f64_nonneg FNInf"
  by (auto simp: f64_nonneg_def)

lemma f64_nonneg_round: "0 \<le> q \<Longrightarrow> f64_nonneg (f64_round q)"
  using f64_round_mono [of 0 q] by (simp add: f64_nonneg_def)

lemma f64_add_nonneg: "f64_nonneg x \<Longrightarrow> f64_nonneg y \<Longrightarrow> f64_nonneg (f64_add x y)"
  by (cases x; cases y) (auto simp: f64_nonneg_round)

lemma f64_add_mono [f64_mono]:
  assumes "f64_le a b" "f64_le c d" "f64_nonneg a" "f64_nonneg c"
  shows "f64_le (f64_add a c) (f64_add b d)"
proof (cases "b = FPInf \<or> d = FPInf")
  case True
  then have "f64_add b d = FPInf"
    using assms by (cases b; cases d; cases a; cases c) auto
  moreover have "f64_add a c \<noteq> FNaN"
    using assms by (cases a; cases c) auto
  ultimately show ?thesis by (cases "f64_add a c") auto
next
  case False
  then show ?thesis
    using assms by (cases a; cases b; cases c; cases d) (auto intro: f64_round_mono)
qed

lemma f64_le_pinf [simp]: "f64_le x FPInf \<longleftrightarrow> x \<noteq> FNaN"
  by (cases x) auto

lemma f64_mul_mono_right [f64_mono]:
  assumes "f64_le a b" "f64_nonneg a" "0 < q"
  shows "f64_le (f64_mul a (FFin q)) (f64_mul b (FFin q))"
proof (cases b)
  case FPInf
  then have "f64_mul b (FFin q) = FPInf" using assms(3) by (simp add: f64_sign_inf_def)
  moreover have "f64_mul a (FFin q) \<noteq> FNaN"
    using assms by (cases a) (auto simp: f64_sign_inf_def)
  ultimately show ?thesis by simp
next
  case (FFin y)
  then show ?thesis using assms by (cases a) (auto intro!: f64_round_mono mult_right_mono)
qed (use assms in \<open>cases a; auto\<close>)+

lemma f64_mul_nonneg:
  "f64_nonneg a \<Longrightarrow> 0 < q \<Longrightarrow> f64_nonneg (f64_mul a (FFin q))"
  by (cases a) (auto simp: f64_sign_inf_def f64_nonneg_round)

text \<open>Reciprocals of numbers that are at least a positive floor are antitone.\<close>

lemma f64_recip_antimono [f64_mono]:
  assumes "f64_le a b" "f64_lt (FFin 0) a"
  shows "f64_le (f64_div (FFin 1) b) (f64_div (FFin 1) a)"
proof (cases a)
  case (FFin x)
  then have "0 < x" using assms by simp
  show ?thesis
  proof (cases b)
    case (FFin y)
    then have "1 / y \<le> 1 / x" using assms \<open>a = FFin x\<close> \<open>0 < x\<close> by (simp add: frac_le)
    then show ?thesis
      using FFin \<open>a = FFin x\<close> \<open>0 < x\<close> assms by (auto intro: f64_round_mono)
  next
    case FPInf
    then show ?thesis
      using \<open>a = FFin x\<close> \<open>0 < x\<close> f64_nonneg_round [of "1 / x"] by (simp add: f64_nonneg_def)
  qed (use assms FFin in auto)
qed (use assms in \<open>cases b; auto\<close>)+

lemma f64_recip_nonneg: "f64_lt (FFin 0) a \<Longrightarrow> f64_nonneg (f64_div (FFin 1) a)"
  by (cases a) (auto simp: f64_nonneg_round)

end
