(* ===== verification/Needs.thy ===== *)
theory Needs
  imports Resources Float64
begin

text \<open>
  The demand side (\<open>pkg/needs/needs.go\<close>): penalty buckets, the profile that identifies a
  need and its fingerprint, the roll-up \<open>Aggregate\<close>, and the per-shard table of needs with
  its cached priority-sorted snapshot.
\<close>

section \<open>Penalty buckets\<close>

text \<open>The enum value, a \<open>uint8\<close>; the named buckets are 0 to 27.\<close>

type_synonym penalty_bucket = nat

abbreviation (input) bucket_unspecified :: penalty_bucket where "bucket_unspecified \<equiv> 0"
abbreviation (input) bucket_zero :: penalty_bucket where "bucket_zero \<equiv> 1"
abbreviation (input) bucket_half_dollar :: penalty_bucket where "bucket_half_dollar \<equiv> 2"
abbreviation (input) bucket_1 :: penalty_bucket where "bucket_1 \<equiv> 3"
abbreviation (input) bucket_8388608 :: penalty_bucket where "bucket_8388608 \<equiv> 26"
abbreviation (input) bucket_pinned :: penalty_bucket where "bucket_pinned \<equiv> 27"

definition bucket_labels :: "(penalty_bucket, string) gomap" where
  "bucket_labels =
    [(bucket_zero, ''0''), (bucket_half_dollar, ''0.5''), (bucket_1, ''1''), (4, ''2''),
     (5, ''4''), (6, ''8''), (7, ''16''), (8, ''32''), (9, ''64''), (10, ''128''), (11, ''256''),
     (12, ''512''), (13, ''1024''), (14, ''2048''), (15, ''4096''), (16, ''8192''),
     (17, ''16384''), (18, ''32768''), (19, ''65536''), (20, ''131072''), (21, ''262144''),
     (22, ''524288''), (23, ''1048576''), (24, ''2097152''), (25, ''4194304''),
     (bucket_8388608, ''8388608''), (bucket_pinned, ''pinned'')]"

definition bucket_label :: "penalty_bucket \<Rightarrow> string" where
  "bucket_label b = gm_at ''unspecified'' bucket_labels b"

definition upper_bound_dollars :: "penalty_bucket \<Rightarrow> f64" where
  "upper_bound_dollars b =
    (if b = bucket_unspecified \<or> b = bucket_zero then FFin 0
     else if b = bucket_half_dollar then FFin (1 / 2)
     else if b = bucket_pinned then FPInf
     else FFin (2 ^ (b - bucket_1)))"

text \<open>The walk up the power-of-two ladder, one iteration of the loop per call.\<close>

function bucket_walk :: "f64 \<Rightarrow> penalty_bucket \<Rightarrow> f64 \<Rightarrow> penalty_bucket" where
  "bucket_walk dollars bucket bound =
    (if bucket \<le> bucket_8388608 then
       if f64_le dollars bound then bucket
       else bucket_walk dollars (bucket + 1) (f64_mul bound (FFin 2))
     else bucket_pinned)"
  by pat_completeness auto
termination by (relation "measure (\<lambda>(_, b, _). 27 - b)") auto

declare bucket_walk.simps [simp del]

definition bucket_for_dollars :: "f64 \<Rightarrow> penalty_bucket" where
  "bucket_for_dollars dollars =
    (if f64_le dollars (FFin 0) then bucket_zero
     else if f64_le dollars (FFin (1 / 2)) then bucket_half_dollar
     else bucket_walk dollars bucket_1 (FFin 1))"

lemma ladder_double:
  "k < 52 \<Longrightarrow> f64_mul (FFin (2 ^ k)) (FFin 2) = FFin (2 ^ Suc k)"
proof -
  assume k: "k < 52"
  have "(2::int) ^ Suc k < 2 ^ 53" using k by (intro power_strict_increasing) auto
  then have "f64_round (of_int (2 ^ Suc k)) = FFin (of_int (2 ^ Suc k))"
    by (intro f64_round_int) simp
  then show ?thesis by (simp add: mult.commute)
qed

lemma bucket_walk_cases:
  "26 < b \<Longrightarrow> bucket_walk d b x = 27"
  "b \<le> 26 \<Longrightarrow> f64_le d x \<Longrightarrow> bucket_walk d b x = b"
  "b \<le> 26 \<Longrightarrow> \<not> f64_le d x \<Longrightarrow> bucket_walk d b x = bucket_walk d (Suc b) (f64_mul x (FFin 2))"
  by (subst bucket_walk.simps, simp)+

lemma bucket_walk_least:
  assumes "3 \<le> b" "b \<le> 27" "bucket_walk d b (FFin (2 ^ (b - 3))) = r"
  shows "b \<le> r" "r \<le> 27" "r < 27 \<Longrightarrow> f64_le d (upper_bound_dollars r)"
    and "\<And>b'. b \<le> b' \<Longrightarrow> b' < r \<Longrightarrow> \<not> f64_le d (upper_bound_dollars b')"
proof -
  have "b \<le> r \<and> r \<le> 27 \<and> (r < 27 \<longrightarrow> f64_le d (upper_bound_dollars r))
    \<and> (\<forall>b'. b \<le> b' \<longrightarrow> b' < r \<longrightarrow> \<not> f64_le d (upper_bound_dollars b'))"
    using assms
  proof (induction "27 - b" arbitrary: b)
    case 0
    then show ?case by (auto simp: bucket_walk_cases(1))
  next
    case (Suc n)
    have ub: "upper_bound_dollars b = FFin (2 ^ (b - 3))"
      using Suc by (auto simp: upper_bound_dollars_def)
    show ?case
    proof (cases "f64_le d (FFin (2 ^ (b - 3)))")
      case True
      then have "r = b" using Suc.prems Suc.hyps(2) by (simp add: bucket_walk_cases(2))
      then show ?thesis using True Suc.prems ub by simp
    next
      case False
      have e: "f64_mul (FFin (2 ^ (b - 3))) (FFin 2) = FFin (2 ^ (Suc b - 3))"
      proof -
        have "Suc b - 3 = Suc (b - 3)" using Suc.prems(1) by simp
        moreover have "b - 3 < 52" using Suc.prems(2) by simp
        ultimately show ?thesis using ladder_double by metis
      qed
      have "bucket_walk d (Suc b) (FFin (2 ^ (Suc b - 3))) = r"
        using Suc.prems(3) Suc.hyps(2) bucket_walk_cases(3) [OF _ False] by (simp only: e)
      then have "Suc b \<le> r \<and> r \<le> 27 \<and> (r < 27 \<longrightarrow> f64_le d (upper_bound_dollars r))
        \<and> (\<forall>b'. Suc b \<le> b' \<longrightarrow> b' < r \<longrightarrow> \<not> f64_le d (upper_bound_dollars b'))"
        using Suc.prems(1,2) Suc.hyps(2) by (intro Suc.hyps(1)) simp_all
      moreover have "\<not> f64_le d (upper_bound_dollars b)" using False ub by simp
      ultimately show ?thesis by (metis Suc_leD Suc_leI le_neq_implies_less)
    qed
  qed
  then show "b \<le> r" "r \<le> 27" "r < 27 \<Longrightarrow> f64_le d (upper_bound_dollars r)"
    "\<And>b'. b \<le> b' \<Longrightarrow> b' < r \<Longrightarrow> \<not> f64_le d (upper_bound_dollars b')" by auto
qed

section \<open>Profiles\<close>

datatype operator = OperatorUnspecified | OperatorIn | OperatorNotIn | OperatorExists
  | OperatorDoesNotExist | OperatorSame

fun op_code :: "operator \<Rightarrow> nat" where
  "op_code OperatorUnspecified = 0"
| "op_code OperatorIn = 1"
| "op_code OperatorNotIn = 2"
| "op_code OperatorExists = 3"
| "op_code OperatorDoesNotExist = 4"
| "op_code OperatorSame = 5"

record requirement =
  rKey :: string
  rOperator :: operator
  rValues :: "string list"

datatype when_unsatisfiable = WhenUnsatisfiableUnspecified | WhenUnsatisfiableDoNotSchedule
  | WhenUnsatisfiableScheduleAnyway

fun when_code :: "when_unsatisfiable \<Rightarrow> nat" where
  "when_code WhenUnsatisfiableUnspecified = 0"
| "when_code WhenUnsatisfiableDoNotSchedule = 1"
| "when_code WhenUnsatisfiableScheduleAnyway = 2"

record topology_spread =
  tsTopologyKey :: string
  tsMaxSkew :: int
  tsWhenUnsatisfiable :: when_unsatisfiable

record profile =
  requirements :: "requirement list"
  spread :: "topology_spread list"
  priority :: int
  interruptionPenaltyBucket :: penalty_bucket
  reclamationPenaltyBucket :: penalty_bucket
  fingerprint :: string

text \<open>\<open>strings.Join\<close>.\<close>

fun join :: "string \<Rightarrow> string list \<Rightarrow> string" where
  "join sep [] = ''''"
| "join sep [s] = s"
| "join sep (s # ss) = s @ sep @ join sep ss"

definition fp_req :: "requirement \<Rightarrow> string" where
  "fp_req r = rKey r @ '':'' @ dec_nat (op_code (rOperator r)) @ '':'' @ join '','' (rValues r)"

definition fp_spr :: "topology_spread \<Rightarrow> string" where
  "fp_spr s = tsTopologyKey s @ '':'' @ dec_int (tsMaxSkew s) @ '':''
     @ dec_nat (when_code (tsWhenUnsatisfiable s))"

definition compute_fingerprint :: "profile \<Rightarrow> string" where
  "compute_fingerprint p =
    ''p='' @ dec_int (priority p)
    @ ''|ipb='' @ dec_nat (interruptionPenaltyBucket p)
    @ ''|rpb='' @ dec_nat (reclamationPenaltyBucket p)
    @ ''|reqs='' @ concat (map (\<lambda>r. fp_req r @ '';'') (requirements p))
    @ ''|spr='' @ concat (map (\<lambda>s. fp_spr s @ '';'') (spread p))"

definition req_less :: "requirement \<Rightarrow> requirement \<Rightarrow> bool" where
  "req_less a b \<longleftrightarrow>
    (if rKey a \<noteq> rKey b then rKey a < rKey b
     else op_code (rOperator a) < op_code (rOperator b))"

definition spr_less :: "topology_spread \<Rightarrow> topology_spread \<Rightarrow> bool" where
  "spr_less a b \<longleftrightarrow> tsTopologyKey a < tsTopologyKey b"

definition canon_req :: "requirement \<Rightarrow> requirement" where
  "canon_req r = r\<lparr>rValues := sort_less (<) (rValues r)\<rparr>"

definition new_profile ::
    "requirement list \<Rightarrow> topology_spread list \<Rightarrow> int \<Rightarrow> penalty_bucket \<Rightarrow> penalty_bucket \<Rightarrow> profile" where
  "new_profile reqs0 spr0 prio ipb rpb =
    (let reqs = sort_less req_less (map canon_req reqs0);
         spr = sort_less spr_less spr0;
         p = \<lparr>requirements = reqs, spread = spr, priority = prio,
              interruptionPenaltyBucket = ipb, reclamationPenaltyBucket = rpb, fingerprint = ''''\<rparr>
     in p\<lparr>fingerprint := compute_fingerprint p\<rparr>)"

definition zero_profile :: profile where
  "zero_profile = \<lparr>requirements = [], spread = [], priority = 0, interruptionPenaltyBucket = 0,
     reclamationPenaltyBucket = 0, fingerprint = ''''\<rparr>"

interpretation req_cmp: comparator req_less "\<lambda>_. True"
  by unfold_locales (auto simp: req_less_def split: if_splits)

interpretation spr_cmp: comparator spr_less "\<lambda>_. True"
  by unfold_locales (auto simp: spr_less_def)

subsection \<open>Reading a fingerprint back\<close>

text \<open>Two texts cut at their first separator agree on both sides of it.\<close>

lemma cut_unique:
  "a @ c # x = b @ c # y \<Longrightarrow> c \<notin> set a \<Longrightarrow> c \<notin> set b \<Longrightarrow> a = b \<and> x = y"
  by (induction a arbitrary: b) (auto simp: Cons_eq_append_conv)

definition sep_free :: "string \<Rightarrow> bool" where
  "sep_free s \<longleftrightarrow> set s \<inter> set '':;,|'' = {}"

definition values_ok :: "string list \<Rightarrow> bool" where
  "values_ok vs \<longleftrightarrow> list_all sep_free vs \<and> vs \<noteq> ['''']"

definition profile_ok :: "profile \<Rightarrow> bool" where
  "profile_ok p \<longleftrightarrow>
    list_all (\<lambda>r. sep_free (rKey r) \<and> values_ok (rValues r)) (requirements p)
    \<and> list_all (\<lambda>s. sep_free (tsTopologyKey s)) (spread p)
    \<and> fingerprint p = compute_fingerprint p"

lemma digits_no_sep: "set (dec_nat n) \<inter> set '':;,|'' = {}"
  using dec_nat_digits [of n] by (auto simp: is_digit_def)

lemma dec_int_no_sep: "set (dec_int n) \<inter> set '':;,|'' = {}"
  using dec_int_shape [of n] by (auto simp: is_digit_def)

lemma join_nil_iff: "join [c] vs = [] \<longleftrightarrow> vs = [] \<or> vs = ['''']"
  by (induction "[c]" vs rule: join.induct) auto

lemma join_no_sep:
  "list_all sep_free vs \<Longrightarrow> set (join '','' vs) \<inter> set '':;|'' = {}"
  by (induction "'',''" vs rule: join.induct) (auto simp: sep_free_def)

lemma join_inj:
  assumes "\<forall>s\<in>set vs. c \<notin> set s" "\<forall>s\<in>set ws. c \<notin> set s"
    and "vs \<noteq> [] \<longleftrightarrow> ws \<noteq> []" "join [c] vs = join [c] ws"
  shows "vs = ws"
  using assms
proof (induction "[c]" vs arbitrary: ws rule: join.induct)
  case 1
  then show ?case by simp
next
  case (2 s)
  then obtain w ws' where ws: "ws = w # ws'" by (cases ws) auto
  show ?case
  proof (cases ws')
    case (Cons w' ws'')
    then have "c \<in> set s" using 2 ws by simp
    then show ?thesis using 2 by simp
  qed (use 2 ws in auto)
next
  case (3 s s' ss)
  then obtain w ws' where ws: "ws = w # ws'" by (cases ws) auto
  show ?case
  proof (cases ws')
    case Nil
    then have "w = s @ c # join [c] (s' # ss)" using 3 ws by simp
    then have "c \<in> set w" by simp
    then show ?thesis using 3 ws by simp
  next
    case (Cons w' ws'')
    then have "s @ c # join [c] (s' # ss) = w @ c # join [c] ws'" using 3 ws by simp
    then have "s = w \<and> join [c] (s' # ss) = join [c] ws'"
      by (rule cut_unique) (use 3 ws in auto)
    moreover have "s' # ss = ws'"
      by (rule 3(1)) (use calculation 3(2,3) ws Cons in auto)
    ultimately show ?thesis using ws by simp
  qed
qed

lemma dec_nat_inj: "dec_nat a = dec_nat b \<Longrightarrow> a = b"
  using dec_val_dec_nat by metis

lemma op_code_inj: "op_code a = op_code b \<Longrightarrow> a = b"
  by (cases a; cases b) auto

lemma when_code_inj: "when_code a = when_code b \<Longrightarrow> a = b"
  by (cases a; cases b) auto

lemma fp_req_inj:
  assumes "fp_req r = fp_req r'" "sep_free (rKey r)" "sep_free (rKey r')"
    and "values_ok (rValues r)" "values_ok (rValues r')"
  shows "r = r'"
proof -
  have n: "CHR '':'' \<notin> set (dec_nat k)" for k using digits_no_sep [of k] by auto
  have k: "rKey r = rKey r' \<and> dec_nat (op_code (rOperator r)) @ CHR '':'' # join '','' (rValues r)
      = dec_nat (op_code (rOperator r')) @ CHR '':'' # join '','' (rValues r')"
    using assms(1-3) by (intro cut_unique [where c = "CHR '':''"]) (auto simp: fp_req_def sep_free_def)
  then have o: "dec_nat (op_code (rOperator r)) = dec_nat (op_code (rOperator r'))
      \<and> join '','' (rValues r) = join '','' (rValues r')"
    by (intro cut_unique [where c = "CHR '':''"]) (auto simp: n)
  then have j: "join '','' (rValues r) = join '','' (rValues r')" by simp
  have "rValues r = rValues r'"
  proof (rule join_inj [OF _ _ _ j])
    show "rValues r \<noteq> [] \<longleftrightarrow> rValues r' \<noteq> []"
      using j assms(4,5) join_nil_iff [of "CHR '',''" "rValues r"]
        join_nil_iff [of "CHR '',''" "rValues r'"]
      by (auto simp: values_ok_def)
  qed (use assms(4,5) in \<open>auto simp: values_ok_def sep_free_def list_all_iff\<close>)
  moreover have "rOperator r = rOperator r'" using o dec_nat_inj op_code_inj by blast
  ultimately show ?thesis using k by (cases r; cases r') simp
qed

lemma fp_spr_inj:
  assumes "fp_spr r = fp_spr r'" "sep_free (tsTopologyKey r)" "sep_free (tsTopologyKey r')"
  shows "r = r'"
proof -
  have n: "CHR '':'' \<notin> set (dec_int k)" for k using dec_int_no_sep [of k] by auto
  have k: "tsTopologyKey r = tsTopologyKey r'
      \<and> dec_int (tsMaxSkew r) @ CHR '':'' # dec_nat (when_code (tsWhenUnsatisfiable r))
      = dec_int (tsMaxSkew r') @ CHR '':'' # dec_nat (when_code (tsWhenUnsatisfiable r'))"
    using assms by (intro cut_unique [where c = "CHR '':''"]) (auto simp: fp_spr_def sep_free_def)
  then have "dec_int (tsMaxSkew r) = dec_int (tsMaxSkew r')
      \<and> dec_nat (when_code (tsWhenUnsatisfiable r)) = dec_nat (when_code (tsWhenUnsatisfiable r'))"
    by (intro cut_unique [where c = "CHR '':''"]) (auto simp: n)
  then show ?thesis using k dec_nat_inj when_code_inj dec_int_inj by (cases r; cases r') auto
qed

lemma fp_req_no_sep:
  "sep_free (rKey r) \<Longrightarrow> values_ok (rValues r) \<Longrightarrow> set (fp_req r) \<inter> set '';|'' = {}"
  using digits_no_sep [of "op_code (rOperator r)"] join_no_sep [of "rValues r"]
  by (auto simp: fp_req_def sep_free_def values_ok_def)

lemma fp_spr_no_sep: "sep_free (tsTopologyKey r) \<Longrightarrow> set (fp_spr r) \<inter> set '';|'' = {}"
  using dec_int_no_sep [of "tsMaxSkew r"] digits_no_sep [of "when_code (tsWhenUnsatisfiable r)"]
  by (auto simp: fp_spr_def sep_free_def)

text \<open>A list of terminated items reads back item by item.\<close>

lemma terminated_inj:
  assumes "concat (map (\<lambda>r. f r @ [c]) xs) = concat (map (\<lambda>r. f r @ [c]) ys)"
    and "\<forall>r\<in>set xs. c \<notin> set (f r)" "\<forall>r\<in>set ys. c \<notin> set (f r)"
    and "\<And>x y. x \<in> set xs \<Longrightarrow> y \<in> set ys \<Longrightarrow> f x = f y \<Longrightarrow> x = y"
  shows "xs = ys"
  using assms
proof (induction xs arbitrary: ys)
  case Nil
  then show ?case by (cases ys) auto
next
  case (Cons x xs)
  then obtain y ys' where ys: "ys = y # ys'" by (cases ys) auto
  have "f x @ c # concat (map (\<lambda>r. f r @ [c]) xs) = f y @ c # concat (map (\<lambda>r. f r @ [c]) ys')"
    using Cons.prems(1) ys by simp
  then have e: "f x = f y \<and> concat (map (\<lambda>r. f r @ [c]) xs) = concat (map (\<lambda>r. f r @ [c]) ys')"
    by (rule cut_unique) (use Cons.prems ys in auto)
  then have "xs = ys'" using Cons.prems ys by (intro Cons.IH) auto
  then show ?case using e Cons.prems ys by auto
qed

lemma fingerprint_parts:
  assumes "compute_fingerprint p = compute_fingerprint q"
    and "profile_ok p" "profile_ok q"
  shows "priority p = priority q"
    and "interruptionPenaltyBucket p = interruptionPenaltyBucket q"
    and "reclamationPenaltyBucket p = reclamationPenaltyBucket q"
    and "concat (map (\<lambda>r. fp_req r @ '';'') (requirements p))
      = concat (map (\<lambda>r. fp_req r @ '';'') (requirements q))"
    and "concat (map (\<lambda>r. fp_spr r @ '';'') (spread p)) = concat (map (\<lambda>r. fp_spr r @ '';'') (spread q))"
proof -
  let ?R = "\<lambda>p. concat (map (\<lambda>r. fp_req r @ '';'') (requirements p))"
  let ?S = "\<lambda>p. concat (map (\<lambda>r. fp_spr r @ '';'') (spread p))"
  let ?tail2 = "\<lambda>p. ''rpb='' @ dec_nat (reclamationPenaltyBucket p)
    @ CHR ''|'' # ''reqs='' @ ?R p @ CHR ''|'' # ''spr='' @ ?S p"
  let ?tail1 = "\<lambda>p. ''ipb='' @ dec_nat (interruptionPenaltyBucket p) @ CHR ''|'' # ?tail2 p"
  have n: "CHR ''|'' \<notin> set (dec_nat k)" for k using digits_no_sep [of k] by auto
  have i: "CHR ''|'' \<notin> set (dec_int k)" for k using dec_int_no_sep [of k] by auto
  have r: "CHR ''|'' \<notin> set (?R p)" if "profile_ok p" for p
    using that fp_req_no_sep by (auto simp: profile_ok_def list_all_iff)
  have "dec_int (priority p) @ CHR ''|'' # ?tail1 p = dec_int (priority q) @ CHR ''|'' # ?tail1 q"
    using assms(1) by (simp add: compute_fingerprint_def)
  then have 1: "dec_int (priority p) = dec_int (priority q) \<and> ?tail1 p = ?tail1 q"
    by (rule cut_unique) (auto simp: i)
  then have "dec_nat (interruptionPenaltyBucket p) @ CHR ''|'' # ?tail2 p
      = dec_nat (interruptionPenaltyBucket q) @ CHR ''|'' # ?tail2 q" by simp
  then have 2: "dec_nat (interruptionPenaltyBucket p) = dec_nat (interruptionPenaltyBucket q)
      \<and> ?tail2 p = ?tail2 q" by (rule cut_unique) (auto simp: n)
  then have "dec_nat (reclamationPenaltyBucket p) @ CHR ''|'' # ''reqs='' @ ?R p @ CHR ''|'' # ''spr='' @ ?S p
      = dec_nat (reclamationPenaltyBucket q) @ CHR ''|'' # ''reqs='' @ ?R q @ CHR ''|'' # ''spr='' @ ?S q"
    by simp
  then have 3: "dec_nat (reclamationPenaltyBucket p) = dec_nat (reclamationPenaltyBucket q)
      \<and> ''reqs='' @ ?R p @ CHR ''|'' # ''spr='' @ ?S p = ''reqs='' @ ?R q @ CHR ''|'' # ''spr='' @ ?S q"
    by (rule cut_unique) (auto simp: n)
  then have "?R p @ CHR ''|'' # ''spr='' @ ?S p = ?R q @ CHR ''|'' # ''spr='' @ ?S q" by simp
  then have 4: "?R p = ?R q \<and> ''spr='' @ ?S p = ''spr='' @ ?S q"
    by (rule cut_unique) (use r assms in auto)
  show "priority p = priority q" using 1 dec_int_inj by simp
  show "interruptionPenaltyBucket p = interruptionPenaltyBucket q" using 2 dec_nat_inj by simp
  show "reclamationPenaltyBucket p = reclamationPenaltyBucket q" using 3 dec_nat_inj by simp
  show "?R p = ?R q" using 4 by simp
  show "?S p = ?S q" using 4 by simp
qed

lemma fingerprint_inj:
  assumes "profile_ok p" "profile_ok q" "fingerprint p = fingerprint q"
  shows "p = q"
proof -
  have f: "compute_fingerprint p = compute_fingerprint q"
    using assms by (simp add: profile_ok_def)
  note parts = fingerprint_parts [OF f assms(1,2)]
  have "requirements p = requirements q"
  proof (rule terminated_inj [OF parts(4)])
    show "\<forall>r\<in>set (requirements p). CHR '';'' \<notin> set (fp_req r)"
      "\<forall>r\<in>set (requirements q). CHR '';'' \<notin> set (fp_req r)"
      using assms(1,2) fp_req_no_sep by (auto simp: profile_ok_def list_all_iff)
    fix x y assume "x \<in> set (requirements p)" "y \<in> set (requirements q)" "fp_req x = fp_req y"
    then show "x = y"
      using assms(1,2) by (intro fp_req_inj) (auto simp: profile_ok_def list_all_iff)
  qed
  moreover have "spread p = spread q"
  proof (rule terminated_inj [OF parts(5)])
    show "\<forall>r\<in>set (spread p). CHR '';'' \<notin> set (fp_spr r)"
      "\<forall>r\<in>set (spread q). CHR '';'' \<notin> set (fp_spr r)"
      using assms(1,2) fp_spr_no_sep by (auto simp: profile_ok_def list_all_iff)
    fix x y assume "x \<in> set (spread p)" "y \<in> set (spread q)" "fp_spr x = fp_spr y"
    then show "x = y"
      using assms(1,2) by (intro fp_spr_inj) (auto simp: profile_ok_def list_all_iff)
  qed
  ultimately show ?thesis using parts assms(3) by (cases p; cases q) simp
qed

section \<open>Needs and their roll-up\<close>

record need =
  nCluster :: string
  nProfile :: profile
  AggregateResources :: "resource_qty list"
  MinUnit :: "resource_qty list"
  ArrivalUnixNanos :: int
  Group :: string
  AcquisitionParked :: bool

type_synonym need_key = "string \<times> string \<times> string"

definition need_key :: "need \<Rightarrow> need_key" where
  "need_key n = (nCluster n, fingerprint (nProfile n), Group n)"

text \<open>What the roll-up does to the row \<open>o1\<close> when it meets another need with its key.\<close>

definition merge_need :: "'q qlib \<Rightarrow> need \<Rightarrow> need \<Rightarrow> need" where
  "merge_need Q o1 n =
    (let o2 = o1\<lparr>AggregateResources := add_resources Q (AggregateResources o1) (AggregateResources n),
                 MinUnit := max_resources Q (MinUnit o1) (MinUnit n)\<rparr>
     in if ArrivalUnixNanos n \<noteq> 0
           \<and> (ArrivalUnixNanos o2 = 0 \<or> ArrivalUnixNanos n < ArrivalUnixNanos o2)
        then o2\<lparr>ArrivalUnixNanos := ArrivalUnixNanos n\<rparr> else o2)"

definition aggregate_step ::
    "'q qlib \<Rightarrow> (need_key, nat) gomap \<times> need list \<Rightarrow> need \<Rightarrow> (need_key, nat) gomap \<times> need list" where
  "aggregate_step Q s n =
    (let (idx, out) = s; k = need_key n
     in case gm_get idx k of
          Some p \<Rightarrow> (idx, out[p := merge_need Q (out ! p) n])
        | None \<Rightarrow> (gm_set k (length out) idx, out @ [n]))"

definition aggregate :: "'q qlib \<Rightarrow> need list \<Rightarrow> need list" where
  "aggregate Q ns = snd (foldl (aggregate_step Q) ([], []) ns)"

text \<open>
  The reference: one row for each key in the order the keys first occur, the needs of a key
  merged from left to right.
\<close>

definition merge_all :: "'q qlib \<Rightarrow> need list \<Rightarrow> need" where
  "merge_all Q ns = foldl (merge_need Q) (hd ns) (tl ns)"

definition aggregate_spec :: "'q qlib \<Rightarrow> need list \<Rightarrow> need list" where
  "aggregate_spec Q ns = map (\<lambda>(k, g). merge_all Q g) (group_by need_key ns)"

lemma merge_need_key [simp]: "need_key (merge_need Q o1 n) = need_key o1"
  by (simp add: need_key_def merge_need_def Let_def)

lemma merge_all_snoc: "ns \<noteq> [] \<Longrightarrow> merge_all Q (ns @ [n]) = merge_need Q (merge_all Q ns) n"
  by (cases ns) (simp_all add: merge_all_def)

text \<open>Where a key of a map sits in its list.\<close>

lemma gm_set_list:
  "gm_ok m \<Longrightarrow> i < length m \<Longrightarrow> fst (m ! i) = k \<Longrightarrow> gm_set k v m = m[i := (k, v)]"
proof (induction m arbitrary: i)
  case (Cons kv m)
  show ?case
  proof (cases i)
    case 0
    then show ?thesis using Cons.prems by (cases kv) auto
  next
    case (Suc j)
    have "fst kv \<noteq> k" using Cons.prems Suc by auto
    then show ?thesis using Cons Suc by (cases kv) auto
  qed
qed simp

lemma gm_set_new: "k \<notin> fst ` set m \<Longrightarrow> gm_set k v m = m @ [(k, v)]"
  by (induction m) auto

lemma aggregate_state:
  "fst (foldl (aggregate_step Q) ([], []) ns)
      = zip (map fst (group_by need_key ns)) [0..<length (group_by need_key ns)]
    \<and> snd (foldl (aggregate_step Q) ([], []) ns) = aggregate_spec Q ns"
proof (induction ns rule: rev_induct)
  case Nil
  then show ?case by (simp add: aggregate_spec_def group_by_def)
next
  case (snoc n ns)
  let ?m = "group_by need_key ns" and ?k = "need_key n"
  let ?st = "foldl (aggregate_step Q) ([], []) ns"
  have ok: "gm_ok ?m" by (rule gm_ok_group_by)
  have st: "?st = (zip (map fst ?m) [0..<length ?m], aggregate_spec Q ns)"
    using snoc by (metis prod.collapse)
  have gb: "group_by need_key (ns @ [n]) = gm_set ?k (gm_at [] ?m ?k @ [n]) ?m"
    by (simp add: group_by_def gm_append_def)
  have okz: "gm_ok (zip (map fst ?m) [0..<length ?m])" using ok by simp
  show ?case
  proof (cases "?k \<in> fst ` set ?m")
    case True
    then obtain i where i: "i < length ?m" "fst (?m ! i) = ?k" by (auto simp: in_set_conv_nth)
    have "(?k, i) \<in> set (zip (map fst ?m) [0..<length ?m])"
      using i by (auto simp: set_zip intro!: exI [of _ i])
    then have gi: "gm_get (zip (map fst ?m) [0..<length ?m]) ?k = Some i"
      using okz by (simp add: gm_get_some_iff del: map_fst_zip)
    obtain g where g: "?m ! i = (?k, g)" using i by (cases "?m ! i") auto
    then have gg: "gm_at [] ?m ?k = g"
      using ok i by (simp add: gm_at_def) (metis gm_get_some_iff nth_mem option.case(2))
    have "g \<noteq> []"
    proof -
      have "?k \<in> need_key ` set ns" using True gm_keys_group_by by metis
      then show ?thesis using gg by (auto simp: gm_at_group_by filter_eq_nil_iff)
    qed
    then have ma: "merge_all Q (g @ [n]) = merge_need Q (aggregate_spec Q ns ! i) n"
      using i g by (simp add: aggregate_spec_def merge_all_snoc)
    have m': "group_by need_key (ns @ [n]) = ?m[i := (?k, g @ [n])]"
      unfolding gb gg by (rule gm_set_list [OF ok i])
    have f: "map fst (?m[i := (?k, g @ [n])]) = map fst ?m"
    proof -
      have "(map fst ?m) ! i = ?k" using i by simp
      then show ?thesis by (metis list_update_id map_update fst_conv)
    qed
    have a: "aggregate_spec Q (ns @ [n]) = (aggregate_spec Q ns)[i := merge_all Q (g @ [n])]"
      unfolding aggregate_spec_def m' by (simp add: map_update)
    have "foldl (aggregate_step Q) ([], []) (ns @ [n])
        = (zip (map fst ?m) [0..<length ?m], (aggregate_spec Q ns)[i := merge_need Q (aggregate_spec Q ns ! i) n])"
      by (simp add: st aggregate_step_def gi)
    then show ?thesis unfolding a ma unfolding m' f by simp
  next
    case False
    then have gn: "gm_get (zip (map fst ?m) [0..<length ?m]) ?k = None"
      by (simp add: gm_get_none_iff) (metis set_map map_fst_zip length_map length_upt minus_nat.diff_0)
    have z: "?k \<notin> fst ` set (zip (map fst ?m) [0..<length ?m])"
      using gn by (simp only: gm_get_none_iff not_False_eq_True)
    have "gm_at [] ?m ?k = []" using False by (simp add: gm_at_def gm_get_none_iff [THEN iffD2])
    then have m': "group_by need_key (ns @ [n]) = ?m @ [(?k, [n])]"
      unfolding gb using gm_set_new [OF False] by simp
    have len: "length (aggregate_spec Q ns) = length ?m" by (simp add: aggregate_spec_def)
    have "foldl (aggregate_step Q) ([], []) (ns @ [n])
        = (zip (map fst ?m) [0..<length ?m] @ [(?k, length ?m)], aggregate_spec Q ns @ [n])"
      using gm_set_new [OF z] by (simp add: st aggregate_step_def gn len)
    then show ?thesis unfolding aggregate_spec_def m' by (simp add: merge_all_def)
  qed
qed

lemma aggregate_refines: "aggregate Q ns = aggregate_spec Q ns"
  using aggregate_state [of Q ns] by (simp add: aggregate_def)

lemma merge_all_key: "ns \<noteq> [] \<Longrightarrow> need_key (merge_all Q ns) = need_key (hd ns)"
proof (induction ns rule: rev_induct)
  case (snoc n ns)
  then show ?case by (cases "ns = []") (simp_all add: merge_all_snoc, simp add: merge_all_def)
qed simp

lemma group_by_entry:
  assumes "(k, g) \<in> set (group_by f xs)"
  shows "g = filter (\<lambda>x. f x = k) xs" "g \<noteq> []"
proof -
  have "gm_get (group_by f xs) k = Some g"
    using assms by (simp only: gm_get_some_iff [OF gm_ok_group_by])
  then have "gm_at [] (group_by f xs) k = g" by (simp add: gm_at_def)
  then show g: "g = filter (\<lambda>x. f x = k) xs" by (simp add: gm_at_group_by)
  have "k \<in> f ` set xs" using assms gm_keys_group_by [of f xs] by (metis fst_conv image_eqI)
  then show "g \<noteq> []" using g by (auto simp: filter_eq_nil_iff)
qed

lemma aggregate_keys: "map need_key (aggregate Q ns) = map fst (group_by need_key ns)"
proof -
  have "need_key (merge_all Q g) = k" if "(k, g) \<in> set (group_by need_key ns)" for k g
  proof -
    note ge = group_by_entry [OF that]
    have "hd g \<in> set (filter (\<lambda>x. need_key x = k) ns)" using ge by (metis hd_in_set)
    then show ?thesis using merge_all_key [OF ge(2)] by simp
  qed
  then show ?thesis by (auto simp: aggregate_refines aggregate_spec_def)
qed

lemma aggregate_row:
  assumes "r \<in> set (aggregate Q ns)"
  shows "r = merge_all Q (filter (\<lambda>n. need_key n = need_key r) ns)"
    and "filter (\<lambda>n. need_key n = need_key r) ns \<noteq> []"
proof -
  obtain k g where kg: "(k, g) \<in> set (group_by need_key ns)" "r = merge_all Q g"
    using assms by (auto simp: aggregate_refines aggregate_spec_def)
  note ge = group_by_entry [OF kg(1)]
  have "hd g \<in> set (filter (\<lambda>x. need_key x = k) ns)" using ge by (metis hd_in_set)
  then have "need_key r = k" using merge_all_key [OF ge(2)] kg(2) by simp
  then show "r = merge_all Q (filter (\<lambda>n. need_key n = need_key r) ns)"
    "filter (\<lambda>n. need_key n = need_key r) ns \<noteq> []" using ge kg by auto
qed

text \<open>The demand of a merged row in one dimension, when no partial sum exceeds the cap.\<close>

definition demand_of :: "'q qlib \<Rightarrow> ('q \<Rightarrow> rat) \<Rightarrow> need \<Rightarrow> string \<Rightarrow> rat" where
  "demand_of Q val n d = rval Q val (AggregateResources n) d"

lemma merge_all_demand:
  assumes "quantity_laws Q val" "ns \<noteq> []"
    and "\<forall>n\<in>set ns. 0 \<le> demand_of Q val n d" "sum_list (map (\<lambda>n. demand_of Q val n d) ns) \<le> q_cap"
  shows "demand_of Q val (merge_all Q ns) d = sum_list (map (\<lambda>n. demand_of Q val n d) ns)"
  using assms(2-)
proof (induction ns rule: rev_induct)
  case (snoc n ns)
  show ?case
  proof (cases "ns = []")
    case False
    have s: "0 \<le> sum_list (map (\<lambda>n. demand_of Q val n d) ns)"
      using snoc.prems by (intro sum_list_nonneg) auto
    have IH: "demand_of Q val (merge_all Q ns) d = sum_list (map (\<lambda>n. demand_of Q val n d) ns)"
      using snoc.prems False by (intro snoc.IH) auto
    have m: "AggregateResources (merge_need Q (merge_all Q ns) n)
        = add_resources Q (AggregateResources (merge_all Q ns)) (AggregateResources n)"
      by (simp add: merge_need_def Let_def)
    have "rval Q val (add_resources Q (AggregateResources (merge_all Q ns)) (AggregateResources n)) d
        = rval Q val (AggregateResources (merge_all Q ns)) d + rval Q val (AggregateResources n) d"
      using IH s snoc.prems by (intro rval_add [OF assms(1)]) (simp add: demand_of_def)
    then show ?thesis using IH False by (simp add: merge_all_snoc demand_of_def m)
  qed (simp add: merge_all_def)
qed simp

lemma merge_all_min_unit:
  assumes "quantity_laws Q val" "ns \<noteq> []"
  shows "rval Q val (MinUnit (merge_all Q ns)) d
    = Max ((\<lambda>n. rval Q val (MinUnit n) d) ` set ns)"
  using assms(2)
proof (induction ns rule: rev_induct)
  case (snoc n ns)
  show ?case
  proof (cases "ns = []")
    case False
    have m: "MinUnit (merge_need Q (merge_all Q ns) n)
        = max_resources Q (MinUnit (merge_all Q ns)) (MinUnit n)"
      by (simp add: merge_need_def Let_def)
    then show ?thesis
      using snoc False by (simp add: merge_all_snoc rval_max [OF assms(1)] max.commute)
  qed (simp add: merge_all_def)
qed simp

section \<open>The table of needs\<close>

record needs_table =
  byCluster :: "(string, need list) gomap"
  cached :: "need list option"
  dirty :: bool

definition new_table :: needs_table where
  "new_table = \<lparr>byCluster = [], cached = None, dirty = False\<rparr>"

definition table_replace :: "needs_table \<Rightarrow> string \<Rightarrow> need list \<Rightarrow> needs_table" where
  "table_replace t cluster n =
    (if length n = 0 then t\<lparr>byCluster := gm_del cluster (byCluster t), dirty := True\<rparr>
     else t\<lparr>byCluster := gm_set cluster n (byCluster t), dirty := True\<rparr>)"

definition need_less :: "need \<Rightarrow> need \<Rightarrow> bool" where
  "need_less a b \<longleftrightarrow>
    (if priority (nProfile a) \<noteq> priority (nProfile b)
     then priority (nProfile a) > priority (nProfile b)
     else if ArrivalUnixNanos a \<noteq> ArrivalUnixNanos b
     then ArrivalUnixNanos a < ArrivalUnixNanos b
     else nCluster a < nCluster b)"

text \<open>The sort permutes \<open>uint32\<close> indices and gathers the rows at the end.\<close>

definition sort_by_indices :: "need list \<Rightarrow> need list" where
  "sort_by_indices all =
    (let idx = map (\<lambda>i. i mod 2 ^ 32) [0..<length all];
         idx' = sort_less (\<lambda>i j. need_less (all ! i) (all ! j)) idx
     in map (\<lambda>j. all ! j) idx')"

definition table_snapshot :: "needs_table \<Rightarrow> need list \<times> needs_table" where
  "table_snapshot t =
    (case (dirty t, cached t) of
       (False, Some c) \<Rightarrow> (c, t)
     | _ \<Rightarrow>
       let sorted = sort_by_indices (concat (map snd (byCluster t)))
       in (sorted, t\<lparr>cached := Some sorted, dirty := False\<rparr>))"

record table_stats =
  Clusters :: nat
  NeedsCount :: nat

definition stats_of :: "needs_table \<Rightarrow> table_stats" where
  "stats_of t =
    (let s = \<lparr>Clusters = length (byCluster t), NeedsCount = 0\<rparr>
     in foldl (\<lambda>s (_, ns). s\<lparr>NeedsCount := NeedsCount s + length ns\<rparr>) s (byCluster t))"

interpretation need_cmp: comparator need_less "\<lambda>_. True"
  by unfold_locales (auto simp: need_less_def split: if_splits)

lemma sort_by_indices_eq:
  assumes "length all \<le> 2 ^ 32"
  shows "sort_by_indices all = sort_less need_less all"
proof -
  have "map (\<lambda>i. i mod 2 ^ 32) [0..<length all] = [0..<length all]"
    using assms by (intro map_idI) auto
  moreover have "map ((!) all) (sort_less (\<lambda>i j. need_less (all ! i) (all ! j)) [0..<length all])
      = sort_less need_less (map ((!) all) [0..<length all])"
    by (rule sort_less_map [symmetric])
  ultimately show ?thesis by (simp add: sort_by_indices_def map_nth)
qed

text \<open>Each cluster's slice holds that cluster's needs, and the cache is the current answer.\<close>

definition table_rows :: "needs_table \<Rightarrow> need list" where
  "table_rows t = concat (map snd (byCluster t))"

definition table_ok :: "needs_table \<Rightarrow> bool" where
  "table_ok t \<longleftrightarrow> gm_ok (byCluster t)
    \<and> (\<forall>(c, ns)\<in>set (byCluster t). ns \<noteq> [])
    \<and> (\<not> dirty t \<longrightarrow> (\<forall>c. cached t = Some c \<longrightarrow> c = sort_by_indices (table_rows t)))"

lemma table_ok_new: "table_ok new_table"
  by (simp add: table_ok_def new_table_def)

lemma table_ok_replace: "table_ok t \<Longrightarrow> table_ok (table_replace t c ns)"
  by (auto simp: table_ok_def table_replace_def gm_mem_del intro: distinct_update distinct_delete
      dest!: gm_mem_set)

lemma table_snapshot_result:
  "table_ok t \<Longrightarrow> fst (table_snapshot t) = sort_by_indices (table_rows t)"
  by (auto simp: table_ok_def table_snapshot_def Let_def table_rows_def
      split: bool.splits option.splits)

lemma table_ok_snapshot: "table_ok t \<Longrightarrow> table_ok (snd (table_snapshot t))"
  by (auto simp: table_ok_def table_snapshot_def Let_def table_rows_def
      split: bool.splits option.splits)

lemma byCluster_snapshot [simp]: "byCluster (snd (table_snapshot t)) = byCluster t"
  by (auto simp: table_snapshot_def Let_def split: bool.splits option.splits)

lemma stats_needs: "NeedsCount (stats_of t) = length (table_rows t)"
proof -
  have n: "NeedsCount (foldl (\<lambda>s (_, ns). s\<lparr>NeedsCount := NeedsCount s + length ns\<rparr>) s m)
      = NeedsCount s + length (concat (map snd m))" for s and m :: "(string, need list) gomap"
    by (induction m arbitrary: s) (auto simp: case_prod_beta)
  show ?thesis unfolding stats_of_def table_rows_def Let_def n by simp
qed

text \<open>
  A shard keys each slice by the cluster its needs carry, so the needs that the comparator
  does not separate stand in one slice and keep their order there whatever the map order.
\<close>

lemma rows_of_cluster:
  assumes "gm_ok m" "\<forall>(c, ns)\<in>set m. \<forall>n\<in>set ns. nCluster n = c"
  shows "filter (\<lambda>n. nCluster n = c \<and> P n) (concat (map snd m)) = filter P (gm_at [] m c)"
  using assms
proof (induction m)
  case Nil
  then show ?case by (simp add: gm_at_def)
next
  case (Cons kv m)
  obtain k ns where kv: "kv = (k, ns)" by (cases kv)
  have IH: "filter (\<lambda>n. nCluster n = c \<and> P n) (concat (map snd m)) = filter P (gm_at [] m c)"
    using Cons by auto
  show ?case
  proof (cases "k = c")
    case True
    have "gm_get m c = None" using Cons.prems kv True by (auto simp: gm_get_none_iff)
    moreover have "filter (\<lambda>n. nCluster n = c \<and> P n) ns = filter P ns"
      using Cons.prems kv True by (intro filter_cong) auto
    ultimately show ?thesis using kv True IH by (simp add: gm_at_def)
  next
    case False
    have "filter (\<lambda>n. nCluster n = c \<and> P n) ns = []"
      using Cons.prems kv False by (auto simp: filter_eq_nil_iff)
    then show ?thesis using kv False IH by (simp add: gm_at_def)
  qed
qed

lemma sort_rows_order_independent:
  assumes "mset m = mset m'" "gm_ok m"
    and own: "\<forall>(c, ns)\<in>set m. \<forall>n\<in>set ns. nCluster n = c"
  shows "sort_less need_less (concat (map snd m)) = sort_less need_less (concat (map snd m'))"
proof (rule need_cmp.sort_less_classes)
  fix z :: need
  let ?P = "\<lambda>n. priority (nProfile n) = priority (nProfile z)
    \<and> ArrivalUnixNanos n = ArrivalUnixNanos z"
  have e: "(\<lambda>y. \<not> need_less z y \<and> \<not> need_less y z) = (\<lambda>y. nCluster y = nCluster z \<and> ?P y)"
    by (rule ext) (auto simp: need_less_def)
  have d: "gm_ok m'" using assms(1,2) by (metis mset_map mset_eq_imp_distinct_iff)
  have s: "set m = set m'" using assms(1) by (rule mset_eq_setD)
  have "gm_get m = gm_get m'" using assms(2) d s by (simp add: map_of_inject_set)
  then have "gm_at [] m = gm_at [] m'" by (simp add: gm_at_def fun_eq_iff)
  then show "filter (\<lambda>y. \<not> need_less z y \<and> \<not> need_less y z) (concat (map snd m))
      = filter (\<lambda>y. \<not> need_less z y \<and> \<not> need_less y z) (concat (map snd m'))"
    using own s rows_of_cluster [OF assms(2) own, of "nCluster z" ?P]
      rows_of_cluster [OF d, of "nCluster z" ?P] by (simp only: e)
qed simp_all

end
