(* ===== verification/Machine.thy ===== *)
theory Machine
  imports Float64
begin

text \<open>
  Package \<open>machine\<close> (\<open>pkg/machine/machine.go\<close>, \<open>pkg/machine/shardmetadata.go\<close>): the
  machine record, its state machine and structural invariant, the locked cost formula, and
  the shard metadata a provider stores and echoes.
\<close>

section \<open>States and capacity types\<close>

datatype state = StateUnspecified | StateSpeculative | StateCreating | StateIdle
  | StateConfiguring | StateConfigured | StateDraining | StateDeleting | StateFailed

fun state_string :: "state \<Rightarrow> string" where
  "state_string StateSpeculative = ''Speculative''"
| "state_string StateCreating = ''Creating''"
| "state_string StateIdle = ''Idle''"
| "state_string StateConfiguring = ''Configuring''"
| "state_string StateConfigured = ''Configured''"
| "state_string StateDraining = ''Draining''"
| "state_string StateDeleting = ''Deleting''"
| "state_string StateFailed = ''Failed''"
| "state_string StateUnspecified = ''State(0)''"

definition is_stable :: "state \<Rightarrow> bool" where
  "is_stable s \<longleftrightarrow> s = StateSpeculative \<or> s = StateIdle \<or> s = StateConfigured"

datatype capacity_type = CapacityTypeUnspecified | CapacityTypeBareMetal | CapacityTypeReserved
  | CapacityTypeOnDemand | CapacityTypeSpot

fun capacity_type_string :: "capacity_type \<Rightarrow> string" where
  "capacity_type_string CapacityTypeBareMetal = ''BareMetal''"
| "capacity_type_string CapacityTypeReserved = ''Reserved''"
| "capacity_type_string CapacityTypeOnDemand = ''OnDemand''"
| "capacity_type_string CapacityTypeSpot = ''Spot''"
| "capacity_type_string CapacityTypeUnspecified = ''CapacityType(0)''"

section \<open>The machine record\<close>

record host_ref =
  hrProvider :: string
  hrRef :: string

definition host_empty :: "host_ref \<Rightarrow> bool" where
  "host_empty h \<longleftrightarrow> hrProvider h = '''' \<and> hrRef h = ''''"

definition no_host :: host_ref where
  "no_host = \<lparr>hrProvider = '''', hrRef = ''''\<rparr>"

record mprofile =
  InstanceType :: string
  Zone :: string
  CapacityType :: capacity_type
  Resources :: "(string, string) gomap"
  Labels :: "(string, string) gomap"

record machine =
  ID :: string
  State :: state
  Host :: host_ref
  Cluster :: string
  MProfile :: mprofile
  PricePerHour :: f64
  InterruptionProbability :: f64
  LastError :: string
  AssignedPriority :: int
  AssignedInterruptionPenalty :: f64
  AssignedReclamationPenalty :: f64
  AssignedNeedFingerprint :: string
  AssignedGroup :: string
  Allocatable :: "(string, string) gomap"
  ShardMetadata :: "(string, string) gomap"

text \<open>Go's zero value of the struct.\<close>

definition zero_mprofile :: mprofile where
  "zero_mprofile = \<lparr>InstanceType = '''', Zone = '''', CapacityType = CapacityTypeUnspecified,
     Resources = [], Labels = []\<rparr>"

definition zero_machine :: machine where
  "zero_machine = \<lparr>ID = '''', State = StateUnspecified, Host = no_host, Cluster = '''',
     MProfile = zero_mprofile, PricePerHour = f64_zero, InterruptionProbability = f64_zero,
     LastError = '''', AssignedPriority = 0, AssignedInterruptionPenalty = f64_zero,
     AssignedReclamationPenalty = f64_zero, AssignedNeedFingerprint = '''', AssignedGroup = '''',
     Allocatable = [], ShardMetadata = []\<rparr>"

section \<open>The state machine\<close>

definition valid_transitions :: "(state, state list) gomap" where
  "valid_transitions =
    [(StateSpeculative, [StateCreating]),
     (StateCreating, [StateIdle, StateFailed]),
     (StateIdle, [StateConfiguring, StateDeleting]),
     (StateConfiguring, [StateConfigured, StateFailed, StateIdle]),
     (StateConfigured, [StateDraining]),
     (StateDraining, [StateIdle, StateFailed]),
     (StateDeleting, [StateSpeculative, StateFailed])]"

definition can_transition :: "state \<Rightarrow> state \<Rightarrow> bool" where
  "can_transition from to =
    (if to = StateFailed then
       from = StateCreating \<or> from = StateConfiguring \<or> from = StateDraining \<or> from = StateDeleting
     else (case gm_get valid_transitions from of
             None \<Rightarrow> False
           | Some allowed \<Rightarrow> to \<in> set allowed))"

datatype machine_error =
    ErrInvalidTransition state state
  | ErrHostForbidden string state
  | ErrClusterForbidden string state
  | ErrHostMissing string state
  | ErrClusterMissing string state
  | ErrLastErrorMissing string
  | ErrStateUnspecified string
  | ErrProbability string
  | ErrPrice string

definition check_transition :: "state \<Rightarrow> state \<Rightarrow> machine_error option" where
  "check_transition from to =
    (if can_transition from to then None else Some (ErrInvalidTransition from to))"

lemma can_transition_simps [simp]:
  "can_transition StateSpeculative t \<longleftrightarrow> t = StateCreating"
  "can_transition StateCreating t \<longleftrightarrow> t = StateIdle \<or> t = StateFailed"
  "can_transition StateIdle t \<longleftrightarrow> t = StateConfiguring \<or> t = StateDeleting"
  "can_transition StateConfiguring t \<longleftrightarrow> t = StateConfigured \<or> t = StateFailed \<or> t = StateIdle"
  "can_transition StateConfigured t \<longleftrightarrow> t = StateDraining"
  "can_transition StateDraining t \<longleftrightarrow> t = StateIdle \<or> t = StateFailed"
  "can_transition StateDeleting t \<longleftrightarrow> t = StateSpeculative \<or> t = StateFailed"
  "\<not> can_transition StateFailed t"
  "\<not> can_transition StateUnspecified t"
  by (auto simp: can_transition_def valid_transitions_def)

text \<open>Histories: lists of states each of which the state machine allows after the one before.\<close>

inductive lifecycle :: "state \<Rightarrow> state list \<Rightarrow> bool" where
  lc_start: "lifecycle s [s]"
| lc_step: "lifecycle s (h @ [t]) \<Longrightarrow> can_transition t u \<Longrightarrow> lifecycle s (h @ [t, u])"

inductive_cases lifecycle_sing: "lifecycle s [t]"

lemma lifecycle_snocD:
  assumes "lifecycle s (h @ [t, u])"
  shows "lifecycle s (h @ [t])" "can_transition t u"
  using assms by (auto elim: lifecycle.cases)

lemma lifecycle_nonempty: "lifecycle s h \<Longrightarrow> h \<noteq> [] \<and> hd h = s"
  by (induction rule: lifecycle.induct) (auto simp: hd_append)

text \<open>Where a machine bound to a cluster has come from.\<close>

lemma lifecycle_before:
  assumes "lifecycle s (h @ [u])" "u \<noteq> s"
  obtains h' t where "h = h' @ [t]" "lifecycle s (h' @ [t])" "can_transition t u"
proof (cases h rule: rev_cases)
  case Nil
  then show ?thesis using assms lifecycle_nonempty by fastforce
next
  case (snoc h' t)
  then show ?thesis using assms that lifecycle_snocD [of s h' t u] by simp
qed

lemma lifecycle_configuring_idle:
  assumes "lifecycle s (h @ [StateConfiguring])" "s \<noteq> StateConfiguring"
  shows "StateIdle \<in> set h"
proof -
  obtain h' t where "h = h' @ [t]" "can_transition t StateConfiguring"
    using lifecycle_before assms by metis
  then show ?thesis by (cases t) auto
qed

lemma lifecycle_configured_configuring:
  assumes "lifecycle s (h @ [StateConfigured])" "s \<noteq> StateConfigured"
  obtains h' where "h = h' @ [StateConfiguring]" "lifecycle s (h' @ [StateConfiguring])"
proof -
  obtain h' t where "h = h' @ [t]" "lifecycle s (h' @ [t])" "can_transition t StateConfigured"
    using lifecycle_before assms by metis
  then show ?thesis using that by (cases t) auto
qed

lemma lifecycle_failed_last: "lifecycle s h \<Longrightarrow> StateFailed \<in> set (butlast h) \<Longrightarrow> False"
proof (induction rule: lifecycle.induct)
  case (lc_step s h t u)
  then show ?case by (auto simp: butlast_append)
qed simp

section \<open>Capacity and cost\<close>

definition effective_allocatable :: "machine \<Rightarrow> (string, string) gomap" where
  "effective_allocatable m =
    (if length (Allocatable m) > 0 then Allocatable m else Resources (MProfile m))"

definition effective_cost :: "machine \<Rightarrow> f64 \<Rightarrow> f64" where
  "effective_cost m penalty0 =
    (let penalty = (if f64_lt penalty0 f64_zero then f64_zero else penalty0)
     in f64_add (PricePerHour m) (f64_mul (InterruptionProbability m) penalty))"

section \<open>The structural invariant\<close>

text \<open>\<open>None\<close> when the record is well formed, otherwise the first violation, as the code finds it.\<close>

definition cost_bounds :: "machine \<Rightarrow> machine_error option" where
  "cost_bounds m =
    (if f64_lt (InterruptionProbability m) f64_zero
        \<or> f64_gt (InterruptionProbability m) (FFin 1)
        \<or> InterruptionProbability m = FNaN
     then Some (ErrProbability (ID m))
     else if f64_lt (PricePerHour m) f64_zero \<or> PricePerHour m = FNaN
     then Some (ErrPrice (ID m))
     else None)"

definition invariant :: "machine \<Rightarrow> machine_error option" where
  "invariant m =
    (if State m \<in> {StateSpeculative, StateCreating} \<and> \<not> host_empty (Host m)
     then Some (ErrHostForbidden (ID m) (State m))
     else if State m \<in> {StateSpeculative, StateCreating} \<and> Cluster m \<noteq> ''''
     then Some (ErrClusterForbidden (ID m) (State m))
     else if State m \<in> {StateIdle, StateConfiguring, StateDeleting} \<and> host_empty (Host m)
     then Some (ErrHostMissing (ID m) (State m))
     else if State m \<in> {StateConfigured, StateDraining} \<and> host_empty (Host m)
     then Some (ErrHostMissing (ID m) (State m))
     else if State m \<in> {StateConfigured, StateDraining} \<and> Cluster m = ''''
     then Some (ErrClusterMissing (ID m) (State m))
     else if State m = StateFailed \<and> LastError m = ''''
     then Some (ErrLastErrorMissing (ID m))
     else if State m = StateUnspecified
     then Some (ErrStateUnspecified (ID m))
     else cost_bounds m)"

text \<open>What a well-formed record promises, state by state.\<close>

definition wf_machine :: "machine \<Rightarrow> bool" where
  "wf_machine m \<longleftrightarrow>
    (case State m of
       StateSpeculative \<Rightarrow> host_empty (Host m) \<and> Cluster m = ''''
     | StateCreating \<Rightarrow> host_empty (Host m) \<and> Cluster m = ''''
     | StateIdle \<Rightarrow> \<not> host_empty (Host m)
     | StateConfiguring \<Rightarrow> \<not> host_empty (Host m)
     | StateDeleting \<Rightarrow> \<not> host_empty (Host m)
     | StateConfigured \<Rightarrow> \<not> host_empty (Host m) \<and> Cluster m \<noteq> ''''
     | StateDraining \<Rightarrow> \<not> host_empty (Host m) \<and> Cluster m \<noteq> ''''
     | StateFailed \<Rightarrow> LastError m \<noteq> ''''
     | StateUnspecified \<Rightarrow> False)
    \<and> f64_le f64_zero (InterruptionProbability m) \<and> f64_le (InterruptionProbability m) (FFin 1)
    \<and> f64_le f64_zero (PricePerHour m)"

lemma cost_bounds_none:
  "cost_bounds m = None \<longleftrightarrow>
    f64_le f64_zero (InterruptionProbability m) \<and> f64_le (InterruptionProbability m) (FFin 1)
    \<and> f64_le f64_zero (PricePerHour m)"
  by (auto simp: cost_bounds_def f64_le_iff)

lemma invariant_none_iff: "invariant m = None \<longleftrightarrow> wf_machine m"
  by (cases "State m") (auto simp: invariant_def wf_machine_def cost_bounds_none)

lemma wf_machine_price:
  "wf_machine m \<Longrightarrow> f64_nonneg (PricePerHour m)"
  by (simp add: wf_machine_def f64_nonneg_def)

lemma wf_machine_prob:
  assumes "wf_machine m"
  obtains q where "InterruptionProbability m = FFin q" "0 \<le> q" "q \<le> 1"
  using assms by (cases "InterruptionProbability m") (auto simp: wf_machine_def)

text \<open>The cost of a well-formed machine under a finite penalty is a number, at least its price.\<close>

lemma effective_cost_nonneg:
  assumes "wf_machine m" "p \<noteq> FPInf" "p \<noteq> FNaN"
  shows "f64_nonneg (effective_cost m p)"
proof -
  obtain q where q: "InterruptionProbability m = FFin q" "0 \<le> q" using assms(1) by (rule wf_machine_prob)
  have "f64_nonneg (f64_mul (FFin q) (if f64_lt p f64_zero then f64_zero else p))"
    using q assms(2,3) by (cases p) (auto intro!: f64_nonneg_round)
  then show ?thesis
    using wf_machine_price [OF assms(1)] q by (simp add: effective_cost_def Let_def f64_add_nonneg)
qed

section \<open>Shard metadata\<close>

definition key_priority :: string where
  "key_priority = ''bigfleet.lucy.sh/assigned-priority''"

definition key_interruption :: string where
  "key_interruption = ''bigfleet.lucy.sh/assigned-interruption-penalty-dollars''"

definition key_reclamation :: string where
  "key_reclamation = ''bigfleet.lucy.sh/assigned-reclamation-penalty-dollars''"

definition key_fingerprint :: string where
  "key_fingerprint = ''bigfleet.lucy.sh/assigned-need-fingerprint''"

definition key_group :: string where
  "key_group = ''bigfleet.lucy.sh/assigned-group''"

lemmas shard_metadata_keys =
  key_priority_def key_interruption_def key_reclamation_def key_fingerprint_def key_group_def

text \<open>
  The penalties travel as text rendered by \<open>strconv.FormatFloat (x, 'g', -1, 64)\<close> and read
  back by \<open>strconv.ParseFloat\<close>; the two conversions are arguments of the model.
\<close>

definition encode_shard_metadata ::
    "(f64 \<Rightarrow> string) \<Rightarrow> int \<Rightarrow> f64 \<Rightarrow> f64 \<Rightarrow> string \<Rightarrow> string \<Rightarrow> (string, string) gomap" where
  "encode_shard_metadata fmtF priority ip rp fp grp =
    [(key_priority, dec_int priority), (key_interruption, fmtF ip), (key_reclamation, fmtF rp),
     (key_fingerprint, fp), (key_group, grp)]"

datatype decode_error = BadPriority string | BadInterruption string | BadReclamation string

text \<open>
  One well-known key: absent, the field stays; malformed, the error is collected and the field
  stays; otherwise the field is set.
\<close>

definition decode_key ::
    "(string, string) gomap \<Rightarrow> string \<Rightarrow> (string \<Rightarrow> 'a option) \<Rightarrow> ('a \<Rightarrow> machine \<Rightarrow> machine)
      \<Rightarrow> (string \<Rightarrow> decode_error) \<Rightarrow> machine \<times> decode_error list \<Rightarrow> machine \<times> decode_error list" where
  "decode_key md k parse upd bad st =
    (case gm_get md k of
       None \<Rightarrow> st
     | Some v \<Rightarrow> (case parse v of
           None \<Rightarrow> (fst st, snd st @ [bad v])
         | Some x \<Rightarrow> (upd x (fst st), snd st)))"

definition decode_shard_metadata ::
    "(string \<Rightarrow> f64 option) \<Rightarrow> machine \<Rightarrow> machine \<times> decode_error list" where
  "decode_shard_metadata parseF m =
    (let md = ShardMetadata m in
     if length md = 0 then (m, []) else
     let st1 = decode_key md key_priority (parse_dec in_i32) (\<lambda>p m. m\<lparr>AssignedPriority := p\<rparr>)
                 BadPriority (m, []);
         st2 = decode_key md key_interruption parseF
                 (\<lambda>d m. m\<lparr>AssignedInterruptionPenalty := d\<rparr>) BadInterruption st1;
         st3 = decode_key md key_reclamation parseF
                 (\<lambda>d m. m\<lparr>AssignedReclamationPenalty := d\<rparr>) BadReclamation st2;
         st4 = decode_key md key_fingerprint Some
                 (\<lambda>v m. m\<lparr>AssignedNeedFingerprint := v\<rparr>) BadPriority st3
     in decode_key md key_group Some (\<lambda>v m. m\<lparr>AssignedGroup := v\<rparr>) BadPriority st4)"

lemma encode_lookups [simp]:
  "gm_get (encode_shard_metadata f p i r fp g) key_priority = Some (dec_int p)"
  "gm_get (encode_shard_metadata f p i r fp g) key_interruption = Some (f i)"
  "gm_get (encode_shard_metadata f p i r fp g) key_reclamation = Some (f r)"
  "gm_get (encode_shard_metadata f p i r fp g) key_fingerprint = Some fp"
  "gm_get (encode_shard_metadata f p i r fp g) key_group = Some g"
  "encode_shard_metadata f p i r fp g \<noteq> []"
  by (simp_all add: encode_shard_metadata_def shard_metadata_keys)

lemma decode_key_frame:
  "(\<And>x m. f (upd x m) = f m) \<Longrightarrow> f (fst (decode_key md k parse upd bad st)) = f (fst st)"
  by (auto simp: decode_key_def split: option.splits)

text \<open>Decoding touches the \<open>Assigned*\<close> fields only, so it keeps a record well formed.\<close>

lemma decode_frame:
  "State (fst (decode_shard_metadata parseF m)) = State m"
  "ID (fst (decode_shard_metadata parseF m)) = ID m"
  "Host (fst (decode_shard_metadata parseF m)) = Host m"
  "Cluster (fst (decode_shard_metadata parseF m)) = Cluster m"
  "PricePerHour (fst (decode_shard_metadata parseF m)) = PricePerHour m"
  "InterruptionProbability (fst (decode_shard_metadata parseF m)) = InterruptionProbability m"
  "LastError (fst (decode_shard_metadata parseF m)) = LastError m"
  by (simp_all add: decode_shard_metadata_def Let_def decode_key_frame)

lemma decode_wf: "wf_machine (fst (decode_shard_metadata parseF m)) \<longleftrightarrow> wf_machine m"
  by (cases "State m") (simp_all add: wf_machine_def decode_frame)

end
