(* ===== verification/Inventory.thy ===== *)
theory Inventory
  imports Machine
begin

text \<open>
  Package \<open>inventory\<close> (\<open>pkg/inventory/inventory.go\<close>): the shard's machine store, its
  validated writes and idle-since stamps, and the read-only snapshot with the indexes the
  decision engine reads.
\<close>

section \<open>The store\<close>

text \<open>Instants are nanoseconds; the clock a write reads is its argument \<open>now\<close>.\<close>

record inventory =
  byID :: "(string, machine) gomap"
  idleSince :: "(string, int) gomap"

datatype inventory_error =
    InvInvariant machine_error
  | InvExists string
  | InvNotFound string
  | InvTransition machine_error

definition new_inventory :: inventory where
  "new_inventory = \<lparr>byID = [], idleSince = []\<rparr>"

definition inv_insert :: "int \<Rightarrow> inventory \<Rightarrow> machine \<Rightarrow> inventory_error option \<times> inventory" where
  "inv_insert now i m =
    (case invariant m of
       Some e \<Rightarrow> (Some (InvInvariant e), i)
     | None \<Rightarrow>
       if gm_get (byID i) (ID m) \<noteq> None then (Some (InvExists (ID m)), i)
       else
         let i1 = i\<lparr>byID := gm_set (ID m) m (byID i)\<rparr>
         in (None, if State m = StateIdle then i1\<lparr>idleSince := gm_set (ID m) now (idleSince i1)\<rparr>
                   else i1))"

definition inv_apply :: "int \<Rightarrow> inventory \<Rightarrow> machine \<Rightarrow> inventory_error option \<times> inventory" where
  "inv_apply now i m =
    (case invariant m of
       Some e \<Rightarrow> (Some (InvInvariant e), i)
     | None \<Rightarrow>
       (case gm_get (byID i) (ID m) of
          None \<Rightarrow> (Some (InvNotFound (ID m)), i)
        | Some old \<Rightarrow>
          (case (if State old \<noteq> State m then check_transition (State old) (State m) else None) of
             Some e \<Rightarrow> (Some (InvTransition e), i)
           | None \<Rightarrow>
             let i1 = i\<lparr>byID := gm_set (ID m) m (byID i)\<rparr>
             in (None,
                 if State m = StateIdle \<and> State old \<noteq> StateIdle
                 then i1\<lparr>idleSince := gm_set (ID m) now (idleSince i1)\<rparr>
                 else if State m \<noteq> StateIdle
                 then i1\<lparr>idleSince := gm_del (ID m) (idleSince i1)\<rparr>
                 else i1))))"

definition inv_remove :: "inventory \<Rightarrow> string \<Rightarrow> inventory_error option \<times> inventory" where
  "inv_remove i k =
    (case gm_get (byID i) k of
       None \<Rightarrow> (Some (InvNotFound k), i)
     | Some _ \<Rightarrow> (None, i\<lparr>byID := gm_del k (byID i), idleSince := gm_del k (idleSince i)\<rparr>))"

definition inv_get :: "inventory \<Rightarrow> string \<Rightarrow> inventory_error + machine" where
  "inv_get i k = (case gm_get (byID i) k of None \<Rightarrow> Inl (InvNotFound k) | Some m \<Rightarrow> Inr m)"

definition inv_len :: "inventory \<Rightarrow> nat" where
  "inv_len i = length (byID i)"

subsection \<open>The store's invariant\<close>

definition inv_ok :: "inventory \<Rightarrow> bool" where
  "inv_ok i \<longleftrightarrow>
    gm_ok (byID i) \<and> gm_ok (idleSince i)
    \<and> (\<forall>k m. gm_get (byID i) k = Some m \<longrightarrow> ID m = k \<and> wf_machine m)
    \<and> (\<forall>k. (\<exists>t. gm_get (idleSince i) k = Some t)
        \<longleftrightarrow> (\<exists>m. gm_get (byID i) k = Some m \<and> State m = StateIdle))"

lemma inv_okD:
  assumes "inv_ok i"
  shows "gm_ok (byID i)" "gm_ok (idleSince i)"
    and "gm_get (byID i) k = Some m \<Longrightarrow> ID m = k"
    and "gm_get (byID i) k = Some m \<Longrightarrow> wf_machine m"
    and "(\<exists>t. gm_get (idleSince i) k = Some t) \<longleftrightarrow> (\<exists>m. gm_get (byID i) k = Some m \<and> State m = StateIdle)"
  using assms by (auto simp: inv_ok_def simp del: map_of_eq_Some_iff)

lemma inv_ok_new: "inv_ok new_inventory"
  by (simp add: inv_ok_def new_inventory_def)

lemma inv_ok_insert: "inv_ok i \<Longrightarrow> inv_ok (snd (inv_insert now i m))"
  by (auto simp: inv_insert_def inv_ok_def Let_def invariant_none_iff
      simp del: map_of_eq_Some_iff intro: distinct_update split: option.splits)

lemma inv_ok_apply: "inv_ok i \<Longrightarrow> inv_ok (snd (inv_apply now i m))"
  by (auto simp: inv_apply_def inv_ok_def Let_def invariant_none_iff
      simp del: map_of_eq_Some_iff intro: distinct_update distinct_delete split: option.splits)

lemma inv_ok_remove: "inv_ok i \<Longrightarrow> inv_ok (snd (inv_remove i k))"
  by (auto simp: inv_remove_def inv_ok_def simp del: map_of_eq_Some_iff intro: distinct_delete
      split: option.splits)

subsection \<open>Histories of the store\<close>

datatype inv_op = OpInsert machine | OpApply machine | OpRemove string

fun inv_do :: "int \<Rightarrow> inv_op \<Rightarrow> inventory \<Rightarrow> inventory" where
  "inv_do now (OpInsert m) i = snd (inv_insert now i m)"
| "inv_do now (OpApply m) i = snd (inv_apply now i m)"
| "inv_do now (OpRemove k) i = snd (inv_remove i k)"

text \<open>The inventories a run goes through, each with the instant it was reached.\<close>

inductive inv_history :: "(int \<times> inventory) list \<Rightarrow> bool" where
  ih_new: "inv_history [(now, new_inventory)]"
| ih_op: "inv_history (h @ [(t, i)]) \<Longrightarrow> t \<le> now \<Longrightarrow> inv_history (h @ [(t, i), (now, inv_do now op i)])"

lemma inv_ok_do: "inv_ok i \<Longrightarrow> inv_ok (inv_do now op i)"
  by (cases op) (auto simp: inv_ok_insert inv_ok_apply inv_ok_remove)

lemma inv_history_ok: "inv_history h \<Longrightarrow> \<forall>(t, i)\<in>set h. inv_ok i"
proof (induction rule: inv_history.induct)
  case (ih_op h t i now op)
  then show ?case by (auto intro: inv_ok_do)
qed (simp add: inv_ok_new)

text \<open>The state an inventory has a machine in.\<close>

definition state_in :: "inventory \<Rightarrow> string \<Rightarrow> state option" where
  "state_in i k = map_option State (gm_get (byID i) k)"

lemma do_transition:
  assumes "inv_ok i" "state_in i k = Some s" "state_in (inv_do now op i) k = Some s'"
  shows "s' = s \<or> can_transition s s'"
proof (cases op)
  case (OpApply m)
  then show ?thesis using assms
    by (auto simp: state_in_def inv_apply_def check_transition_def Let_def
        split: option.splits if_splits)
qed (use assms in \<open>auto simp: state_in_def inv_insert_def inv_remove_def Let_def
      split: option.splits if_splits\<close>)

text \<open>A stamp is made on entry to Idle and kept while the machine stays there.\<close>

lemma do_stamp:
  assumes "inv_ok i" "gm_get (idleSince (inv_do now op i)) k = Some t"
  shows "state_in (inv_do now op i) k = Some StateIdle
    \<and> (t = now \<and> state_in i k \<noteq> Some StateIdle
       \<or> gm_get (idleSince i) k = Some t \<and> state_in i k = Some StateIdle)"
proof -
  have ok': "inv_ok (inv_do now op i)" by (rule inv_ok_do [OF assms(1)])
  have st: "state_in (inv_do now op i) k = Some StateIdle"
    using inv_okD(5) [OF ok', of k] assms(2) by (auto simp: state_in_def)
  have old: "state_in i k = Some StateIdle" if "gm_get (idleSince i) k = Some t'" for t'
    using inv_okD(5) [OF assms(1), of k] that by (auto simp: state_in_def)
  have "t = now \<and> state_in i k \<noteq> Some StateIdle \<or> gm_get (idleSince i) k = Some t"
    using assms
    by (cases op) (auto simp: inv_insert_def inv_apply_def inv_remove_def state_in_def Let_def
        split: option.splits if_splits)
  then show ?thesis using st old by blast
qed

text \<open>
  A stamp \<open>t\<close> in a history was made at \<open>t\<close>, by the write that brought the machine into Idle,
  and the machine has been Idle in every inventory since.
\<close>

lemma history_stamp:
  assumes "inv_history h" "gm_get (idleSince (snd (last h))) k = Some t"
  shows "\<exists>h1 i0 h2. h = h1 @ (t, i0) # h2
    \<and> (\<forall>(_, i)\<in>set ((t, i0) # h2). state_in i k = Some StateIdle)
    \<and> (h1 = [] \<or> state_in (snd (last h1)) k \<noteq> Some StateIdle)"
  using assms
proof (induction rule: inv_history.induct)
  case (ih_new now)
  then show ?case by (simp add: new_inventory_def)
next
  case (ih_op h u i now op)
  have ok: "inv_ok i" using inv_history_ok [OF ih_op.hyps(1)] by auto
  have st: "gm_get (idleSince (inv_do now op i)) k = Some t" using ih_op.prems by simp
  note ds = do_stamp [OF ok st]
  show ?case
  proof (cases "t = now \<and> state_in i k \<noteq> Some StateIdle")
    case True
    have "h @ [(u, i), (now, inv_do now op i)] = (h @ [(u, i)]) @ (t, inv_do now op i) # []"
      using True by simp
    moreover have "state_in (snd (last (h @ [(u, i)]))) k \<noteq> Some StateIdle" using True by simp
    moreover have "\<forall>(_, j)\<in>set [(t, inv_do now op i)]. state_in j k = Some StateIdle" using ds by simp
    ultimately show ?thesis by (intro exI conjI disjI2)
  next
    case False
    then obtain h1 i0 h2 where e: "h @ [(u, i)] = h1 @ (t, i0) # h2"
        "\<forall>(_, i)\<in>set ((t, i0) # h2). state_in i k = Some StateIdle"
        "h1 = [] \<or> state_in (snd (last h1)) k \<noteq> Some StateIdle"
      using ih_op.IH ds by auto
    have "h @ [(u, i), (now, inv_do now op i)] = h1 @ (t, i0) # (h2 @ [(now, inv_do now op i)])"
      using e(1) by (metis append.assoc append_Cons append_Nil)
    moreover have "\<forall>(_, j)\<in>set ((t, i0) # (h2 @ [(now, inv_do now op i)])). state_in j k = Some StateIdle"
      using e(2) ds by auto
    ultimately show ?thesis using e(3) by (intro exI conjI)
  qed
qed

section \<open>Snapshots\<close>

type_synonym ('a, 'b, 'c) gomap2 = "('a, ('b, 'c) gomap) gomap"

record snapshot =
  snMachines :: "machine list"
  snById :: "(string, nat) gomap"
  snByState :: "(state, string list) gomap"
  snByClusterState :: "(string, state, string list) gomap2"
  snByStateInstanceTp :: "(state, string, string list) gomap2"
  snBucketsByStateInstanceTp :: "(state, string, machine list) gomap2"
  snBucketsByClusterState :: "(string, state, machine list) gomap2"
  snMinPriorityByStateInstanceTp :: "(state, string, int) gomap2"
  snMinPriorityByState :: "(state, int) gomap"
  snIdleSince :: "(string, int) gomap"

definition empty_snapshot :: snapshot where
  "empty_snapshot = \<lparr>snMachines = [], snById = [], snByState = [], snByClusterState = [],
     snByStateInstanceTp = [], snBucketsByStateInstanceTp = [], snBucketsByClusterState = [],
     snMinPriorityByStateInstanceTp = [], snMinPriorityByState = [], snIdleSince = []\<rparr>"

text \<open>Append to the inner map, which is made on the first use of the outer key.\<close>

definition gm_append2 :: "'a \<Rightarrow> 'b \<Rightarrow> 'c \<Rightarrow> ('a, 'b, 'c list) gomap2 \<Rightarrow> ('a, 'b, 'c list) gomap2" where
  "gm_append2 a b x m = gm_set a (gm_append b x (gm_at [] m a)) m"

text \<open>Map the innermost values of a two-level map, keeping its iteration order.\<close>

definition gm_map2 :: "('c \<Rightarrow> 'd) \<Rightarrow> ('a, 'b, 'c) gomap2 \<Rightarrow> ('a, 'b, 'd) gomap2" where
  "gm_map2 f m = map (\<lambda>(a, inner). (a, map (\<lambda>(b, x). (b, f x)) inner)) m"

text \<open>One iteration of the loop over the sorted IDs.\<close>

definition index_machine :: "inventory \<Rightarrow> snapshot \<Rightarrow> string \<Rightarrow> snapshot" where
  "index_machine i s k =
    (let m = gm_at zero_machine (byID i) k;
         s = s\<lparr>snById := gm_set k (length (snMachines s)) (snById s),
               snMachines := snMachines s @ [m],
               snByState := gm_append (State m) k (snByState s)\<rparr>;
         s = (if Cluster m \<noteq> ''''
              then s\<lparr>snByClusterState := gm_append2 (Cluster m) (State m) k (snByClusterState s)\<rparr>
              else s)
     in if InstanceType (MProfile m) \<noteq> ''''
        then s\<lparr>snByStateInstanceTp :=
               gm_append2 (State m) (InstanceType (MProfile m)) k (snByStateInstanceTp s)\<rparr>
        else s)"

text \<open>The two comparators, as \<open>cmp (a, b) < 0\<close>.\<close>

definition price_less :: "machine \<Rightarrow> machine \<Rightarrow> bool" where
  "price_less a b \<longleftrightarrow>
    (if \<not> f64_eq (PricePerHour a) (PricePerHour b) then f64_lt (PricePerHour a) (PricePerHour b)
     else ID a < ID b)"

definition keep_less :: "machine \<Rightarrow> machine \<Rightarrow> bool" where
  "keep_less a b \<longleftrightarrow>
    (if \<not> f64_eq (PricePerHour a) (PricePerHour b) then f64_lt (PricePerHour a) (PricePerHour b)
     else if \<not> f64_eq (AssignedReclamationPenalty a) (AssignedReclamationPenalty b)
     then f64_gt (AssignedReclamationPenalty a) (AssignedReclamationPenalty b)
     else ID a < ID b)"

text \<open>Sort indices into the master slice, then gather.\<close>

definition sorted_bucket ::
    "(machine \<Rightarrow> machine \<Rightarrow> bool) \<Rightarrow> snapshot \<Rightarrow> string list \<Rightarrow> machine list" where
  "sorted_bucket lt s idList =
    (let idx = map (\<lambda>k. gm_at 0 (snById s) k) idList;
         idx' = sort_less (\<lambda>a b. lt (snMachines s ! a) (snMachines s ! b)) idx
     in map (\<lambda>j. snMachines s ! j) idx')"

definition min_priority :: "int \<Rightarrow> machine list \<Rightarrow> int" where
  "min_priority z ms = foldl (\<lambda>t m. if AssignedPriority m < t then AssignedPriority m else t) z ms"

definition state_min :: "snapshot \<Rightarrow> state \<Rightarrow> (string, int) gomap \<Rightarrow> int" where
  "state_min s st typed =
    (let z = foldl (\<lambda>t (_, tmin). if tmin < t then tmin else t) max_i32 typed;
         untyped = filter (\<lambda>m. InstanceType (MProfile m) = '''')
           (map (\<lambda>k. snMachines s ! gm_at 0 (snById s) k) (gm_at [] (snByState s) st))
     in min_priority z untyped)"

definition snapshot_of :: "inventory \<Rightarrow> snapshot" where
  "snapshot_of i =
    (let ids = sort_less (<) (map fst (byID i));
         s = foldl (index_machine i) empty_snapshot ids;
         buckets = gm_map2 (sorted_bucket price_less s) (snByStateInstanceTp s);
         typed = gm_map2 (min_priority max_i32) buckets
     in s\<lparr>snBucketsByStateInstanceTp := buckets,
          snBucketsByClusterState := gm_map2 (sorted_bucket keep_less s) (snByClusterState s),
          snMinPriorityByStateInstanceTp := typed,
          snMinPriorityByState := map (\<lambda>(st, ty). (st, state_min s st ty)) typed,
          snIdleSince := idleSince i\<rparr>)"

subsection \<open>The accessors\<close>

definition snap_by_type :: "snapshot \<Rightarrow> state \<Rightarrow> string \<Rightarrow> machine list" where
  "snap_by_type s st ty = gm_at [] (gm_at [] (snBucketsByStateInstanceTp s) st) ty"

definition snap_count_by_type :: "snapshot \<Rightarrow> state \<Rightarrow> string \<Rightarrow> nat" where
  "snap_count_by_type s st ty = length (gm_at [] (gm_at [] (snBucketsByStateInstanceTp s) st) ty)"

definition snap_count_by_state :: "snapshot \<Rightarrow> state \<Rightarrow> nat" where
  "snap_count_by_state s st = length (gm_at [] (snByState s) st)"

definition snap_count_matching :: "snapshot \<Rightarrow> string \<Rightarrow> state \<Rightarrow> (machine \<Rightarrow> bool) \<Rightarrow> nat" where
  "snap_count_matching s c st matches =
    foldl (\<lambda>n m. if matches m then n + 1 else n) 0
      (gm_at [] (gm_at [] (snBucketsByClusterState s) c) st)"

definition snap_by_cluster :: "snapshot \<Rightarrow> string \<Rightarrow> machine list" where
  "snap_by_cluster s c = concat (map snd (gm_at [] (snBucketsByClusterState s) c))"

definition snap_len :: "snapshot \<Rightarrow> nat" where
  "snap_len s = length (snMachines s)"

definition snap_get :: "snapshot \<Rightarrow> string \<Rightarrow> machine option" where
  "snap_get s k = (case gm_get (snById s) k of None \<Rightarrow> None | Some j \<Rightarrow> Some (snMachines s ! j))"

definition snap_by_state :: "snapshot \<Rightarrow> state \<Rightarrow> machine list" where
  "snap_by_state s st = map (\<lambda>k. snMachines s ! gm_at 0 (snById s) k) (gm_at [] (snByState s) st)"

definition snap_by_cluster_state :: "snapshot \<Rightarrow> string \<Rightarrow> state \<Rightarrow> machine list" where
  "snap_by_cluster_state s c st =
    map (\<lambda>k. snMachines s ! gm_at 0 (snById s) k) (gm_at [] (gm_at [] (snByClusterState s) c) st)"

definition snap_clusters :: "snapshot \<Rightarrow> string list" where
  "snap_clusters s = map fst (snByClusterState s)"

definition snap_keep_bucket :: "snapshot \<Rightarrow> string \<Rightarrow> state \<Rightarrow> machine list" where
  "snap_keep_bucket s c st = gm_at [] (gm_at [] (snBucketsByClusterState s) c) st"

definition snap_min_priority :: "snapshot \<Rightarrow> state \<Rightarrow> int" where
  "snap_min_priority s st = gm_at max_i32 (snMinPriorityByState s) st"

definition snap_min_priority_by_type :: "snapshot \<Rightarrow> state \<Rightarrow> string \<Rightarrow> int" where
  "snap_min_priority_by_type s st ty =
    gm_at max_i32 (gm_at [] (snMinPriorityByStateInstanceTp s) st) ty"

definition snap_count_by_cluster_state :: "snapshot \<Rightarrow> string \<Rightarrow> state \<Rightarrow> nat" where
  "snap_count_by_cluster_state s c st = length (gm_at [] (gm_at [] (snByClusterState s) c) st)"

definition snap_idle_since :: "snapshot \<Rightarrow> string \<Rightarrow> int option" where
  "snap_idle_since s k = gm_get (snIdleSince s) k"

subsection \<open>What the loop leaves in the indexes\<close>

lemma gm_at_append2 [simp]:
  "gm_at [] (gm_at [] (gm_append2 a b x m) a') b'
    = gm_at [] (gm_at [] m a') b' @ (if a' = a \<and> b' = b then [x] else [])"
  by (auto simp: gm_append2_def)

lemma gm_get_map2_inner: "gm_at z (map (\<lambda>(b, x). (b, f x)) m) b
    = (case gm_get m b of None \<Rightarrow> z | Some x \<Rightarrow> f x)"
  by (induction m) (auto simp: gm_at_def)

lemma gm_at_map2_outer:
  "gm_at [] (gm_map2 f m) a = map (\<lambda>(b, x). (b, f x)) (gm_at [] m a)"
  by (induction m) (auto simp: gm_at_def gm_map2_def)

lemma gm_at_map2:
  "gm_at z (gm_at [] (gm_map2 f m) a) b
    = (case gm_get (gm_at [] m a) b of None \<Rightarrow> z | Some x \<Rightarrow> f x)"
  by (simp add: gm_at_map2_outer gm_get_map2_inner)

lemma gm_at_nil [simp]: "gm_at z [] k = z"
  by (simp add: gm_at_def)

lemma index_machine_fields:
  fixes i :: inventory
  defines "M \<equiv> gm_at zero_machine (byID i)"
  shows "snMachines (index_machine i s k) = snMachines s @ [M k]"
    and "snById (index_machine i s k) = gm_set k (length (snMachines s)) (snById s)"
    and "snByState (index_machine i s k) = gm_append (State (M k)) k (snByState s)"
    and "snByClusterState (index_machine i s k) =
      (if Cluster (M k) \<noteq> '''' then gm_append2 (Cluster (M k)) (State (M k)) k (snByClusterState s)
       else snByClusterState s)"
    and "snByStateInstanceTp (index_machine i s k) =
      (if InstanceType (MProfile (M k)) \<noteq> ''''
       then gm_append2 (State (M k)) (InstanceType (MProfile (M k))) k (snByStateInstanceTp s)
       else snByStateInstanceTp s)"
  by (simp_all add: index_machine_def Let_def M_def)

lemma index_loop:
  fixes ids :: "string list" and i :: inventory
  assumes "distinct ids"
  defines "M \<equiv> gm_at zero_machine (byID i)"
  defines "s \<equiv> foldl (index_machine i) empty_snapshot ids"
  shows "snMachines s = map M ids"
    and "gm_get (snById s) k = gm_get (zip ids [0..<length ids]) k"
    and "gm_at [] (snByState s) st = filter (\<lambda>k. State (M k) = st) ids"
    and "gm_at [] (gm_at [] (snByClusterState s) c) st
      = filter (\<lambda>k. Cluster (M k) \<noteq> '''' \<and> Cluster (M k) = c \<and> State (M k) = st) ids"
    and "gm_at [] (gm_at [] (snByStateInstanceTp s) st) ty
      = filter (\<lambda>k. InstanceType (MProfile (M k)) \<noteq> '''' \<and> State (M k) = st
          \<and> InstanceType (MProfile (M k)) = ty) ids"
proof -
  note defs = index_machine_fields M_def empty_snapshot_def
  show "snMachines s = map M ids"
    unfolding s_def by (induction ids rule: rev_induct) (auto simp: defs)
  show "gm_at [] (snByState s) st = filter (\<lambda>k. State (M k) = st) ids"
    unfolding s_def by (induction ids rule: rev_induct) (auto simp: defs)
  show "gm_at [] (gm_at [] (snByClusterState s) c) st
      = filter (\<lambda>k. Cluster (M k) \<noteq> '''' \<and> Cluster (M k) = c \<and> State (M k) = st) ids"
    unfolding s_def by (induction ids rule: rev_induct) (auto simp: defs)
  show "gm_at [] (gm_at [] (snByStateInstanceTp s) st) ty
      = filter (\<lambda>k. InstanceType (MProfile (M k)) \<noteq> '''' \<and> State (M k) = st
          \<and> InstanceType (MProfile (M k)) = ty) ids"
    unfolding s_def by (induction ids rule: rev_induct) (auto simp: defs)
  have len: "length (snMachines (foldl (index_machine i) empty_snapshot xs)) = length xs" for xs
    by (induction xs rule: rev_induct) (auto simp: defs)
  have "gm_get (snById (foldl (index_machine i) empty_snapshot xs)) k
      = gm_get (zip xs [0..<length xs]) k" if "distinct xs" for xs
    using that
  proof (induction xs rule: rev_induct)
    case (snoc x xs)
    have n: "gm_get (zip xs [0..<length xs]) x = None"
      using snoc.prems by (auto simp: gm_get_none_iff dest: set_zip_leftD)
    have "gm_get (snById (foldl (index_machine i) empty_snapshot xs)) k = gm_get (zip xs [0..<length xs]) k"
      using snoc by simp
    then show ?case
      using n len [of xs]
      by (cases "k = x") (simp_all add: index_machine_fields map_add_def
          del: map_of_eq_None_iff map_of_zip_is_None split: option.splits)
  qed (simp add: empty_snapshot_def)
  then show "gm_get (snById s) k = gm_get (zip ids [0..<length ids]) k"
    using assms(1) by (simp add: s_def)
qed

lemma zip_lookup:
  assumes "distinct ids" "k \<in> set ids"
  obtains j where "j < length ids" "ids ! j = k" "gm_get (zip ids [0..<length ids]) k = Some j"
proof -
  obtain j where j: "j < length ids" "ids ! j = k" using assms(2) by (auto simp: in_set_conv_nth)
  have "(k, j) \<in> set (zip ids [0..<length ids])"
    using j by (auto simp: set_zip intro!: exI [of _ j])
  then show ?thesis using that j assms(1) by (simp add: gm_get_some_iff)
qed

lemma index_lookup:
  fixes i :: inventory
  assumes "distinct ids" "k \<in> set ids"
  defines "s \<equiv> foldl (index_machine i) empty_snapshot ids"
  shows "snMachines s ! gm_at 0 (snById s) k = gm_at zero_machine (byID i) k"
proof -
  obtain j where j: "j < length ids" "ids ! j = k" "gm_get (zip ids [0..<length ids]) k = Some j"
    using assms(1,2) by (rule zip_lookup)
  have "gm_at 0 (snById s) k = j"
    using index_loop(2) [OF assms(1), of i k] j(3) by (simp add: s_def gm_at_def)
  then show ?thesis using index_loop(1) [OF assms(1), of i] j(1,2) by (simp add: s_def)
qed

lemma sorted_bucket_index:
  assumes "distinct ids" "set ks \<subseteq> set ids"
  shows "sorted_bucket lt (foldl (index_machine i) empty_snapshot ids) ks
    = sort_less lt (map (gm_at zero_machine (byID i)) ks)"
proof -
  let ?s = "foldl (index_machine i) empty_snapshot ids"
  have "map ((!) (snMachines ?s)) (map (gm_at 0 (snById ?s)) ks) = map (gm_at zero_machine (byID i)) ks"
    using index_lookup [OF assms(1), of _ i] assms(2) by auto
  then show ?thesis
    by (simp add: sorted_bucket_def Let_def sort_less_map [symmetric] del: map_map)
qed

subsection \<open>What the accessors return\<close>

text \<open>The machines of an inventory in the order of their IDs.\<close>

definition inv_ids :: "inventory \<Rightarrow> string list" where
  "inv_ids i = sort_less (<) (map fst (byID i))"

definition inv_machines :: "inventory \<Rightarrow> machine list" where
  "inv_machines i = map (gm_at zero_machine (byID i)) (inv_ids i)"

definition index_of :: "inventory \<Rightarrow> snapshot" where
  "index_of i = foldl (index_machine i) empty_snapshot (inv_ids i)"

lemma distinct_inv_ids: "inv_ok i \<Longrightarrow> distinct (inv_ids i)"
  by (simp add: inv_ids_def inv_ok_def)

lemma set_inv_ids: "set (inv_ids i) = fst ` set (byID i)"
  by (simp add: inv_ids_def)

lemma inv_ids_get:
  assumes "k \<in> set (inv_ids i)"
  obtains m where "gm_get (byID i) k = Some m"
proof -
  have "gm_get (byID i) k \<noteq> None"
    using assms by (simp only: set_inv_ids gm_get_none_iff) simp
  then show ?thesis using that by blast
qed

lemma snapshot_of_index:
  "snMachines (snapshot_of i) = snMachines (index_of i)"
  "snById (snapshot_of i) = snById (index_of i)"
  "snByState (snapshot_of i) = snByState (index_of i)"
  "snByClusterState (snapshot_of i) = snByClusterState (index_of i)"
  "snByStateInstanceTp (snapshot_of i) = snByStateInstanceTp (index_of i)"
  "snBucketsByStateInstanceTp (snapshot_of i)
    = gm_map2 (sorted_bucket price_less (index_of i)) (snByStateInstanceTp (index_of i))"
  "snBucketsByClusterState (snapshot_of i)
    = gm_map2 (sorted_bucket keep_less (index_of i)) (snByClusterState (index_of i))"
  "snMinPriorityByStateInstanceTp (snapshot_of i)
    = gm_map2 (min_priority max_i32) (snBucketsByStateInstanceTp (snapshot_of i))"
  "snMinPriorityByState (snapshot_of i)
    = map (\<lambda>(st, ty). (st, state_min (index_of i) st ty)) (snMinPriorityByStateInstanceTp (snapshot_of i))"
  "snIdleSince (snapshot_of i) = idleSince i"
  by (simp_all add: snapshot_of_def index_of_def inv_ids_def Let_def)

lemma gm_at_map2_nil:
  "f [] = z \<Longrightarrow> gm_at z (gm_at [] (gm_map2 f m) a) b = f (gm_at [] (gm_at [] m a) b)"
  unfolding gm_at_map2 by (simp add: gm_at_def split: option.splits)

lemma map_filter_machines:
  "map (gm_at zero_machine (byID i)) (filter (\<lambda>k. P (gm_at zero_machine (byID i) k)) (inv_ids i))
    = filter P (inv_machines i)"
  by (simp add: inv_machines_def filter_map comp_def)

lemma sorted_bucket_machines:
  assumes "inv_ok i"
  shows "sorted_bucket lt (index_of i) (filter (\<lambda>k. P (gm_at zero_machine (byID i) k)) (inv_ids i))
    = sort_less lt (filter P (inv_machines i))"
proof -
  have "sorted_bucket lt (index_of i) (filter (\<lambda>k. P (gm_at zero_machine (byID i) k)) (inv_ids i))
    = sort_less lt (map (gm_at zero_machine (byID i))
        (filter (\<lambda>k. P (gm_at zero_machine (byID i) k)) (inv_ids i)))"
    unfolding index_of_def by (rule sorted_bucket_index [OF distinct_inv_ids [OF assms]]) auto
  then show ?thesis by (simp only: map_filter_machines)
qed

lemma snap_lookup_map:
  assumes "inv_ok i"
  shows "map (\<lambda>k. snMachines (index_of i) ! gm_at 0 (snById (index_of i)) k)
      (filter (\<lambda>k. P (gm_at zero_machine (byID i) k)) (inv_ids i)) = filter P (inv_machines i)"
proof -
  have "map (\<lambda>k. snMachines (index_of i) ! gm_at 0 (snById (index_of i)) k)
      (filter (\<lambda>k. P (gm_at zero_machine (byID i) k)) (inv_ids i))
    = map (gm_at zero_machine (byID i)) (filter (\<lambda>k. P (gm_at zero_machine (byID i) k)) (inv_ids i))"
    unfolding index_of_def
    by (intro map_cong refl index_lookup [OF distinct_inv_ids [OF assms]]) simp
  then show ?thesis by (simp only: map_filter_machines)
qed

lemma sorted_bucket_nil [simp]: "sorted_bucket lt s [] = []"
  by (simp add: sorted_bucket_def)

lemma snapshot_lists:
  assumes "inv_ok i"
  shows "snMachines (snapshot_of i) = inv_machines i"
    and "snap_by_state (snapshot_of i) st = filter (\<lambda>m. State m = st) (inv_machines i)"
    and "snap_by_cluster_state (snapshot_of i) c st
      = filter (\<lambda>m. Cluster m \<noteq> '''' \<and> Cluster m = c \<and> State m = st) (inv_machines i)"
    and "snap_by_type (snapshot_of i) st ty = sort_less price_less
      (filter (\<lambda>m. InstanceType (MProfile m) \<noteq> '''' \<and> State m = st \<and> InstanceType (MProfile m) = ty)
        (inv_machines i))"
    and "snap_keep_bucket (snapshot_of i) c st = sort_less keep_less
      (filter (\<lambda>m. Cluster m \<noteq> '''' \<and> Cluster m = c \<and> State m = st) (inv_machines i))"
proof -
  note il = index_loop [OF distinct_inv_ids [OF assms], of i, folded index_of_def]
  show "snMachines (snapshot_of i) = inv_machines i"
    by (simp add: snapshot_of_index il(1) inv_machines_def)
  show "snap_by_state (snapshot_of i) st = filter (\<lambda>m. State m = st) (inv_machines i)"
    unfolding snap_by_state_def snapshot_of_index il(3) by (rule snap_lookup_map [OF assms])
  show "snap_by_cluster_state (snapshot_of i) c st
      = filter (\<lambda>m. Cluster m \<noteq> '''' \<and> Cluster m = c \<and> State m = st) (inv_machines i)"
    unfolding snap_by_cluster_state_def snapshot_of_index il(4) by (rule snap_lookup_map [OF assms])
  show "snap_by_type (snapshot_of i) st ty = sort_less price_less
      (filter (\<lambda>m. InstanceType (MProfile m) \<noteq> '''' \<and> State m = st \<and> InstanceType (MProfile m) = ty)
        (inv_machines i))"
    unfolding snap_by_type_def snapshot_of_index il(5)
      gm_at_map2_nil [where f = "sorted_bucket price_less (index_of i)", OF sorted_bucket_nil]
    by (rule sorted_bucket_machines [OF assms])
  show "snap_keep_bucket (snapshot_of i) c st = sort_less keep_less
      (filter (\<lambda>m. Cluster m \<noteq> '''' \<and> Cluster m = c \<and> State m = st) (inv_machines i))"
    unfolding snap_keep_bucket_def snapshot_of_index il(4)
      gm_at_map2_nil [where f = "sorted_bucket keep_less (index_of i)", OF sorted_bucket_nil]
    by (rule sorted_bucket_machines [OF assms])
qed

lemma set_inv_machines:
  "inv_ok i \<Longrightarrow> m \<in> set (inv_machines i) \<longleftrightarrow> gm_get (byID i) (ID m) = Some m"
proof -
  assume ok: "inv_ok i"
  show ?thesis
  proof
    assume "m \<in> set (inv_machines i)"
    then obtain k where k: "k \<in> set (inv_ids i)" "m = gm_at zero_machine (byID i) k"
      by (auto simp: inv_machines_def)
    obtain m' where m': "gm_get (byID i) k = Some m'"
      by (rule inv_ids_get [OF k(1)])
    then have "m = m'" using k(2) by (simp add: gm_at_def)
    then show "gm_get (byID i) (ID m) = Some m" using m' inv_okD(3) [OF ok m'] by simp
  next
    assume g: "gm_get (byID i) (ID m) = Some m"
    have "(ID m, m) \<in> set (byID i)" using g by (rule map_of_SomeD)
    then have "ID m \<in> set (inv_ids i)" by (force simp: set_inv_ids)
    moreover have "gm_at zero_machine (byID i) (ID m) = m" by (simp only: g gm_at_def option.case)
    ultimately show "m \<in> set (inv_machines i)"
      unfolding inv_machines_def set_map by (rule image_eqI [OF sym, rotated])
  qed
qed

lemma map_ID_inv_machines: "inv_ok i \<Longrightarrow> map ID (inv_machines i) = inv_ids i"
proof -
  assume ok: "inv_ok i"
  have "ID (gm_at zero_machine (byID i) k) = k" if kin: "k \<in> set (inv_ids i)" for k
  proof -
    obtain m where m: "gm_get (byID i) k = Some m"
      by (rule inv_ids_get [OF kin])
    then have "gm_at zero_machine (byID i) k = m" by (simp only: gm_at_def option.case)
    then show ?thesis using inv_okD(3) [OF ok m] by simp
  qed
  then show ?thesis unfolding inv_machines_def map_map comp_def by (intro map_idI)
qed

lemma distinct_inv_machines: "inv_ok i \<Longrightarrow> distinct (map ID (inv_machines i))"
  by (simp add: map_ID_inv_machines distinct_inv_ids)

lemma snap_get_inv: "inv_ok i \<Longrightarrow> snap_get (snapshot_of i) k = gm_get (byID i) k"
proof -
  assume ok: "inv_ok i"
  note d = distinct_inv_ids [OF ok]
  note il = index_loop [OF d, of i, folded index_of_def]
  show ?thesis
  proof (cases "k \<in> set (inv_ids i)")
    case True
    then obtain j where j: "j < length (inv_ids i)" "inv_ids i ! j = k"
        "gm_get (zip (inv_ids i) [0..<length (inv_ids i)]) k = Some j"
      by (rule zip_lookup [OF d])
    obtain m where m: "gm_get (byID i) k = Some m"
      by (rule inv_ids_get [OF True])
    have "snap_get (snapshot_of i) k = Some (snMachines (index_of i) ! j)"
      unfolding snap_get_def snapshot_of_index il(2) j(3) by simp
    also have "snMachines (index_of i) ! j = gm_at zero_machine (byID i) k"
      using j(1,2) by (simp add: il(1))
    finally show ?thesis using m by (simp add: gm_at_def)
  next
    case False
    then have "gm_get (zip (inv_ids i) [0..<length (inv_ids i)]) k = None"
      by (auto simp: gm_get_none_iff dest: set_zip_leftD)
    moreover have "gm_get (byID i) k = None" using False by (simp only: gm_get_none_iff set_inv_ids not_False_eq_True)
    ultimately show ?thesis unfolding snap_get_def snapshot_of_index il(2) by (simp only: option.case)
  qed
qed

lemma snap_idle_inv:
  assumes "inv_ok i" "snap_idle_since (snapshot_of i) k = Some t"
  obtains m where "snap_get (snapshot_of i) k = Some m" "State m = StateIdle"
proof -
  have "\<exists>t. gm_get (idleSince i) k = Some t"
    using assms(2) by (simp only: snap_idle_since_def snapshot_of_index) blast
  then show ?thesis using that inv_okD(5) [OF assms(1)] snap_get_inv [OF assms(1)] by metis
qed

subsection \<open>Minimum priorities\<close>

lemma min_priority_le:
  "min_priority z ms \<le> z" "m \<in> set ms \<Longrightarrow> min_priority z ms \<le> AssignedPriority m"
proof -
  have le: "min_priority z ms \<le> z" for z ms
    unfolding min_priority_def
  proof (induction ms arbitrary: z)
    case (Cons m ms)
    have "(if AssignedPriority m < z then AssignedPriority m else z) \<le> z" by simp
    then show ?case using Cons order_trans by (simp only: foldl.simps) blast
  qed simp
  show "min_priority z ms \<le> z" by (rule le)
  show "m \<in> set ms \<Longrightarrow> min_priority z ms \<le> AssignedPriority m"
  proof (induction ms arbitrary: z)
    case (Cons x ms)
    let ?z = "if AssignedPriority x < z then AssignedPriority x else z"
    have e: "min_priority z (x # ms) = min_priority ?z ms" by (simp add: min_priority_def)
    show ?case
    proof (cases "m = x")
      case True
      have "min_priority ?z ms \<le> ?z" by (rule le)
      also have "?z \<le> AssignedPriority x" by simp
      finally show ?thesis by (simp only: e True)
    next
      case False
      then show ?thesis using Cons by (simp only: e) simp
    qed
  qed simp
qed

lemma min_priority_by_type_inv:
  "snap_min_priority_by_type (snapshot_of i) st ty
    = min_priority max_i32 (snap_by_type (snapshot_of i) st ty)"
proof -
  have "min_priority max_i32 [] = max_i32" by (simp add: min_priority_def)
  then show ?thesis
    unfolding snap_min_priority_by_type_def snap_by_type_def snapshot_of_index(8)
    by (rule gm_at_map2_nil [where f = "min_priority max_i32"])
qed

lemma keys_append2: "fst ` set (gm_append2 a b x m) = insert a (fst ` set m)"
  by (simp add: gm_append2_def)

lemma typed_states:
  "fst ` set (snByStateInstanceTp (index_of i))
    = State ` {m \<in> set (inv_machines i). InstanceType (MProfile m) \<noteq> ''''}"
proof -
  have "fst ` set (snByStateInstanceTp (foldl (index_machine i) empty_snapshot ids))
      = State ` {m \<in> gm_at zero_machine (byID i) ` set ids. InstanceType (MProfile m) \<noteq> ''''}" for ids
    by (induction ids rule: rev_induct) (auto simp: index_machine_fields empty_snapshot_def keys_append2)
  then show ?thesis by (simp add: index_of_def inv_machines_def)
qed

text \<open>
  The per-state minimum is there only for a state with a machine that has an instance type;
  then it bounds every machine of the state.
\<close>

lemma min_priority_by_state_absent:
  assumes "\<forall>m\<in>set (inv_machines i). State m = st \<longrightarrow> InstanceType (MProfile m) = ''''"
  shows "snap_min_priority (snapshot_of i) st = max_i32"
proof -
  have "fst ` set (snMinPriorityByState (snapshot_of i)) = fst ` set (snByStateInstanceTp (index_of i))"
    unfolding snapshot_of_index gm_map2_def by (force simp: image_iff)
  then have "st \<notin> fst ` set (snMinPriorityByState (snapshot_of i))"
    using assms by (auto simp: typed_states)
  then show ?thesis by (simp add: snap_min_priority_def gm_at_def gm_get_none_iff [THEN iffD2])
qed

lemma typed_min_le:
  "(ty, tmin) \<in> set typed \<Longrightarrow> foldl (\<lambda>t (_, tmin). if tmin < t then tmin else t) z typed \<le> (tmin :: int)"
  "foldl (\<lambda>t (_, tmin). if tmin < t then tmin else t) z typed \<le> z"
proof -
  have le: "foldl (\<lambda>t (_, tmin). if tmin < t then tmin else t) z typed \<le> z"
    for z :: int and typed :: "('a \<times> int) list"
  proof (induction typed arbitrary: z)
    case (Cons x typed)
    have "(if snd x < z then snd x else z) \<le> z" by simp
    then show ?case using Cons order_trans by (simp only: foldl.simps case_prod_beta) blast
  qed simp
  show "foldl (\<lambda>t (_, tmin). if tmin < t then tmin else t) z typed \<le> z" by (rule le)
  show "(ty, tmin) \<in> set typed \<Longrightarrow> foldl (\<lambda>t (_, tmin). if tmin < t then tmin else t) z typed \<le> tmin"
  proof (induction typed arbitrary: z)
    case (Cons x typed)
    let ?z = "if snd x < z then snd x else z"
    have e: "foldl (\<lambda>t (_, tmin). if tmin < t then tmin else t) z (x # typed)
        = foldl (\<lambda>t (_, tmin). if tmin < t then tmin else t) ?z typed" by (cases x) simp
    show ?case
    proof (cases "x = (ty, tmin)")
      case True
      have "foldl (\<lambda>t (_, tmin). if tmin < t then tmin else t) ?z typed \<le> ?z" by (rule le)
      also have "?z \<le> tmin" using True by simp
      finally show ?thesis by (simp only: e)
    next
      case False
      then show ?thesis using Cons by (simp only: e) simp
    qed
  qed simp
qed

lemma map_of_map_fst_val:
  "gm_get (map (\<lambda>(st, ty). (st, f st ty)) m) a = map_option (f a) (gm_get m a)"
  by (induction m) auto

lemma min_priority_by_state_le:
  assumes ok: "inv_ok i" and m: "m \<in> set (inv_machines i)" "State m = st"
    and typed: "\<exists>x\<in>set (inv_machines i). State x = st \<and> InstanceType (MProfile x) \<noteq> ''''"
  shows "snap_min_priority (snapshot_of i) st \<le> AssignedPriority m"
proof -
  let ?ty = "snMinPriorityByStateInstanceTp (snapshot_of i)"
  have "st \<in> fst ` set (snByStateInstanceTp (index_of i))"
    using typed by (auto simp: typed_states)
  then have "st \<in> fst ` set ?ty" unfolding snapshot_of_index gm_map2_def by (force simp: image_iff)
  then obtain t where t: "gm_get ?ty st = Some t" by (metis gm_get_none_iff not_Some_eq)
  have smin: "snap_min_priority (snapshot_of i) st = state_min (index_of i) st t"
    unfolding snap_min_priority_def snapshot_of_index(9) gm_at_def map_of_map_fst_val t by simp
  let ?z = "foldl (\<lambda>t (_, tmin). if tmin < t then tmin else t) max_i32 t"
  let ?by = "map (\<lambda>k. snMachines (index_of i) ! gm_at 0 (snById (index_of i)) k)
    (gm_at [] (snByState (index_of i)) st)"
  have by_st: "?by = filter (\<lambda>m. State m = st) (inv_machines i)"
    using snapshot_lists(2) [OF ok, of st] by (simp only: snap_by_state_def snapshot_of_index)
  have e: "state_min (index_of i) st t = min_priority ?z (filter (\<lambda>m. InstanceType (MProfile m) = '''') ?by)"
    by (simp add: state_min_def Let_def)
  show ?thesis
  proof (cases "InstanceType (MProfile m) = ''''")
    case True
    then have "m \<in> set (filter (\<lambda>m. InstanceType (MProfile m) = '''') ?by)"
      using m by (simp only: by_st) simp
    then show ?thesis unfolding smin e by (rule min_priority_le(2))
  next
    case False
    let ?T = "InstanceType (MProfile m)"
    have mb: "m \<in> set (snap_by_type (snapshot_of i) st ?T)"
      using False m by (simp add: snapshot_lists(4) [OF ok])
    have "gm_at max_i32 (gm_at [] ?ty st) ?T = min_priority max_i32 (snap_by_type (snapshot_of i) st ?T)"
      using min_priority_by_type_inv by (simp add: snap_min_priority_by_type_def)
    then have tv: "gm_at max_i32 t ?T = min_priority max_i32 (snap_by_type (snapshot_of i) st ?T)"
      using t by (simp add: gm_at_def)
    have "gm_at max_i32 t ?T \<le> AssignedPriority m" unfolding tv by (rule min_priority_le(2) [OF mb])
    moreover have "?z \<le> gm_at max_i32 t ?T"
    proof (cases "gm_get t ?T")
      case None
      then show ?thesis using typed_min_le(2) [of max_i32 t] by (simp add: gm_at_def)
    next
      case (Some v)
      then have "(?T, v) \<in> set t" by (rule map_of_SomeD)
      then show ?thesis using typed_min_le(1) [of ?T v t max_i32] Some by (simp add: gm_at_def)
    qed
    ultimately show ?thesis
      using min_priority_le(1) [of ?z "filter (\<lambda>m. InstanceType (MProfile m) = '''') ?by"]
      unfolding smin e by linarith
  qed
qed

subsection \<open>The bucket orders\<close>

definition price_ok :: "machine \<Rightarrow> bool" where
  "price_ok m \<longleftrightarrow> PricePerHour m \<noteq> FNaN"

definition keep_ok :: "machine \<Rightarrow> bool" where
  "keep_ok m \<longleftrightarrow> PricePerHour m \<noteq> FNaN \<and> AssignedReclamationPenalty m \<noteq> FNaN"

lemma f64_eq_iff: "x \<noteq> FNaN \<Longrightarrow> f64_eq x y \<longleftrightarrow> x = y"
  by (cases x; cases y) (auto simp: f64_eq_def)

lemma price_less_lex:
  "price_ok a \<Longrightarrow> price_less a b \<longleftrightarrow>
    f64_lt (PricePerHour a) (PricePerHour b) \<or> PricePerHour a = PricePerHour b \<and> ID a < ID b"
  by (auto simp: price_ok_def price_less_def f64_eq_iff)

lemma keep_less_lex:
  "keep_ok a \<Longrightarrow> keep_less a b \<longleftrightarrow>
    f64_lt (PricePerHour a) (PricePerHour b)
    \<or> PricePerHour a = PricePerHour b
      \<and> (f64_lt (AssignedReclamationPenalty b) (AssignedReclamationPenalty a)
         \<or> AssignedReclamationPenalty a = AssignedReclamationPenalty b \<and> ID a < ID b)"
  by (auto simp: keep_ok_def keep_less_def f64_eq_iff)

lemma f64_trichotomy:
  "x \<noteq> FNaN \<Longrightarrow> y \<noteq> FNaN \<Longrightarrow> f64_lt x y \<or> x = y \<or> f64_lt y x"
  using f64_lt_total by blast

interpretation price_cmp: comparator price_less price_ok
proof (rule comparator_cong)
  show "comparator (\<lambda>a b. f64_lt (PricePerHour a) (PricePerHour b)
      \<or> PricePerHour a = PricePerHour b \<and> ID a < ID b) price_ok"
    by (rule comparator_lex [OF comparator_key])
      (auto simp: price_ok_def f64_trichotomy intro: f64_lt_trans)
qed (rule price_less_lex)

interpretation keep_cmp: comparator keep_less keep_ok
proof (rule comparator_cong)
  have "comparator (\<lambda>a b. f64_lt (AssignedReclamationPenalty b) (AssignedReclamationPenalty a)
      \<or> AssignedReclamationPenalty a = AssignedReclamationPenalty b \<and> ID a < ID b) keep_ok"
    by (rule comparator_lex [OF comparator_key, where klt = "\<lambda>x y. f64_lt y x"])
      (auto simp: keep_ok_def intro: f64_lt_trans dest: f64_lt_total)
  then show "comparator (\<lambda>a b. f64_lt (PricePerHour a) (PricePerHour b) \<or> PricePerHour a = PricePerHour b
      \<and> (f64_lt (AssignedReclamationPenalty b) (AssignedReclamationPenalty a)
         \<or> AssignedReclamationPenalty a = AssignedReclamationPenalty b \<and> ID a < ID b)) keep_ok"
    by (rule comparator_lex) (auto simp: keep_ok_def f64_trichotomy intro: f64_lt_trans)
qed (rule keep_less_lex)

lemma wf_price_ok: "wf_machine m \<Longrightarrow> price_ok m"
  using wf_machine_price [of m] by (cases "PricePerHour m") (auto simp: price_ok_def f64_nonneg_def)

section \<open>The snapshot as the decision engine sees it\<close>

text \<open>
  What the phases and the claim engine rely on: every list is the machines of one state (and
  cluster, or type), each machine is what \<open>Get\<close> returns for its ID, and no ID comes twice.
\<close>

locale machine_store =
  fixes get :: "'s \<Rightarrow> string \<Rightarrow> machine option"
    and by_state :: "'s \<Rightarrow> state \<Rightarrow> machine list"
    and by_cluster :: "'s \<Rightarrow> string \<Rightarrow> state \<Rightarrow> machine list"
    and by_type :: "'s \<Rightarrow> state \<Rightarrow> string \<Rightarrow> machine list"
    and ok :: "'s \<Rightarrow> bool"
  assumes get_id: "ok s \<Longrightarrow> get s k = Some m \<Longrightarrow> ID m = k"
    and get_wf: "ok s \<Longrightarrow> get s k = Some m \<Longrightarrow> wf_machine m"
    and by_state_iff: "ok s \<Longrightarrow> m \<in> set (by_state s st) \<longleftrightarrow> get s (ID m) = Some m \<and> State m = st"
    and by_cluster_iff: "ok s \<Longrightarrow> m \<in> set (by_cluster s c st) \<longleftrightarrow>
      get s (ID m) = Some m \<and> State m = st \<and> Cluster m = c \<and> c \<noteq> ''''"
    and by_type_iff: "ok s \<Longrightarrow> m \<in> set (by_type s st ty) \<longleftrightarrow>
      get s (ID m) = Some m \<and> State m = st \<and> InstanceType (MProfile m) = ty \<and> ty \<noteq> ''''"
    and by_state_distinct: "ok s \<Longrightarrow> distinct (map ID (by_state s st))"
    and by_cluster_distinct: "ok s \<Longrightarrow> distinct (map ID (by_cluster s c st))"
    and by_type_distinct: "ok s \<Longrightarrow> distinct (map ID (by_type s st ty))"
begin

lemma by_type_state: "ok s \<Longrightarrow> m \<in> set (by_type s st ty) \<Longrightarrow> m \<in> set (by_state s st)"
  by (simp add: by_type_iff by_state_iff)

lemma by_cluster_state: "ok s \<Longrightarrow> m \<in> set (by_cluster s c st) \<Longrightarrow> m \<in> set (by_state s st)"
  by (simp add: by_cluster_iff by_state_iff)

lemma same_id:
  "ok s \<Longrightarrow> m \<in> set (by_state s st) \<Longrightarrow> m' \<in> set (by_state s st') \<Longrightarrow> ID m = ID m' \<Longrightarrow> m = m'"
  by (metis by_state_iff option.inject)

lemma one_state:
  "ok s \<Longrightarrow> m \<in> set (by_state s st) \<Longrightarrow> m' \<in> set (by_state s st') \<Longrightarrow> st \<noteq> st' \<Longrightarrow> ID m \<noteq> ID m'"
  by (metis by_state_iff option.inject)

lemma one_cluster:
  "ok s \<Longrightarrow> m \<in> set (by_cluster s c st) \<Longrightarrow> m' \<in> set (by_cluster s c' st') \<Longrightarrow> c \<noteq> c' \<Longrightarrow> ID m \<noteq> ID m'"
  by (metis by_cluster_iff option.inject)

lemma one_type:
  "ok s \<Longrightarrow> m \<in> set (by_type s st ty) \<Longrightarrow> m' \<in> set (by_type s st' ty') \<Longrightarrow> ty \<noteq> ty' \<Longrightarrow> ID m \<noteq> ID m'"
  by (metis by_type_iff option.inject)

lemma by_state_wf: "ok s \<Longrightarrow> m \<in> set (by_state s st) \<Longrightarrow> wf_machine m"
  by (metis by_state_iff get_wf)

end

definition snapshot_ok :: "snapshot \<Rightarrow> bool" where
  "snapshot_ok s \<longleftrightarrow> (\<exists>i. inv_ok i \<and> s = snapshot_of i)"

interpretation snap: machine_store snap_get snap_by_state snap_keep_bucket snap_by_type snapshot_ok
proof unfold_locales
  fix s :: snapshot and k c ty :: string and st :: state and m :: machine
  assume "snapshot_ok s"
  then obtain i where ok: "inv_ok i" and s: "s = snapshot_of i" by (auto simp: snapshot_ok_def)
  note lists = snapshot_lists [OF ok]
  note get = snap_get_inv [OF ok]
  note mem = set_inv_machines [OF ok]
  note d = distinct_inv_machines [OF ok]
  show "snap_get s k = Some m \<Longrightarrow> ID m = k" "snap_get s k = Some m \<Longrightarrow> wf_machine m"
    using inv_okD(3,4) [OF ok] by (simp_all add: s get)
  show "m \<in> set (snap_by_state s st) \<longleftrightarrow> snap_get s (ID m) = Some m \<and> State m = st"
    by (auto simp: s lists get mem)
  show "m \<in> set (snap_keep_bucket s c st) \<longleftrightarrow>
      snap_get s (ID m) = Some m \<and> State m = st \<and> Cluster m = c \<and> c \<noteq> ''''"
    by (auto simp: s lists get mem)
  show "m \<in> set (snap_by_type s st ty) \<longleftrightarrow>
      snap_get s (ID m) = Some m \<and> State m = st \<and> InstanceType (MProfile m) = ty \<and> ty \<noteq> ''''"
    by (auto simp: s lists get mem)
  show "distinct (map ID (snap_by_state s st))" "distinct (map ID (snap_keep_bucket s c st))"
    "distinct (map ID (snap_by_type s st ty))"
    using d by (simp_all add: s lists distinct_map_filter)
qed

lemma inv_machines_cong:
  assumes "gm_get (byID i) = gm_get (byID j)" "inv_ok i" "inv_ok j"
  shows "inv_machines i = inv_machines j"
proof -
  have "set (map fst (byID i)) = set (map fst (byID j))"
    using arg_cong [OF assms(1), of dom] by (simp add: dom_map_of_conv_image_fst)
  then have "mset (map fst (byID i)) = mset (map fst (byID j))"
    using assms(2,3) by (simp only: set_eq_iff_mset_eq_distinct inv_ok_def)
  then have "inv_ids i = inv_ids j"
    unfolding inv_ids_def using assms(2) by (intro str_cmp.sort_less_unique) (auto simp: inv_ok_def)
  then show ?thesis using assms(1) by (simp add: inv_machines_def gm_at_def)
qed

text \<open>The shared buckets come out in their order.\<close>

lemma by_type_sorted:
  "snapshot_ok s \<Longrightarrow> sorted_wrt (\<lambda>a b. \<not> price_less b a) (snap_by_type s st ty)"
proof -
  assume ok: "snapshot_ok s"
  then obtain i where i: "inv_ok i" "s = snapshot_of i" by (auto simp: snapshot_ok_def)
  have "\<forall>m\<in>set (inv_machines i). price_ok m"
    using set_inv_machines [OF i(1)] inv_okD(4) [OF i(1)] by (auto intro: wf_price_ok)
  then show ?thesis
    unfolding i(2) snapshot_lists(4) [OF i(1)] by (intro price_cmp.sort_sorted) auto
qed

end
