(* ===== verification/Match.thy ===== *)
theory Match
  imports Needs Inventory
begin

text \<open>
  Candidate filtering (\<open>pkg/decision/match.go\<close>): whether a machine satisfies the
  requirements of a profile.
\<close>

definition instance_type_key :: string where
  "instance_type_key = ''node.kubernetes.io/instance-type''"

definition zone_key :: string where
  "zone_key = ''topology.kubernetes.io/zone''"

text \<open>\<open>(value, ok)\<close>, \<open>None\<close> for not ok. Two well-known keys are read from the profile first.\<close>

definition lookup_attribute :: "string \<Rightarrow> machine \<Rightarrow> string option" where
  "lookup_attribute key m =
    (if key = instance_type_key \<and> InstanceType (MProfile m) \<noteq> '''' then Some (InstanceType (MProfile m))
     else if key = zone_key \<and> Zone (MProfile m) \<noteq> '''' then Some (Zone (MProfile m))
     else gm_get (Labels (MProfile m)) key)"

definition match_requirement :: "requirement \<Rightarrow> machine \<Rightarrow> bool" where
  "match_requirement r m =
    (let l = lookup_attribute (rKey r) m in
     case rOperator r of
       OperatorIn \<Rightarrow> (case l of None \<Rightarrow> False | Some v \<Rightarrow> v \<in> set (rValues r))
     | OperatorNotIn \<Rightarrow> (case l of None \<Rightarrow> True | Some v \<Rightarrow> v \<notin> set (rValues r))
     | OperatorExists \<Rightarrow> l \<noteq> None
     | OperatorDoesNotExist \<Rightarrow> l = None
     | OperatorSame \<Rightarrow> (case l of None \<Rightarrow> False
         | Some v \<Rightarrow> rValues r = [] \<or> v \<in> set (rValues r))
     | OperatorUnspecified \<Rightarrow> False)"

definition match_profile :: "profile \<Rightarrow> machine \<Rightarrow> bool" where
  "match_profile p m = list_all (\<lambda>r. match_requirement r m) (requirements p)"

text \<open>
  The order of the requirements and of their values does not matter to the match, so the
  canonical profile matches what the raw requirements match.
\<close>

lemma match_canon_req [simp]: "match_requirement (canon_req r) m = match_requirement r m"
  by (auto simp: match_requirement_def canon_req_def Let_def split: operator.splits option.splits)

lemma match_new_profile:
  "match_profile (new_profile reqs spr p ib rb) m \<longleftrightarrow> (\<forall>r\<in>set reqs. match_requirement r m)"
  by (simp add: match_profile_def new_profile_def Let_def list_all_iff)

lemma match_in_type:
  assumes "match_profile p m" "r \<in> set (requirements p)" "rKey r = instance_type_key"
    and "rOperator r = OperatorIn" "InstanceType (MProfile m) \<noteq> ''''"
  shows "InstanceType (MProfile m) \<in> set (rValues r)"
  using assms by (auto simp: match_profile_def list_all_iff match_requirement_def
      lookup_attribute_def Let_def)

end
