(* ===== verification/Cost.thy ===== *)
theory Cost
  imports Match
begin

text \<open>
  The locked formulas and the vocabulary of the decision engine: victim scores and drain
  grace (\<open>pkg/decision/cost.go\<close>), the idle-hold policy (\<open>pkg/decision/release.go\<close>) and the
  actions a cycle emits (\<open>pkg/decision/action.go\<close>). A duration is an \<open>int\<close> of nanoseconds.
\<close>

section \<open>Durations\<close>

abbreviation (input) Second :: int where "Second \<equiv> 1000000000"
abbreviation (input) Minute :: int where "Minute \<equiv> 60000000000"

text \<open>\<open>time.Duration.Seconds\<close>.\<close>

definition duration_seconds :: "int \<Rightarrow> f64" where
  "duration_seconds d =
    (let sec = go_div d Second; nsec = d - sec * Second
     in f64_add (f64_of_int sec) (f64_div (f64_of_int nsec) (FFin 1000000000)))"

section \<open>Victim scores\<close>

record victim_weights =
  wPriority :: f64
  wDrainSpeed :: f64
  wInterruption :: f64
  wReclamation :: f64

definition default_victim_weights :: victim_weights where
  "default_victim_weights = \<lparr>wPriority = FFin 1, wDrainSpeed = f64_round (1 / 10),
     wInterruption = f64_round (1 / 10), wReclamation = f64_round (1 / 10)\<rparr>"

record victim_candidate =
  vcMachine :: machine
  vcAssignedPriority :: int
  vcInterruptionPenalty :: f64
  vcReclamationPenalty :: f64
  vcEstimatedDrainDuration :: int

definition bucket_upper_bound_dollars :: "penalty_bucket \<Rightarrow> f64" where
  "bucket_upper_bound_dollars b = upper_bound_dollars b"

definition penalty_floor :: f64 where
  "penalty_floor = f64_round (1 / 100)"

definition floor_at :: "f64 \<Rightarrow> f64 \<Rightarrow> f64" where
  "floor_at lo x = (if f64_lt x lo then lo else x)"

definition victim_score :: "int \<Rightarrow> victim_candidate \<Rightarrow> victim_weights \<Rightarrow> f64" where
  "victim_score preemptorPriority c w =
    (let gap = floor_at f64_zero (f64_sub (f64_of_int preemptorPriority) (f64_of_int (vcAssignedPriority c)));
         drain = floor_at (FFin 1) (duration_seconds (vcEstimatedDrainDuration c));
         pen = floor_at penalty_floor (vcInterruptionPenalty c);
         rec = floor_at penalty_floor (vcReclamationPenalty c)
     in f64_add (f64_add (f64_add
          (f64_mul gap (wPriority w))
          (f64_mul (f64_div (FFin 1) drain) (wDrainSpeed w)))
          (f64_mul (f64_div (FFin 1) pen) (wInterruption w)))
          (f64_mul (f64_div (FFin 1) rec) (wReclamation w)))"

definition drain_grace :: "int \<Rightarrow> int \<Rightarrow> int" where
  "drain_grace preemptorPriority victimPriority =
    (let gap = i32 (preemptorPriority - victimPriority)
     in if gap > 900000 then 10 * Second
        else if gap > 500000 then 30 * Second
        else if gap > 100000 then 2 * Minute
        else 10 * Minute)"

definition reclaim_grace :: int where
  "reclaim_grace = 10 * Minute"

section \<open>The release policy\<close>

record release_policy =
  OnDemandHold :: int
  SpotHold :: int

definition default_release_policy :: release_policy where
  "default_release_policy = \<lparr>OnDemandHold = 10 * Minute, SpotHold = 1 * Minute\<rparr>"

definition hold :: "release_policy \<Rightarrow> capacity_type \<Rightarrow> int \<times> bool" where
  "hold p ct =
    (case ct of
       CapacityTypeOnDemand \<Rightarrow> (OnDemandHold p, OnDemandHold p > 0)
     | CapacityTypeSpot \<Rightarrow> (SpotHold p, SpotHold p > 0)
     | _ \<Rightarrow> (0, False))"

section \<open>Actions\<close>

datatype action_kind = ActionKindUnspecified | ActionKindBootstrap | ActionKindProvision
  | ActionKindReclaim | ActionKindPreempt | ActionKindDelete

fun action_kind_string :: "action_kind \<Rightarrow> string" where
  "action_kind_string ActionKindBootstrap = ''Bootstrap''"
| "action_kind_string ActionKindProvision = ''Provision''"
| "action_kind_string ActionKindReclaim = ''Reclaim''"
| "action_kind_string ActionKindPreempt = ''Preempt''"
| "action_kind_string ActionKindDelete = ''Delete''"
| "action_kind_string ActionKindUnspecified = ''Unspecified''"

record action =
  aKind :: action_kind
  aMachineID :: string
  aCluster :: string
  aSourceProfile :: "profile option"
  aSourceGroup :: string
  aGracePeriod :: int
  aReason :: string
  aPreemptorPriority :: int

definition zero_action :: action where
  "zero_action = \<lparr>aKind = ActionKindUnspecified, aMachineID = '''', aCluster = '''',
     aSourceProfile = None, aSourceGroup = '''', aGracePeriod = 0, aReason = '''',
     aPreemptorPriority = 0\<rparr>"

section \<open>Monotonicity of the score\<close>

lemma floor_at_ge: "lo \<noteq> FNaN \<Longrightarrow> x \<noteq> FNaN \<Longrightarrow> f64_le lo (floor_at lo x)"
  by (auto simp: floor_at_def f64_not_lt f64_le_refl)

lemma floor_at_mono: "lo \<noteq> FNaN \<Longrightarrow> f64_le x y \<Longrightarrow> f64_le (floor_at lo x) (floor_at lo y)"
  unfolding floor_at_def
  by (auto simp: f64_le_iff dest: f64_lt_trans f64_lt_asym)

lemma f64_of_int_mono: "a \<le> b \<Longrightarrow> f64_le (f64_of_int a) (f64_of_int b)"
  by (simp add: f64_of_int_def f64_round_mono)

lemma f64_of_int_i32: "in_i32 a \<Longrightarrow> f64_of_int a = FFin (of_int a)"
  unfolding f64_of_int_def by (rule f64_round_int) (auto simp: in_i32_def)

lemma penalty_floor_pos: "f64_lt (FFin 0) penalty_floor"
proof -
  have lo: "f64_le (f64_round (1 / 128)) (f64_round (1 / 100))" by (rule f64_round_mono) simp
  have i: "ilog2 (1 / 128 :: rat) = - 7" by (rule ilog2_unique) (simp_all add: power_int_def power_divide)
  have "round_mag (1 / 128) = 1 / 128"
    by (rule round_mag_exact [of _ 1 "- 7"]) (simp_all add: f64_exp_def i power_int_def power_divide)
  then have "f64_round (1 / 128) = FFin (1 / 128)" by (simp add: f64_round_def f64_limit_def)
  then have "f64_le (FFin (1 / 128)) penalty_floor" using lo by (simp only: penalty_floor_def)
  moreover have "f64_lt (FFin 0) (FFin (1 / 128))" by simp
  ultimately show ?thesis using f64_lt_le_trans by blast
qed

lemma penalty_floor_not_nan: "penalty_floor \<noteq> FNaN"
  by (simp add: penalty_floor_def)

definition weights_ok :: "victim_weights \<Rightarrow> bool" where
  "weights_ok w \<longleftrightarrow> (\<forall>x\<in>{wPriority w, wDrainSpeed w, wInterruption w, wReclamation w}.
     \<exists>q. x = FFin q \<and> 0 < q)"

text \<open>A reciprocal term of the score: a larger denominator gives a smaller term.\<close>

lemma reciprocal_term_mono:
  assumes "f64_le x y" "lo \<noteq> FNaN" "f64_lt (FFin 0) lo" "0 < q"
  shows "f64_le (f64_mul (f64_div (FFin 1) (floor_at lo y)) (FFin q))
      (f64_mul (f64_div (FFin 1) (floor_at lo x)) (FFin q))"
    and "f64_nonneg (f64_mul (f64_div (FFin 1) (floor_at lo y)) (FFin q))"
proof -
  have nn: "x \<noteq> FNaN" "y \<noteq> FNaN" using assms(1) by (auto simp: f64_le_iff)
  have px: "f64_lt (FFin 0) (floor_at lo x)" "f64_lt (FFin 0) (floor_at lo y)"
    using assms(3) f64_lt_le_trans floor_at_ge [OF assms(2)] nn by blast+
  show "f64_le (f64_mul (f64_div (FFin 1) (floor_at lo y)) (FFin q))
      (f64_mul (f64_div (FFin 1) (floor_at lo x)) (FFin q))"
    by (intro f64_mul_mono_right f64_recip_antimono floor_at_mono f64_recip_nonneg assms px)
  show "f64_nonneg (f64_mul (f64_div (FFin 1) (floor_at lo y)) (FFin q))"
    by (intro f64_mul_nonneg f64_recip_nonneg px assms)
qed

lemma duration_seconds_parts:
  assumes "0 \<le> d" "in_i64 d"
  shows "duration_seconds d = f64_add (FFin (of_int (d div Second)))
    (f64_div (FFin (of_int (d mod Second))) (FFin 1000000000))"
proof -
  have s: "go_div d Second = d div Second" using assms(1) by (simp add: go_div_nonneg)
  have n: "d - d div Second * Second = d mod Second" by (simp add: minus_div_mult_eq_mod)
  have "d div Second < 2 ^ 53" using assms by (simp add: in_i64_def)
  moreover have "0 \<le> d div Second" using assms(1) by (simp add: pos_imp_zdiv_nonneg_iff)
  ultimately have a: "f64_of_int (d div Second) = FFin (of_int (d div Second))"
    unfolding f64_of_int_def by (intro f64_round_int) simp
  have b: "f64_of_int (d mod Second) = FFin (of_int (d mod Second))"
    unfolding f64_of_int_def using pos_mod_bound [of Second d] pos_mod_sign [of Second d]
    by (intro f64_round_int) simp
  show ?thesis unfolding duration_seconds_def Let_def s n a b by simp
qed

lemma duration_seconds_mono:
  assumes "0 \<le> a" "a \<le> b" "in_i64 b"
  shows "f64_le (duration_seconds a) (duration_seconds b)"
proof -
  have ia: "in_i64 a" using assms by (simp add: in_i64_def)
  let ?f = "\<lambda>d. f64_round (of_int (d mod Second) / 1000000000)"
  have fin: "\<exists>q. ?f d = FFin q \<and> 0 \<le> q \<and> q \<le> 1" for d
  proof -
    have "f64_le (f64_round 0) (?f d)" by (rule f64_round_mono) simp
    moreover have "f64_le (?f d) (f64_round 1)" by (rule f64_round_mono) (simp add: less_imp_le)
    ultimately show ?thesis by (cases "?f d") auto
  qed
  obtain p where p: "?f a = FFin p" "0 \<le> p" "p \<le> 1" using fin by blast
  obtain q where q: "?f b = FFin q" "0 \<le> q" "q \<le> 1" using fin by blast
  have "of_int (a div Second) + p \<le> of_int (b div Second) + q"
  proof (cases "a div Second = b div Second")
    case True
    then have "a mod Second \<le> b mod Second"
      using assms(2) by (metis add_le_cancel_left mult_div_mod_eq)
    then have "f64_le (?f a) (?f b)" by (intro f64_round_mono) (simp add: divide_right_mono)
    then show ?thesis using True p q by simp
  next
    case False
    then have "a div Second + 1 \<le> b div Second"
      using zdiv_mono1 [OF assms(2), of Second] by simp
    then have "(of_int (a div Second) :: rat) + 1 \<le> of_int (b div Second)"
      by (metis of_int_1 of_int_add of_int_le_iff)
    then show ?thesis using p q by linarith
  qed
  then show ?thesis
    unfolding duration_seconds_parts [OF assms(1) ia] duration_seconds_parts [OF order_trans [OF assms(1,2)] assms(3)]
    using p(1) q(1) by (simp add: f64_round_mono)
qed

text \<open>
  The cheaper victim never scores less: a larger priority gap, a faster drain and smaller
  penalties each leave the score as it is or raise it.
\<close>

definition no_dearer :: "victim_candidate \<Rightarrow> victim_candidate \<Rightarrow> bool" where
  "no_dearer c d \<longleftrightarrow>
    vcAssignedPriority c \<le> vcAssignedPriority d
    \<and> 0 \<le> vcEstimatedDrainDuration c \<and> vcEstimatedDrainDuration c \<le> vcEstimatedDrainDuration d
    \<and> in_i64 (vcEstimatedDrainDuration d)
    \<and> f64_le (vcInterruptionPenalty c) (vcInterruptionPenalty d)
    \<and> f64_le (vcReclamationPenalty c) (vcReclamationPenalty d)"

lemma gap_mono:
  assumes "in_i32 p" "in_i32 a" "in_i32 b" "a \<le> b"
  shows "f64_le (floor_at f64_zero (f64_sub (f64_of_int p) (f64_of_int b)))
    (floor_at f64_zero (f64_sub (f64_of_int p) (f64_of_int a)))"
    and "f64_nonneg (floor_at f64_zero (f64_sub (f64_of_int p) (f64_of_int b)))"
proof -
  have "f64_le (f64_sub (f64_of_int p) (f64_of_int b)) (f64_sub (f64_of_int p) (f64_of_int a))"
    using assms(4) by (simp add: f64_sub_def f64_of_int_i32 [OF assms(1)] f64_of_int_i32 [OF assms(2)]
        f64_of_int_i32 [OF assms(3)] f64_round_mono)
  then show "f64_le (floor_at f64_zero (f64_sub (f64_of_int p) (f64_of_int b)))
    (floor_at f64_zero (f64_sub (f64_of_int p) (f64_of_int a)))"
    by (intro floor_at_mono) simp
  show "f64_nonneg (floor_at f64_zero (f64_sub (f64_of_int p) (f64_of_int b)))"
    unfolding f64_nonneg_def by (rule floor_at_ge)
      (simp_all add: f64_sub_def f64_of_int_i32 [OF assms(1)] f64_of_int_i32 [OF assms(3)])
qed

lemma victim_score_mono:
  assumes "in_i32 p" "in_i32 (vcAssignedPriority c)" "in_i32 (vcAssignedPriority d)"
    and "weights_ok w" "no_dearer c d"
  shows "f64_le (victim_score p d w) (victim_score p c w)"
proof -
  obtain w1 w2 w3 w4 where w: "wPriority w = FFin w1" "wDrainSpeed w = FFin w2"
      "wInterruption w = FFin w3" "wReclamation w = FFin w4" "0 < w1" "0 < w2" "0 < w3" "0 < w4"
    using assms(4) by (auto simp: weights_ok_def)
  note nd = assms(5) [unfolded no_dearer_def]
  have dur: "f64_le (duration_seconds (vcEstimatedDrainDuration c)) (duration_seconds (vcEstimatedDrainDuration d))"
    using nd by (intro duration_seconds_mono) auto
  have one: "FFin 1 \<noteq> FNaN" "f64_lt (FFin 0) (FFin 1)" by simp_all
  have pen: "f64_le (vcInterruptionPenalty c) (vcInterruptionPenalty d)"
    "f64_le (vcReclamationPenalty c) (vcReclamationPenalty d)" "vcAssignedPriority c \<le> vcAssignedPriority d"
    using nd by simp_all
  note gap = gap_mono [OF assms(1,2,3) pen(3)]
  note term_d = reciprocal_term_mono [OF dur one w(6)]
  note term_i = reciprocal_term_mono [OF pen(1) penalty_floor_not_nan penalty_floor_pos w(7)]
  note term_r = reciprocal_term_mono [OF pen(2) penalty_floor_not_nan penalty_floor_pos w(8)]
  show ?thesis
    unfolding victim_score_def Let_def w
    by (intro f64_add_mono f64_add_nonneg f64_mul_mono_right [OF gap w(5)] f64_mul_nonneg [OF gap(2) w(5)]
        term_d term_i term_r)
qed

lemma drain_grace_tiers:
  assumes "in_i32 (p - v)"
  shows "drain_grace p v = (if p - v > 900000 then 10 * Second else if p - v > 500000 then 30 * Second
    else if p - v > 100000 then 2 * Minute else 10 * Minute)"
  using i32_id [OF assms] by (simp add: drain_grace_def Let_def)

end
