(* ===== verification/Claims.thy ===== *)
theory Claims
  imports Cost
begin

text \<open>
  The state the Phase 1 workers share and the broker that commits their proposals
  (\<open>pkg/decision/occ/types.go\<close>, \<open>state.go\<close>, \<open>broker.go\<close>). A \<open>*needs.Need\<close> is the index of the
  need in the cycle's demand slice. \<open>Propose\<close> holds the state's mutex from start to end, so
  it is one step; the workers' interleavings are the sequences of such steps.
\<close>

section \<open>Types\<close>

record bucket_key =
  bkState :: state
  bkProfileFP :: string
  bkSameKey :: string
  bkSameValue :: string

datatype proposal_mode = ModeIncremental | ModeAllOrNothing

datatype precedence = Precedence (prPriority: int) (prInterruption: penalty_bucket)
  (prReclamation: penalty_bucket)

definition prec_less :: "precedence \<Rightarrow> precedence \<Rightarrow> bool" where
  "prec_less p other =
    (if prPriority p \<noteq> prPriority other then prPriority p < prPriority other
     else if prInterruption p \<noteq> prInterruption other
     then prInterruption p < prInterruption other
     else prReclamation p < prReclamation other)"

instantiation precedence :: linorder
begin

definition less_precedence :: "precedence \<Rightarrow> precedence \<Rightarrow> bool" where
  "less_precedence p q = prec_less p q"

definition less_eq_precedence :: "precedence \<Rightarrow> precedence \<Rightarrow> bool" where
  "less_eq_precedence p q = (p = q \<or> prec_less p q)"

instance
proof
  fix x y z :: precedence
  show "(x < y) = (x \<le> y \<and> \<not> y \<le> x)"
    by (cases x; cases y) (auto simp: less_precedence_def less_eq_precedence_def prec_less_def)
  show "x \<le> x" by (simp add: less_eq_precedence_def)
  show "x \<le> y \<Longrightarrow> y \<le> z \<Longrightarrow> x \<le> z"
    by (cases x; cases y; cases z) (auto simp: less_eq_precedence_def prec_less_def split: if_splits)
  show "x \<le> y \<Longrightarrow> y \<le> x \<Longrightarrow> x = y"
    by (cases x; cases y) (auto simp: less_eq_precedence_def prec_less_def split: if_splits)
  show "x \<le> y \<or> y \<le> x"
    by (cases x; cases y) (auto simp: less_eq_precedence_def prec_less_def)
qed

end

lemma prec_less_iff [simp]: "prec_less p q \<longleftrightarrow> p < q"
  by (simp add: less_precedence_def)

definition precedence_from_profile :: "profile \<Rightarrow> precedence" where
  "precedence_from_profile p =
    Precedence (priority p) (interruptionPenaltyBucket p) (reclamationPenaltyBucket p)"

record proposal =
  pNeed :: nat
  pBucket :: bucket_key
  pMachines :: "string list"
  pObservedSeq :: nat
  pPrecedence :: precedence
  pMode :: proposal_mode
  pRetriesLeft :: int

record queued_need =
  qNeed :: nat
  qRetriesLeft :: int

datatype result_status = StatusCommitted | StatusConflict

record result =
  resStatus :: result_status
  resCommitted :: "string list"
  resDisplaced :: "queued_need list"
  resNewSeq :: nat

record domain_coverage =
  dcDomain :: string
  dcCoveragePerMille :: int
  dcSatisfiable :: bool

section \<open>The shared state\<close>

record claim =
  cNeed :: nat
  cPrecedence :: precedence
  cRetriesLeft :: int

record shared_state =
  ssSnap :: snapshot
  claimedBy :: "(string, claim) gomap"
  claimedByNeed :: "(nat, string, unit) gomap2"
  bucketSeq :: "(bucket_key, nat) gomap"
  sameDomain :: "(nat, string) gomap"
  sameSatisfiable :: "(nat, bool) gomap"
  sameCandidates :: "(nat, domain_coverage list) gomap"

definition new_shared_state :: "snapshot \<Rightarrow> shared_state" where
  "new_shared_state snap = \<lparr>ssSnap = snap, claimedBy = [], claimedByNeed = [], bucketSeq = [],
     sameDomain = [], sameSatisfiable = [], sameCandidates = []\<rparr>"

definition record_same_domain :: "nat \<Rightarrow> string \<Rightarrow> shared_state \<Rightarrow> shared_state" where
  "record_same_domain n d s = s\<lparr>sameDomain := gm_set n d (sameDomain s)\<rparr>"

definition record_same_satisfiable :: "nat \<Rightarrow> bool \<Rightarrow> shared_state \<Rightarrow> shared_state" where
  "record_same_satisfiable n b s = s\<lparr>sameSatisfiable := gm_set n b (sameSatisfiable s)\<rparr>"

definition record_same_candidates :: "nat \<Rightarrow> domain_coverage list \<Rightarrow> shared_state \<Rightarrow> shared_state" where
  "record_same_candidates n c s = s\<lparr>sameCandidates := gm_set n c (sameCandidates s)\<rparr>"

definition same_domain_for :: "shared_state \<Rightarrow> nat \<Rightarrow> string" where
  "same_domain_for s n = gm_at '''' (sameDomain s) n"

definition same_satisfiable_for :: "shared_state \<Rightarrow> nat \<Rightarrow> bool" where
  "same_satisfiable_for s n = gm_at False (sameSatisfiable s) n"

definition same_candidates_for :: "shared_state \<Rightarrow> nat \<Rightarrow> domain_coverage list" where
  "same_candidates_for s n = gm_at [] (sameCandidates s) n"

text \<open>\<open>s.claimedByNeed[n][mid] = struct{}{}\<close>.\<close>

definition own :: "nat \<Rightarrow> string \<Rightarrow> (nat, string, unit) gomap2 \<Rightarrow> (nat, string, unit) gomap2" where
  "own n mid m = gm_set n (gm_set mid () (gm_at [] m n)) m"

definition seed_claim :: "string \<Rightarrow> nat \<Rightarrow> precedence \<Rightarrow> int \<Rightarrow> shared_state \<Rightarrow> shared_state" where
  "seed_claim mid n prec retries s =
    s\<lparr>claimedBy := gm_set mid \<lparr>cNeed = n, cPrecedence = prec, cRetriesLeft = retries\<rparr> (claimedBy s),
      claimedByNeed := own n mid (claimedByNeed s)\<rparr>"

definition claimed_for :: "shared_state \<Rightarrow> nat \<Rightarrow> string list" where
  "claimed_for s n = map fst (gm_at [] (claimedByNeed s) n)"

definition bucket_seq :: "shared_state \<Rightarrow> bucket_key \<Rightarrow> nat" where
  "bucket_seq s b = gm_at 0 (bucketSeq s) b"

definition is_claimed :: "shared_state \<Rightarrow> string \<Rightarrow> bool" where
  "is_claimed s mid \<longleftrightarrow> gm_get (claimedBy s) mid \<noteq> None"

definition displaceable_by :: "shared_state \<Rightarrow> string \<Rightarrow> precedence \<Rightarrow> bool" where
  "displaceable_by s mid prec =
    (case gm_get (claimedBy s) mid of None \<Rightarrow> True | Some inc \<Rightarrow> prec_less (cPrecedence inc) prec)"

section \<open>The broker\<close>

text \<open>The plan: machines free to take, machines to evict with their claims, and the conflicts.\<close>

definition classify_machine ::
    "shared_state \<Rightarrow> precedence \<Rightarrow> string list \<times> (string \<times> claim) list \<times> nat \<Rightarrow> string
      \<Rightarrow> string list \<times> (string \<times> claim) list \<times> nat" where
  "classify_machine s prec plan mid =
    (let (newClaim, displace, conflicted) = plan in
     case gm_get (claimedBy s) mid of
       None \<Rightarrow> (newClaim @ [mid], displace, conflicted)
     | Some inc \<Rightarrow>
       if prec_less (cPrecedence inc) prec then (newClaim, displace @ [(mid, inc)], conflicted)
       else (newClaim, displace, conflicted + 1))"

text \<open>Evict one machine: both maps, and the owner's remaining budget.\<close>

definition evict ::
    "shared_state \<times> (nat, int) gomap \<Rightarrow> string \<times> claim \<Rightarrow> shared_state \<times> (nat, int) gomap" where
  "evict st d =
    (let (s, displacedByNeed) = st; (mid, old) = d;
         s1 = s\<lparr>claimedBy := gm_del mid (claimedBy s)\<rparr>;
         s2 = (case gm_get (claimedByNeed s1) (cNeed old) of
                 None \<Rightarrow> s1
               | Some owned \<Rightarrow>
                 let owned' = gm_del mid owned
                 in if length owned' = 0
                    then s1\<lparr>claimedByNeed := gm_del (cNeed old) (claimedByNeed s1)\<rparr>
                    else s1\<lparr>claimedByNeed := gm_set (cNeed old) owned' (claimedByNeed s1)\<rparr>);
         newRetries = cRetriesLeft old - 1;
         lower = (case gm_get displacedByNeed (cNeed old) of None \<Rightarrow> True | Some cur \<Rightarrow> newRetries < cur)
     in (s2, if lower then gm_set (cNeed old) newRetries displacedByNeed else displacedByNeed))"

definition take_machine :: "nat \<Rightarrow> claim \<Rightarrow> shared_state \<Rightarrow> string \<Rightarrow> shared_state" where
  "take_machine n rec s mid =
    s\<lparr>claimedBy := gm_set mid rec (claimedBy s), claimedByNeed := own n mid (claimedByNeed s)\<rparr>"

definition propose :: "proposal \<Rightarrow> shared_state \<Rightarrow> result \<times> shared_state" where
  "propose p s =
    (let currentSeq = bucket_seq s (pBucket p);
         conflict = (\<lparr>resStatus = StatusConflict, resCommitted = [], resDisplaced = [],
                      resNewSeq = currentSeq\<rparr>, s)
     in
     if currentSeq \<noteq> pObservedSeq p then conflict
     else
       let (newClaim, displace, conflicted) =
             foldl (classify_machine s (pPrecedence p)) ([], [], 0) (pMachines p)
       in
       if pMode p = ModeAllOrNothing \<and> conflicted > 0 then conflict
       else if pMode p = ModeIncremental \<and> length newClaim + length displace = 0 then conflict
       else
         let (s1, displacedByNeed) = foldl evict (s, []) displace;
             displaced = map (\<lambda>(n, r). \<lparr>qNeed = n, qRetriesLeft = r\<rparr>) displacedByNeed;
             newRecord = \<lparr>cNeed = pNeed p, cPrecedence = pPrecedence p, cRetriesLeft = pRetriesLeft p\<rparr>;
             committed = newClaim @ map fst displace;
             s2 = (if gm_get (claimedByNeed s1) (pNeed p) = None
                   then s1\<lparr>claimedByNeed := gm_set (pNeed p) [] (claimedByNeed s1)\<rparr> else s1);
             s3 = foldl (take_machine (pNeed p) newRecord) s2 committed;
             newSeq = (currentSeq + 1) mod 2 ^ 64
         in (\<lparr>resStatus = StatusCommitted, resCommitted = committed, resDisplaced = displaced,
              resNewSeq = newSeq\<rparr>,
             s3\<lparr>bucketSeq := gm_set (pBucket p) newSeq (bucketSeq s3)\<rparr>))"

section \<open>The claim maps\<close>

definition owned :: "shared_state \<Rightarrow> nat \<Rightarrow> string set" where
  "owned s n = set (claimed_for s n)"

text \<open>The two maps are inverse to each other, so a machine has one owner.\<close>

definition claims_ok :: "shared_state \<Rightarrow> bool" where
  "claims_ok s \<longleftrightarrow>
    gm_ok (claimedBy s) \<and> gm_ok (claimedByNeed s) \<and> (\<forall>n. distinct (claimed_for s n))
    \<and> (\<forall>n mid. mid \<in> owned s n \<longleftrightarrow> (\<exists>c. gm_get (claimedBy s) mid = Some c \<and> cNeed c = n))"

lemma claims_okD:
  assumes "claims_ok s"
  shows "gm_ok (claimedBy s)" "gm_ok (claimedByNeed s)" "distinct (claimed_for s n)"
    and "mid \<in> owned s n \<longleftrightarrow> (\<exists>c. gm_get (claimedBy s) mid = Some c \<and> cNeed c = n)"
  using assms unfolding claims_ok_def by blast+

lemma owned_one: "claims_ok s \<Longrightarrow> mid \<in> owned s n \<Longrightarrow> mid \<in> owned s n' \<Longrightarrow> n = n'"
  unfolding claims_okD(4) by auto

lemma claims_ok_new: "claims_ok (new_shared_state snap)"
  by (simp add: claims_ok_def new_shared_state_def owned_def claimed_for_def)

lemma gm_at_own [simp]:
  "gm_at [] (own n mid m) n' = (if n' = n then gm_set mid () (gm_at [] m n) else gm_at [] m n')"
  by (simp add: own_def)

lemma claims_ok_take:
  assumes ok: "claims_ok s" and n: "cNeed rec = n"
    and free: "\<And>c. gm_get (claimedBy s) mid = Some c \<Longrightarrow> cNeed c = n"
  shows "claims_ok (take_machine n rec s mid)"
proof -
  have "mid \<in> owned s n' \<Longrightarrow> n' = n" for n'
    using claims_okD(4) [OF ok, of mid n'] free by (auto simp del: map_of_eq_Some_iff)
  then show ?thesis
    using ok n unfolding claims_ok_def
    by (auto simp: take_machine_def owned_def claimed_for_def own_def simp del: map_of_eq_Some_iff
        intro!: distinct_update)
qed

lemma seed_claim_take:
  "seed_claim mid n prec r s = take_machine n \<lparr>cNeed = n, cPrecedence = prec, cRetriesLeft = r\<rparr> s mid"
  by (simp add: seed_claim_def take_machine_def)

lemma claims_ok_seed:
  "claims_ok s \<Longrightarrow> \<not> is_claimed s mid \<Longrightarrow> claims_ok (seed_claim mid n prec r s)"
  unfolding seed_claim_take by (rule claims_ok_take) (simp_all add: is_claimed_def)

section \<open>What a proposal does\<close>

lemma classify_spec:
  "foldl (classify_machine s prec) (a, b, k) ms =
    (a @ filter (\<lambda>m. gm_get (claimedBy s) m = None) ms,
     b @ map (\<lambda>m. (m, the (gm_get (claimedBy s) m)))
       (filter (\<lambda>m. gm_get (claimedBy s) m \<noteq> None \<and> displaceable_by s m prec) ms),
     k + length (filter (\<lambda>m. \<not> displaceable_by s m prec) ms))"
proof (induction ms arbitrary: a b k)
  case (Cons m ms)
  then show ?case
    by (cases "gm_get (claimedBy s) m") (auto simp: classify_machine_def displaceable_by_def
        simp del: map_of_eq_Some_iff map_of_eq_None_iff)
qed simp

text \<open>What the broker may commit of a proposal, in the order it commits it.\<close>

definition commit_of :: "shared_state \<Rightarrow> proposal \<Rightarrow> string list" where
  "commit_of s p =
    filter (\<lambda>m. gm_get (claimedBy s) m = None) (pMachines p)
    @ filter (\<lambda>m. gm_get (claimedBy s) m \<noteq> None \<and> displaceable_by s m (pPrecedence p)) (pMachines p)"

lemma set_commit_of: "set (commit_of s p) = {m \<in> set (pMachines p). displaceable_by s m (pPrecedence p)}"
  by (auto simp: commit_of_def displaceable_by_def split: option.splits)

lemma evict_fields:
  "claimedBy (fst (evict (s, r) (mid, old))) = gm_del mid (claimedBy s)"
  "bucketSeq (fst (evict (s, r) (mid, old))) = bucketSeq s"
  "ssSnap (fst (evict (s, r) (mid, old))) = ssSnap s"
  "sameDomain (fst (evict (s, r) (mid, old))) = sameDomain s"
  "claimed_for (fst (evict (s, r) (mid, old))) n =
    (if n = cNeed old then filter (\<lambda>m. m \<noteq> mid) (claimed_for s n) else claimed_for s n)"
proof -
  have f: "map fst (gm_del mid l) = filter (\<lambda>m. m \<noteq> mid) (map fst l)" for l :: "(string, unit) gomap"
    by (induction l) auto
  show "claimed_for (fst (evict (s, r) (mid, old))) n =
    (if n = cNeed old then filter (\<lambda>m. m \<noteq> mid) (claimed_for s n) else claimed_for s n)"
    using f by (auto simp: evict_def claimed_for_def Let_def gm_at_def split: option.splits if_splits)
       (metis length_0_conv length_map list.map_disc_iff)+
qed (simp_all add: evict_def Let_def split: option.splits)

lemma evict_gm_ok:
  assumes "gm_ok (claimedByNeed s)"
  shows "gm_ok (claimedByNeed (fst (evict (s, r) (mid, old))))"
  using assms by (auto simp: evict_def Let_def intro: distinct_update distinct_delete split: option.splits)

lemma claims_ok_evict:
  assumes ok: "claims_ok s"
    and cl: "\<And>c. gm_get (claimedBy s) mid = Some c \<Longrightarrow> cNeed c = cNeed old"
  shows "claims_ok (fst (evict (s, r) (mid, old)))"
  unfolding claims_ok_def owned_def
proof (intro conjI allI)
  show "gm_ok (claimedBy (fst (evict (s, r) (mid, old))))"
    unfolding evict_fields by (rule distinct_delete [OF claims_okD(1) [OF ok]])
  show "gm_ok (claimedByNeed (fst (evict (s, r) (mid, old))))"
    by (rule evict_gm_ok [OF claims_okD(2) [OF ok]])
  show "distinct (claimed_for (fst (evict (s, r) (mid, old))) n)" for n
    unfolding evict_fields using claims_okD(3) [OF ok] by simp
  show "m \<in> set (claimed_for (fst (evict (s, r) (mid, old))) n)
      \<longleftrightarrow> (\<exists>c. gm_get (claimedBy (fst (evict (s, r) (mid, old)))) m = Some c \<and> cNeed c = n)" for n m
  proof (cases "m = mid")
    case True
    have "mid \<in> set (claimed_for s n) \<Longrightarrow> n = cNeed old"
      using claims_okD(4) [OF ok, of mid n] cl unfolding owned_def by metis
    then show ?thesis unfolding evict_fields True by auto
  next
    case False
    then show ?thesis
      using claims_okD(4) [OF ok, of m n] unfolding evict_fields owned_def by auto
  qed
qed

text \<open>The smallest budget of the machines a need loses, minus one.\<close>

definition budget_after :: "(string \<times> claim) list \<Rightarrow> nat \<Rightarrow> int option" where
  "budget_after ds n = (let rs = map (cRetriesLeft \<circ> snd) (filter (\<lambda>d. cNeed (snd d) = n) ds)
     in if rs = [] then None else Some (Min (set rs) - 1))"

lemma budget_after_snoc:
  "budget_after (ds @ [(mid, old)]) n =
    (if n \<noteq> cNeed old then budget_after ds n
     else case budget_after ds n of None \<Rightarrow> Some (cRetriesLeft old - 1)
        | Some cur \<Rightarrow> Some (min cur (cRetriesLeft old - 1)))"
proof (cases "n = cNeed old")
  case True
  let ?rs = "map (cRetriesLeft \<circ> snd) (filter (\<lambda>d. cNeed (snd d) = n) ds)"
  have e: "map (cRetriesLeft \<circ> snd) (filter (\<lambda>d. cNeed (snd d) = n) (ds @ [(mid, old)]))
      = ?rs @ [cRetriesLeft old]" using True by simp
  show ?thesis
  proof (cases "?rs = []")
    case False
    then have "Min (set (?rs @ [cRetriesLeft old])) = min (Min (set ?rs)) (cRetriesLeft old)"
    proof -
      have "set ?rs \<noteq> {}" using False set_empty by blast
      then have "Min (insert (cRetriesLeft old) (set ?rs)) = min (cRetriesLeft old) (Min (set ?rs))"
        by (intro Min_insert) simp_all
      then show ?thesis by (simp only: set_append list.set Un_insert_right Un_empty_right min.commute)
    qed
    then show ?thesis using False True unfolding budget_after_def Let_def e by (simp add: min_def)
  qed (use True in \<open>simp add: budget_after_def Let_def e\<close>)
qed (simp add: budget_after_def)

lemma evict_all:
  assumes "claims_ok s" "\<forall>d\<in>set ds. gm_get (claimedBy s) (fst d) = Some (snd d)"
  defines "st \<equiv> foldl evict (s, []) ds"
  shows "claims_ok (fst st)"
    and "gm_get (claimedBy (fst st)) m = (if m \<in> fst ` set ds then None else gm_get (claimedBy s) m)"
    and "bucketSeq (fst st) = bucketSeq s" "ssSnap (fst st) = ssSnap s" "sameDomain (fst st) = sameDomain s"
    and "gm_ok (snd st)" "gm_get (snd st) n = budget_after ds n"
proof -
  have "claims_ok (fst (foldl evict (s, []) ds))
    \<and> (\<forall>m. gm_get (claimedBy (fst (foldl evict (s, []) ds))) m
        = (if m \<in> fst ` set ds then None else gm_get (claimedBy s) m))
    \<and> bucketSeq (fst (foldl evict (s, []) ds)) = bucketSeq s
    \<and> ssSnap (fst (foldl evict (s, []) ds)) = ssSnap s
    \<and> sameDomain (fst (foldl evict (s, []) ds)) = sameDomain s
    \<and> gm_ok (snd (foldl evict (s, []) ds))
    \<and> (\<forall>n. gm_get (snd (foldl evict (s, []) ds)) n = budget_after ds n)"
    using assms(2)
  proof (induction ds rule: rev_induct)
    case Nil
    then show ?case using assms(1) by (simp add: budget_after_def)
  next
    case (snoc d ds)
    obtain mid old where d: "d = (mid, old)" by (cases d)
    obtain s1 r1 where f: "foldl evict (s, []) ds = (s1, r1)" by (cases "foldl evict (s, []) ds")
    have IH: "claims_ok s1" "\<And>m. gm_get (claimedBy s1) m = (if m \<in> fst ` set ds then None else gm_get (claimedBy s) m)"
      "bucketSeq s1 = bucketSeq s" "ssSnap s1 = ssSnap s" "sameDomain s1 = sameDomain s"
      "gm_ok r1" "\<And>n. gm_get r1 n = budget_after ds n"
      using snoc f by auto
    have old: "gm_get (claimedBy s) mid = Some old" using snoc.prems d by simp
    have cl: "gm_get (claimedBy s1) mid = Some c \<Longrightarrow> cNeed c = cNeed old" for c
      using IH(2) [of mid] old by (auto simp del: map_of_eq_Some_iff split: if_splits)
    have r: "snd (evict (s1, r1) (mid, old))
        = (if (case gm_get r1 (cNeed old) of None \<Rightarrow> True | Some cur \<Rightarrow> cRetriesLeft old - 1 < cur)
           then gm_set (cNeed old) (cRetriesLeft old - 1) r1 else r1)"
      by (simp add: evict_def Let_def)
    have b: "gm_get (snd (evict (s1, r1) (mid, old))) n = budget_after (ds @ [(mid, old)]) n" for n
      unfolding r budget_after_snoc using IH(7)
      by (auto simp: min_def simp del: map_of_eq_Some_iff map_of_eq_None_iff split: option.splits)
    have bo: "gm_ok (snd (evict (s1, r1) (mid, old)))"
      unfolding r using IH(6) by (simp add: distinct_update)
    show ?case
      using IH claims_ok_evict [OF IH(1) cl, where r = r1] b bo
      by (auto simp: d f evict_fields)
  qed
  then show "claims_ok (fst st)"
    "gm_get (claimedBy (fst st)) m = (if m \<in> fst ` set ds then None else gm_get (claimedBy s) m)"
    "bucketSeq (fst st) = bucketSeq s" "ssSnap (fst st) = ssSnap s" "sameDomain (fst st) = sameDomain s"
    "gm_ok (snd st)" "gm_get (snd st) n = budget_after ds n"
    unfolding st_def by blast+
qed

lemma take_machine_fields:
  "claimedBy (take_machine n rec s m) = gm_set m rec (claimedBy s)"
  "bucketSeq (take_machine n rec s m) = bucketSeq s"
  "ssSnap (take_machine n rec s m) = ssSnap s"
  "sameDomain (take_machine n rec s m) = sameDomain s"
  by (simp_all add: take_machine_def)

lemma take_all:
  assumes "claims_ok s" "cNeed rec = n"
    and "\<forall>m\<in>set ms. \<forall>c. gm_get (claimedBy s) m = Some c \<longrightarrow> cNeed c = n"
  shows "claims_ok (foldl (take_machine n rec) s ms)"
    and "gm_get (claimedBy (foldl (take_machine n rec) s ms)) m
      = (if m \<in> set ms then Some rec else gm_get (claimedBy s) m)"
    and "bucketSeq (foldl (take_machine n rec) s ms) = bucketSeq s"
    and "ssSnap (foldl (take_machine n rec) s ms) = ssSnap s"
    and "sameDomain (foldl (take_machine n rec) s ms) = sameDomain s"
proof -
  have "claims_ok (foldl (take_machine n rec) s ms)
    \<and> (\<forall>m. gm_get (claimedBy (foldl (take_machine n rec) s ms)) m
      = (if m \<in> set ms then Some rec else gm_get (claimedBy s) m))
    \<and> bucketSeq (foldl (take_machine n rec) s ms) = bucketSeq s
    \<and> ssSnap (foldl (take_machine n rec) s ms) = ssSnap s
    \<and> sameDomain (foldl (take_machine n rec) s ms) = sameDomain s"
    using assms(3)
  proof (induction ms rule: rev_induct)
    case Nil
    then show ?case using assms(1) by simp
  next
    case (snoc x ms)
    let ?s = "foldl (take_machine n rec) s ms"
    have IH: "claims_ok ?s" "\<And>m. gm_get (claimedBy ?s) m = (if m \<in> set ms then Some rec else gm_get (claimedBy s) m)"
      "bucketSeq ?s = bucketSeq s" "ssSnap ?s = ssSnap s" "sameDomain ?s = sameDomain s"
      using snoc.IH snoc.prems by simp_all
    have "gm_get (claimedBy ?s) x = Some c \<Longrightarrow> cNeed c = n" for c
      using IH(2) [of x] snoc.prems assms(2)
      by (auto simp del: map_of_eq_Some_iff split: if_splits)
    then have "claims_ok (take_machine n rec ?s x)" by (rule claims_ok_take [OF IH(1) assms(2)])
    then show ?case using IH by (auto simp: take_machine_fields)
  qed
  then show "claims_ok (foldl (take_machine n rec) s ms)"
    "gm_get (claimedBy (foldl (take_machine n rec) s ms)) m
      = (if m \<in> set ms then Some rec else gm_get (claimedBy s) m)"
    "bucketSeq (foldl (take_machine n rec) s ms) = bucketSeq s"
    "ssSnap (foldl (take_machine n rec) s ms) = ssSnap s"
    "sameDomain (foldl (take_machine n rec) s ms) = sameDomain s" by blast+
qed

definition new_record :: "proposal \<Rightarrow> claim" where
  "new_record p = \<lparr>cNeed = pNeed p, cPrecedence = pPrecedence p, cRetriesLeft = pRetriesLeft p\<rparr>"

text \<open>When a proposal commits.\<close>

definition commits :: "shared_state \<Rightarrow> proposal \<Rightarrow> bool" where
  "commits s p \<longleftrightarrow> bucket_seq s (pBucket p) = pObservedSeq p
    \<and> (case pMode p of
         ModeAllOrNothing \<Rightarrow> \<forall>m\<in>set (pMachines p). displaceable_by s m (pPrecedence p)
       | ModeIncremental \<Rightarrow> \<exists>m\<in>set (pMachines p). displaceable_by s m (pPrecedence p))"

lemma propose_conflict:
  assumes "\<not> commits s p"
  shows "propose p s = (\<lparr>resStatus = StatusConflict, resCommitted = [], resDisplaced = [],
    resNewSeq = bucket_seq s (pBucket p)\<rparr>, s)"
proof -
  have n: "filter (\<lambda>m. gm_get (claimedBy s) m = None) ms = []
      \<and> filter (\<lambda>m. gm_get (claimedBy s) m \<noteq> None \<and> displaceable_by s m pr) ms = []
      \<longleftrightarrow> (\<forall>m\<in>set ms. \<not> displaceable_by s m pr)" for ms pr
    by (auto simp: filter_empty_conv displaceable_by_def split: option.splits)
  show ?thesis
    using assms n [of "pMachines p" "pPrecedence p"]
    by (cases "pMode p") (auto simp: propose_def classify_spec commits_def Let_def filter_empty_conv)
qed

lemma propose_commit:
  assumes ok: "claims_ok s" and c: "commits s p"
  defines "r \<equiv> fst (propose p s)" and "s' \<equiv> snd (propose p s)"
  shows "resStatus r = StatusCommitted" "resCommitted r = commit_of s p"
    and "claims_ok s'"
    and "gm_get (claimedBy s') m =
      (if m \<in> set (commit_of s p) then Some (new_record p) else gm_get (claimedBy s) m)"
    and "bucketSeq s' = gm_set (pBucket p) ((bucket_seq s (pBucket p) + 1) mod 2 ^ 64) (bucketSeq s)"
    and "ssSnap s' = ssSnap s" "sameDomain s' = sameDomain s"
    and "distinct (map qNeed (resDisplaced r))"
    and "q \<in> set (resDisplaced r) \<longleftrightarrow> budget_after
      (map (\<lambda>m. (m, the (gm_get (claimedBy s) m)))
        (filter (\<lambda>m. gm_get (claimedBy s) m \<noteq> None \<and> displaceable_by s m (pPrecedence p)) (pMachines p)))
      (qNeed q) = Some (qRetriesLeft q)"
proof -
  let ?new = "filter (\<lambda>m. gm_get (claimedBy s) m = None) (pMachines p)"
  let ?low = "filter (\<lambda>m. gm_get (claimedBy s) m \<noteq> None \<and> displaceable_by s m (pPrecedence p)) (pMachines p)"
  let ?ds = "map (\<lambda>m. (m, the (gm_get (claimedBy s) m))) ?low"
  let ?blocked = "filter (\<lambda>m. \<not> displaceable_by s m (pPrecedence p)) (pMachines p)"
  obtain s1 dbn where e: "foldl evict (s, []) ?ds = (s1, dbn)" by (cases "foldl evict (s, []) ?ds")
  have dsd: "\<forall>d\<in>set ?ds. gm_get (claimedBy s) (fst d) = Some (snd d)" by auto
  note ea = evict_all [OF ok dsd, unfolded e fst_conv snd_conv]
  let ?s2 = "if gm_get (claimedByNeed s1) (pNeed p) = None
    then s1\<lparr>claimedByNeed := gm_set (pNeed p) [] (claimedByNeed s1)\<rparr> else s1"
  have cf: "claimed_for ?s2 n = claimed_for s1 n" for n
    by (auto simp: claimed_for_def gm_at_def)
  have ok2: "claims_ok ?s2"
    using ea(1) cf unfolding claims_ok_def owned_def by (auto intro: distinct_update)
  have s2f: "claimedBy ?s2 = claimedBy s1" "bucketSeq ?s2 = bucketSeq s1" "ssSnap ?s2 = ssSnap s1"
    "sameDomain ?s2 = sameDomain s1" by simp_all
  have fds: "fst ` set ?ds = set ?low" by (force simp: image_iff)
  have free: "\<forall>m\<in>set (commit_of s p). \<forall>c. gm_get (claimedBy ?s2) m = Some c \<longrightarrow> cNeed c = pNeed p"
    unfolding s2f ea(2) fds by (auto simp: commit_of_def simp del: map_of_eq_Some_iff split: if_splits)
  have rn: "cNeed (new_record p) = pNeed p" by (simp add: new_record_def)
  note ta = take_all [OF ok2 rn free]
  let ?s3 = "foldl (take_machine (pNeed p) (new_record p)) ?s2 (commit_of s p)"
  let ?seq = "(bucket_seq s (pBucket p) + 1) mod 2 ^ 64"
  have len: "length ?new + length ?ds = length (commit_of s p)" by (simp add: commit_of_def)
  have seq: "bucket_seq s (pBucket p) = pObservedSeq p" using c by (simp add: commits_def)
  have m1: "\<not> (pMode p = ModeAllOrNothing \<and> 0 + length ?blocked > 0)"
    using c by (auto simp: commits_def filter_empty_conv)
  have "set (commit_of s p) \<noteq> {}" if "pMode p = ModeIncremental"
    using c that by (auto simp: commits_def set_commit_of)
  then have m2: "\<not> (pMode p = ModeIncremental \<and> length ?new + length ?ds = 0)"
    unfolding len by auto
  have cm: "?new @ map fst ?ds = commit_of s p" by (simp add: commit_of_def comp_def)
  have pr: "propose p s = (\<lparr>resStatus = StatusCommitted, resCommitted = commit_of s p,
      resDisplaced = map (\<lambda>(n, r). \<lparr>qNeed = n, qRetriesLeft = r\<rparr>) dbn, resNewSeq = ?seq\<rparr>,
      ?s3\<lparr>bucketSeq := gm_set (pBucket p) ?seq (bucketSeq ?s3)\<rparr>)"
    using m1 m2 unfolding propose_def Let_def classify_spec seq append_Nil prod.case
    by (simp only: if_False not_True_eq_False e prod.case cm new_record_def [symmetric] if_cancel)
       (simp only: seq [symmetric] simp_thms if_False refl)
  show "resStatus r = StatusCommitted" "resCommitted r = commit_of s p"
    by (simp_all add: r_def pr)
  show "claims_ok s'" using ta(1) by (simp add: s'_def pr claims_ok_def owned_def claimed_for_def)
  show "gm_get (claimedBy s') m =
      (if m \<in> set (commit_of s p) then Some (new_record p) else gm_get (claimedBy s) m)"
    using ta(2) [of m] ea(2) [of m] fds
    by (auto simp: s'_def pr s2f commit_of_def simp del: map_of_eq_Some_iff map_of_eq_None_iff)
  show "bucketSeq s' = gm_set (pBucket p) ?seq (bucketSeq s)"
    "ssSnap s' = ssSnap s" "sameDomain s' = sameDomain s"
    using ta(3,4,5) ea(3,4,5) by (simp_all add: s'_def pr s2f)
  show "distinct (map qNeed (resDisplaced r))"
    using ea(6) by (simp add: r_def pr comp_def case_prod_beta)
  have "q \<in> set (resDisplaced r) \<longleftrightarrow> (qNeed q, qRetriesLeft q) \<in> set dbn"
    by (cases q) (force simp: r_def pr)
  also have "\<dots> \<longleftrightarrow> gm_get dbn (qNeed q) = Some (qRetriesLeft q)" using ea(6) by simp
  finally show "q \<in> set (resDisplaced r) \<longleftrightarrow> budget_after ?ds (qNeed q) = Some (qRetriesLeft q)"
    unfolding ea(7) .
qed

section \<open>The claims as an abstract map\<close>

text \<open>
  What the broker promises: a map from machines to claims, and for each bucket a version. A
  proposal made at the current version takes every machine it outranks, all or nothing if it
  asks for that.
\<close>

record claim_map =
  amClaim :: "string \<Rightarrow> claim option"
  amVersion :: "bucket_key \<Rightarrow> nat"

definition abs_claims :: "shared_state \<Rightarrow> claim_map" where
  "abs_claims s = \<lparr>amClaim = gm_get (claimedBy s), amVersion = bucket_seq s\<rparr>"

definition abs_free :: "claim_map \<Rightarrow> precedence \<Rightarrow> string \<Rightarrow> bool" where
  "abs_free a prec m = (case amClaim a m of None \<Rightarrow> True | Some c \<Rightarrow> cPrecedence c < prec)"

definition abs_commits :: "proposal \<Rightarrow> claim_map \<Rightarrow> bool" where
  "abs_commits p a \<longleftrightarrow> amVersion a (pBucket p) = pObservedSeq p
    \<and> (case pMode p of
         ModeAllOrNothing \<Rightarrow> \<forall>m\<in>set (pMachines p). abs_free a (pPrecedence p) m
       | ModeIncremental \<Rightarrow> \<exists>m\<in>set (pMachines p). abs_free a (pPrecedence p) m)"

definition abs_propose :: "proposal \<Rightarrow> claim_map \<Rightarrow> claim_map" where
  "abs_propose p a =
    (if abs_commits p a then
       \<lparr>amClaim = (\<lambda>m. if m \<in> set (pMachines p) \<and> abs_free a (pPrecedence p) m
                     then Some (new_record p) else amClaim a m),
        amVersion = (amVersion a)(pBucket p := (amVersion a (pBucket p) + 1) mod 2 ^ 64)\<rparr>
     else a)"

lemma abs_free_iff: "abs_free (abs_claims s) prec m = displaceable_by s m prec"
  by (auto simp: abs_free_def abs_claims_def displaceable_by_def split: option.splits)

lemma abs_commits_iff: "abs_commits p (abs_claims s) = commits s p"
  by (auto simp: abs_commits_def commits_def abs_free_iff split: proposal_mode.splits)
     (simp_all add: abs_claims_def)

lemma propose_refines:
  assumes "claims_ok s"
  shows "abs_claims (snd (propose p s)) = abs_propose p (abs_claims s)"
proof (cases "commits s p")
  case True
  note pc = propose_commit [OF assms True]
  have "bucket_seq (snd (propose p s)) = (bucket_seq s)(pBucket p := (bucket_seq s (pBucket p) + 1) mod 2 ^ 64)"
    by (rule ext) (simp add: bucket_seq_def pc(5))
  moreover have "gm_get (claimedBy (snd (propose p s))) = (\<lambda>m. if m \<in> set (pMachines p)
      \<and> displaceable_by s m (pPrecedence p) then Some (new_record p) else gm_get (claimedBy s) m)"
    by (rule ext) (simp only: pc(4) set_commit_of mem_Collect_eq)
  ultimately show ?thesis
    using True unfolding abs_propose_def abs_commits_iff abs_free_iff
    unfolding abs_claims_def claim_map.simps by simp
next
  case False
  then show ?thesis by (simp add: abs_propose_def abs_commits_iff propose_conflict)
qed

section \<open>Every interleaving\<close>

text \<open>
  One atomic access of a worker or of the single-threaded pre-pass: the broker takes any
  proposal; the pre-pass seeds machines that are not claimed.
\<close>

inductive claim_step :: "shared_state \<Rightarrow> shared_state \<Rightarrow> bool" where
  cs_propose: "claim_step s (snd (propose p s))"
| cs_seed: "\<not> is_claimed s mid \<Longrightarrow> claim_step s (seed_claim mid n prec r s)"
| cs_domain: "claim_step s (record_same_domain n d s)"
| cs_satisfiable: "claim_step s (record_same_satisfiable n b s)"
| cs_candidates: "claim_step s (record_same_candidates n c s)"

inductive_cases claim_stepE: "claim_step s s'"

text \<open>
  The interface a reader of the claims relies on while other workers run: a claim changes only
  by a new claim that outranks it.
\<close>

locale monotone_claims =
  fixes step :: "'s \<Rightarrow> 's \<Rightarrow> bool"
    and claim_of :: "'s \<Rightarrow> string \<Rightarrow> claim option"
    and inv :: "'s \<Rightarrow> bool"
  assumes step_inv: "inv s \<Longrightarrow> step s s' \<Longrightarrow> inv s'"
    and step_claim: "inv s \<Longrightarrow> step s s' \<Longrightarrow> claim_of s m = Some c \<Longrightarrow>
      claim_of s' m = Some c \<or> (\<exists>c'. claim_of s' m = Some c' \<and> cPrecedence c < cPrecedence c')"
begin

lemma steps_inv: "step\<^sup>*\<^sup>* s s' \<Longrightarrow> inv s \<Longrightarrow> inv s'"
  by (induction rule: rtranclp_induct) (auto intro: step_inv)

lemma steps_claim:
  assumes "step\<^sup>*\<^sup>* s s'" "inv s" "claim_of s m = Some c"
  shows "claim_of s' m = Some c \<or> (\<exists>c'. claim_of s' m = Some c' \<and> cPrecedence c < cPrecedence c')"
  using assms
proof (induction rule: rtranclp_induct)
  case (step y z)
  have iy: "inv y" using step.hyps(1) step.prems(1) by (rule steps_inv)
  from step.IH [OF step.prems] show ?case
  proof
    assume "claim_of y m = Some c"
    then show ?thesis by (rule step_claim [OF iy step.hyps(2)])
  next
    assume "\<exists>c'. claim_of y m = Some c' \<and> cPrecedence c < cPrecedence c'"
    then obtain c' where c': "claim_of y m = Some c'" "cPrecedence c < cPrecedence c'" by blast
    from step_claim [OF iy step.hyps(2) c'(1)] show ?thesis using c'
      by (metis less_trans)
  qed
qed simp

lemma steps_claimed:
  assumes "step\<^sup>*\<^sup>* s s'" "inv s" "claim_of s m = Some c"
  obtains c' where "claim_of s' m = Some c'" "cPrecedence c \<le> cPrecedence c'"
    "cNeed c' \<noteq> cNeed c \<Longrightarrow> cPrecedence c < cPrecedence c'"
  using steps_claim [OF assms] by (metis order.strict_implies_order order_refl)

end

lemma claim_step_ok: "claim_step s s' \<Longrightarrow> claims_ok s \<Longrightarrow> claims_ok s'"
proof (induction rule: claim_step.induct)
  case (cs_propose s p)
  then show ?case
    using propose_commit(3) [of s p] propose_conflict [of s p] by (cases "commits s p") auto
next
  case (cs_seed s mid n prec r)
  then show ?case by (intro claims_ok_seed)
qed (auto simp: claims_ok_def owned_def claimed_for_def record_same_domain_def
    record_same_satisfiable_def record_same_candidates_def)

lemma claim_step_claim:
  assumes "claims_ok s" "claim_step s s'" "gm_get (claimedBy s) m = Some c"
  shows "gm_get (claimedBy s') m = Some c
    \<or> (\<exists>c'. gm_get (claimedBy s') m = Some c' \<and> cPrecedence c < cPrecedence c')"
  using assms(2)
proof (cases rule: claim_step.cases)
  case (cs_propose p)
  show ?thesis
  proof (cases "commits s p")
    case True
    note pc = propose_commit(4) [OF assms(1) True, of m]
    show ?thesis
    proof (cases "m \<in> set (commit_of s p)")
      case True
      then have "cPrecedence c < pPrecedence p"
        using assms(3) by (simp add: set_commit_of displaceable_by_def)
      then show ?thesis using True pc cs_propose by (simp add: new_record_def)
    qed (use pc cs_propose assms(3) in simp)
  qed (use cs_propose assms(3) in \<open>simp add: propose_conflict\<close>)
next
  case (cs_seed mid n prec r)
  then have "m \<noteq> mid" using assms(3) by (auto simp: is_claimed_def)
  then show ?thesis using assms(3) cs_seed by (simp add: seed_claim_def)
qed (use assms(3) in \<open>simp_all add: record_same_domain_def record_same_satisfiable_def
      record_same_candidates_def\<close>)

interpretation occ: monotone_claims claim_step "\<lambda>s. gm_get (claimedBy s)" claims_ok
  by unfold_locales (rule claim_step_ok claim_step_claim; assumption)+

text \<open>A proposal computed against a version that another commit has replaced is refused.\<close>

lemma stale_version:
  assumes "claims_ok s" "commits s q" "pBucket q = pBucket p" "pObservedSeq p = bucket_seq s (pBucket p)"
  shows "\<not> commits (snd (propose q s)) p"
proof -
  have "bucket_seq (snd (propose q s)) (pBucket p) = (bucket_seq s (pBucket p) + 1) mod 2 ^ 64"
    using propose_commit(5) [OF assms(1,2)] assms(3) by (simp add: bucket_seq_def)
  moreover have "(n + 1) mod 2 ^ 64 \<noteq> n" for n :: nat
  proof
    assume e: "(n + 1) mod 2 ^ 64 = n"
    then have "n < 2 ^ 64" by (metis mod_less_divisor zero_less_numeral zero_less_power)
    then show False using e by (cases "n + 1 = 2 ^ 64") auto
  qed
  ultimately show ?thesis using assms(4) by (simp add: commits_def)
qed

end
