(* ===== verification/Pool.thy ===== *)
theory Pool
  imports Claims
begin

text \<open>
  Candidate pools and the three candidate finders
  (\<open>pkg/decision/occ/poolcache.go\<close>, \<open>candidates.go\<close>, \<open>match.go\<close>). \<open>occ/match.go\<close> is a copy of
  \<open>decision/match.go\<close>; both are \<^const>\<open>match_profile\<close>.
\<close>

section \<open>Pools\<close>

record pool =
  plSrc :: "machine list"
  plProfile :: profile

definition pinned_instance_types :: "profile \<Rightarrow> string list option" where
  "pinned_instance_types p =
    (case find (\<lambda>r. rKey r = instance_type_key) (requirements p) of
       None \<Rightarrow> None
     | Some r \<Rightarrow> if rOperator r = OperatorIn \<and> length (rValues r) > 0 then Some (rValues r) else None)"

definition spec_less :: "f64 \<Rightarrow> machine \<Rightarrow> machine \<Rightarrow> bool" where
  "spec_less penalty a b \<longleftrightarrow>
    (let ai = effective_cost a penalty; aj = effective_cost b penalty
     in if \<not> f64_eq ai aj then f64_lt ai aj else ID a < ID b)"

definition sort_idle_candidates :: "machine list \<Rightarrow> machine list" where
  "sort_idle_candidates s = sort_less price_less s"

definition sort_speculative_candidates :: "machine list \<Rightarrow> f64 \<Rightarrow> machine list" where
  "sort_speculative_candidates s penalty = sort_less (spec_less penalty) s"

definition build_pool :: "snapshot \<Rightarrow> state \<Rightarrow> profile \<Rightarrow> pool" where
  "build_pool snap st p =
    (let types = pinned_instance_types p;
         merged = (case types of
             None \<Rightarrow> snap_by_state snap st
           | Some ts \<Rightarrow> concat (map (snap_by_type snap st) ts))
     in case types of
          Some [t] \<Rightarrow>
            if st = StateIdle then \<lparr>plSrc = snap_by_type snap st t, plProfile = p\<rparr>
            else if length merged \<le> 1 then \<lparr>plSrc = merged, plProfile = p\<rparr>
            else if st = StateSpeculative then
              \<lparr>plSrc = sort_speculative_candidates merged
                 (upper_bound_dollars (interruptionPenaltyBucket p)), plProfile = p\<rparr>
            else \<lparr>plSrc = sort_less (\<lambda>a b. ID a < ID b) merged, plProfile = p\<rparr>
        | _ \<Rightarrow>
            if length merged \<le> 1 then \<lparr>plSrc = merged, plProfile = p\<rparr>
            else if st = StateIdle then \<lparr>plSrc = sort_idle_candidates merged, plProfile = p\<rparr>
            else if st = StateSpeculative then
              \<lparr>plSrc = sort_speculative_candidates merged
                 (upper_bound_dollars (interruptionPenaltyBucket p)), plProfile = p\<rparr>
            else \<lparr>plSrc = sort_less (\<lambda>a b. ID a < ID b) merged, plProfile = p\<rparr>)"

fun state_code :: "state \<Rightarrow> nat" where
  "state_code StateUnspecified = 0"
| "state_code StateSpeculative = 1"
| "state_code StateCreating = 2"
| "state_code StateIdle = 3"
| "state_code StateConfiguring = 4"
| "state_code StateConfigured = 5"
| "state_code StateDraining = 6"
| "state_code StateDeleting = 7"
| "state_code StateFailed = 8"

definition pool_key :: "state \<Rightarrow> profile \<Rightarrow> string" where
  "pool_key st p = char_of (state_code st) # fingerprint p"

type_synonym pool_cache = "(string, pool) gomap"

definition pool_cache_get :: "snapshot \<Rightarrow> state \<Rightarrow> profile \<Rightarrow> pool_cache \<Rightarrow> pool \<times> pool_cache" where
  "pool_cache_get snap st p c =
    (let key = pool_key st p in
     case gm_get c key of
       Some pl \<Rightarrow> (pl, c)
     | None \<Rightarrow> (let pl = build_pool snap st p in (pl, gm_set key pl c)))"

section \<open>Routing\<close>

definition same_requirement_key :: "profile \<Rightarrow> string option" where
  "same_requirement_key p =
    (case find (\<lambda>r. rOperator r = OperatorSame) (requirements p) of
       None \<Rightarrow> None | Some r \<Rightarrow> Some (rKey r))"

definition strict_spread :: "profile \<Rightarrow> (string \<times> int) option" where
  "strict_spread p =
    (case find (\<lambda>s. tsWhenUnsatisfiable s = WhenUnsatisfiableDoNotSchedule) (spread p) of
       None \<Rightarrow> None | Some s \<Rightarrow> Some (tsTopologyKey s, tsMaxSkew s))"

section \<open>The finders\<close>

record candidates =
  caMachines :: "string list"
  caBucket :: bucket_key

definition zero_bucket :: bucket_key where
  "zero_bucket = \<lparr>bkState = StateUnspecified, bkProfileFP = '''', bkSameKey = '''', bkSameValue = ''''\<rparr>"

definition no_candidates :: candidates where
  "no_candidates = \<lparr>caMachines = [], caBucket = zero_bucket\<rparr>"

definition alloc_of :: "machine \<Rightarrow> resource_qty list" where
  "alloc_of m = resource_qtys_from_map (effective_allocatable m)"

text \<open>
  The loop all finders end in: walk the machines, skip those that do not pass, take the
  others until nothing of the deficit remains. The flag says the loop stopped early.
\<close>

fun take_loop ::
    "'q qlib \<Rightarrow> (machine \<Rightarrow> bool) \<Rightarrow> machine list \<Rightarrow> machine list \<Rightarrow> resource_qty list
      \<Rightarrow> machine list \<times> resource_qty list \<times> bool" where
  "take_loop Q pass [] out remaining = (out, remaining, False)"
| "take_loop Q pass (m # ms) out remaining =
    (if \<not> pass m then take_loop Q pass ms out remaining
     else
       let out = out @ [m]; remaining = sub_resources Q remaining (alloc_of m)
       in if is_zero Q remaining then (out, remaining, True)
          else take_loop Q pass ms out remaining)"

definition find_basic ::
    "'q qlib \<Rightarrow> pool \<Rightarrow> shared_state \<Rightarrow> state \<Rightarrow> precedence \<Rightarrow> resource_qty list \<Rightarrow> resource_qty list
      \<Rightarrow> candidates" where
  "find_basic Q p s st prec deficit minUnit =
    (if is_zero Q deficit then no_candidates
     else
       let bucket = \<lparr>bkState = st, bkProfileFP = fingerprint (plProfile p), bkSameKey = '''', bkSameValue = ''''\<rparr>;
           pass1 = (\<lambda>m. \<not> is_claimed s (ID m) \<and> match_profile (plProfile p) m
                      \<and> covers Q (alloc_of m) minUnit);
           pass2 = (\<lambda>m. is_claimed s (ID m) \<and> displaceable_by s (ID m) prec
                      \<and> match_profile (plProfile p) m \<and> covers Q (alloc_of m) minUnit);
           (out1, rem1, full) = take_loop Q pass1 (plSrc p) [] deficit
       in if full then \<lparr>caMachines = map ID out1, caBucket = bucket\<rparr>
          else
            let (out2, _, _) = take_loop Q pass2 (plSrc p) out1 rem1
            in \<lparr>caMachines = map ID out2, caBucket = bucket\<rparr>)"

text \<open>The buckets of the fallback of \<open>FindSame\<close>, in order of first appearance.\<close>

definition same_buckets :: "profile \<Rightarrow> string \<Rightarrow> machine list \<Rightarrow> (string, machine list) gomap" where
  "same_buckets p sameKey src =
    foldl (\<lambda>bs m. if \<not> match_profile p m then bs
           else case lookup_attribute sameKey m of
                  None \<Rightarrow> bs | Some v \<Rightarrow> gm_append v m bs) [] src"

record best_bucket =
  bbValue :: string
  bbMachines :: "machine list"
  bbAtomic :: bool
  bbHeadPrice :: f64
  bbAvail :: nat

text \<open>The score of one bucket, \<open>None\<close> when nothing in it is available.\<close>

definition score_bucket ::
    "'q qlib \<Rightarrow> shared_state \<Rightarrow> precedence \<Rightarrow> resource_qty list \<Rightarrow> resource_qty list
      \<Rightarrow> string \<times> machine list \<Rightarrow> best_bucket option" where
  "score_bucket Q s prec deficit minUnit b =
    (let usable = filter (\<lambda>m. displaceable_by s (ID m) prec \<and> covers Q (alloc_of m) minUnit) (snd b);
         capacity = foldl (\<lambda>c m. add_resources Q c (alloc_of m)) [] usable
     in case usable of
          [] \<Rightarrow> None
        | m # _ \<Rightarrow> Some \<lparr>bbValue = fst b, bbMachines = snd b, bbAtomic = covers Q capacity deficit,
                         bbHeadPrice = PricePerHour m, bbAvail = length usable\<rparr>)"

definition better_bucket :: "best_bucket \<Rightarrow> best_bucket \<Rightarrow> bool" where
  "better_bucket b best \<longleftrightarrow>
    (if bbAtomic b \<and> \<not> bbAtomic best then True
     else if bbAtomic b = bbAtomic best then
       if bbAtomic b then
         f64_lt (bbHeadPrice b) (bbHeadPrice best)
         \<or> f64_eq (bbHeadPrice b) (bbHeadPrice best) \<and> bbValue b < bbValue best
       else
         bbAvail b > bbAvail best
         \<or> bbAvail b = bbAvail best \<and> f64_lt (bbHeadPrice b) (bbHeadPrice best)
         \<or> bbAvail b = bbAvail best \<and> f64_eq (bbHeadPrice b) (bbHeadPrice best)
           \<and> bbValue b < bbValue best
     else False)"

definition best_step ::
    "'q qlib \<Rightarrow> shared_state \<Rightarrow> precedence \<Rightarrow> resource_qty list \<Rightarrow> resource_qty list
      \<Rightarrow> best_bucket option \<Rightarrow> string \<times> machine list \<Rightarrow> best_bucket option" where
  "best_step Q s prec deficit minUnit best b =
    (case score_bucket Q s prec deficit minUnit b of
       None \<Rightarrow> best
     | Some x \<Rightarrow> (case best of None \<Rightarrow> Some x | Some y \<Rightarrow> if better_bucket x y then Some x else best))"

definition find_same ::
    "'q qlib \<Rightarrow> pool \<Rightarrow> shared_state \<Rightarrow> state \<Rightarrow> precedence \<Rightarrow> resource_qty list \<Rightarrow> resource_qty list
      \<Rightarrow> string \<Rightarrow> string \<Rightarrow> candidates" where
  "find_same Q p s st prec deficit minUnit sameKey domain =
    (if is_zero Q deficit then no_candidates
     else if domain \<noteq> '''' then
       let pass = (\<lambda>m. displaceable_by s (ID m) prec \<and> match_profile (plProfile p) m
                     \<and> lookup_attribute sameKey m = Some domain \<and> covers Q (alloc_of m) minUnit);
           (out, _, _) = take_loop Q pass (plSrc p) [] deficit
       in if out = [] then no_candidates
          else \<lparr>caMachines = map ID out,
                caBucket = \<lparr>bkState = st, bkProfileFP = fingerprint (plProfile p),
                            bkSameKey = sameKey, bkSameValue = domain\<rparr>\<rparr>
     else
       case foldl (best_step Q s prec deficit minUnit) None (same_buckets (plProfile p) sameKey (plSrc p)) of
         None \<Rightarrow> no_candidates
       | Some best \<Rightarrow>
         let pass = (\<lambda>m. displaceable_by s (ID m) prec \<and> covers Q (alloc_of m) minUnit);
             (out, _, _) = take_loop Q pass (bbMachines best) [] deficit
         in \<lparr>caMachines = map ID out,
             caBucket = \<lparr>bkState = st, bkProfileFP = fingerprint (plProfile p),
                         bkSameKey = sameKey, bkSameValue = bbValue best\<rparr>\<rparr>)"

subsection \<open>Spreading\<close>

text \<open>A spread bucket is its machines and the index of its head; the keys are in order of appearance.\<close>

type_synonym spread_buckets = "(string, machine list \<times> nat) gomap"

definition spread_add ::
    "'q qlib \<Rightarrow> pool \<Rightarrow> shared_state \<Rightarrow> precedence \<Rightarrow> resource_qty list \<Rightarrow> string
      \<Rightarrow> spread_buckets \<Rightarrow> machine \<Rightarrow> spread_buckets" where
  "spread_add Q p s prec minUnit topoKey bs m =
    (if \<not> displaceable_by s (ID m) prec then bs
     else if \<not> match_profile (plProfile p) m then bs
     else if \<not> covers Q (alloc_of m) minUnit then bs
     else case lookup_attribute topoKey m of
            None \<Rightarrow> bs
          | Some v \<Rightarrow> (let (ms, h) = gm_at ([], 0) bs v in gm_set v (ms @ [m], h) bs))"

definition spread_buckets ::
    "'q qlib \<Rightarrow> pool \<Rightarrow> shared_state \<Rightarrow> precedence \<Rightarrow> resource_qty list \<Rightarrow> string \<Rightarrow> spread_buckets" where
  "spread_buckets Q p s prec minUnit topoKey =
    foldl (spread_add Q p s prec minUnit topoKey) [] (plSrc p)"

definition min_count :: "string list \<Rightarrow> (string, int) gomap \<Rightarrow> int" where
  "min_count keys counts =
    foldl (\<lambda>mc k. let c = gm_at 0 counts k in if mc = - 1 \<or> c < mc then c else mc) (- 1) keys"

text \<open>The cheapest head among the keys that are not too far ahead.\<close>

definition spread_pick ::
    "int \<Rightarrow> int \<Rightarrow> spread_buckets \<Rightarrow> (string, int) gomap \<Rightarrow> (string \<times> f64) option \<Rightarrow> string
      \<Rightarrow> (string \<times> f64) option" where
  "spread_pick skew minCount bs counts best k =
    (let (ms, h) = gm_at ([], 0) bs k in
     if h \<ge> length ms then best
     else if gm_at 0 counts k > minCount + skew - 1 then best
     else
       let price = PricePerHour (ms ! h)
       in case best of
            None \<Rightarrow> Some (k, price)
          | Some (bestKey, bestPrice) \<Rightarrow>
            if f64_lt price bestPrice \<or> f64_eq price bestPrice \<and> k < bestKey
            then Some (k, price) else best)"

definition spread_left :: "spread_buckets \<Rightarrow> nat" where
  "spread_left bs = sum_list (map (\<lambda>(_, ms, h). length ms - h) bs)"

lemma spread_left_set:
  "gm_get bs k = Some (ms, h) \<Longrightarrow> h < length ms \<Longrightarrow> spread_left (gm_set k (ms, Suc h) bs) < spread_left bs"
  by (induction bs) (auto simp: spread_left_def split: if_splits)

lemma spread_pick_inv:
  assumes "foldl (spread_pick skew mc bs counts) None keys = Some (k, pr)"
  shows "k \<in> set keys" "\<exists>ms h. gm_get bs k = Some (ms, h) \<and> h < length ms"
    and "gm_at 0 counts k \<le> mc + skew - 1"
proof -
  have "\<forall>k pr. foldl (spread_pick skew mc bs counts) None keys = Some (k, pr) \<longrightarrow>
    k \<in> set keys \<and> (\<exists>ms h. gm_get bs k = Some (ms, h) \<and> h < length ms) \<and> gm_at 0 counts k \<le> mc + skew - 1"
    by (induction keys rule: rev_induct)
      (auto simp: spread_pick_def Let_def gm_at_def [of "([], 0)"] split: option.splits if_splits prod.splits)
  then show "k \<in> set keys" "\<exists>ms h. gm_get bs k = Some (ms, h) \<and> h < length ms"
    "gm_at 0 counts k \<le> mc + skew - 1" using assms by blast+
qed

function spread_loop ::
    "'q qlib \<Rightarrow> int \<Rightarrow> spread_buckets \<Rightarrow> (string, int) gomap \<Rightarrow> resource_qty list \<Rightarrow> machine list
      \<Rightarrow> machine list" where
  "spread_loop Q skew bs counts remaining out =
    (if is_zero Q remaining then out
     else
       let keys = map fst bs; minCount = min_count keys counts
       in case foldl (spread_pick skew minCount bs counts) None keys of
            None \<Rightarrow> out
          | Some (bestKey, _) \<Rightarrow>
            let (ms, h) = gm_at ([], 0) bs bestKey; m = ms ! h
            in spread_loop Q skew (gm_set bestKey (ms, h + 1) bs)
                 (gm_set bestKey (gm_at 0 counts bestKey + 1) counts)
                 (sub_resources Q remaining (alloc_of m)) (out @ [m]))"
  by pat_completeness auto
termination
proof (relation "measure (\<lambda>(_, _, bs, _, _, _). spread_left bs)", goal_cases)
  case (2 Q skew bs counts remaining out keys mc best key pr x ms h m)
  then obtain ms' h' where g: "gm_get bs key = Some (ms', h')" "h' < length ms'"
    using spread_pick_inv(2) by metis
  then have "ms' = ms" "h' = h" using 2 by (auto simp: gm_at_def)
  then show ?case using g by (simp add: spread_left_set)
qed simp

declare spread_loop.simps [simp del]

definition find_spread ::
    "'q qlib \<Rightarrow> pool \<Rightarrow> shared_state \<Rightarrow> state \<Rightarrow> precedence \<Rightarrow> resource_qty list \<Rightarrow> resource_qty list
      \<Rightarrow> string \<Rightarrow> int \<Rightarrow> candidates" where
  "find_spread Q p s st prec deficit minUnit topoKey maxSkew =
    (if is_zero Q deficit then no_candidates
     else
       let skew = (if maxSkew < 1 then 1 else maxSkew);
           buckets = spread_buckets Q p s prec minUnit topoKey
       in if length buckets = 0 then no_candidates
          else \<lparr>caMachines = map ID (spread_loop Q skew buckets [] deficit []),
                caBucket = \<lparr>bkState = st, bkProfileFP = fingerprint (plProfile p),
                            bkSameKey = topoKey, bkSameValue = ''''\<rparr>\<rparr>)"

section \<open>What the finders return\<close>

definition capacity_sum :: "'q qlib \<Rightarrow> ('q \<Rightarrow> rat) \<Rightarrow> machine list \<Rightarrow> string \<Rightarrow> rat" where
  "capacity_sum Q val ms d = sum_list (map (\<lambda>m. rval Q val (alloc_of m) d) ms)"

text \<open>Machines that report no negative capacity.\<close>

definition capacity_ok :: "'q qlib \<Rightarrow> ('q \<Rightarrow> rat) \<Rightarrow> machine list \<Rightarrow> bool" where
  "capacity_ok Q val ms \<longleftrightarrow> (\<forall>m\<in>set ms. \<forall>d. 0 \<le> rval Q val (alloc_of m) d)"

definition remaining_of :: "'q qlib \<Rightarrow> resource_qty list \<Rightarrow> machine list \<Rightarrow> resource_qty list" where
  "remaining_of Q deficit ms = foldl (\<lambda>r m. sub_resources Q r (alloc_of m)) deficit ms"

definition eligible ::
    "'q qlib \<Rightarrow> profile \<Rightarrow> shared_state \<Rightarrow> precedence \<Rightarrow> resource_qty list \<Rightarrow> machine \<Rightarrow> bool" where
  "eligible Q p s prec minUnit m \<longleftrightarrow>
    match_profile p m \<and> covers Q (alloc_of m) minUnit \<and> displaceable_by s (ID m) prec"

lemma capacity_sum_simps [simp]:
  "capacity_sum Q val [] d = 0"
  "capacity_sum Q val (m # ms) d = rval Q val (alloc_of m) d + capacity_sum Q val ms d"
  "capacity_sum Q val (ms @ ms') d = capacity_sum Q val ms d + capacity_sum Q val ms' d"
  by (simp_all add: capacity_sum_def)

lemma remaining_of_simps [simp]:
  "remaining_of Q r [] = r"
  "remaining_of Q r (m # ms) = remaining_of Q (sub_resources Q r (alloc_of m)) ms"
  "remaining_of Q r (ms @ ms') = remaining_of Q (remaining_of Q r ms) ms'"
  by (simp_all add: remaining_of_def)

lemma remaining_of_ge:
  assumes "quantity_laws Q val" "capacity_ok Q val ms"
  shows "rval Q val r d - capacity_sum Q val ms d \<le> rval Q val (remaining_of Q r ms) d"
  using assms(2)
proof (induction ms arbitrary: r)
  case (Cons m ms)
  have "rval Q val r d - rval Q val (alloc_of m) d \<le> rval Q val (sub_resources Q r (alloc_of m)) d"
    using rval_sub [OF assms(1)] Cons.prems by (simp add: capacity_ok_def)
  then show ?case using Cons.IH [of "sub_resources Q r (alloc_of m)"] Cons.prems
    by (simp add: capacity_ok_def)
qed simp

lemma remaining_of_exact:
  assumes "quantity_laws Q val" "capacity_ok Q val ms" "ms \<noteq> []"
  shows "rval Q val (remaining_of Q r ms) d = max 0 (rval Q val r d - capacity_sum Q val ms d)"
  using assms(2,3)
proof (induction ms rule: rev_induct)
  case (snoc m ms)
  have nn: "0 \<le> rval Q val (alloc_of m) d" using snoc.prems by (simp add: capacity_ok_def)
  have s: "rval Q val (sub_resources Q r' (alloc_of m)) d = max 0 (rval Q val r' d - rval Q val (alloc_of m) d)"
    for r' by (rule rval_sub [OF assms(1) nn])
  show ?case
  proof (cases "ms = []")
    case False
    then have "rval Q val (remaining_of Q r ms) d = max 0 (rval Q val r d - capacity_sum Q val ms d)"
      using snoc by (simp add: capacity_ok_def)
    then show ?thesis using nn by (simp add: s max_def)
  qed (simp add: s)
qed simp

lemma rv_ok_remaining: "ms \<noteq> [] \<Longrightarrow> rv_ok (remaining_of Q r ms)"
  by (cases ms rule: rev_cases) (simp_all add: sub_resources_def rv_ok_combine)

text \<open>Nothing remains exactly when the machines taken supply the deficit.\<close>

lemma is_zero_remaining:
  assumes "quantity_laws Q val" "capacity_ok Q val ms" "ms \<noteq> []"
  shows "is_zero Q (remaining_of Q r ms) \<longleftrightarrow> (\<forall>d. rval Q val r d \<le> capacity_sum Q val ms d)"
  unfolding is_zero_iff [OF assms(1) rv_ok_remaining [OF assms(3)]]
    remaining_of_exact [OF assms] by simp

definition take_post ::
    "'q qlib \<Rightarrow> (machine \<Rightarrow> bool) \<Rightarrow> machine list \<Rightarrow> resource_qty list \<Rightarrow> machine list
      \<Rightarrow> resource_qty list \<Rightarrow> bool \<Rightarrow> bool" where
  "take_post Q pass ms r taken r' full \<longleftrightarrow>
    (\<exists>pre post. ms = pre @ post \<and> taken = filter pass pre \<and> (\<not> full \<longrightarrow> post = []))
    \<and> r' = remaining_of Q r taken
    \<and> (full \<longrightarrow> taken \<noteq> [] \<and> is_zero Q r')
    \<and> (\<not> full \<longrightarrow> taken \<noteq> [] \<longrightarrow> \<not> is_zero Q r')
    \<and> (\<forall>a b. taken = a @ b \<longrightarrow> a \<noteq> [] \<longrightarrow> b \<noteq> [] \<longrightarrow> \<not> is_zero Q (remaining_of Q r a))"

lemma take_post_nil: "take_post Q pass [] r [] r False"
  by (simp add: take_post_def)

lemma take_post_skip: "\<not> pass m \<Longrightarrow> take_post Q pass ms r t r' f \<Longrightarrow> take_post Q pass (m # ms) r t r' f"
  unfolding take_post_def by (metis append_Cons filter.simps(2))

lemma take_post_stop:
  "pass m \<Longrightarrow> is_zero Q (sub_resources Q r (alloc_of m)) \<Longrightarrow>
    take_post Q pass (m # ms) r [m] (sub_resources Q r (alloc_of m)) True"
  unfolding take_post_def
proof (intro conjI allI impI)
  assume "pass m"
  then show "\<exists>pre post. m # ms = pre @ post \<and> [m] = filter pass pre \<and> (\<not> True \<longrightarrow> post = [])"
    by (intro exI [of _ "[m]"] exI [of _ ms]) simp
qed (auto simp: Cons_eq_append_conv)

lemma take_post_take:
  assumes "pass m" "\<not> is_zero Q (sub_resources Q r (alloc_of m))"
    and t: "take_post Q pass ms (sub_resources Q r (alloc_of m)) t r' f"
  shows "take_post Q pass (m # ms) r (m # t) r' f"
  unfolding take_post_def
proof (intro conjI allI impI)
  obtain pre post where P: "ms = pre @ post" "t = filter pass pre" "\<not> f \<longrightarrow> post = []"
    using t unfolding take_post_def by blast
  show "\<exists>pre post. m # ms = pre @ post \<and> m # t = filter pass pre \<and> (\<not> f \<longrightarrow> post = [])"
    using P assms(1) by (intro exI [of _ "m # pre"] exI [of _ post]) simp
  show "r' = remaining_of Q r (m # t)" using t by (simp add: take_post_def)
  show "f \<Longrightarrow> is_zero Q r'" using t unfolding take_post_def by blast
  show "\<not> f \<Longrightarrow> \<not> is_zero Q r'"
    using t assms(2) by (cases "t = []") (auto simp: take_post_def)
  fix a b assume ab: "m # t = a @ b" "a \<noteq> []" "b \<noteq> []"
  then obtain a' where a': "a = m # a'" "t = a' @ b" by (cases a) auto
  show "\<not> is_zero Q (remaining_of Q r a)"
    using t assms(2) a' ab(3) by (cases "a' = []") (auto simp: take_post_def)
qed simp

lemma take_loop_spec:
  assumes "take_loop Q pass ms out r = (out', r', full)"
  obtains taken where "out' = out @ taken" "take_post Q pass ms r taken r' full"
  using assms
proof (induction ms arbitrary: out r thesis)
  case Nil
  then show ?case by (intro Nil.prems(1) [of "[]"]) (auto simp: take_post_nil)
next
  case (Cons m ms)
  show ?case
  proof (cases "pass m")
    case False
    then have tl: "take_loop Q pass ms out r = (out', r', full)" using Cons.prems(2) by simp
    obtain t where "out' = out @ t" "take_post Q pass ms r t r' full" using Cons.IH [OF _ tl] by blast
    then show ?thesis using Cons.prems(1) [of t] take_post_skip [of pass, OF False] by blast
  next
    case True
    let ?r = "sub_resources Q r (alloc_of m)"
    show ?thesis
    proof (cases "is_zero Q ?r")
      case z: True
      then have "out' = out @ [m]" "r' = ?r" "full" using Cons.prems(2) True by (auto simp: Let_def)
      then show ?thesis using Cons.prems(1) take_post_stop [of pass, OF True z] by simp
    next
      case False
      then have tl: "take_loop Q pass ms (out @ [m]) ?r = (out', r', full)"
        using Cons.prems(2) True by (simp add: Let_def)
      obtain t where "out' = (out @ [m]) @ t" "take_post Q pass ms ?r t r' full"
        using Cons.IH [OF _ tl] by blast
      then show ?thesis using Cons.prems(1) [of "m # t"] take_post_take [of pass, OF True False] by simp
    qed
  qed
qed

text \<open>What the loop took covers the deficit, or it took every machine that passes.\<close>

lemma take_loop_covers:
  assumes q: "quantity_laws Q val" and c: "capacity_ok Q val ms"
    and t: "take_loop Q pass ms [] r = (out, r', full)"
  shows "(\<forall>d. rval Q val r d \<le> capacity_sum Q val out d) \<or> out = filter pass ms"
    and "\<forall>m\<in>set out. m \<in> set ms \<and> pass m"
    and "distinct (map ID ms) \<Longrightarrow> distinct (map ID out)"
proof -
  have tp: "take_post Q pass ms r out r' full" using take_loop_spec [OF t] by (metis append_Nil)
  then obtain pre post where P: "ms = pre @ post" "out = filter pass pre" "\<not> full \<longrightarrow> post = []"
    unfolding take_post_def by blast
  have co: "capacity_ok Q val out" using c P(1,2) by (auto simp: capacity_ok_def)
  show "(\<forall>d. rval Q val r d \<le> capacity_sum Q val out d) \<or> out = filter pass ms"
  proof (cases full)
    case True
    then have "is_zero Q (remaining_of Q r out)" "out \<noteq> []" using tp by (auto simp: take_post_def)
    then show ?thesis using is_zero_remaining [OF q co] by blast
  qed (use P in auto)
  show "\<forall>m\<in>set out. m \<in> set ms \<and> pass m" using P by auto
  show "distinct (map ID ms) \<Longrightarrow> distinct (map ID out)" using P by (simp add: distinct_map_filter)
qed

subsection \<open>FindBasic\<close>

lemma find_basic_taken:
  assumes q: "quantity_laws Q val" and c: "capacity_ok Q val (plSrc p)"
    and d: "distinct (map ID (plSrc p))"
  obtains taken where "caMachines (find_basic Q p s st prec deficit minUnit) = map ID taken"
    "\<forall>m\<in>set taken. m \<in> set (plSrc p) \<and> eligible Q (plProfile p) s prec minUnit m"
    "distinct (map ID taken)"
    "is_zero Q deficit \<or> (\<forall>n. rval Q val deficit n \<le> capacity_sum Q val taken n)
      \<or> (\<forall>m\<in>set (plSrc p). eligible Q (plProfile p) s prec minUnit m \<longrightarrow> m \<in> set taken)"
    "(\<forall>m\<in>set taken. \<not> is_claimed s (ID m))
      \<or> (\<forall>m\<in>set (plSrc p). eligible Q (plProfile p) s prec minUnit m \<longrightarrow> \<not> is_claimed s (ID m) \<longrightarrow> m \<in> set taken)"
proof (cases "is_zero Q deficit")
  case True
  then show ?thesis by (intro that [of "[]"]) (simp_all add: find_basic_def no_candidates_def)
next
  case nz: False
  let ?p1 = "\<lambda>m. \<not> is_claimed s (ID m) \<and> match_profile (plProfile p) m \<and> covers Q (alloc_of m) minUnit"
  let ?p2 = "\<lambda>m. is_claimed s (ID m) \<and> displaceable_by s (ID m) prec
    \<and> match_profile (plProfile p) m \<and> covers Q (alloc_of m) minUnit"
  have un: "displaceable_by s k prec" if "\<not> is_claimed s k" for k
    using that by (simp add: is_claimed_def displaceable_by_def)
  have elig: "eligible Q (plProfile p) s prec minUnit m \<longleftrightarrow> ?p1 m \<or> ?p2 m" for m
    using un by (auto simp: eligible_def)
  obtain out1 rem1 full where t1: "take_loop Q ?p1 (plSrc p) [] deficit = (out1, rem1, full)"
    by (rule prod_cases3)
  obtain x where "out1 = [] @ x" "take_post Q ?p1 (plSrc p) deficit x rem1 full"
    by (rule take_loop_spec [OF t1])
  then have tp1: "take_post Q ?p1 (plSrc p) deficit out1 rem1 full" by simp
  note c1 = take_loop_covers [OF q c t1]
  show ?thesis
  proof (cases full)
    case True
    have "caMachines (find_basic Q p s st prec deficit minUnit) = map ID out1"
      using nz t1 True by (simp add: find_basic_def Let_def)
    moreover have "\<forall>n. rval Q val deficit n \<le> capacity_sum Q val out1 n"
    proof -
      have "is_zero Q (remaining_of Q deficit out1)" "out1 \<noteq> []"
        using tp1 True unfolding take_post_def by blast+
      moreover have "capacity_ok Q val out1" using c c1(2) by (simp add: capacity_ok_def)
      ultimately show ?thesis using is_zero_remaining [OF q] by blast
    qed
    ultimately show ?thesis using c1(2) c1(3) [OF d] elig
      by (intro that [of out1]) blast+
  next
    case False
    obtain out2 rem2 full2 where t2: "take_loop Q ?p2 (plSrc p) out1 rem1 = (out2, rem2, full2)"
      by (rule prod_cases3)
    obtain x where x: "out2 = out1 @ x" and tp2: "take_post Q ?p2 (plSrc p) rem1 x rem2 full2"
      by (rule take_loop_spec [OF t2])
    have fm: "caMachines (find_basic Q p s st prec deficit minUnit) = map ID (out1 @ x)"
      using nz t1 t2 False x by (simp add: find_basic_def Let_def)
    have all1: "out1 = filter ?p1 (plSrc p)" using tp1 False unfolding take_post_def by auto
    obtain pre post where pp: "plSrc p = pre @ post" "x = filter ?p2 pre" "\<not> full2 \<longrightarrow> post = []"
      using tp2 unfolding take_post_def by blast
    have xs: "\<forall>m\<in>set x. m \<in> set (plSrc p) \<and> ?p2 m" using pp by auto
    have dx: "distinct (map ID x)" using d pp(1,2) by (simp add: distinct_map_filter)
    have dis: "distinct (map ID (out1 @ x))"
      using c1(2) c1(3) [OF d] dx xs by (auto simp: image_iff)
    have cov: "(\<forall>n. rval Q val deficit n \<le> capacity_sum Q val (out1 @ x) n) \<or> x = filter ?p2 (plSrc p)"
    proof (cases full2)
      case True
      have r1: "rem1 = remaining_of Q deficit out1" using tp1 unfolding take_post_def by blast
      have "is_zero Q (remaining_of Q rem1 x)" "x \<noteq> []"
        using tp2 True unfolding take_post_def by blast+
      then have "is_zero Q (remaining_of Q deficit (out1 @ x))" "out1 @ x \<noteq> []" using r1 by simp_all
      moreover have "capacity_ok Q val (out1 @ x)" using c c1(2) xs by (auto simp: capacity_ok_def)
      ultimately show ?thesis using is_zero_remaining [OF q] by blast
    qed (use pp in auto)
    show ?thesis
    proof (rule that [of "out1 @ x"])
      show "caMachines (find_basic Q p s st prec deficit minUnit) = map ID (out1 @ x)" by (rule fm)
      show "\<forall>m\<in>set (out1 @ x). m \<in> set (plSrc p) \<and> eligible Q (plProfile p) s prec minUnit m"
        using c1(2) xs elig by auto
      show "distinct (map ID (out1 @ x))" by (rule dis)
      show "is_zero Q deficit \<or> (\<forall>n. rval Q val deficit n \<le> capacity_sum Q val (out1 @ x) n)
        \<or> (\<forall>m\<in>set (plSrc p). eligible Q (plProfile p) s prec minUnit m \<longrightarrow> m \<in> set (out1 @ x))"
        using cov all1 elig by auto
      show "(\<forall>m\<in>set (out1 @ x). \<not> is_claimed s (ID m))
        \<or> (\<forall>m\<in>set (plSrc p). eligible Q (plProfile p) s prec minUnit m \<longrightarrow> \<not> is_claimed s (ID m)
            \<longrightarrow> m \<in> set (out1 @ x))"
        using all1 by (auto simp: eligible_def)
    qed
  qed
qed

subsection \<open>FindSame\<close>

lemma same_buckets_at:
  "gm_at [] (same_buckets p k src) v
    = filter (\<lambda>m. match_profile p m \<and> lookup_attribute k m = Some v) src"
proof -
  have "gm_at [] (foldl (\<lambda>bs m. if \<not> match_profile p m then bs
           else case lookup_attribute k m of None \<Rightarrow> bs | Some v \<Rightarrow> gm_append v m bs) bs src) v
    = gm_at [] bs v @ filter (\<lambda>m. match_profile p m \<and> lookup_attribute k m = Some v) src" for bs
    by (induction src arbitrary: bs) (auto split: option.splits)
  then show ?thesis by (simp add: same_buckets_def)
qed

lemma gm_ok_same_buckets: "gm_ok (same_buckets p k src)"
proof -
  have "gm_ok bs \<Longrightarrow> gm_ok (foldl (\<lambda>bs m. if \<not> match_profile p m then bs
           else case lookup_attribute k m of None \<Rightarrow> bs | Some v \<Rightarrow> gm_append v m bs) bs src)" for bs
    by (induction src arbitrary: bs) (auto intro: gm_ok_append split: option.splits)
  then show ?thesis by (simp add: same_buckets_def)
qed

lemma best_fold_mem:
  assumes "foldl (best_step Q s prec deficit minUnit) None bs = Some best"
  shows "(bbValue best, bbMachines best) \<in> set bs
    \<and> score_bucket Q s prec deficit minUnit (bbValue best, bbMachines best) = Some best"
proof -
  have val: "bbValue x = fst b \<and> bbMachines x = snd b"
    if "score_bucket Q s prec deficit minUnit b = Some x" for b x
    using that by (auto simp: score_bucket_def Let_def split: list.splits)
  have "\<forall>best. foldl (best_step Q s prec deficit minUnit) None bs = Some best \<longrightarrow>
    (bbValue best, bbMachines best) \<in> set bs
    \<and> score_bucket Q s prec deficit minUnit (bbValue best, bbMachines best) = Some best"
  proof (induction bs rule: rev_induct)
    case (snoc b bs)
    show ?case
    proof (intro allI impI)
      fix best assume f: "foldl (best_step Q s prec deficit minUnit) None (bs @ [b]) = Some best"
      let ?old = "foldl (best_step Q s prec deficit minUnit) None bs"
      have "?old = Some best \<or> score_bucket Q s prec deficit minUnit b = Some best"
        using f by (auto simp: best_step_def split: option.splits if_splits)
      then show "(bbValue best, bbMachines best) \<in> set (bs @ [b])
        \<and> score_bucket Q s prec deficit minUnit (bbValue best, bbMachines best) = Some best"
      proof
        assume "score_bucket Q s prec deficit minUnit b = Some best"
        then show ?thesis using val [of b best] by (cases b) auto
      qed (use snoc.IH in auto)
    qed
  qed simp
  then show ?thesis using assms by blast
qed

text \<open>The bucket that wins: one that covers the deficit when some bucket does, else a largest one.\<close>

lemma best_fold_best:
  assumes "foldl (best_step Q s prec deficit minUnit) None bs = best"
  shows "(best = None \<longleftrightarrow> (\<forall>b\<in>set bs. score_bucket Q s prec deficit minUnit b = None))
    \<and> (\<forall>b\<in>set bs. \<forall>x y. score_bucket Q s prec deficit minUnit b = Some x \<longrightarrow> best = Some y \<longrightarrow>
        (bbAtomic x \<longrightarrow> bbAtomic y) \<and> (\<not> bbAtomic y \<longrightarrow> bbAvail x \<le> bbAvail y))"
  using assms
proof (induction bs arbitrary: best rule: rev_induct)
  case (snoc b bs)
  let ?old = "foldl (best_step Q s prec deficit minUnit) None bs"
  have e: "best = best_step Q s prec deficit minUnit ?old b" using snoc.prems by simp
  show ?case
  proof (cases "score_bucket Q s prec deficit minUnit b")
    case None
    then have "best = ?old" using e by (simp add: best_step_def)
    moreover have "set (bs @ [b]) = insert b (set bs)" by simp
    ultimately show ?thesis using snoc.IH [OF refl] None by (metis insert_iff option.discI)
  next
    case (Some x)
    show ?thesis
    proof (cases ?old)
      case None
      then have "best = Some x" using e Some by (simp add: best_step_def)
      moreover have "\<forall>b\<in>set bs. score_bucket Q s prec deficit minUnit b = None"
        using snoc.IH [OF refl] None by blast
      ultimately show ?thesis using Some by simp
    next
      case old: (Some y)
      define z where "z = (if better_bucket x y then x else y)"
      have new: "best = Some z" using e Some old by (simp add: best_step_def z_def)
      have z: "(bbAtomic x \<or> bbAtomic y \<longrightarrow> bbAtomic z)
        \<and> (\<not> bbAtomic z \<longrightarrow> bbAvail x \<le> bbAvail z \<and> bbAvail y \<le> bbAvail z)"
        unfolding z_def better_bucket_def by auto
      have "(bbAtomic x' \<longrightarrow> bbAtomic z) \<and> (\<not> bbAtomic z \<longrightarrow> bbAvail x' \<le> bbAvail z)"
        if "b' \<in> set bs" "score_bucket Q s prec deficit minUnit b' = Some x'" for b' x'
        using snoc.IH [of ?old] old that z by (meson order_trans)
      then show ?thesis using Some new z by auto
    qed
  qed
qed simp

lemma take_loop_empty:
  assumes "take_loop Q pass ms [] r = (out, r', full)"
  shows "out = [] \<longleftrightarrow> (\<forall>m\<in>set ms. \<not> pass m)"
proof -
  have "take_post Q pass ms r out r' full" using take_loop_spec [OF assms] by (metis append_Nil)
  then show ?thesis unfolding take_post_def by (auto simp: filter_empty_conv)
qed

text \<open>
  The machines of a group share one value of the Same key, and within that domain they cover
  the deficit or are all there is.
\<close>

definition same_eligible ::
    "'q qlib \<Rightarrow> profile \<Rightarrow> shared_state \<Rightarrow> precedence \<Rightarrow> resource_qty list \<Rightarrow> string \<Rightarrow> string \<Rightarrow> machine \<Rightarrow> bool" where
  "same_eligible Q p s prec minUnit k v m \<longleftrightarrow>
    eligible Q p s prec minUnit m \<and> lookup_attribute k m = Some v"

text \<open>What a group of machines supplies, summed as the code sums it.\<close>

definition group_capacity :: "'q qlib \<Rightarrow> machine list \<Rightarrow> resource_qty list" where
  "group_capacity Q ms = foldl (\<lambda>c m. add_resources Q c (alloc_of m)) [] ms"

lemma score_domain:
  assumes u_def: "u = filter (same_eligible Q p s prec minUnit k v) src"
  shows "case score_bucket Q s prec deficit minUnit
        (v, filter (\<lambda>m. match_profile p m \<and> lookup_attribute k m = Some v) src) of
      None \<Rightarrow> u = []
    | Some x \<Rightarrow> u \<noteq> [] \<and> bbAvail x = length u \<and> bbAtomic x = covers Q (group_capacity Q u) deficit"
proof -
  have u: "filter (\<lambda>m. displaceable_by s (ID m) prec \<and> covers Q (alloc_of m) minUnit)
      (filter (\<lambda>m. match_profile p m \<and> lookup_attribute k m = Some v) src) = u"
    unfolding filter_filter u_def by (rule filter_cong) (auto simp: same_eligible_def eligible_def)
  show ?thesis unfolding score_bucket_def Let_def snd_conv u
    by (cases u) (simp_all add: group_capacity_def)
qed

lemma find_same_taken:
  assumes q: "quantity_laws Q val" and c: "capacity_ok Q val (plSrc p)"
    and d: "distinct (map ID (plSrc p))" and nz: "\<not> is_zero Q deficit"
    and r_def: "r = find_same Q p s st prec deficit minUnit k domain"
    and u_def: "u = (\<lambda>w. filter (same_eligible Q (plProfile p) s prec minUnit k w) (plSrc p))"
    and g_def: "g = (\<lambda>ms. \<forall>n. rval Q val deficit n \<le> capacity_sum Q val ms n)"
    and f_def: "f = (\<lambda>w. covers Q (group_capacity Q (u w)) deficit)"
  shows "\<exists>taken v. caMachines r = map ID taken \<and> distinct (map ID taken) \<and> (domain \<noteq> '''' \<longrightarrow> v = domain)
      \<and> set taken \<subseteq> set (u v) \<and> (g taken \<or> taken = u v)
      \<and> (taken = [] \<longleftrightarrow> (\<forall>w. domain = '''' \<or> w = domain \<longrightarrow> u w = []))
      \<and> (taken \<noteq> [] \<longrightarrow> bkSameKey (caBucket r) = k \<and> bkSameValue (caBucket r) = v)
      \<and> (domain = '''' \<longrightarrow> (\<forall>w. u w \<noteq> [] \<longrightarrow> (f w \<longrightarrow> f v) \<and> (\<not> f v \<longrightarrow> length (u w) \<le> length (u v))))"
proof (cases "domain = ''''")
  case False
  let ?pass = "\<lambda>m. displaceable_by s (ID m) prec \<and> match_profile (plProfile p) m
    \<and> lookup_attribute k m = Some domain \<and> covers Q (alloc_of m) minUnit"
  obtain out r1 full where t: "take_loop Q ?pass (plSrc p) [] deficit = (out, r1, full)"
    by (rule prod_cases3)
  have e: "u domain = filter ?pass (plSrc p)"
    unfolding u_def by (rule filter_cong) (auto simp: same_eligible_def eligible_def)
  note tc = take_loop_covers [OF q c t]
  have em: "out = [] \<longleftrightarrow> u domain = []" unfolding take_loop_empty [OF t] e by (simp add: filter_empty_conv)
  have "caMachines r = map ID out"
    "out \<noteq> [] \<longrightarrow> bkSameKey (caBucket r) = k \<and> bkSameValue (caBucket r) = domain"
    using nz False t by (simp_all add: r_def find_same_def Let_def no_candidates_def)
  moreover have "set out \<subseteq> set (u domain)" "g out \<or> out = u domain"
    using tc(1,2) unfolding e g_def by auto
  ultimately show ?thesis using tc(3) [OF d] em False by (intro exI [of _ out] exI [of _ domain]) auto
next
  case True
  let ?bs = "same_buckets (plProfile p) k (plSrc p)"
  let ?f = "foldl (best_step Q s prec deficit minUnit) None ?bs"
  let ?B = "\<lambda>w. filter (\<lambda>m. match_profile (plProfile p) m \<and> lookup_attribute k m = Some w) (plSrc p)"
  note bf = best_fold_best [of Q s prec deficit minUnit ?bs ?f, OF refl]
  have sc: "case score_bucket Q s prec deficit minUnit (w, ?B w) of None \<Rightarrow> u w = []
      | Some x \<Rightarrow> u w \<noteq> [] \<and> bbAvail x = length (u w) \<and> bbAtomic x = f w" for w
    unfolding f_def by (rule score_domain) (simp add: u_def)
  have mem: "(w, ?B w) \<in> set ?bs" if "u w \<noteq> []" for w
  proof -
    have "?B w \<noteq> []" using that by (auto simp: u_def filter_empty_conv same_eligible_def eligible_def)
    then have "gm_get ?bs w = Some (?B w)"
      using same_buckets_at [of "plProfile p" k "plSrc p" w] by (cases "gm_get ?bs w") (auto simp: gm_at_def)
    then show ?thesis by (rule map_of_SomeD)
  qed
  show ?thesis
  proof (cases ?f)
    case None
    have "u w = []" for w
    proof (rule ccontr)
      assume "u w \<noteq> []"
      then have "score_bucket Q s prec deficit minUnit (w, ?B w) = None" using bf mem None by blast
      then show False using sc [of w] \<open>u w \<noteq> []\<close> by simp
    qed
    moreover have "caMachines r = []" using nz True None by (simp add: r_def find_same_def no_candidates_def)
    ultimately show ?thesis using True by (intro exI [of _ "[]"] exI [of _ "[]"]) simp
  next
    case (Some best)
    let ?v = "bbValue best"
    let ?pass = "\<lambda>m. displaceable_by s (ID m) prec \<and> covers Q (alloc_of m) minUnit"
    obtain out r1 full where t: "take_loop Q ?pass (bbMachines best) [] deficit = (out, r1, full)"
      by (rule prod_cases3)
    have "gm_get ?bs ?v = Some (bbMachines best)"
      using best_fold_mem [OF Some] gm_ok_same_buckets by (simp add: gm_get_some_iff)
    then have ms: "bbMachines best = ?B ?v"
      using same_buckets_at [of "plProfile p" k "plSrc p" ?v] by (simp add: gm_at_def)
    have e: "filter ?pass (bbMachines best) = u ?v"
      unfolding ms filter_filter u_def by (rule filter_cong) (auto simp: same_eligible_def eligible_def)
    have cb: "capacity_ok Q val (bbMachines best)" using c by (auto simp: ms capacity_ok_def)
    have db: "distinct (map ID (bbMachines best))" using d by (simp add: ms distinct_map_filter)
    note tc = take_loop_covers [OF q cb t]
    have "score_bucket Q s prec deficit minUnit (?v, ?B ?v) = Some best"
      using best_fold_mem [OF Some] ms by simp
    then have best: "u ?v \<noteq> []" "bbAvail best = length (u ?v)" "bbAtomic best \<longleftrightarrow> f ?v"
      using sc [of ?v] by simp_all
    have ne: "out \<noteq> []" using best(1) unfolding take_loop_empty [OF t] e [symmetric] by (simp add: filter_empty_conv)
    have cov: "g out \<or> out = u ?v" using tc(1) unfolding e g_def .
    have other: "(f w \<longrightarrow> f ?v) \<and> (\<not> f ?v \<longrightarrow> length (u w) \<le> length (u ?v))" if uw: "u w \<noteq> []" for w
    proof -
      obtain x where x: "score_bucket Q s prec deficit minUnit (w, ?B w) = Some x" "bbAvail x = length (u w)"
        "bbAtomic x \<longleftrightarrow> f w"
        using sc [of w] uw by (cases "score_bucket Q s prec deficit minUnit (w, ?B w)") auto
      have "(bbAtomic x \<longrightarrow> bbAtomic best) \<and> (\<not> bbAtomic best \<longrightarrow> bbAvail x \<le> bbAvail best)"
        using bf mem [OF uw] x(1) Some by blast
      then show ?thesis using best x by auto
    qed
    have "caMachines r = map ID out" "bkSameKey (caBucket r) = k" "bkSameValue (caBucket r) = ?v"
      using nz True Some t by (simp_all add: r_def find_same_def Let_def)
    moreover have "set out \<subseteq> set (u ?v)" using tc(2) unfolding e [symmetric] by auto
    ultimately show ?thesis using tc(3) [OF db] True ne cov other best(1)
      by (intro exI [of _ out] exI [of _ ?v]) blast
  qed
qed

subsection \<open>FindSpread\<close>

lemma min_count_spec:
  assumes "\<forall>k\<in>set keys. 0 \<le> gm_at 0 counts k" "keys \<noteq> []"
  shows "\<forall>k\<in>set keys. min_count keys counts \<le> gm_at 0 counts k"
    and "\<exists>k\<in>set keys. min_count keys counts = gm_at 0 counts k"
proof -
  have "keys \<noteq> [] \<longrightarrow> (\<forall>k\<in>set keys. min_count keys counts \<le> gm_at 0 counts k)
    \<and> (\<exists>k\<in>set keys. min_count keys counts = gm_at 0 counts k)"
    using assms(1)
  proof (induction keys rule: rev_induct)
    case (snoc k keys)
    let ?mc = "min_count keys counts" and ?c = "gm_at 0 counts k"
    have e: "min_count (keys @ [k]) counts = (if ?mc = - 1 \<or> ?c < ?mc then ?c else ?mc)"
      by (simp add: min_count_def Let_def)
    show ?case
    proof (cases "keys = []")
      case True
      then have "?mc = - 1" by (simp add: min_count_def)
      then show ?thesis using e True by simp
    next
      case False
      then have IH: "\<forall>k\<in>set keys. ?mc \<le> gm_at 0 counts k" "\<exists>k\<in>set keys. ?mc = gm_at 0 counts k"
        using snoc by auto
      then have "?mc \<noteq> - 1" using snoc.prems by auto
      then show ?thesis using e IH by auto
    qed
  qed simp
  then show "\<forall>k\<in>set keys. min_count keys counts \<le> gm_at 0 counts k"
    "\<exists>k\<in>set keys. min_count keys counts = gm_at 0 counts k" using assms(2) by blast+
qed

lemma spread_pick_none:
  assumes "foldl (spread_pick skew mc bs counts) None keys = None" "k \<in> set keys"
    and "gm_get bs k = Some (ms, h)" "gm_at 0 counts k \<le> mc + skew - 1"
  shows "length ms \<le> h"
proof -
  have stay: "foldl (spread_pick skew mc bs counts) (Some x) ks \<noteq> None" for x ks
  proof (induction ks arbitrary: x)
    case (Cons k ks)
    have "\<exists>y. spread_pick skew mc bs counts (Some x) k = Some y"
      by (cases x) (auto simp: spread_pick_def Let_def split: prod.splits)
    then show ?case using Cons by auto
  qed simp
  have "\<forall>k ms h. foldl (spread_pick skew mc bs counts) None keys = None \<longrightarrow> k \<in> set keys
    \<longrightarrow> gm_get bs k = Some (ms, h) \<longrightarrow> gm_at 0 counts k \<le> mc + skew - 1 \<longrightarrow> length ms \<le> h"
  proof (induction keys)
    case (Cons k' keys)
    show ?case
    proof (intro allI impI)
      fix k ms h
      assume f: "foldl (spread_pick skew mc bs counts) None (k' # keys) = None"
        and k: "k \<in> set (k' # keys)" and g: "gm_get bs k = Some (ms, h)"
        and c: "gm_at 0 counts k \<le> mc + skew - 1"
      have n: "spread_pick skew mc bs counts None k' = None"
        using f stay by (cases "spread_pick skew mc bs counts None k'") auto
      show "length ms \<le> h"
      proof (cases "k = k'")
        case True
        then show ?thesis
          using n g c by (auto simp: spread_pick_def gm_at_def [of "([], 0)"] Let_def split: if_splits)
      next
        case False
        then show ?thesis using Cons.IH f n k g c by auto
      qed
    qed
  qed simp
  then show ?thesis using assms by blast
qed

definition in_domain :: "string \<Rightarrow> string \<Rightarrow> machine list \<Rightarrow> int" where
  "in_domain k v ms = int (length (filter (\<lambda>m. lookup_attribute k m = Some v) ms))"

definition spread_rest :: "spread_buckets \<Rightarrow> machine list" where
  "spread_rest bs = concat (map (\<lambda>(_, ms, h). drop h ms) bs)"

definition spread_inv ::
    "string \<Rightarrow> int \<Rightarrow> machine multiset \<Rightarrow> spread_buckets \<Rightarrow> (string, int) gomap \<Rightarrow> machine list \<Rightarrow> bool" where
  "spread_inv k skew M bs counts out \<longleftrightarrow>
    gm_ok bs
    \<and> (\<forall>v ms h. gm_get bs v = Some (ms, h) \<longrightarrow> (\<forall>m\<in>set ms. lookup_attribute k m = Some v))
    \<and> (\<forall>v. gm_at 0 counts v = in_domain k v out)
    \<and> (\<forall>v\<in>fst ` set bs. \<forall>w\<in>fst ` set bs. in_domain k v out \<le> in_domain k w out + skew)
    \<and> mset out + mset (spread_rest bs) = M"

lemma spread_rest_set:
  "gm_get bs v = Some (ms, h) \<Longrightarrow> h < length ms \<Longrightarrow>
    mset (spread_rest bs) = add_mset (ms ! h) (mset (spread_rest (gm_set v (ms, Suc h) bs)))"
proof (induction bs)
  case (Cons kv bs)
  show ?case
  proof (cases "fst kv = v")
    case True
    then have "kv = (v, ms, h)" using Cons.prems by (cases kv) auto
    then show ?thesis
      using Cons.prems(2) by (simp add: spread_rest_def Cons_nth_drop_Suc [symmetric])
  next
    case False
    then show ?thesis using Cons by (cases kv) (auto simp: spread_rest_def)
  qed
qed simp

lemma spread_inv_step:
  assumes inv: "spread_inv k skew M bs counts out" and g: "gm_get bs v = Some (ms, h)" "h < length ms"
    and mc: "\<forall>w\<in>fst ` set bs. mc \<le> gm_at 0 counts w" and c: "gm_at 0 counts v \<le> mc + skew - 1"
  shows "spread_inv k skew M (gm_set v (ms, h + 1) bs) (gm_set v (gm_at 0 counts v + 1) counts)
    (out @ [ms ! h])"
proof -
  have l: "lookup_attribute k (ms ! h) = Some v"
    using inv g unfolding spread_inv_def by (metis nth_mem)
  have dom: "in_domain k w (out @ [ms ! h]) = (if w = v then in_domain k v out + 1 else in_domain k w out)" for w
    using l by (auto simp: in_domain_def)
  have cnt: "gm_at 0 counts w = in_domain k w out" for w using inv by (simp add: spread_inv_def)
  have keys: "fst ` set (gm_set v (ms, h + 1) bs) = fst ` set bs"
  proof -
    have "v \<in> fst ` set bs" using g(1) map_of_SomeD by force
    then show ?thesis by auto
  qed
  show ?thesis
    unfolding spread_inv_def keys
  proof (intro conjI)
    show "gm_ok (gm_set v (ms, h + 1) bs)" using inv by (auto simp: spread_inv_def intro: distinct_update)
    show "\<forall>w ms' h'. gm_get (gm_set v (ms, h + 1) bs) w = Some (ms', h') \<longrightarrow>
        (\<forall>m\<in>set ms'. lookup_attribute k m = Some w)"
      using inv g(1) unfolding spread_inv_def by (auto simp del: map_of_eq_Some_iff)
    show "\<forall>w. gm_at 0 (gm_set v (gm_at 0 counts v + 1) counts) w = in_domain k w (out @ [ms ! h])"
      by (simp add: dom cnt)
    show "\<forall>x\<in>fst ` set bs. \<forall>w\<in>fst ` set bs.
        in_domain k x (out @ [ms ! h]) \<le> in_domain k w (out @ [ms ! h]) + skew"
    proof (intro ballI)
      fix x w assume xw: "x \<in> fst ` set bs" "w \<in> fst ` set bs"
      have "in_domain k x out \<le> in_domain k w out + skew" using inv xw unfolding spread_inv_def by blast
      moreover have "mc \<le> in_domain k w out" using mc xw cnt by metis
      moreover have "in_domain k v out \<le> mc + skew - 1" using c cnt by metis
      ultimately show "in_domain k x (out @ [ms ! h]) \<le> in_domain k w (out @ [ms ! h]) + skew"
        unfolding dom by auto
    qed
    show "mset (out @ [ms ! h]) + mset (spread_rest (gm_set v (ms, h + 1) bs)) = M"
      using inv spread_rest_set [OF g] by (simp add: spread_inv_def)
  qed
qed

lemma map_fst_gm_set: "k \<in> fst ` set m \<Longrightarrow> map fst (gm_set k v m) = map fst m"
  by (induction m) auto

definition spread_done ::
    "'q qlib \<Rightarrow> string \<Rightarrow> int \<Rightarrow> machine multiset \<Rightarrow> spread_buckets \<Rightarrow> resource_qty list \<Rightarrow> machine list
      \<Rightarrow> machine list \<Rightarrow> bool" where
  "spread_done Q k skew M bs remaining out res \<longleftrightarrow>
    (\<exists>bs' counts' taken. res = out @ taken \<and> spread_inv k skew M bs' counts' res
      \<and> map fst bs' = map fst bs
      \<and> (is_zero Q (remaining_of Q remaining taken)
         \<or> (\<exists>v ms h. gm_get bs' v = Some (ms, h) \<and> length ms \<le> h)))"

lemma spread_loop_done:
  assumes "spread_inv k skew M bs counts out" "1 \<le> skew" "bs \<noteq> []"
  shows "spread_done Q k skew M bs remaining out (spread_loop Q skew bs counts remaining out)"
  using assms
proof (induction Q skew bs counts remaining out rule: spread_loop.induct)
  case (1 Q skew bs counts remaining out)
  show ?case
  proof (cases "is_zero Q remaining")
    case True
    have "spread_loop Q skew bs counts remaining out = out"
      by (subst spread_loop.simps) (simp add: True)
    then show ?thesis using True 1(2) unfolding spread_done_def
      by (intro exI [of _ bs] exI [of _ counts] exI [of _ "[]"]) simp
  next
    case nz: False
    let ?keys = "map fst bs"
    let ?mc = "min_count ?keys counts"
    let ?best = "foldl (spread_pick skew ?mc bs counts) None ?keys"
    have cnt: "gm_at 0 counts v = in_domain k v out" for v using 1(2) by (simp add: spread_inv_def)
    have nn: "\<forall>v\<in>set ?keys. 0 \<le> gm_at 0 counts v" unfolding cnt by (simp add: in_domain_def)
    have ne: "?keys \<noteq> []" using 1(4) by simp
    note mc = min_count_spec [OF nn ne]
    show ?thesis
    proof (cases ?best)
      case None
      have r: "spread_loop Q skew bs counts remaining out = out"
        by (subst spread_loop.simps) (simp add: nz None Let_def)
      obtain v where v: "v \<in> set ?keys" "?mc = gm_at 0 counts v" using mc(2) by blast
      obtain ms h where g: "gm_get bs v = Some (ms, h)"
        using v(1) by (metis gm_get_none_iff list.set_map not_Some_eq prod.exhaust)
      have "length ms \<le> h" using v(2) 1(3) by (intro spread_pick_none [OF None v(1) g]) simp
      then show ?thesis using 1(2) g unfolding spread_done_def r
        by (intro exI [of _ bs] exI [of _ counts] exI [of _ "[]"]) auto
    next
      case (Some kp)
      obtain v pr where kp: "kp = (v, pr)" by (cases kp)
      note pk = spread_pick_inv [OF Some [unfolded kp]]
      obtain ms h where g: "gm_get bs v = Some (ms, h)" "h < length ms" using pk(2) by blast
      have at: "gm_at ([], 0) bs v = (ms, h)" using g by (simp add: gm_at_def)
      let ?bs = "gm_set v (ms, h + 1) bs" and ?cs = "gm_set v (gm_at 0 counts v + 1) counts"
      let ?rem = "sub_resources Q remaining (alloc_of (ms ! h))" and ?out = "out @ [ms ! h]"
      have r: "spread_loop Q skew bs counts remaining out = spread_loop Q skew ?bs ?cs ?rem ?out"
        by (subst spread_loop.simps) (simp add: nz Some kp Let_def at)
      have inv: "spread_inv k skew M ?bs ?cs ?out"
        using mc(1) by (intro spread_inv_step [OF 1(2) g _ pk(3)]) simp
      have ke: "map fst ?bs = map fst bs" using pk(1) by (simp add: map_fst_gm_set)
      then have "?bs \<noteq> []" using ne by (metis list.map_disc_iff)
      have "spread_done Q k skew M ?bs ?rem ?out (spread_loop Q skew ?bs ?cs ?rem ?out)"
        by (rule 1(1) [OF nz refl refl Some kp [symmetric] refl at [symmetric] refl inv 1(3) \<open>?bs \<noteq> []\<close>])
      then obtain bs' counts' taken where D: "spread_loop Q skew ?bs ?cs ?rem ?out = ?out @ taken"
        "spread_inv k skew M bs' counts' (?out @ taken)" "map fst bs' = map fst bs"
        "is_zero Q (remaining_of Q ?rem taken) \<or> (\<exists>v ms h. gm_get bs' v = Some (ms, h) \<and> length ms \<le> h)"
        unfolding spread_done_def ke by metis
      then show ?thesis unfolding spread_done_def r
        by (intro exI [of _ bs'] exI [of _ counts'] exI [of _ "(ms ! h) # taken"]) simp
    qed
  qed
qed

text \<open>The loop that fills the buckets: a domain's bucket is its eligible machines, none taken.\<close>

lemma spread_buckets_get:
  "gm_get (spread_buckets Q p s prec minUnit k) v =
    (let ms = filter (\<lambda>m. same_eligible Q (plProfile p) s prec minUnit k v m) (plSrc p)
     in if ms = [] then None else Some (ms, 0))"
  and gm_ok_spread_buckets: "gm_ok (spread_buckets Q p s prec minUnit k)"
proof -
  let ?f = "spread_add Q p s prec minUnit k"
  have "gm_ok (foldl ?f [] src) \<and> (\<forall>v. gm_get (foldl ?f [] src) v =
    (let ms = filter (\<lambda>m. same_eligible Q (plProfile p) s prec minUnit k v m) src
     in if ms = [] then None else Some (ms, 0)))" for src
  proof (induction src rule: rev_induct)
    case (snoc m src)
    let ?bs = "foldl ?f [] src"
    have step: "foldl ?f [] (src @ [m]) =
        (case lookup_attribute k m of None \<Rightarrow> ?bs
         | Some v \<Rightarrow> if eligible Q (plProfile p) s prec minUnit m
            then (let (ms, h) = gm_at ([], 0) ?bs v in gm_set v (ms @ [m], h) ?bs) else ?bs)"
      by (auto simp: eligible_def spread_add_def split: option.splits)
    show ?case
    proof (cases "\<exists>w. lookup_attribute k m = Some w \<and> eligible Q (plProfile p) s prec minUnit m")
      case True
      then obtain w where w: "lookup_attribute k m = Some w" "eligible Q (plProfile p) s prec minUnit m" by blast
      let ?ms = "filter (\<lambda>m. same_eligible Q (plProfile p) s prec minUnit k w m) src"
      have g: "gm_at ([], 0) ?bs w = (?ms, 0)" using snoc by (simp only: gm_at_def Let_def) (simp split: if_splits)
      have st: "foldl ?f [] (src @ [m]) = gm_set w (?ms @ [m], 0) ?bs"
        unfolding step using w g by simp
      have f: "filter (\<lambda>m. same_eligible Q (plProfile p) s prec minUnit k v m) (src @ [m])
          = (if v = w then ?ms @ [m] else filter (\<lambda>m. same_eligible Q (plProfile p) s prec minUnit k v m) src)" for v
        using w by (simp add: same_eligible_def)
      show ?thesis unfolding st f using snoc by (simp add: distinct_update Let_def)
    next
      case False
      then have st: "foldl ?f [] (src @ [m]) = ?bs" unfolding step by (auto split: option.splits)
      show ?thesis unfolding st using snoc False by (auto simp: same_eligible_def)
    qed
  qed simp
  then show "gm_get (spread_buckets Q p s prec minUnit k) v =
    (let ms = filter (\<lambda>m. same_eligible Q (plProfile p) s prec minUnit k v m) (plSrc p)
     in if ms = [] then None else Some (ms, 0))" "gm_ok (spread_buckets Q p s prec minUnit k)"
    unfolding spread_buckets_def by blast+
qed

text \<open>The domains a spread proposal ranges over: those with an eligible machine.\<close>

definition spread_domains ::
    "'q qlib \<Rightarrow> pool \<Rightarrow> shared_state \<Rightarrow> precedence \<Rightarrow> resource_qty list \<Rightarrow> string \<Rightarrow> string set" where
  "spread_domains Q p s prec minUnit k =
    {v. \<exists>m\<in>set (plSrc p). same_eligible Q (plProfile p) s prec minUnit k v m}"

lemma keys_spread_buckets:
  "fst ` set (spread_buckets Q p s prec minUnit k) = spread_domains Q p s prec minUnit k"
proof -
  have "v \<in> fst ` set (spread_buckets Q p s prec minUnit k) \<longleftrightarrow> v \<in> spread_domains Q p s prec minUnit k" for v
    using gm_get_none_iff [of "spread_buckets Q p s prec minUnit k" v] spread_buckets_get [of Q p s prec minUnit k v]
    by (auto simp: spread_domains_def Let_def filter_empty_conv simp del: map_of_eq_None_iff split: if_splits)
  then show ?thesis by blast
qed

lemma spread_rest_mem:
  assumes "gm_ok bs" "m \<in> set (spread_rest bs)"
  obtains v ms h where "gm_get bs v = Some (ms, h)" "m \<in> set (drop h ms)"
proof -
  obtain v ms h where "(v, ms, h) \<in> set bs" "m \<in> set (drop h ms)"
    using assms(2) by (auto simp: spread_rest_def)
  then show ?thesis using that assms(1) by (simp add: gm_get_some_iff)
qed

lemma spread_rest_mem2:
  assumes "gm_get bs v = Some (ms, h)" "m \<in> set (drop h ms)"
  shows "m \<in> set (spread_rest bs)"
  using map_of_SomeD [OF assms(1)] assms(2) by (force simp: spread_rest_def)

lemma spread_rest_distinct:
  assumes "gm_ok bs" "\<forall>v ms h. gm_get bs v = Some (ms, h) \<longrightarrow> distinct (map ID (drop h ms))"
    and "\<forall>v w ms h ms' h' m m'. gm_get bs v = Some (ms, h) \<longrightarrow> gm_get bs w = Some (ms', h') \<longrightarrow>
      m \<in> set (drop h ms) \<longrightarrow> m' \<in> set (drop h' ms') \<longrightarrow> ID m = ID m' \<longrightarrow> v = w"
  shows "distinct (map ID (spread_rest bs))"
  using assms
proof (induction bs)
  case (Cons kv bs)
  obtain v ms h where kv: "kv = (v, ms, h)" by (cases kv)
  have nv: "v \<notin> fst ` set bs" and okb: "gm_ok bs" using Cons.prems(1) kv by auto
  have up: "gm_get bs w = Some x \<Longrightarrow> gm_get (kv # bs) w = Some x" for w x
    using nv kv map_of_SomeD by force
  have "distinct (map ID (spread_rest bs))"
    using Cons.prems(2,3) up by (intro Cons.IH okb) blast+
  moreover have "ID m \<notin> ID ` set (spread_rest bs)" if m: "m \<in> set (drop h ms)" for m
  proof
    assume "ID m \<in> ID ` set (spread_rest bs)"
    then obtain m' where m': "m' \<in> set (spread_rest bs)" "ID m = ID m'" by auto
    obtain w ms' h' where w: "gm_get bs w = Some (ms', h')" "m' \<in> set (drop h' ms')"
      by (rule spread_rest_mem [OF okb m'(1)])
    have "gm_get (kv # bs) v = Some (ms, h)" using kv by simp
    then have "v = w" using Cons.prems(3) up [OF w(1)] m m'(2) w(2) by blast
    then show False using nv w(1) map_of_SomeD by force
  qed
  moreover have "distinct (map ID (drop h ms))"
    using Cons.prems(2) [rule_format, of v ms h] kv by simp
  moreover have "spread_rest (kv # bs) = drop h ms @ spread_rest bs" by (simp add: spread_rest_def kv)
  ultimately show ?case by auto
qed (simp add: spread_rest_def)

lemma find_spread_taken:
  assumes q: "quantity_laws Q val" and c: "capacity_ok Q val (plSrc p)"
    and d: "distinct (map ID (plSrc p))" and nz: "\<not> is_zero Q deficit"
  obtains taken where "caMachines (find_spread Q p s st prec deficit minUnit k maxSkew) = map ID taken"
    "distinct (map ID taken)"
    "\<forall>m\<in>set taken. m \<in> set (plSrc p) \<and> eligible Q (plProfile p) s prec minUnit m
      \<and> (\<exists>v. lookup_attribute k m = Some v)"
    "\<forall>v\<in>spread_domains Q p s prec minUnit k. \<forall>w\<in>spread_domains Q p s prec minUnit k.
      in_domain k v taken \<le> in_domain k w taken + max 1 maxSkew"
    "(\<forall>n. rval Q val deficit n \<le> capacity_sum Q val taken n)
      \<or> spread_domains Q p s prec minUnit k = {}
      \<or> (\<exists>v\<in>spread_domains Q p s prec minUnit k. \<forall>m\<in>set (plSrc p).
           same_eligible Q (plProfile p) s prec minUnit k v m \<longrightarrow> m \<in> set taken)"
proof (cases "spread_buckets Q p s prec minUnit k = []")
  case True
  then have "spread_domains Q p s prec minUnit k = {}" using keys_spread_buckets [of Q p s prec minUnit k] by simp
  then show ?thesis using True
    by (intro that [of "[]"]) (simp_all add: find_spread_def Let_def no_candidates_def)
next
  case ne: False
  let ?bs = "spread_buckets Q p s prec minUnit k"
  let ?skew = "if maxSkew < 1 then 1 else maxSkew"
  let ?D = "spread_domains Q p s prec minUnit k"
  let ?E = "same_eligible Q (plProfile p) s prec minUnit k"
  let ?M = "mset (spread_rest ?bs)"
  note okb = gm_ok_spread_buckets [of Q p s prec minUnit k]
  have bget: "gm_get ?bs v = Some (ms, h) \<Longrightarrow> ms = filter (?E v) (plSrc p) \<and> h = 0" for v ms h
    using spread_buckets_get [of Q p s prec minUnit k v] by (auto simp: Let_def split: if_splits)
  have inv: "spread_inv k ?skew ?M ?bs [] []"
    unfolding spread_inv_def
  proof (intro conjI allI impI ballI)
    fix v ms h m assume "gm_get ?bs v = Some (ms, h)" "m \<in> set ms"
    then show "lookup_attribute k m = Some v" using bget [of v ms h] by (simp add: same_eligible_def)
  qed (use okb in \<open>simp_all add: in_domain_def\<close>)
  let ?res = "spread_loop Q ?skew ?bs [] deficit []"
  have "spread_done Q k ?skew ?M ?bs deficit [] ?res"
    by (rule spread_loop_done [OF inv _ ne]) simp
  then obtain bs' counts' where D: "spread_inv k ?skew ?M bs' counts' ?res" "map fst bs' = map fst ?bs"
    "is_zero Q (remaining_of Q deficit ?res) \<or> (\<exists>v ms h. gm_get bs' v = Some (ms, h) \<and> length ms \<le> h)"
    unfolding spread_done_def append_Nil by metis
  have sub: "mset ?res + mset (spread_rest bs') = ?M" using D(1) by (simp add: spread_inv_def)
  have rest_iff: "m \<in> set (spread_rest ?bs) \<longleftrightarrow> m \<in> set (plSrc p) \<and> (\<exists>v. ?E v m)" for m
  proof
    assume "m \<in> set (spread_rest ?bs)"
    then obtain v ms h where "gm_get ?bs v = Some (ms, h)" "m \<in> set (drop h ms)"
      by (rule spread_rest_mem [OF okb])
    then show "m \<in> set (plSrc p) \<and> (\<exists>v. ?E v m)" using bget by fastforce
  next
    assume m: "m \<in> set (plSrc p) \<and> (\<exists>v. ?E v m)"
    then obtain v where v: "?E v m" by blast
    then have "gm_get ?bs v = Some (filter (?E v) (plSrc p), 0)"
      using m spread_buckets_get [of Q p s prec minUnit k v] by (auto simp: Let_def filter_empty_conv)
    then show "m \<in> set (spread_rest ?bs)" by (rule spread_rest_mem2) (use m v in simp)
  qed
  have res_sub: "m \<in> set (spread_rest ?bs)" if "m \<in> set ?res" for m
    using that arg_cong [OF sub, of set_mset] by auto
  have drest: "distinct (map ID (spread_rest ?bs))"
  proof (rule spread_rest_distinct [OF okb])
    show "\<forall>v ms h. gm_get ?bs v = Some (ms, h) \<longrightarrow> distinct (map ID (drop h ms))"
      using bget d by (fastforce simp: distinct_map_filter)
    show "\<forall>v w ms h ms' h' m m'. gm_get ?bs v = Some (ms, h) \<longrightarrow> gm_get ?bs w = Some (ms', h') \<longrightarrow>
      m \<in> set (drop h ms) \<longrightarrow> m' \<in> set (drop h' ms') \<longrightarrow> ID m = ID m' \<longrightarrow> v = w"
    proof (intro allI impI)
      fix v w ms h ms' h' and m m' :: machine
      assume g: "gm_get ?bs v = Some (ms, h)" "gm_get ?bs w = Some (ms', h')"
        and m: "m \<in> set (drop h ms)" "m' \<in> set (drop h' ms')" "ID m = ID m'"
      have mm: "m \<in> set (plSrc p)" "?E v m" "m' \<in> set (plSrc p)" "?E w m'"
        using g m bget by fastforce+
      then have "m = m'" using d m(3) by (metis distinct_map inj_onD)
      then show "v = w" using mm by (simp add: same_eligible_def)
    qed
  qed
  have "distinct (map ID (?res @ spread_rest bs'))"
  proof -
    have "mset (map ID (?res @ spread_rest bs')) = mset (map ID (spread_rest ?bs))"
      using sub by (metis mset_append mset_map)
    then show ?thesis using drest mset_eq_imp_distinct_iff by blast
  qed
  then have dres: "distinct (map ID ?res)" by simp
  have elig: "\<forall>m\<in>set ?res. m \<in> set (plSrc p) \<and> eligible Q (plProfile p) s prec minUnit m
      \<and> (\<exists>v. lookup_attribute k m = Some v)"
    using res_sub rest_iff by (auto simp: same_eligible_def)
  have fin: "(\<forall>n. rval Q val deficit n \<le> capacity_sum Q val ?res n)
      \<or> (\<exists>v\<in>?D. \<forall>m\<in>set (plSrc p). ?E v m \<longrightarrow> m \<in> set ?res)"
    using D(3)
  proof
    assume z: "is_zero Q (remaining_of Q deficit ?res)"
    then have "?res \<noteq> []" using nz by (metis remaining_of_simps(1))
    moreover have "capacity_ok Q val ?res" using c elig by (auto simp: capacity_ok_def)
    ultimately show ?thesis using z is_zero_remaining [OF q] by blast
  next
    assume "\<exists>v ms h. gm_get bs' v = Some (ms, h) \<and> length ms \<le> h"
    then obtain v ms h where g: "gm_get bs' v = Some (ms, h)" "length ms \<le> h" by blast
    have "v \<in> fst ` set bs'" using map_of_SomeD [OF g(1)] by force
    then have vD: "v \<in> ?D" using D(2) keys_spread_buckets by (metis set_map)
    have "m \<in> set ?res" if m: "m \<in> set (plSrc p)" "?E v m" for m
    proof (rule ccontr)
      assume "m \<notin> set ?res"
      moreover have "m \<in> set (spread_rest ?bs)" using m rest_iff by blast
      ultimately have "m \<in> set (spread_rest bs')" using arg_cong [OF sub, of set_mset] by auto
      moreover have "gm_ok bs'" using D(1) by (simp add: spread_inv_def)
      ultimately obtain w ms' h' where w: "gm_get bs' w = Some (ms', h')" "m \<in> set (drop h' ms')"
        using spread_rest_mem by blast
      have "lookup_attribute k m = Some w"
        using D(1) w unfolding spread_inv_def by (metis in_set_dropD)
      then have "w = v" using m(2) by (simp add: same_eligible_def)
      then show False using w g by simp
    qed
    then show ?thesis using vD by blast
  qed
  show ?thesis
  proof (rule that [of ?res])
    show "caMachines (find_spread Q p s st prec deficit minUnit k maxSkew) = map ID ?res"
      using nz ne by (simp add: find_spread_def Let_def)
    have sk: "?skew = max 1 maxSkew" by simp
    show "\<forall>v\<in>?D. \<forall>w\<in>?D. in_domain k v ?res \<le> in_domain k w ?res + max 1 maxSkew"
    proof -
      have ke: "fst ` set bs' = ?D" using D(2) keys_spread_buckets by (metis set_map)
      have "\<forall>v\<in>fst ` set bs'. \<forall>w\<in>fst ` set bs'. in_domain k v ?res \<le> in_domain k w ?res + ?skew"
        using D(1) unfolding spread_inv_def by (elim conjE)
      then show ?thesis by (simp only: ke sk)
    qed
    show "(\<forall>n. rval Q val deficit n \<le> capacity_sum Q val ?res n) \<or> ?D = {}
      \<or> (\<exists>v\<in>?D. \<forall>m\<in>set (plSrc p). ?E v m \<longrightarrow> m \<in> set ?res)"
      using fin by (elim disjE) simp_all
  qed (rule dres, rule elig)
qed

end
