(* ===== verification/Samples.thy ===== *)
theory Samples
  imports Fencing Pool
begin

text \<open>
  Concrete instances on which the hypotheses of the properties hold: a quantity library over
  the integers, and a few machines, profiles and needs.
\<close>

section \<open>A quantity library\<close>

definition int_lib :: "int qlib" where
  "int_lib = \<lparr>qParse = parse_dec (\<lambda>v. \<bar>v\<bar> \<le> 2 ^ 63 - 1), qZero = 0, qAdd = (+), qSub = (-),
     qCmp = (\<lambda>x y. sgn (x - y)), qSign = sgn, qString = dec_int,
     qMilli = (\<lambda>x. if in_i64 (1000 * x) then 1000 * x else 0)\<rparr>"

lemma parse_dec_in: "parse_dec inr s = Some v \<Longrightarrow> inr v"
  by (auto simp: parse_dec_def Let_def split: prod.splits if_splits)

lemma int_lib_laws: "quantity_laws int_lib of_int"
proof -
  have ceil: "\<lceil>1000 * (of_int x :: rat)\<rceil> = 1000 * x" for x :: int
    by (metis ceiling_of_int of_int_mult of_int_numeral)
  have cap: "\<bar>of_int v :: rat\<bar> \<le> q_cap \<longleftrightarrow> \<bar>v\<bar> \<le> 2 ^ 63 - 1" for v :: int
  proof -
    have c: "q_cap = of_int (2 ^ 63 - 1)" by (simp add: q_cap_def)
    show ?thesis unfolding c of_int_abs [symmetric] of_int_le_iff by (rule refl)
  qed
  have rt: "parse_dec (\<lambda>v. \<bar>v\<bar> \<le> 2 ^ 63 - 1) (dec_int x) = Some x" if "\<bar>x\<bar> \<le> 2 ^ 63 - 1" for x :: int
    using that by (rule parse_dec_int)
  show ?thesis
    unfolding quantity_laws_def int_lib_def qlib.select_convs ceil cap
    using rt parse_dec_in [of "\<lambda>v. \<bar>v\<bar> \<le> 2 ^ 63 - 1"]
    by (auto simp: sgn_if in_i64_def)
qed

section \<open>Machines\<close>

definition sample_machine :: "string \<Rightarrow> state \<Rightarrow> string \<Rightarrow> string \<Rightarrow> machine" where
  "sample_machine k st cl zone = zero_machine
    \<lparr>ID := k, State := st,
     Host := (if st = StateSpeculative then no_host else \<lparr>hrProvider = ''p'', hrRef = k\<rparr>),
     Cluster := cl,
     MProfile := zero_mprofile\<lparr>InstanceType := ''t'', Zone := zone,
       CapacityType := CapacityTypeOnDemand, Resources := [(''cpu'', ''4'')]\<rparr>,
     PricePerHour := FFin 1\<rparr>"

definition sample_inventory :: inventory where
  "sample_inventory = \<lparr>byID = [(''b'', sample_machine ''b'' StateIdle '''' ''z1''),
      (''a'', sample_machine ''a'' StateConfigured ''c1'' ''z1''),
      (''d'', sample_machine ''d'' StateIdle '''' ''z2'')],
    idleSince = [(''b'', 5), (''d'', 6)]\<rparr>"

lemma sample_wf: "st \<noteq> StateUnspecified \<Longrightarrow> st \<noteq> StateFailed \<Longrightarrow>
    (st \<in> {StateConfigured, StateDraining} \<longleftrightarrow> cl \<noteq> '''') \<Longrightarrow> st \<noteq> StateCreating \<Longrightarrow>
    (st \<noteq> StateSpeculative \<longrightarrow> k \<noteq> '''') \<Longrightarrow> wf_machine (sample_machine k st cl z)"
  by (cases st) (auto simp: wf_machine_def sample_machine_def zero_machine_def host_empty_def no_host_def)

lemma sample_inventory_ok: "inv_ok sample_inventory"
proof -
  have w: "wf_machine (sample_machine ''b'' StateIdle '''' ''z1'')"
    "wf_machine (sample_machine ''a'' StateConfigured ''c1'' ''z1'')"
    "wf_machine (sample_machine ''d'' StateIdle '''' ''z2'')"
    by (simp_all add: sample_wf)
  show ?thesis
    using w unfolding inv_ok_def sample_inventory_def
    by (auto simp: sample_machine_def zero_machine_def split: if_splits)
qed

lemma sample_snapshot_ok: "snapshot_ok (snapshot_of sample_inventory)"
  using sample_inventory_ok unfolding snapshot_ok_def by blast

definition sample_profile :: "int \<Rightarrow> profile" where
  "sample_profile prio = new_profile
    [\<lparr>rKey = zone_key, rOperator = OperatorSame, rValues = []\<rparr>] [] prio 1 1"

definition sample_need :: "string \<Rightarrow> string \<Rightarrow> need" where
  "sample_need c cpu = \<lparr>nCluster = c, nProfile = sample_profile 7,
     AggregateResources = [\<lparr>rqName = ''cpu'', rqQuantity = cpu\<rparr>],
     MinUnit = [\<lparr>rqName = ''cpu'', rqQuantity = ''1''\<rparr>], ArrivalUnixNanos = 3, Group = '''',
     AcquisitionParked = False\<rparr>"

end
