(* ===== verification/CoreProps.thy ===== *)
theory CoreProps
  imports Samples
begin

text \<open>
  What makes the shard's data correct: the properties of the packages \<open>machine\<close>, \<open>fencing\<close>,
  \<open>needs\<close>, \<open>inventory\<close> and of the scores and grace periods of \<open>decision\<close>.
\<close>

section \<open>Machines\<close>

text \<open>A machine is Configured only after it was Configuring, which it entered from Idle, and a
  Failed machine never leaves that state: this holds of every run through the transition table
  that starts anywhere else than at the cluster.\<close>

theorem configured_was_idle:
  assumes "lifecycle s (h @ [StateConfigured])" "s \<noteq> StateConfigured" "s \<noteq> StateConfiguring"
  shows "(\<exists>h'. h = h' @ [StateConfiguring] \<and> StateIdle \<in> set h') \<and> StateFailed \<notin> set h"
proof -
  obtain h' where h: "h = h' @ [StateConfiguring]" "lifecycle s (h' @ [StateConfiguring])"
    using assms(1,2) by (rule lifecycle_configured_configuring)
  then show ?thesis
    using lifecycle_configuring_idle [OF h(2) assms(3)] lifecycle_failed_last [OF assms(1)]
    by (auto simp: butlast_append)
qed

lemma lifecycle_extend: "lifecycle s h \<Longrightarrow> can_transition (last h) u \<Longrightarrow> lifecycle s (h @ [u])"
  using lc_step [of s "butlast h" "last h" u] lifecycle_nonempty [of s h]
  by (simp add: snoc_eq_iff_butlast) (metis append.assoc append_Cons append_Nil append_butlast_last_id)

lemma sample_lifecycle:
  "lifecycle StateSpeculative ([StateSpeculative, StateCreating, StateIdle, StateConfiguring] @ [StateConfigured])"
proof -
  have "lifecycle StateSpeculative ([StateSpeculative] @ [StateCreating])"
    by (rule lifecycle_extend [OF lc_start]) simp
  from lifecycle_extend [OF this, of StateIdle]
  have "lifecycle StateSpeculative ([StateSpeculative, StateCreating] @ [StateIdle])" by simp
  from lifecycle_extend [OF this, of StateConfiguring]
  have "lifecycle StateSpeculative ([StateSpeculative, StateCreating, StateIdle] @ [StateConfiguring])" by simp
  from lifecycle_extend [OF this, of StateConfigured] show ?thesis by simp
qed

theorem configured_was_idle_witness:
  "StateFailed \<notin> set [StateSpeculative, StateCreating, StateIdle, StateConfiguring]"
  using configured_was_idle [OF sample_lifecycle] by blast

text \<open>Metadata written by a shard reads back: decoding what \<open>EncodeShardMetadata\<close> rendered gives
  the five fields exactly, with no error, whatever the record held before, and changes nothing
  else of the machine's state (float text must survive its own round trip).\<close>

theorem metadata_roundtrip:
  assumes "ShardMetadata m = encode_shard_metadata fmtF p ip rp fp grp"
    and "in_i32 p" "parseF (fmtF ip) = Some ip" "parseF (fmtF rp) = Some rp"
  shows "let (m', errs) = decode_shard_metadata parseF m in
    errs = [] \<and> AssignedPriority m' = p \<and> AssignedInterruptionPenalty m' = ip
    \<and> AssignedReclamationPenalty m' = rp \<and> AssignedNeedFingerprint m' = fp \<and> AssignedGroup m' = grp
    \<and> State m' = State m \<and> ID m' = ID m \<and> Cluster m' = Cluster m \<and> (wf_machine m' \<longleftrightarrow> wf_machine m)"
proof -
  have "parse_dec in_i32 (dec_int p) = Some p" using assms(2) by (rule parse_dec_int)
  then show ?thesis
    using assms(3,4) decode_wf [of parseF m] decode_frame [of parseF m]
    by (simp add: case_prod_beta) (simp add: decode_shard_metadata_def Let_def decode_key_def assms(1))
qed

theorem metadata_roundtrip_witness:
  "let (m', errs) = decode_shard_metadata (\<lambda>s. Some (FFin 2))
      (zero_machine\<lparr>ShardMetadata := encode_shard_metadata (\<lambda>x. ''2'') (- 7) (FFin 2) (FFin 2) ''f'' ''g''\<rparr>)
   in errs = [] \<and> AssignedPriority m' = - 7"
  using metadata_roundtrip [of "zero_machine\<lparr>ShardMetadata :=
      encode_shard_metadata (\<lambda>x. ''2'') (- 7) (FFin 2) (FFin 2) ''f'' ''g''\<rparr>" "\<lambda>x. ''2''" "- 7" "FFin 2" "FFin 2"
      "''f''" "''g''" "\<lambda>s. Some (FFin 2)"]
  by (simp add: case_prod_beta in_i32_def)

section \<open>Fencing\<close>

lemma term_run_mark: "term_run hwm ts = (acc, h) \<Longrightarrow> h = Max (insert hwm (set acc))"
proof (induction ts arbitrary: hwm acc h)
  case (Cons t ts)
  show ?case
  proof (cases "t < hwm")
    case True
    then show ?thesis using Cons by (auto simp: term_validate_def split: prod.splits)
  next
    case False
    then have v: "term_validate hwm t = (None, t)" by (auto simp: term_validate_def)
    obtain acc' h' where r: "term_run t ts = (acc', h')" by (cases "term_run t ts")
    have e: "acc = t # acc'" "h = h'" using Cons.prems v r by auto
    have "hwm \<le> t" using False by simp
    also have "t \<le> Max (insert t (set acc'))" by (intro Max_ge) auto
    finally have "max hwm (Max (insert t (set acc'))) = Max (insert t (set acc'))" by (rule max.absorb2)
    moreover have "Max (insert hwm (set acc)) = max hwm (Max (insert t (set acc')))"
      unfolding e(1) list.set by (rule Max_insert) simp_all
    ultimately show ?thesis using Cons.IH [OF r] e(2) by presburger
  qed
qed simp

text \<open>A shard obeys coordinators in the order of their terms: of any sequence of instructions the
  accepted terms never fall, and the next one is refused exactly when its term is below the
  greatest accepted so far.\<close>

theorem stale_terms_refused:
  shows "let (acc, h) = term_run new_coordinator_term ts in
    sorted acc \<and> h = Max (insert 0 (set acc))
    \<and> (fst (term_validate h t) = Some (ErrStaleTerm t h) \<longleftrightarrow> t < Max (insert 0 (set acc)))"
proof -
  obtain acc h where r: "term_run new_coordinator_term ts = (acc, h)" by (cases "term_run new_coordinator_term ts")
  show ?thesis
    unfolding r Let_def case_prod_conv
    using term_run_accepted [OF r] term_run_mark [OF r, unfolded new_coordinator_term_def]
    by (auto simp: term_validate_def simp del: Max_insert)
qed

lemma epoch_starts_Suc:
  assumes "path \<noteq> ''''"
  shows "epoch_starts path ReadNotExist (Suc n) = Inr 1 # epoch_starts path (ReadOk (dec_int 1)) n"
  using assms by (simp add: load_epoch_def Let_def i64_id in_i64_def)

text \<open>The epochs of successive starts on one data directory are 1, 2, 3 and so on, and the numbers
  of one tracker likewise: no epoch and no sequence number is given out twice.\<close>

theorem epochs_and_sequences_increase:
  assumes "path \<noteq> ''''" "int n < 2 ^ 63"
  shows "epoch_starts path ReadNotExist n = map Inr [1 .. int n] \<and> sequence_run 0 n = [1 .. int n]"
proof -
  have "epoch_starts path ReadNotExist n = map Inr [1 .. int n]"
  proof (cases n)
    case (Suc k)
    have "epoch_starts path (ReadOk (dec_int 1)) k = map Inr [1 + 1 .. 1 + int k]"
      using assms Suc by (intro epoch_starts_from) auto
    moreover have "[1 .. 1 + int k] = 1 # [1 + 1 .. 1 + int k]" by (rule upto_rec1) simp
    ultimately show ?thesis
      unfolding Suc epoch_starts_Suc [OF assms(1)] by (simp add: ac_simps)
  qed simp
  then show ?thesis using sequence_run_upto [of 0 n] assms(2) by simp
qed

theorem epochs_and_sequences_increase_witness:
  "epoch_starts ''/var/epoch'' ReadNotExist 3 = [Inr 1, Inr 2, Inr 3]"
  using epochs_and_sequences_increase [of "''/var/epoch''" 3] by (simp add: upto.simps)

section \<open>Needs\<close>

text \<open>A penalty falls into the smallest bucket whose upper bound is not below it: no lower bucket
  of the ladder would do, and only what exceeds the last bound is pinned.\<close>

theorem bucket_smallest:
  assumes "d \<noteq> FNaN"
  shows "let b = bucket_for_dollars d in
    1 \<le> b \<and> b \<le> 27 \<and> f64_le d (upper_bound_dollars b)
    \<and> (\<forall>b'. 1 \<le> b' \<and> b' < b \<longrightarrow> \<not> f64_le d (upper_bound_dollars b'))"
proof -
  let ?b = "bucket_for_dollars d"
  have three: "b' = 1 \<or> b' = 2 \<or> 3 \<le> b'" if "1 \<le> b'" for b' :: nat using that by linarith
  show ?thesis
  proof (cases "f64_le d (FFin (1 / 2))")
    case True
    then show ?thesis
      using three by (force simp: bucket_for_dollars_def upper_bound_dollars_def Let_def)
  next
    case False
    then have z: "\<not> f64_le d (FFin 0)" using assms by (cases d) auto
    have w: "bucket_walk d 3 (FFin (2 ^ (3 - 3))) = ?b"
      using False z by (simp add: bucket_for_dollars_def)
    note L = bucket_walk_least [OF _ _ w]
    have top: "f64_le d (upper_bound_dollars 27)" using assms by (cases d) (simp_all add: upper_bound_dollars_def)
    have bnd: "3 \<le> ?b" "?b \<le> 27" using L(1,2) by simp_all
    have "f64_le d (upper_bound_dollars ?b)" using L(3) top bnd(2) by (cases "?b = 27") simp_all
    moreover have "\<not> f64_le d (upper_bound_dollars b')" if "1 \<le> b'" "b' < ?b" for b'
      using three [OF that(1)] L(4) [of b'] that(2) z False
      by (auto simp: upper_bound_dollars_def)
    ultimately show ?thesis using bnd by (simp add: Let_def)
  qed
qed

theorem bucket_smallest_witness:
  "let b = bucket_for_dollars (FFin 3) in 1 \<le> b \<and> f64_le (FFin 3) (upper_bound_dollars b)"
  using bucket_smallest [of "FFin 3"] by (simp add: Let_def)

text \<open>A fingerprint identifies its profile, for profiles whose keys and values contain none of the
  separators (label keys and values never do) and no lone empty value: equal fingerprints mean
  equal profiles, and conversely.\<close>

theorem fingerprint_identifies:
  assumes "profile_ok p" "profile_ok q"
  shows "fingerprint p = fingerprint q \<longleftrightarrow> p = q"
  using fingerprint_inj [OF assms] by blast

lemma sample_profile_ok: "profile_ok (sample_profile 7)" "profile_ok (sample_profile 8)"
  by code_simp+

theorem fingerprint_identifies_witness:
  "fingerprint (sample_profile 7) \<noteq> fingerprint (sample_profile 8)"
proof -
  have "sample_profile 7 \<noteq> sample_profile 8" by (simp add: sample_profile_def new_profile_def Let_def)
  then show ?thesis using fingerprint_identifies [OF sample_profile_ok] by simp
qed

text \<open>Outside that set two profiles may share a fingerprint.\<close>

lemma fingerprint_collision:
  "fingerprint (new_profile [\<lparr>rKey = ''k'', rOperator = OperatorIn, rValues = [''a,b'']\<rparr>] [] 0 1 1)
   = fingerprint (new_profile [\<lparr>rKey = ''k'', rOperator = OperatorIn, rValues = [''a'', ''b'']\<rparr>] [] 0 1 1)"
  by code_simp

text \<open>C14: Aggregation loses and invents no demand: there is exactly one row for each combination of
  cluster, profile and group that occurs; in every dimension the row asks for the sum of what the
  needs merged into it ask for, and its smallest unit is the largest of theirs.\<close>

theorem aggregate_conserves:
  assumes "quantity_laws Q val"
    and "\<forall>n\<in>set ns. 0 \<le> demand_of Q val n d"
    and "\<forall>k. sum_list (map (\<lambda>n. demand_of Q val n d) (filter (\<lambda>n. need_key n = k) ns)) \<le> q_cap"
  shows "distinct (map need_key (aggregate Q ns)) \<and> need_key ` set (aggregate Q ns) = need_key ` set ns
    \<and> (\<forall>r\<in>set (aggregate Q ns). let g = filter (\<lambda>n. need_key n = need_key r) ns in
        demand_of Q val r d = sum_list (map (\<lambda>n. demand_of Q val n d) g)
        \<and> rval Q val (MinUnit r) d = Max ((\<lambda>n. rval Q val (MinUnit n) d) ` set g))"
proof -
  have "distinct (map need_key (aggregate Q ns))" by (simp add: aggregate_keys gm_ok_group_by)
  moreover have "set (map need_key (aggregate Q ns)) = need_key ` set ns"
    unfolding aggregate_keys by (simp add: gm_keys_group_by)
  moreover have "demand_of Q val r d = sum_list (map (\<lambda>n. demand_of Q val n d) g)
      \<and> rval Q val (MinUnit r) d = Max ((\<lambda>n. rval Q val (MinUnit n) d) ` set g)"
    if r: "r \<in> set (aggregate Q ns)" and g: "g = filter (\<lambda>n. need_key n = need_key r) ns" for r g
  proof -
    have m: "r = merge_all Q g" "g \<noteq> []" using aggregate_row [OF r] g by simp_all
    have p: "\<forall>n\<in>set g. 0 \<le> demand_of Q val n d"
      "sum_list (map (\<lambda>n. demand_of Q val n d) g) \<le> q_cap"
      unfolding g using assms(2) assms(3) [rule_format, of "need_key r"] by auto
    show ?thesis
      using merge_all_demand [OF assms(1) m(2) p] merge_all_min_unit [OF assms(1) m(2)] m(1) by metis
  qed
  ultimately show ?thesis by (simp add: Let_def)
qed

definition sample_needs :: "need list" where
  "sample_needs = [sample_need ''c1'' ''4'', sample_need ''c2'' ''1'', sample_need ''c1'' ''5'']"

lemma sample_need_demand:
  "demand_of int_lib of_int (sample_need c ''4'') ''cpu'' = 4"
  "demand_of int_lib of_int (sample_need c ''1'') ''cpu'' = 1"
  "demand_of int_lib of_int (sample_need c ''5'') ''cpu'' = 5"
proof -
  have "parse_or_zero int_lib ''4'' = 4" "parse_or_zero int_lib ''1'' = 1" "parse_or_zero int_lib ''5'' = 5"
    by code_simp+
  then show "demand_of int_lib of_int (sample_need c ''4'') ''cpu'' = 4"
    "demand_of int_lib of_int (sample_need c ''1'') ''cpu'' = 1"
    "demand_of int_lib of_int (sample_need c ''5'') ''cpu'' = 5"
    by (simp_all add: demand_of_def rval_def to_qty_map_def gm_at_def sample_need_def)
qed

theorem aggregate_conserves_witness:
  "distinct (map need_key (aggregate int_lib sample_needs))
    \<and> (\<exists>r\<in>set (aggregate int_lib sample_needs).
        need_key r = need_key (sample_need ''c1'' ''4'') \<and> demand_of int_lib of_int r ''cpu'' = 9)"
proof -
  have "\<forall>n\<in>set sample_needs. 0 \<le> demand_of int_lib of_int n ''cpu''"
    by (simp add: sample_needs_def sample_need_demand)
  moreover have "\<forall>k. sum_list (map (\<lambda>n. demand_of int_lib of_int n ''cpu'')
      (filter (\<lambda>n. need_key n = k) sample_needs)) \<le> q_cap"
  proof
    fix k
    have "sum_list (map f (filter P [a, b, c])) \<le> (10 :: rat)" if "f a = 4" "f b = 1" "f c = 5"
      for f and a b c :: need and P using that by simp
    from this [of "\<lambda>n. demand_of int_lib of_int n ''cpu''", OF sample_need_demand]
    show "sum_list (map (\<lambda>n. demand_of int_lib of_int n ''cpu'')
        (filter (\<lambda>n. need_key n = k) sample_needs)) \<le> q_cap"
      unfolding sample_needs_def by (rule order_trans) (simp add: q_cap_def)
  qed
  ultimately have T: "distinct (map need_key (aggregate int_lib sample_needs))"
    "need_key ` set (aggregate int_lib sample_needs) = need_key ` set sample_needs"
    "\<forall>r\<in>set (aggregate int_lib sample_needs). demand_of int_lib of_int r ''cpu''
       = sum_list (map (\<lambda>n. demand_of int_lib of_int n ''cpu'')
           (filter (\<lambda>n. need_key n = need_key r) sample_needs))"
    using aggregate_conserves [OF int_lib_laws] unfolding Let_def by blast+
  have "need_key (sample_need ''c1'' ''4'') \<in> need_key ` set (aggregate int_lib sample_needs)"
    unfolding T(2) by (simp add: sample_needs_def)
  then obtain r where r: "r \<in> set (aggregate int_lib sample_needs)"
    "need_key r = need_key (sample_need ''c1'' ''4'')" by force
  have "filter (\<lambda>n. need_key n = need_key r) sample_needs
      = [sample_need ''c1'' ''4'', sample_need ''c1'' ''5'']"
    unfolding r(2) by (simp add: sample_needs_def need_key_def sample_need_def)
  then have "demand_of int_lib of_int r ''cpu'' = 9" using T(3) r(1) by (simp add: sample_need_demand)
  then show ?thesis using T(1) r by blast
qed

text \<open>What clients do to the table of needs: replace a cluster's slice, or read it.\<close>

datatype table_op = OpReplace string "need list" | OpSnapshot

fun table_do :: "needs_table \<Rightarrow> table_op \<Rightarrow> needs_table" where
  "table_do t (OpReplace c ns) = table_replace t c ns"
| "table_do t OpSnapshot = snd (table_snapshot t)"

lemma table_ok_ops: "table_ok t \<Longrightarrow> table_ok (foldl table_do t ops)"
proof (induction ops arbitrary: t)
  case (Cons p ops)
  then have "table_ok (table_do t p)" by (cases p) (simp_all add: table_ok_replace table_ok_snapshot)
  then show ?case using Cons.IH by simp
qed simp

text \<open>Whatever was written to the table and read from it before, a snapshot is the current needs,
  each once, in order of priority, then arrival, then cluster; it never shows a stale cache.\<close>

theorem table_snapshot_current:
  assumes "t = foldl table_do new_table ops" "length (table_rows t) \<le> 2 ^ 32"
  shows "let ns = fst (table_snapshot t) in
    mset ns = mset (table_rows t) \<and> sorted_wrt (\<lambda>a b. \<not> need_less b a) ns
    \<and> NeedsCount (stats_of t) = length ns"
proof -
  have "fst (table_snapshot t) = sort_less need_less (table_rows t)"
    using table_ok_ops [OF table_ok_new, of ops] assms
    by (simp add: table_snapshot_result sort_by_indices_eq)
  then show ?thesis
    using need_cmp.sort_sorted [of "table_rows t"] by (simp add: Let_def stats_needs)
qed

theorem table_snapshot_current_witness:
  "let ns = fst (table_snapshot (foldl table_do new_table
      [OpReplace ''c1'' sample_needs, OpSnapshot, OpReplace ''c2'' [sample_need ''c2'' ''4'']])) in
    sorted_wrt (\<lambda>a b. \<not> need_less b a) ns \<and> mset ns = mset (sample_needs @ [sample_need ''c2'' ''4''])"
proof -
  let ?t = "foldl table_do new_table
      [OpReplace ''c1'' sample_needs, OpSnapshot, OpReplace ''c2'' [sample_need ''c2'' ''4'']]"
  have r: "table_rows ?t = sample_needs @ [sample_need ''c2'' ''4'']"
    by (simp add: table_rows_def table_replace_def new_table_def table_snapshot_def sample_needs_def Let_def)
  then have "length (table_rows ?t) \<le> 2 ^ 32" by (simp add: sample_needs_def)
  then show ?thesis
    using table_snapshot_current [OF refl, of "[OpReplace ''c1'' sample_needs, OpSnapshot,
        OpReplace ''c2'' [sample_need ''c2'' ''4'']]"] unfolding r Let_def by blast
qed

section \<open>The inventory\<close>

text \<open>C12: Whatever is written to an inventory, every machine in it is filed under its own identifier,
  satisfies the structural invariant, and has an idle stamp exactly when it is Idle.\<close>

theorem inventory_wellformed:
  assumes "inv_history h" "(t, i) \<in> set h"
  shows "(\<forall>k m. gm_get (byID i) k = Some m \<longrightarrow> ID m = k \<and> invariant m = None
      \<and> ((\<exists>u. gm_get (idleSince i) k = Some u) \<longleftrightarrow> State m = StateIdle))
    \<and> (\<forall>k. gm_get (byID i) k = None \<longrightarrow> gm_get (idleSince i) k = None)"
proof -
  have ok: "inv_ok i" using inv_history_ok [OF assms(1)] assms(2) by auto
  note D = inv_okD [OF ok]
  have "ID m = k \<and> invariant m = None \<and> ((\<exists>u. gm_get (idleSince i) k = Some u) \<longleftrightarrow> State m = StateIdle)"
    if g: "gm_get (byID i) k = Some m" for k m
    using D(3) [OF g] D(4) [OF g] D(5) [of k] g unfolding invariant_none_iff by auto
  moreover have "gm_get (idleSince i) k = None" if "gm_get (byID i) k = None" for k
    using D(5) [of k] that by (metis not_None_eq option.distinct(1))
  ultimately show ?thesis by blast
qed

definition idle_machine :: machine where
  "idle_machine = sample_machine ''b'' StateIdle '''' ''z1''"

definition sample_history :: "(int \<times> inventory) list" where
  "sample_history = [(1, new_inventory), (2, inv_do 2 (OpInsert idle_machine) new_inventory)]"

lemma sample_history_ok: "inv_history sample_history"
  using ih_op [of "[]" 1 new_inventory 2 "OpInsert idle_machine"]
  by (simp add: sample_history_def ih_new)

lemma sample_history_last:
  "snd (last sample_history) = \<lparr>byID = [(''b'', idle_machine)], idleSince = [(''b'', 2)]\<rparr>"
proof -
  have "wf_machine idle_machine" by (simp add: idle_machine_def sample_wf)
  then have "invariant idle_machine = None" by (simp only: invariant_none_iff)
  then show ?thesis
    by (simp add: sample_history_def inv_insert_def new_inventory_def Let_def)
      (simp add: idle_machine_def sample_machine_def zero_machine_def)
qed

theorem inventory_wellformed_witness:
  "invariant idle_machine = None \<and> gm_get (idleSince (snd (last sample_history))) ''d'' = None"
proof -
  have l: "(2, snd (last sample_history)) \<in> set sample_history" by (simp add: sample_history_def)
  show ?thesis
    using inventory_wellformed [OF sample_history_ok l] unfolding sample_history_last by simp
qed

lemma history_steps:
  assumes "inv_history h" "Suc j < length h" "state_in (snd (h ! j)) k = Some s"
    "state_in (snd (h ! Suc j)) k = Some s'"
  shows "s' = s \<or> can_transition s s'"
  using assms
proof (induction rule: inv_history.induct)
  case (ih_op h t i now op)
  have ok: "inv_ok i" using inv_history_ok [OF ih_op.hyps(1)] by auto
  show ?case
  proof (cases "j = length h")
    case True
    then show ?thesis using ih_op.prems do_transition [OF ok] by (simp add: nth_append)
  next
    case False
    then have j: "Suc j < length (h @ [(t, i)])" using ih_op.prems(1) by simp
    have e: "(h @ [(t, i), (now, inv_do now op i)]) ! x = (h @ [(t, i)]) ! x" if "x \<le> Suc j" for x
      using that j by (auto simp: nth_append nth_Cons')
    show ?thesis using ih_op.IH [OF j] ih_op.prems(2,3) e by simp
  qed
qed simp

text \<open>C13: From one write to the next a machine keeps its state or moves along an edge of the
  transition table, and the idle stamp of a machine is the instant of the write that brought it
  into Idle: it has been Idle in every inventory since, and was not just before.\<close>

theorem inventory_transitions_stamps:
  assumes "inv_history h"
  shows "(\<forall>j k s s'. Suc j < length h \<longrightarrow> state_in (snd (h ! j)) k = Some s
      \<longrightarrow> state_in (snd (h ! Suc j)) k = Some s' \<longrightarrow> s' = s \<or> can_transition s s')
    \<and> (\<forall>k t. gm_get (idleSince (snd (last h))) k = Some t \<longrightarrow>
        (\<exists>h1 i0 h2. h = h1 @ (t, i0) # h2
          \<and> (\<forall>(_, i)\<in>set ((t, i0) # h2). state_in i k = Some StateIdle)
          \<and> (h1 = [] \<or> state_in (snd (last h1)) k \<noteq> Some StateIdle)))"
  using history_steps [OF assms] history_stamp [OF assms] by blast

theorem inventory_transitions_stamps_witness:
  "\<exists>h1 i0 h2. sample_history = h1 @ (2, i0) # h2 \<and> (h1 = [] \<or> state_in (snd (last h1)) ''b'' \<noteq> Some StateIdle)"
proof -
  have "gm_get (idleSince (snd (last sample_history))) ''b'' = Some 2" unfolding sample_history_last by simp
  then show ?thesis using inventory_transitions_stamps [OF sample_history_ok] by blast
qed

text \<open>A write is refused exactly when it must be, and a refused write changes nothing: an insert
  needs a well-formed record and a new identifier, an update a well-formed record, a known
  identifier and the same state or a legal transition, a removal a known identifier.\<close>

theorem inventory_refusals:
  shows "(fst (inv_insert now i m) = None \<longleftrightarrow> wf_machine m \<and> gm_get (byID i) (ID m) = None)
    \<and> (fst (inv_apply now i m) = None \<longleftrightarrow> wf_machine m \<and> (\<exists>old. gm_get (byID i) (ID m) = Some old
        \<and> (State m = State old \<or> can_transition (State old) (State m))))
    \<and> (fst (inv_remove i k) = None \<longleftrightarrow> (\<exists>old. gm_get (byID i) k = Some old))
    \<and> (fst (inv_insert now i m) \<noteq> None \<longrightarrow> snd (inv_insert now i m) = i)
    \<and> (fst (inv_apply now i m) \<noteq> None \<longrightarrow> snd (inv_apply now i m) = i)
    \<and> (fst (inv_remove i k) \<noteq> None \<longrightarrow> snd (inv_remove i k) = i)"
proof -
  have w: "invariant m = Some e \<Longrightarrow> \<not> wf_machine m" for e by (simp flip: invariant_none_iff)
  have v: "invariant m = None \<Longrightarrow> wf_machine m" by (simp flip: invariant_none_iff)
  have "(fst (inv_insert now i m) = None \<longleftrightarrow> wf_machine m \<and> gm_get (byID i) (ID m) = None)
    \<and> (fst (inv_insert now i m) \<noteq> None \<longrightarrow> snd (inv_insert now i m) = i)"
    by (cases "invariant m"; cases "gm_get (byID i) (ID m)") (auto simp: inv_insert_def Let_def w v)
  moreover have "(fst (inv_apply now i m) = None \<longleftrightarrow> wf_machine m \<and> (\<exists>old. gm_get (byID i) (ID m) = Some old
        \<and> (State m = State old \<or> can_transition (State old) (State m))))
    \<and> (fst (inv_apply now i m) \<noteq> None \<longrightarrow> snd (inv_apply now i m) = i)"
    by (cases "invariant m"; cases "gm_get (byID i) (ID m)")
      (auto simp: inv_apply_def check_transition_def Let_def w v simp del: map_of_eq_Some_iff)
  moreover have "(fst (inv_remove i k) = None \<longleftrightarrow> (\<exists>old. gm_get (byID i) k = Some old))
    \<and> (fst (inv_remove i k) \<noteq> None \<longrightarrow> snd (inv_remove i k) = i)"
    by (cases "gm_get (byID i) k") (simp_all add: inv_remove_def)
  ultimately show ?thesis by blast
qed

theorem inventory_refusals_witness:
  "fst (inv_insert 3 sample_inventory idle_machine) \<noteq> None
    \<and> snd (inv_insert 3 sample_inventory idle_machine) = sample_inventory"
proof -
  have "gm_get (byID sample_inventory) (ID idle_machine) \<noteq> None"
    by (simp add: sample_inventory_def idle_machine_def sample_machine_def zero_machine_def)
  then show ?thesis using inventory_refusals [of 3 sample_inventory idle_machine "''b''"] by (simp only: simp_thms)
qed

text \<open>A snapshot is the inventory, indexed: a lookup answers as the store does, the list of a state
  is exactly the machines of the store in it, and the list of an instance type and of a cluster
  are the machines they name, each once, the first in order of price.\<close>

theorem snapshot_refines_store:
  assumes "inv_ok i"
  shows "let s = snapshot_of i; store = (\<lambda>m. gm_get (byID i) (ID m) = Some m) in
    (\<forall>k. snap_get s k = gm_get (byID i) k)
    \<and> (\<forall>st. set (snap_by_state s st) = {m. store m \<and> State m = st})
    \<and> (\<forall>c st. set (snap_keep_bucket s c st) = {m. store m \<and> State m = st \<and> Cluster m = c \<and> c \<noteq> ''''}
        \<and> distinct (map ID (snap_keep_bucket s c st)))
    \<and> (\<forall>st ty. set (snap_by_type s st ty)
          = {m. store m \<and> State m = st \<and> InstanceType (MProfile m) = ty \<and> ty \<noteq> ''''}
        \<and> distinct (map ID (snap_by_type s st ty))
        \<and> sorted_wrt (\<lambda>a b. \<not> price_less b a) (snap_by_type s st ty))"
proof -
  have ok: "snapshot_ok (snapshot_of i)" using assms by (auto simp: snapshot_ok_def)
  have d: "distinct (map ID (filter P (inv_machines i)))" for P
    using distinct_inv_machines [OF assms] by (simp add: distinct_map_filter)
  show ?thesis
    unfolding Let_def snapshot_lists [OF assms]
    using snap_get_inv [OF assms] set_inv_machines [OF assms] d
      by_type_sorted [OF ok, unfolded snapshot_lists(4) [OF assms]] by auto
qed

theorem snapshot_refines_store_witness:
  "set (snap_by_state (snapshot_of sample_inventory) StateConfigured)
    = {m. gm_get (byID sample_inventory) (ID m) = Some m \<and> State m = StateConfigured}"
  using snapshot_refines_store [OF sample_inventory_ok] by (simp only: Let_def)

text \<open>The minimum priorities of a snapshot are lower bounds: of every machine of an instance type in
  a state, and of every machine of a state provided one of them has an instance type.\<close>

theorem min_priorities_bound:
  assumes "inv_ok i" "gm_get (byID i) k = Some m"
  shows "(InstanceType (MProfile m) \<noteq> '''' \<longrightarrow>
      snap_min_priority_by_type (snapshot_of i) (State m) (InstanceType (MProfile m)) \<le> AssignedPriority m)
    \<and> ((\<exists>k' m'. gm_get (byID i) k' = Some m' \<and> State m' = State m \<and> InstanceType (MProfile m') \<noteq> '''') \<longrightarrow>
      snap_min_priority (snapshot_of i) (State m) \<le> AssignedPriority m)"
proof -
  have mem: "m' \<in> set (inv_machines i)" if "gm_get (byID i) k' = Some m'" for k' m'
    using that inv_okD(3) [OF assms(1) that] by (simp add: set_inv_machines [OF assms(1)])
  have "snap_min_priority (snapshot_of i) (State m) \<le> AssignedPriority m"
    if "gm_get (byID i) k' = Some m'" "State m' = State m" "InstanceType (MProfile m') \<noteq> ''''" for k' m'
    using mem [OF that(1)] that(2,3)
    by (intro min_priority_by_state_le [OF assms(1) mem [OF assms(2)] refl]) blast
  moreover have "snap_min_priority_by_type (snapshot_of i) (State m) (InstanceType (MProfile m))
      \<le> AssignedPriority m" if "InstanceType (MProfile m) \<noteq> ''''"
    unfolding min_priority_by_type_inv using mem [OF assms(2)] that
    by (intro min_priority_le(2)) (simp add: snapshot_lists(4) [OF assms(1)])
  ultimately show ?thesis by blast
qed

theorem min_priorities_bound_witness:
  "snap_min_priority_by_type (snapshot_of sample_inventory) StateIdle ''t'' \<le> 0"
proof -
  have g: "gm_get (byID sample_inventory) ''b'' = Some idle_machine"
    by (simp add: sample_inventory_def idle_machine_def)
  show ?thesis
    using min_priorities_bound [OF sample_inventory_ok g]
    by (simp add: idle_machine_def sample_machine_def zero_machine_def zero_mprofile_def)
qed

section \<open>Victims and grace\<close>

text \<open>The cheaper victim wins: a machine of no higher priority, no longer drain and no greater
  penalties never scores below the other, under any positive weights, rounding included.\<close>

theorem cheaper_victim_first:
  assumes "in_i32 p" "in_i32 (vcAssignedPriority c)" "in_i32 (vcAssignedPriority d)"
    and "weights_ok w" "no_dearer c d"
  shows "f64_le (victim_score p d w) (victim_score p c w)"
  by (rule victim_score_mono [OF assms])

definition sample_victim :: "int \<Rightarrow> int \<Rightarrow> victim_candidate" where
  "sample_victim prio dur = \<lparr>vcMachine = idle_machine, vcAssignedPriority = prio,
     vcInterruptionPenalty = FFin 1, vcReclamationPenalty = FFin 2, vcEstimatedDrainDuration = dur\<rparr>"

lemma default_weights_ok: "weights_ok default_victim_weights"
proof -
  have "f64_le (f64_round (1 / 100)) (f64_round (1 / 10))" by (rule f64_round_mono) simp
  then have "f64_lt (FFin 0) (f64_round (1 / 10))"
    using penalty_floor_pos f64_lt_le_trans unfolding penalty_floor_def by blast
  moreover have "f64_le (f64_round (1 / 10)) (f64_round 1)" by (rule f64_round_mono) simp
  ultimately have "\<exists>q. f64_round (1 / 10) = FFin q \<and> 0 < q" by (cases "f64_round (1 / 10)") simp_all
  then show ?thesis by (simp add: weights_ok_def default_victim_weights_def)
qed

theorem cheaper_victim_first_witness:
  "f64_le (victim_score 100 (sample_victim 50 (30 * Second)) default_victim_weights)
    (victim_score 100 (sample_victim 20 (10 * Second)) default_victim_weights)"
  by (rule cheaper_victim_first)
    (simp_all add: default_weights_ok, simp_all add: sample_victim_def no_dearer_def in_i32_def in_i64_def)

text \<open>The grace a victim gets shrinks with the priority gap, in the tiers of the table, as long as
  the gap is an \<open>int32\<close>; beyond it the subtraction wraps and the largest gap gets the longest
  grace.\<close>

theorem grace_tiers:
  shows "(in_i32 (p - v) \<longrightarrow> drain_grace p v = (if p - v > 900000 then 10 * Second
      else if p - v > 500000 then 30 * Second else if p - v > 100000 then 2 * Minute else 10 * Minute))
    \<and> (in_i32 (p - v) \<longrightarrow> in_i32 (p' - v) \<longrightarrow> p \<le> p' \<longrightarrow> drain_grace p' v \<le> drain_grace p v)
    \<and> (2 ^ 31 \<le> p - v \<longrightarrow> p - v < 2 ^ 32 \<longrightarrow> drain_grace p v = 10 * Minute)"
proof -
  have "drain_grace p v = 10 * Minute" if "2 ^ 31 \<le> p - v" "p - v < 2 ^ 32"
  proof -
    have "(p - v + 2 ^ 31) mod 2 ^ 32 = (p - v + 2 ^ 31 - 2 ^ 32) mod 2 ^ 32" by (rule sym, rule minus_mod_self2)
    also have "\<dots> = p - v + 2 ^ 31 - 2 ^ 32" using that by (intro mod_pos_pos_trivial) simp_all
    finally have "i32 (p - v) = p - v - 2 ^ 32"
      by (simp add: i32_def signed_take_bit_eq_take_bit_shift take_bit_eq_mod)
    then have "i32 (p - v) < 0" using that(2) by simp
    then show ?thesis by (simp add: drain_grace_def Let_def)
  qed
  then show ?thesis using drain_grace_tiers [of p v] drain_grace_tiers [of p' v] by auto
qed

theorem grace_tiers_witness:
  "drain_grace 2000001000 (- 200000000) = 10 * Minute \<and> drain_grace 1000000 50000 = 10 * Second"
  using grace_tiers [of 2000001000 "- 200000000"] grace_tiers [of 1000000 50000] by (simp add: in_i32_def)

end
