(* ===== verification/SameSupply.thy ===== *)
theory SameSupply
  imports Pool
begin

text \<open>
  The choice of one co-location domain for a gang (\<open>pkg/decision/occ/samebucket.go\<close>) over
  integer vectors of milli-units (\<open>pkg/decision/occ/samesupply.go\<close>).
\<close>

section \<open>Vectors\<close>

text \<open>A missing index reads as zero.\<close>

definition vec_at :: "int list \<Rightarrow> nat \<Rightarrow> int" where
  "vec_at v i = (if i < length v then v ! i else 0)"

definition vec_add :: "int list \<Rightarrow> int list \<Rightarrow> int list" where
  "vec_add dst src =
    map (\<lambda>i. if i < length src then i64 (vec_at dst i + src ! i) else dst ! i)
      [0..<max (length dst) (length src)]"

definition vec_covers :: "int list \<Rightarrow> int list \<Rightarrow> bool" where
  "vec_covers have want =
    list_all (\<lambda>(i, w). w \<le> 0 \<or> (i < length have \<and> \<not> have ! i < w)) (enumerate 0 want)"

definition vec_has_positive :: "int list \<Rightarrow> bool" where
  "vec_has_positive v = list_ex (\<lambda>q. q > 0) v"

lemma vec_at_nil [simp]: "vec_at [] i = 0"
  by (simp add: vec_at_def)

lemma vec_at_add:
  "vec_at (vec_add a b) i = (if i < length b then i64 (vec_at a i + vec_at b i) else vec_at a i)"
  by (auto simp: vec_add_def vec_at_def)

lemma vec_covers_iff: "vec_covers have want \<longleftrightarrow> (\<forall>i. 0 < vec_at want i \<longrightarrow> vec_at want i \<le> vec_at have i)"
proof -
  have "vec_covers have want \<longleftrightarrow> (\<forall>i<length want. want ! i \<le> 0 \<or> (i < length have \<and> want ! i \<le> have ! i))"
    by (auto simp: vec_covers_def list_all_iff in_set_enumerate_eq not_less)
  also have "\<dots> \<longleftrightarrow> (\<forall>i. 0 < vec_at want i \<longrightarrow> vec_at want i \<le> vec_at have i)"
    by (auto simp: vec_at_def)
  finally show ?thesis .
qed

section \<open>Buckets and their ranking\<close>

record same_bucket =
  sbValue :: string
  sbCount :: nat
  sbCreditableCount :: nat
  sbTotal :: "int list"
  sbCreditableTotal :: "int list"
  sbCreditableOwnTotal :: "int list"

definition zero_same_bucket :: "string \<Rightarrow> same_bucket" where
  "zero_same_bucket v = \<lparr>sbValue = v, sbCount = 0, sbCreditableCount = 0, sbTotal = [],
     sbCreditableTotal = [], sbCreditableOwnTotal = []\<rparr>"

definition same_bucket_score :: "int list \<Rightarrow> int list \<Rightarrow> bool \<Rightarrow> f64" where
  "same_bucket_score tot deficit capped =
    foldl (\<lambda>score (i, want).
        if want \<le> 0 then score
        else
          let ratio = f64_div (f64_of_int (vec_at tot i)) (f64_of_int want);
              ratio = (if capped \<and> f64_gt ratio (FFin 1) then FFin 1 else ratio)
          in f64_add score ratio)
      (FFin 0) (enumerate 0 deficit)"

text \<open>A bucket with the quantities the loop ranks it by.\<close>

record scored =
  scBucket :: same_bucket
  scSat :: bool
  scScore :: f64
  scCred :: f64
  scCredOwn :: f64

definition score_same_bucket :: "int list \<Rightarrow> same_bucket \<Rightarrow> scored" where
  "score_same_bucket deficit b =
    (let sat = vec_covers (sbTotal b) deficit
     in \<lparr>scBucket = b, scSat = sat, scScore = same_bucket_score (sbTotal b) deficit (\<not> sat),
         scCred = same_bucket_score (sbCreditableTotal b) deficit True,
         scCredOwn = same_bucket_score (sbCreditableOwnTotal b) deficit True\<rparr>)"

text \<open>The cases of the switch after \<open>best < 0\<close>, in their order.\<close>

definition same_better :: "scored \<Rightarrow> scored \<Rightarrow> bool" where
  "same_better x best \<longleftrightarrow>
    (if scSat x \<noteq> scSat best then scSat x
     else if scSat x \<and> \<not> f64_eq (scCred x) (scCred best) then f64_gt (scCred x) (scCred best)
     else if scSat x \<and> \<not> f64_eq (scCredOwn x) (scCredOwn best) then f64_gt (scCredOwn x) (scCredOwn best)
     else if \<not> f64_eq (scScore x) (scScore best) then
       (if scSat x then f64_lt (scScore x) (scScore best) else f64_gt (scScore x) (scScore best))
     else if \<not> f64_eq (scCred x) (scCred best) then f64_gt (scCred x) (scCred best)
     else if sbCount (scBucket x) \<noteq> sbCount (scBucket best)
     then sbCount (scBucket x) > sbCount (scBucket best)
     else sbValue (scBucket x) < sbValue (scBucket best))"

definition choose_same_bucket :: "same_bucket list \<Rightarrow> int list \<Rightarrow> same_bucket option" where
  "choose_same_bucket buckets deficit =
    map_option scBucket (pick_best same_better
      (map (score_same_bucket deficit) (filter (\<lambda>b. sbCount b \<noteq> 0) buckets)))"

definition same_candidate_cap :: nat where
  "same_candidate_cap = 6"

definition coverage_per_mille :: "int list \<Rightarrow> int list \<Rightarrow> int" where
  "coverage_per_mille have want =
    (let step = (\<lambda>(minCov, any) (i, w).
           if w \<le> 0 then (minCov, any)
           else
             let h = vec_at have i; h = (if h > w then w else h); f = go_div (i64 (h * 1000)) w
             in (if f < minCov then f else minCov, True));
         (minCov, any) = foldl step (1000, False) (enumerate 0 want)
     in if \<not> any then 1000 else minCov)"

definition coverage_less :: "domain_coverage \<Rightarrow> domain_coverage \<Rightarrow> bool" where
  "coverage_less a b \<longleftrightarrow>
    (if dcCoveragePerMille a \<noteq> dcCoveragePerMille b then dcCoveragePerMille a > dcCoveragePerMille b
     else dcDomain a < dcDomain b)"

definition top_same_candidates :: "same_bucket list \<Rightarrow> int list \<Rightarrow> domain_coverage list" where
  "top_same_candidates buckets deficit =
    take same_candidate_cap (sort_less coverage_less
      (map (\<lambda>b. \<lparr>dcDomain = sbValue b, dcCoveragePerMille = coverage_per_mille (sbTotal b) deficit,
                dcSatisfiable = vec_covers (sbTotal b) deficit\<rparr>)
        (filter (\<lambda>b. sbCount b \<noteq> 0) buckets)))"

section \<open>The index of acquirable supply\<close>

record supply_member =
  smId :: string
  smVec :: "int list"

record supply_index =
  siByFP :: "(string, string, supply_member list) gomap2"
  siDims :: "(string, nat) gomap"

definition new_supply_index :: supply_index where
  "new_supply_index = \<lparr>siByFP = [], siDims = []\<rparr>"

definition intern_dim :: "string \<Rightarrow> (string, nat) gomap \<Rightarrow> nat \<times> (string, nat) gomap" where
  "intern_dim name dims =
    (case gm_get dims name of
       Some i \<Rightarrow> (i, dims)
     | None \<Rightarrow> (length dims, gm_set name (length dims) dims))"

definition vec_put :: "int list \<Rightarrow> nat \<Rightarrow> int \<Rightarrow> int list" where
  "vec_put v i x = (v @ replicate (Suc i - length v) 0)[i := x]"

definition parse_vec ::
    "'q qlib \<Rightarrow> (string, nat) gomap \<Rightarrow> resource_qty list \<Rightarrow> int list \<times> (string, nat) gomap" where
  "parse_vec Q dims qs =
    foldl (\<lambda>(vec, dims) r.
        case qParse Q (rqQuantity r) of
          None \<Rightarrow> (vec, dims)
        | Some q \<Rightarrow>
          let (i, dims) = intern_dim (rqName r) dims in (vec_put vec i (qMilli Q q), dims))
      ([], dims) qs"

definition index_member ::
    "'q qlib \<Rightarrow> profile \<Rightarrow> string \<Rightarrow> (string, supply_member list) gomap \<times> (string, nat) gomap
      \<Rightarrow> machine \<Rightarrow> (string, supply_member list) gomap \<times> (string, nat) gomap" where
  "index_member Q p sameKey st m =
    (let (d, dims) = st in
     if \<not> match_profile p m then (d, dims)
     else case lookup_attribute sameKey m of
            None \<Rightarrow> (d, dims)
          | Some v \<Rightarrow>
            let (vec, dims) = parse_vec Q dims (alloc_of m)
            in (gm_append v \<lparr>smId = ID m, smVec = vec\<rparr> d, dims))"

definition acquirable_sources :: "snapshot \<Rightarrow> profile \<Rightarrow> machine list" where
  "acquirable_sources snap p =
    concat (map (\<lambda>st. case pinned_instance_types p of
                   None \<Rightarrow> snap_by_state snap st
                 | Some types \<Rightarrow> concat (map (snap_by_type snap st) types))
      [StateIdle, StateSpeculative])"

definition supply_domains ::
    "'q qlib \<Rightarrow> snapshot \<Rightarrow> profile \<Rightarrow> string \<Rightarrow> supply_index
      \<Rightarrow> (string, supply_member list) gomap \<times> supply_index" where
  "supply_domains Q snap p sameKey ix =
    (case gm_get (siByFP ix) (fingerprint p) of
       Some d \<Rightarrow> (d, ix)
     | None \<Rightarrow>
       let (d, dims) = foldl (index_member Q p sameKey) ([], siDims ix) (acquirable_sources snap p)
       in (d, ix\<lparr>siByFP := gm_set (fingerprint p) d (siByFP ix), siDims := dims\<rparr>))"

definition acquirable_totals ::
    "'q qlib \<Rightarrow> snapshot \<Rightarrow> profile \<Rightarrow> string \<Rightarrow> resource_qty list \<Rightarrow> (string \<Rightarrow> bool) \<Rightarrow> supply_index
      \<Rightarrow> (string, same_bucket) gomap \<times> supply_index" where
  "acquirable_totals Q snap p sameKey minUnit isClaimed ix =
    (let (minVec, dims) = parse_vec Q (siDims ix) minUnit;
         (d, ix) = supply_domains Q snap p sameKey (ix\<lparr>siDims := dims\<rparr>);
         bucket = (\<lambda>v members.
             foldl (\<lambda>b m. if isClaimed (smId m) then b
                else if \<not> vec_covers (smVec m) minVec then b
                else b\<lparr>sbCount := sbCount b + 1, sbTotal := vec_add (sbTotal b) (smVec m)\<rparr>)
               (zero_same_bucket v) members)
     in (filter (\<lambda>(v, b). sbCount b > 0) (map (\<lambda>(v, members). (v, bucket v members)) d), ix))"

definition vec_sub :: "int list \<Rightarrow> int list \<Rightarrow> int list" where
  "vec_sub r v = map (\<lambda>i. if i < length v then i64 (r ! i - v ! i) else r ! i) [0..<length r]"

text \<open>The walk of \<open>ConsumeAcquirable\<close>; the set of consumed IDs is a map to unit.\<close>

fun consume_walk ::
    "int list \<Rightarrow> supply_member list \<Rightarrow> int list \<Rightarrow> (string, unit) gomap \<Rightarrow> (string, unit) gomap" where
  "consume_walk minVec [] remaining consumed = consumed"
| "consume_walk minVec (m # ms) remaining consumed =
    (if gm_get consumed (smId m) \<noteq> None then consume_walk minVec ms remaining consumed
     else if \<not> vec_covers (smVec m) minVec then consume_walk minVec ms remaining consumed
     else
       let consumed = gm_set (smId m) () consumed; remaining = vec_sub remaining (smVec m)
       in if \<not> vec_has_positive remaining then consumed
          else consume_walk minVec ms remaining consumed)"

definition consume_acquirable ::
    "'q qlib \<Rightarrow> snapshot \<Rightarrow> profile \<Rightarrow> string \<Rightarrow> string \<Rightarrow> resource_qty list \<Rightarrow> resource_qty list
      \<Rightarrow> (string, unit) gomap \<Rightarrow> supply_index \<Rightarrow> (string, unit) gomap \<times> supply_index" where
  "consume_acquirable Q snap p sameKey domain minUnit deficit consumed ix =
    (let (remaining, dims) = parse_vec Q (siDims ix) deficit; ix = ix\<lparr>siDims := dims\<rparr> in
     if \<not> vec_has_positive remaining then (consumed, ix)
     else
       let (minVec, dims) = parse_vec Q (siDims ix) minUnit;
           (d, ix) = supply_domains Q snap p sameKey (ix\<lparr>siDims := dims\<rparr>)
       in (consume_walk minVec (gm_at [] d domain) remaining consumed, ix))"

section \<open>The choice does not depend on the order of the buckets\<close>

definition scored_ok :: "scored \<Rightarrow> bool" where
  "scored_ok x \<longleftrightarrow> scScore x \<noteq> FNaN \<and> scCred x \<noteq> FNaN \<and> scCredOwn x \<noteq> FNaN"

definition size_rank :: "scored \<Rightarrow> scored \<Rightarrow> bool" where
  "size_rank x y \<longleftrightarrow> sbCount (scBucket x) > sbCount (scBucket y)
    \<or> sbCount (scBucket x) = sbCount (scBucket y) \<and> sbValue (scBucket x) < sbValue (scBucket y)"

definition sat_rank :: "scored \<Rightarrow> scored \<Rightarrow> bool" where
  "sat_rank x y \<longleftrightarrow> f64_gt (scCred x) (scCred y) \<or> scCred x = scCred y \<and>
    (f64_gt (scCredOwn x) (scCredOwn y) \<or> scCredOwn x = scCredOwn y \<and>
    (f64_lt (scScore x) (scScore y) \<or> scScore x = scScore y \<and> size_rank x y))"

definition unsat_rank :: "scored \<Rightarrow> scored \<Rightarrow> bool" where
  "unsat_rank x y \<longleftrightarrow> f64_gt (scScore x) (scScore y) \<or> scScore x = scScore y \<and>
    (f64_gt (scCred x) (scCred y) \<or> scCred x = scCred y \<and> size_rank x y)"

lemma size_rank_cmp: "comparator size_rank ok"
  by unfold_locales (auto simp: size_rank_def)

lemma f64_key:
  assumes "comparator r scored_ok" "\<And>x. scored_ok x \<Longrightarrow> key x \<noteq> FNaN"
  shows "comparator (\<lambda>x y. f64_lt (key x) (key y) \<or> key x = key y \<and> r x y) scored_ok"
    and "comparator (\<lambda>x y. f64_gt (key x) (key y) \<or> key x = key y \<and> r x y) scored_ok"
  using comparator_lex [where key = key and klt = f64_lt, OF assms(1)]
    comparator_lex [where key = key and klt = f64_gt, OF assms(1)] f64_lt_total f64_lt_trans assms(2)
  by (metis f64_lt_irrefl)+

lemma sat_rank_cmp: "comparator sat_rank scored_ok"
  unfolding sat_rank_def
  by (intro f64_key size_rank_cmp) (auto simp: scored_ok_def)

lemma unsat_rank_cmp: "comparator unsat_rank scored_ok"
  unfolding unsat_rank_def
  by (intro f64_key size_rank_cmp) (auto simp: scored_ok_def)

lemma same_better_rank:
  assumes "scored_ok x" "scored_ok y"
  shows "same_better x y \<longleftrightarrow> scSat x \<and> \<not> scSat y
    \<or> scSat x = scSat y \<and> (if scSat x then sat_rank x y else unsat_rank x y)"
  using assms f64_trichotomy
  unfolding same_better_def sat_rank_def unsat_rank_def size_rank_def scored_ok_def
  by (auto simp: f64_eq_iff)

interpretation bucket_cmp: comparator same_better scored_ok
  by (rule comparator_cong [OF comparator_split [OF sat_rank_cmp unsat_rank_cmp] same_better_rank])

lemma f64_lex_total:
  assumes "x \<noteq> FNaN" "y \<noteq> FNaN" "P \<or> Q"
  shows "(f64_lt x y \<or> x = y \<and> P) \<or> (f64_lt y x \<or> y = x \<and> Q)"
    and "(f64_lt y x \<or> x = y \<and> P) \<or> (f64_lt x y \<or> y = x \<and> Q)"
  using f64_trichotomy [OF assms(1,2)] assms(3) by auto

lemma size_rank_total:
  "sbValue (scBucket x) \<noteq> sbValue (scBucket y) \<Longrightarrow> size_rank x y \<or> size_rank y x"
  by (auto simp: size_rank_def neq_iff)

lemma sat_rank_total:
  assumes "scored_ok x" "scored_ok y" "sbValue (scBucket x) \<noteq> sbValue (scBucket y)"
  shows "sat_rank x y \<or> sat_rank y x"
  unfolding sat_rank_def
  by (intro f64_lex_total size_rank_total) (use assms in \<open>auto simp: scored_ok_def\<close>)

lemma unsat_rank_total:
  assumes "scored_ok x" "scored_ok y" "sbValue (scBucket x) \<noteq> sbValue (scBucket y)"
  shows "unsat_rank x y \<or> unsat_rank y x"
  unfolding unsat_rank_def
  by (intro f64_lex_total size_rank_total) (use assms in \<open>auto simp: scored_ok_def\<close>)

lemma same_better_total:
  assumes "scored_ok x" "scored_ok y" "sbValue (scBucket x) \<noteq> sbValue (scBucket y)"
  shows "same_better x y \<or> same_better y x"
  unfolding same_better_rank [OF assms(1,2)] same_better_rank [OF assms(2,1)]
  using sat_rank_total [OF assms] unsat_rank_total [OF assms] by auto

text \<open>Scores of buckets whose totals are not negative are numbers.\<close>

definition vec_ok :: "int list \<Rightarrow> bool" where
  "vec_ok v \<longleftrightarrow> (\<forall>x\<in>set v. 0 \<le> x \<and> x < 2 ^ 63)"

lemma vec_at_ok: "vec_ok v \<Longrightarrow> 0 \<le> vec_at v i \<and> vec_at v i < 2 ^ 63"
  by (auto simp: vec_at_def vec_ok_def)

lemma f64_of_i64:
  assumes "0 \<le> n" "n < 2 ^ 63"
  obtains x where "f64_of_int n = FFin x" "0 \<le> x" "0 < n \<longrightarrow> 1 \<le> x"
proof -
  have q: "(of_int n :: rat) \<le> 2 ^ 63" using of_int_le_iff [of n "2 ^ 63"] assms(2) by simp
  have "ilog2 ((2::rat) ^ 63) < 64" by (rule ilog2_less) simp_all
  then have "round_mag ((2::rat) ^ 63) = 2 ^ 63"
    by (intro round_mag_exact [of _ 1 63]) (simp_all add: f64_exp_def)
  moreover have "(2::rat) ^ 63 < f64_limit" by (simp add: f64_limit_def)
  ultimately have "round_mag (of_int n) < f64_limit"
    using round_mag_mono [OF q] by simp
  then have r: "f64_of_int n = FFin (round_mag (of_int n))"
    using assms(1) by (simp add: f64_of_int_def f64_round_def Let_def)
  moreover have "0 < n \<longrightarrow> 1 \<le> round_mag (of_int n)"
    using round_mag_mono [of 1 "of_int n"] round_mag_int [of 1] by auto
  ultimately show ?thesis using that round_mag_nonneg by blast
qed

lemma same_bucket_score_ok:
  assumes "vec_ok t" "\<forall>x\<in>set deficit. x < 2 ^ 63"
  shows "f64_nonneg (same_bucket_score t deficit capped)"
proof -
  let ?f = "\<lambda>score (i, want).
        if want \<le> 0 then score
        else
          let ratio = f64_div (f64_of_int (vec_at t i)) (f64_of_int want);
              ratio = (if capped \<and> f64_gt ratio (FFin 1) then FFin 1 else ratio)
          in f64_add score ratio"
  have step: "f64_nonneg (?f s (i, w))" if s: "f64_nonneg s" and w: "w < 2 ^ 63" for s i w
  proof (cases "w \<le> 0")
    case False
    obtain x where x: "f64_of_int (vec_at t i) = FFin x" "0 \<le> x"
      using f64_of_i64 vec_at_ok [OF assms(1)] by metis
    obtain y where y: "f64_of_int w = FFin y" "1 \<le> y" using f64_of_i64 [of w] False w by force
    have "f64_nonneg (f64_div (f64_of_int (vec_at t i)) (f64_of_int w))"
      using x y by (simp add: f64_nonneg_round)
    then show ?thesis using False s by (simp add: Let_def f64_add_nonneg)
  qed (use s in simp)
  have "f64_nonneg s \<Longrightarrow> \<forall>x\<in>set ds. x < 2 ^ 63 \<Longrightarrow> f64_nonneg (foldl ?f s (enumerate n ds))" for s n ds
  proof (induction ds arbitrary: s n)
    case (Cons d ds)
    then show ?case using step by (simp del: split_paired_All)
  qed simp
  then show ?thesis using assms(2) by (simp add: same_bucket_score_def)
qed

definition bucket_vecs_ok :: "same_bucket \<Rightarrow> bool" where
  "bucket_vecs_ok b \<longleftrightarrow> vec_ok (sbTotal b) \<and> vec_ok (sbCreditableTotal b) \<and> vec_ok (sbCreditableOwnTotal b)"

lemma scored_ok_score:
  assumes "bucket_vecs_ok b" "\<forall>x\<in>set deficit. x < 2 ^ 63"
  shows "scored_ok (score_same_bucket deficit b)"
proof -
  have nn: "f64_nonneg x \<Longrightarrow> x \<noteq> FNaN" for x by auto
  show ?thesis
    using assms same_bucket_score_ok [THEN nn]
    by (simp add: scored_ok_def score_same_bucket_def bucket_vecs_ok_def Let_def)
qed

lemma scBucket_score [simp]: "scBucket (score_same_bucket deficit b) = b"
  by (simp add: score_same_bucket_def Let_def)

lemma choose_same_bucket_mem:
  assumes "choose_same_bucket bs deficit = Some b"
  shows "b \<in> set bs" "sbCount b \<noteq> 0"
proof -
  have mem: "pick_best lt xs = Some m \<Longrightarrow> m \<in> set xs" for lt :: "scored \<Rightarrow> scored \<Rightarrow> bool" and xs m
    by (induction xs arbitrary: m rule: rev_induct)
      (auto simp: pick_best_snoc split: option.splits if_splits)
  obtain x where x: "pick_best same_better (map (score_same_bucket deficit) (filter (\<lambda>b. sbCount b \<noteq> 0) bs))
    = Some x" "b = scBucket x" using assms by (auto simp: choose_same_bucket_def)
  have "x \<in> set (map (score_same_bucket deficit) (filter (\<lambda>b. sbCount b \<noteq> 0) bs))"
    by (rule mem [OF x(1)])
  then show "b \<in> set bs" "sbCount b \<noteq> 0" using x(2) by auto
qed

lemma choose_same_bucket_none:
  "choose_same_bucket bs deficit = None \<longleftrightarrow> (\<forall>b\<in>set bs. sbCount b = 0)"
  by (auto simp: choose_same_bucket_def filter_empty_conv)

lemma choose_same_bucket_best:
  assumes c: "choose_same_bucket bs deficit = Some b"
    and ok: "\<forall>b\<in>set bs. bucket_vecs_ok b" "\<forall>x\<in>set deficit. x < 2 ^ 63"
    and b': "b' \<in> set bs" "sbCount b' \<noteq> 0"
  shows "\<not> same_better (score_same_bucket deficit b') (score_same_bucket deficit b)"
proof -
  let ?xs = "map (score_same_bucket deficit) (filter (\<lambda>b. sbCount b \<noteq> 0) bs)"
  obtain x where x: "pick_best same_better ?xs = Some x" "b = scBucket x"
    using c by (auto simp: choose_same_bucket_def)
  have "\<forall>x\<in>set ?xs. scored_ok x" using ok scored_ok_score by auto
  from bucket_cmp.pick_best_min [OF this x(1)]
  have m: "x \<in> set ?xs" "\<forall>y\<in>set ?xs. \<not> same_better y x" by auto
  then have "x = score_same_bucket deficit b" using x(2) by auto
  moreover have "score_same_bucket deficit b' \<in> set ?xs" using b' by simp
  ultimately show ?thesis using m(2) by blast
qed

lemma choose_same_bucket_order:
  assumes "set bs = set bs'" and ok: "\<forall>b\<in>set bs. bucket_vecs_ok b" "\<forall>x\<in>set deficit. x < 2 ^ 63"
    and d: "inj_on sbValue (set bs)"
  shows "choose_same_bucket bs deficit = choose_same_bucket bs' deficit"
proof -
  let ?xs = "\<lambda>bs. map (score_same_bucket deficit) (filter (\<lambda>b. sbCount b \<noteq> 0) bs)"
  have okx: "\<forall>x\<in>set (?xs bs). scored_ok x" using ok scored_ok_score by auto
  have "pick_best same_better (?xs bs) = pick_best same_better (?xs bs')"
  proof (rule bucket_cmp.pick_best_unique [OF _ okx])
    show "set (?xs bs) = set (?xs bs')" using assms(1) by auto
    show "\<forall>x\<in>set (?xs bs). \<forall>y\<in>set (?xs bs). x \<noteq> y \<longrightarrow> same_better x y \<or> same_better y x"
    proof (intro ballI impI)
      fix x y assume xy: "x \<in> set (?xs bs)" "y \<in> set (?xs bs)" "x \<noteq> y"
      then obtain bx bY where b: "x = score_same_bucket deficit bx" "y = score_same_bucket deficit bY"
        "bx \<in> set bs" "bY \<in> set bs" by auto
      then have "sbValue bx \<noteq> sbValue bY" using xy(3) d by (auto dest: inj_onD)
      then show "same_better x y \<or> same_better y x"
        using same_better_total [of x y] okx xy b by auto
    qed
  qed
  then show ?thesis by (simp add: choose_same_bucket_def)
qed

text \<open>A bucket that covers the deficit wins over every bucket that does not.\<close>

lemma choose_same_bucket_sat:
  assumes c: "choose_same_bucket bs deficit = Some b"
    and ok: "\<forall>b\<in>set bs. bucket_vecs_ok b" "\<forall>x\<in>set deficit. x < 2 ^ 63"
    and b': "b' \<in> set bs" "sbCount b' \<noteq> 0" "vec_covers (sbTotal b') deficit"
  shows "vec_covers (sbTotal b) deficit"
    and "f64_le (same_bucket_score (sbCreditableTotal b') deficit True)
      (same_bucket_score (sbCreditableTotal b) deficit True)"
proof -
  note best = choose_same_bucket_best [OF c ok b'(1,2)]
  have okb: "scored_ok (score_same_bucket deficit b)" "scored_ok (score_same_bucket deficit b')"
    using scored_ok_score ok choose_same_bucket_mem(1) [OF c] b'(1) by blast+
  have "scSat (score_same_bucket deficit b')" using b'(3) by (simp add: score_same_bucket_def Let_def)
  then have s: "scSat (score_same_bucket deficit b)" "\<not> sat_rank (score_same_bucket deficit b') (score_same_bucket deficit b)"
    using best unfolding same_better_rank [OF okb(2,1)] by auto
  show "vec_covers (sbTotal b) deficit" using s(1) by (simp add: score_same_bucket_def Let_def)
  have "\<not> f64_gt (scCred (score_same_bucket deficit b')) (scCred (score_same_bucket deficit b))"
    using s(2) by (auto simp: sat_rank_def)
  then show "f64_le (same_bucket_score (sbCreditableTotal b') deficit True)
      (same_bucket_score (sbCreditableTotal b) deficit True)"
    using okb by (simp add: f64_le_iff scored_ok_def) (simp add: score_same_bucket_def Let_def)
qed

section \<open>Coverage per mille\<close>

definition coverage_step :: "int list \<Rightarrow> int \<times> bool \<Rightarrow> nat \<times> int \<Rightarrow> int \<times> bool" where
  "coverage_step have st iw =
    (let (minCov, any) = st; (i, w) = iw in
     if w \<le> 0 then (minCov, any)
     else
       let h = vec_at have i; h = (if h > w then w else h); f = go_div (i64 (h * 1000)) w
       in (if f < minCov then f else minCov, True))"

lemma coverage_per_mille_fold:
  "coverage_per_mille have want =
    (let (minCov, any) = foldl (coverage_step have) (1000, False) (enumerate 0 want)
     in if \<not> any then 1000 else minCov)"
proof -
  have "coverage_step have = (\<lambda>(minCov, any) (i, w).
       if w \<le> 0 then (minCov, any)
       else let h = vec_at have i; h = (if h > w then w else h); f = go_div (i64 (h * 1000)) w
            in (if f < minCov then f else minCov, True))"
    by (intro ext) (auto simp: coverage_step_def split: prod.splits)
  then show ?thesis unfolding coverage_per_mille_def Let_def by simp
qed

text \<open>Deficits a thousand times of which still fit \<open>int64\<close>.\<close>

definition mille_ok :: "int list \<Rightarrow> bool" where
  "mille_ok want \<longleftrightarrow> (\<forall>w\<in>set want. w * 1000 < 2 ^ 63)"

lemma coverage_step_value:
  assumes "0 \<le> vec_at have i" "w * 1000 < 2 ^ 63" "0 < w"
  shows "coverage_step have (c, a) (i, w) = (min c (min (vec_at have i) w * 1000 div w), True)"
proof -
  let ?h = "min (vec_at have i) w"
  have "0 \<le> ?h * 1000" "?h * 1000 \<le> w * 1000" using assms by auto
  then have "i64 (?h * 1000) = ?h * 1000" using assms by (intro i64_id) (auto simp: in_i64_def)
  then show ?thesis using assms by (auto simp: coverage_step_def go_div_nonneg min_def Let_def)
qed

lemma div_lt_mult: "(a::int) < k * w \<Longrightarrow> 0 < w \<Longrightarrow> a div w < k"
proof (rule ccontr)
  assume a: "a < k * w" and w: "0 < w" and n: "\<not> a div w < k"
  then have "k * w \<le> a div w * w" by (intro mult_right_mono) auto
  also have "\<dots> \<le> a" using w by (simp add: minus_mod_eq_div_mult [symmetric])
  finally show False using a by simp
qed

lemma coverage_fold:
  assumes h: "\<forall>i. 0 \<le> vec_at have i" and w: "mille_ok want" and ca: "0 \<le> c" "c \<le> 1000"
    "foldl (coverage_step have) (c, a) (enumerate k want) = (c', a')"
  shows "0 \<le> c'" "c' \<le> c"
    and "c' = 1000 \<longleftrightarrow> c = 1000 \<and> (\<forall>i<length want. 0 < want ! i \<longrightarrow> want ! i \<le> vec_at have (k + i))"
    and "a' \<longleftrightarrow> a \<or> (\<exists>i<length want. 0 < want ! i)"
proof -
  have "\<forall>c a k. 0 \<le> c \<longrightarrow> c \<le> 1000 \<longrightarrow> foldl (coverage_step have) (c, a) (enumerate k want) = (c', a') \<longrightarrow>
    0 \<le> c' \<and> c' \<le> c
    \<and> (c' = 1000 \<longleftrightarrow> c = 1000 \<and> (\<forall>i<length want. 0 < want ! i \<longrightarrow> want ! i \<le> vec_at have (k + i)))
    \<and> (a' \<longleftrightarrow> a \<or> (\<exists>i<length want. 0 < want ! i))"
    using w
  proof (induction want)
    case (Cons w ws)
    show ?case
    proof (intro allI impI, goal_cases)
      case (1 c a k)
      have IH: "\<forall>c a k. 0 \<le> c \<longrightarrow> c \<le> 1000 \<longrightarrow> foldl (coverage_step have) (c, a) (enumerate k ws) = (c', a') \<longrightarrow>
        0 \<le> c' \<and> c' \<le> c
        \<and> (c' = 1000 \<longleftrightarrow> c = 1000 \<and> (\<forall>i<length ws. 0 < ws ! i \<longrightarrow> ws ! i \<le> vec_at have (k + i)))
        \<and> (a' \<longleftrightarrow> a \<or> (\<exists>i<length ws. 0 < ws ! i))"
        using Cons by (simp add: mille_ok_def)
      show ?case
      proof (cases "0 < w")
        case False
        then have "coverage_step have (c, a) (k, w) = (c, a)" by (simp add: coverage_step_def)
        then have "foldl (coverage_step have) (c, a) (enumerate (Suc k) ws) = (c', a')"
          using 1 by simp
        then show ?thesis using IH 1 False by (simp add: All_less_Suc2 Ex_less_Suc2)
      next
        case True
        let ?d = "min (vec_at have k) w * 1000 div w"
        have st: "foldl (coverage_step have) (min c ?d, True) (enumerate (Suc k) ws) = (c', a')"
          using 1 True Cons.prems h coverage_step_value [of "have" k w c a] by (simp add: mille_ok_def)
        have d0: "0 \<le> ?d" using True h by (simp add: pos_imp_zdiv_nonneg_iff)
        have d1: "?d < 1000" if "vec_at have k < w"
          using that True by (intro div_lt_mult) (simp_all add: min_def)
        have d2: "?d = 1000" if "w \<le> vec_at have k" using that True by simp
        have "0 \<le> c' \<and> c' \<le> min c ?d
          \<and> (c' = 1000 \<longleftrightarrow> min c ?d = 1000 \<and> (\<forall>i<length ws. 0 < ws ! i \<longrightarrow> ws ! i \<le> vec_at have (Suc k + i)))
          \<and> a'"
          using IH [rule_format, OF _ _ st] 1 d0 by simp
        moreover have "min c ?d = 1000 \<longleftrightarrow> c = 1000 \<and> w \<le> vec_at have k"
          using d1 d2 1 by (cases "w \<le> vec_at have k") auto
        ultimately show ?thesis using True by (auto simp: All_less_Suc2 Ex_less_Suc2)
      qed
    qed
  qed simp
  then show "0 \<le> c'" "c' \<le> c"
    "c' = 1000 \<longleftrightarrow> c = 1000 \<and> (\<forall>i<length want. 0 < want ! i \<longrightarrow> want ! i \<le> vec_at have (k + i))"
    "a' \<longleftrightarrow> a \<or> (\<exists>i<length want. 0 < want ! i)"
    using ca by blast+
qed

lemma coverage_per_mille_bounds:
  assumes "\<forall>i. 0 \<le> vec_at have i" "mille_ok want"
  shows "0 \<le> coverage_per_mille have want" "coverage_per_mille have want \<le> 1000"
    and "coverage_per_mille have want = 1000 \<longleftrightarrow> vec_covers have want"
proof -
  obtain c a where f: "foldl (coverage_step have) (1000, False) (enumerate 0 want) = (c, a)"
    by (rule prod.exhaust)
  note cf = coverage_fold [OF assms _ _ f, simplified]
  have v: "coverage_per_mille have want = (if a then c else 1000)"
    by (simp add: coverage_per_mille_fold f)
  show "0 \<le> coverage_per_mille have want" "coverage_per_mille have want \<le> 1000"
    using cf(1,2) by (simp_all add: v)
  have "vec_covers have want \<longleftrightarrow> (\<forall>i<length want. 0 < want ! i \<longrightarrow> want ! i \<le> vec_at have i)"
    by (auto simp: vec_covers_iff vec_at_def [of want])
  then show "coverage_per_mille have want = 1000 \<longleftrightarrow> vec_covers have want"
    using cf(3,4) unfolding v by auto
qed

text \<open>Without that bound the product wraps around.\<close>

lemma coverage_overflow: "coverage_per_mille [2 ^ 54] [2 ^ 54] < 0"
  by code_simp

section \<open>Interned vectors mirror quantity vectors\<close>

text \<open>The interned dimensions are numbered in order of appearance.\<close>

definition dims_ok :: "(string, nat) gomap \<Rightarrow> bool" where
  "dims_ok d \<longleftrightarrow> gm_ok d \<and> map snd d = [0..<length d]"

definition dims_le :: "(string, nat) gomap \<Rightarrow> (string, nat) gomap \<Rightarrow> bool" where
  "dims_le d d' \<longleftrightarrow> (\<exists>e. d' = d @ e)"

lemma dims_le_refl [simp]: "dims_le d d"
  by (simp add: dims_le_def)

lemma dims_le_trans: "dims_le a b \<Longrightarrow> dims_le b c \<Longrightarrow> dims_le a c"
  unfolding dims_le_def by (metis append_assoc)

lemma dims_le_get: "dims_le d d' \<Longrightarrow> gm_get d n = Some i \<Longrightarrow> gm_get d' n = Some i"
  by (auto simp: dims_le_def map_add_def simp del: map_of_eq_Some_iff split: option.splits)

lemma dims_okD:
  assumes "dims_ok d" "gm_get d n = Some i"
  shows "i < length d" "gm_get d n' = Some i \<Longrightarrow> n' = n"
proof -
  have m: "(n, i) \<in> set d" by (rule map_of_SomeD [OF assms(2)])
  then have "i \<in> set (map snd d)" by force
  then show "i < length d" using assms(1) by (simp only: dims_ok_def set_upt) simp
  assume "gm_get d n' = Some i"
  then have m': "(n', i) \<in> set d" by (rule map_of_SomeD)
  have "distinct (map snd d)" using assms(1) by (simp only: dims_ok_def) simp
  then show "n' = n" using m m' by (metis Pair_inject distinct_map inj_onD snd_conv)
qed

lemma intern_dim_spec:
  assumes "dims_ok d" "intern_dim n d = (i, d')"
  shows "dims_ok d'" "dims_le d d'" "gm_get d' n = Some i"
proof -
  have "n \<notin> set (map fst d) \<Longrightarrow> gm_set n v d = d @ [(n, v)]" for v
    by (induction d) auto
  then have "gm_get d n = None \<Longrightarrow> gm_set n v d = d @ [(n, v)]" for v
    by (simp only: gm_get_none_iff) simp
  then have "gm_get d n = None \<Longrightarrow> d' = d @ [(n, length d)] \<and> i = length d"
    using assms(2) by (auto simp add: intern_dim_def simp del: map_of_eq_None_iff)
  moreover have "gm_get d n = Some j \<Longrightarrow> d' = d \<and> i = j" for j
    using assms(2) by (auto simp: intern_dim_def)
  moreover have "gm_get d n = None \<Longrightarrow> gm_get (d @ [(n, v)]) n = Some v" for v
    by (simp add: map_add_def del: map_of_eq_None_iff map_of_eq_Some_iff)
  moreover have "gm_get d n = None \<Longrightarrow> dims_ok (d @ [(n, length d)])"
    using assms(1) by (auto simp: dims_ok_def gm_get_none_iff)
  ultimately show "dims_ok d'" "dims_le d d'" "gm_get d' n = Some i"
    using assms(1) by (cases "gm_get d n"; auto simp: dims_le_def simp del: map_of_eq_Some_iff)+
qed

lemma vec_at_put: "vec_at (vec_put v i x) j = (if j = i then x else vec_at v j)"
  by (auto simp: vec_put_def vec_at_def nth_append)

lemma length_vec_put: "length (vec_put v i x) = max (length v) (Suc i)"
  by (simp add: vec_put_def)

lemma rval_snoc: "rval Q val (qs @ [r]) n
    = (if n = rqName r then val (parse_or_zero Q (rqQuantity r)) else rval Q val qs n)"
  by (simp add: rval_def to_qty_map_def)

text \<open>Numbers of milli-units that fit \<open>int64\<close>.\<close>

definition milli_fits :: "'q qlib \<Rightarrow> ('q \<Rightarrow> rat) \<Rightarrow> resource_qty list \<Rightarrow> bool" where
  "milli_fits Q val v \<longleftrightarrow> (\<forall>n. in_i64 \<lceil>1000 * rval Q val v n\<rceil>)"

definition vec_of :: "'q qlib \<Rightarrow> ('q \<Rightarrow> rat) \<Rightarrow> resource_qty list \<Rightarrow> (string, nat) gomap \<Rightarrow> int list \<Rightarrow> bool" where
  "vec_of Q val qs d v \<longleftrightarrow>
    length v \<le> length d
    \<and> (\<forall>n i. gm_get d n = Some i \<longrightarrow> vec_at v i = \<lceil>1000 * rval Q val qs n\<rceil>)
    \<and> (\<forall>n. gm_get d n = None \<longrightarrow> rval Q val qs n = 0)"

definition parse_step ::
    "'q qlib \<Rightarrow> int list \<times> (string, nat) gomap \<Rightarrow> resource_qty \<Rightarrow> int list \<times> (string, nat) gomap" where
  "parse_step Q st r = (let (vec, dims) = st in
    case qParse Q (rqQuantity r) of
      None \<Rightarrow> (vec, dims)
    | Some q \<Rightarrow> let (i, dims) = intern_dim (rqName r) dims in (vec_put vec i (qMilli Q q), dims))"

lemma parse_vec_fold: "parse_vec Q dims qs = foldl (parse_step Q) ([], dims) qs"
proof -
  have "parse_step Q = (\<lambda>(vec, dims) r. case qParse Q (rqQuantity r) of
      None \<Rightarrow> (vec, dims)
    | Some q \<Rightarrow> let (i, dims) = intern_dim (rqName r) dims in (vec_put vec i (qMilli Q q), dims))"
    by (intro ext) (auto simp: parse_step_def)
  then show ?thesis by (simp add: parse_vec_def)
qed

lemma vec_of_step:
  assumes q: "quantity_laws Q val" and d: "dims_ok d" and v: "vec_of Q val qs d v"
    and new: "rval Q val qs (rqName r) = 0" and fits: "milli_fits Q val (qs @ [r])"
    and s: "parse_step Q (v, d) r = (v', d')"
  shows "vec_of Q val (qs @ [r]) d' v' \<and> dims_ok d' \<and> dims_le d d'"
proof (cases "qParse Q (rqQuantity r)")
  case None
  then have "rval Q val (qs @ [r]) n = rval Q val qs n" for n
    using new quantity_lawsD(1) [OF q] by (simp add: rval_snoc parse_or_zero_def)
  then show ?thesis using None s d v by (simp add: parse_step_def vec_of_def)
next
  case (Some p)
  obtain i d1 where i: "intern_dim (rqName r) d = (i, d1)" by (rule prod.exhaust)
  then have e: "v' = vec_put v i (qMilli Q p)" "d' = d1" using s Some by (simp_all add: parse_step_def)
  note sp = intern_dim_spec [OF d i]
  have rv: "rval Q val (qs @ [r]) (rqName r) = val p"
    using Some by (simp add: rval_snoc parse_or_zero_def)
  then have m: "qMilli Q p = \<lceil>1000 * rval Q val (qs @ [r]) (rqName r)\<rceil>"
    using fits quantity_lawsD(10) [OF q, of p] unfolding milli_fits_def by metis
  have old: "gm_get d n = Some j" if "gm_get d1 n = Some j" "n \<noteq> rqName r" for n j
    using i that by (auto simp: intern_dim_def simp del: map_of_eq_Some_iff split: option.splits)
  have oldn: "gm_get d n = None" if "gm_get d1 n = None" for n
    using dims_le_get [OF sp(2)] that by (metis not_None_eq)
  have "vec_at v' j = \<lceil>1000 * rval Q val (qs @ [r]) n\<rceil>" if g: "gm_get d1 n = Some j" for n j
  proof (cases "n = rqName r")
    case True
    then have "j = i" using g sp(3) by simp
    then show ?thesis using m True by (simp add: e vec_at_put)
  next
    case False
    then have "j \<noteq> i" using dims_okD(2) [OF sp(1) g] sp(3) by metis
    then show ?thesis using v old [OF g False] False
      by (simp add: e vec_at_put vec_of_def rval_snoc)
  qed
  moreover have "rval Q val (qs @ [r]) n = 0" if "gm_get d1 n = None" for n
    using v oldn [OF that] that sp(3) by (auto simp: rval_snoc vec_of_def)
  moreover have "length v' \<le> length d1"
    using v sp(2) dims_okD(1) [OF sp(1,3)] by (auto simp: e length_vec_put vec_of_def dims_le_def)
  ultimately show ?thesis using sp by (simp add: vec_of_def e)
qed

lemma parse_vec_spec:
  assumes q: "quantity_laws Q val" and d: "dims_ok d" and rv: "rv_ok qs" and fits: "milli_fits Q val qs"
    and p: "parse_vec Q d qs = (v, d')"
  shows "vec_of Q val qs d' v" "dims_ok d'" "dims_le d d'"
proof -
  have "vec_of Q val qs d' v \<and> dims_ok d' \<and> dims_le d d'"
    using rv fits p unfolding parse_vec_fold
  proof (induction qs arbitrary: v d' rule: rev_induct)
    case Nil
    then show ?case using d rval_nil [OF q] by (simp add: vec_of_def)
  next
    case (snoc r qs)
    have nr: "rqName r \<notin> rqName ` set qs" using snoc.prems(1) by (auto simp: rv_ok_def)
    have r0: "rval Q val qs (rqName r) = 0" by (rule rval_absent [OF q nr])
    have "in_i64 \<lceil>1000 * rval Q val qs n\<rceil>" for n
      using snoc.prems(2) r0 unfolding milli_fits_def rval_snoc
      by (cases "n = rqName r") (auto simp: in_i64_def split: if_splits dest: spec [of _ n])
    then have f: "milli_fits Q val qs" by (simp add: milli_fits_def)
    obtain v1 d1 where s1: "foldl (parse_step Q) ([], d) qs = (v1, d1)" by (rule prod.exhaust)
    have "vec_of Q val qs d1 v1 \<and> dims_ok d1 \<and> dims_le d d1"
      using snoc.IH [OF _ f s1] snoc.prems(1) by (simp add: rv_ok_def)
    moreover have "parse_step Q (v1, d1) r = (v, d')" using snoc.prems(3) s1 by simp
    ultimately show ?case using vec_of_step [OF q _ _ r0 snoc.prems(2)] dims_le_trans by blast
  qed
  then show "vec_of Q val qs d' v" "dims_ok d'" "dims_le d d'" by blast+
qed

text \<open>The vectors are in whole milli-units.\<close>

definition milli_exact :: "'q qlib \<Rightarrow> ('q \<Rightarrow> rat) \<Rightarrow> resource_qty list \<Rightarrow> bool" where
  "milli_exact Q val v \<longleftrightarrow> (\<forall>n. of_int \<lceil>1000 * rval Q val v n\<rceil> = 1000 * rval Q val v n)"

lemma vec_covers_covers:
  assumes q: "quantity_laws Q val" and d: "dims_ok d" and le: "dims_le d d'" "dims_ok d'"
    and w: "vec_of Q val want d wv" "rv_ok want" "milli_exact Q val want"
    and h: "vec_of Q val have d' hv" "milli_exact Q val have" "\<forall>n. 0 \<le> rval Q val have n"
  shows "vec_covers hv wv \<longleftrightarrow> covers Q have want"
proof -
  have mono: "\<lceil>1000 * rval Q val want n\<rceil> \<le> \<lceil>1000 * rval Q val have n\<rceil>
      \<longleftrightarrow> rval Q val want n \<le> rval Q val have n" for n
  proof -
    have "\<lceil>1000 * rval Q val want n\<rceil> \<le> \<lceil>1000 * rval Q val have n\<rceil>
      \<longleftrightarrow> (of_int \<lceil>1000 * rval Q val want n\<rceil> :: rat) \<le> of_int \<lceil>1000 * rval Q val have n\<rceil>"
      by (simp only: of_int_le_iff)
    also have "\<dots> \<longleftrightarrow> 1000 * rval Q val want n \<le> 1000 * rval Q val have n"
      using w(3) h(2) unfolding milli_exact_def by metis
    finally show ?thesis by simp
  qed
  have pos: "0 < \<lceil>1000 * rval Q val want n\<rceil> \<longleftrightarrow> 0 < rval Q val want n" for n
    by simp
  have cov: "covers Q have want \<longleftrightarrow> (\<forall>n. 0 < rval Q val want n \<longrightarrow> rval Q val want n \<le> rval Q val have n)"
  proof
    assume c: "covers Q have want"
    show "\<forall>n. 0 < rval Q val want n \<longrightarrow> rval Q val want n \<le> rval Q val have n"
    proof (intro allI impI)
      fix n assume n: "0 < rval Q val want n"
      then have "n \<in> rqName ` set want" using rval_absent [OF q, of n want] by force
      then show "rval Q val want n \<le> rval Q val have n" using c covers_iff [OF q w(2)] by auto
    qed
  next
    assume "\<forall>n. 0 < rval Q val want n \<longrightarrow> rval Q val want n \<le> rval Q val have n"
    then show "covers Q have want" unfolding covers_iff [OF q w(2)]
      using h(3) by (meson linorder_not_less order_trans)
  qed
  show ?thesis unfolding cov vec_covers_iff
  proof (intro iffI allI impI)
    fix n assume v: "\<forall>i. 0 < vec_at wv i \<longrightarrow> vec_at wv i \<le> vec_at hv i" and n: "0 < rval Q val want n"
    then obtain i where i: "gm_get d n = Some i" using w(1) unfolding vec_of_def
      by (metis less_irrefl not_None_eq)
    have "vec_at wv i = \<lceil>1000 * rval Q val want n\<rceil>" "vec_at hv i = \<lceil>1000 * rval Q val have n\<rceil>"
      using w(1) h(1) i dims_le_get [OF le(1) i] unfolding vec_of_def by blast+
    then show "rval Q val want n \<le> rval Q val have n" using v n pos [of n] mono [of n] by metis
  next
    fix i assume c: "\<forall>n. 0 < rval Q val want n \<longrightarrow> rval Q val want n \<le> rval Q val have n"
      and p: "0 < vec_at wv i"
    then have "i < length d" using w(1) by (auto simp: vec_of_def vec_at_def split: if_splits)
    then have "i \<in> set (map snd d)" using d by (simp only: dims_ok_def) simp
    then obtain n where "(n, i) \<in> set d" by auto
    then have i: "gm_get d n = Some i" using d by (simp add: dims_ok_def)
    have "vec_at wv i = \<lceil>1000 * rval Q val want n\<rceil>" "vec_at hv i = \<lceil>1000 * rval Q val have n\<rceil>"
      using w(1) h(1) i dims_le_get [OF le(1) i] unfolding vec_of_def by blast+
    then show "vec_at wv i \<le> vec_at hv i" using c p pos [of n] mono [of n] by metis
  qed
qed

end
