(* ===== verification/Seed.thy ===== *)
theory Seed
  imports SameSupply
begin

text \<open>
  The pre-pass that credits existing supply before the workers start
  (\<open>pkg/decision/occ/seed.go\<close>). It is single-threaded; the claims it makes go to the shared
  state, and it hands the workers the deficit it leaves for each need.
\<close>

section \<open>Crediting a need without a Same requirement\<close>

text \<open>
  One iteration of the claim loops: a machine the filter accepts that is unclaimed, matches and
  fits the largest unit is claimed. An iteration after the deficit reached zero does nothing,
  which is the loops' \<open>break\<close>.
\<close>

definition credit_step ::
    "'q qlib \<Rightarrow> need \<Rightarrow> nat \<Rightarrow> int \<Rightarrow> (machine \<Rightarrow> bool) \<Rightarrow> shared_state \<times> resource_qty list \<Rightarrow> machine
      \<Rightarrow> shared_state \<times> resource_qty list" where
  "credit_step Q nd n retries mine st m =
    (let (s, remaining) = st in
     if is_zero Q remaining then st
     else if is_claimed s (ID m) then st
     else if \<not> mine m then st
     else if \<not> match_profile (nProfile nd) m then st
     else if \<not> covers Q (alloc_of m) (MinUnit nd) then st
     else (seed_claim (ID m) n (precedence_from_profile (nProfile nd)) retries s,
           sub_resources Q remaining (alloc_of m)))"

definition credit_own_creating ::
    "'q qlib \<Rightarrow> snapshot \<Rightarrow> need \<Rightarrow> nat \<Rightarrow> int \<Rightarrow> (machine \<Rightarrow> bool) \<Rightarrow> shared_state \<times> resource_qty list
      \<Rightarrow> shared_state \<times> resource_qty list" where
  "credit_own_creating Q snap nd n retries mine st =
    foldl (credit_step Q nd n retries mine) st (snap_by_state snap StateCreating)"

definition bound_machines :: "snapshot \<Rightarrow> string \<Rightarrow> machine list" where
  "bound_machines snap c = snap_keep_bucket snap c StateConfigured @ snap_keep_bucket snap c StateConfiguring"

definition seed_plain ::
    "'q qlib \<Rightarrow> snapshot \<Rightarrow> need \<Rightarrow> nat \<Rightarrow> int \<Rightarrow> shared_state \<Rightarrow> shared_state \<times> resource_qty list" where
  "seed_plain Q snap nd n retries s =
    (let (s, remaining) = foldl (credit_step Q nd n retries (\<lambda>_. True)) (s, AggregateResources nd)
           (bound_machines snap (nCluster nd))
     in if \<not> is_zero Q remaining \<and> snap_count_by_state snap StateCreating > 0
        then credit_own_creating Q snap nd n retries
               (\<lambda>m. AssignedNeedFingerprint m = fingerprint (nProfile nd)) (s, remaining)
        else (s, remaining))"

section \<open>Crediting a need with a Same requirement\<close>

record seed_candidate =
  scId :: string
  scAlloc :: "resource_qty list"
  scOwn :: bool

text \<open>
  The parallel slices \<open>buckets\<close> and \<open>members\<close> with their \<open>index\<close>: a bucket and its candidates
  for each domain value, in order of first appearance.
\<close>

type_synonym joint_buckets = "(string, same_bucket \<times> seed_candidate list) gomap"

definition is_own :: "need \<Rightarrow> machine \<Rightarrow> bool" where
  "is_own nd m \<longleftrightarrow> AssignedGroup m = Group nd \<and> AssignedNeedFingerprint m = fingerprint (nProfile nd)"

definition bucket_at :: "joint_buckets \<Rightarrow> string \<Rightarrow> same_bucket \<times> seed_candidate list" where
  "bucket_at bs v = gm_at (zero_same_bucket v, []) bs v"

definition add_creditable ::
    "'q qlib \<Rightarrow> shared_state \<Rightarrow> need \<Rightarrow> string \<Rightarrow> int list \<Rightarrow> joint_buckets \<times> (string, nat) gomap \<Rightarrow> machine
      \<Rightarrow> joint_buckets \<times> (string, nat) gomap" where
  "add_creditable Q s nd sameKey minVec st m =
    (let (bs, dims) = st in
     if is_claimed s (ID m) then st
     else if \<not> match_profile (nProfile nd) m then st
     else
       let (vec, dims) = parse_vec Q dims (alloc_of m) in
       if \<not> vec_covers vec minVec then (bs, dims)
       else case lookup_attribute sameKey m of
              None \<Rightarrow> (bs, dims)
            | Some v \<Rightarrow>
              let (b, ms) = bucket_at bs v;
                  b = b\<lparr>sbCount := sbCount b + 1, sbCreditableCount := sbCreditableCount b + 1,
                        sbTotal := vec_add (sbTotal b) vec,
                        sbCreditableTotal := vec_add (sbCreditableTotal b) vec\<rparr>;
                  b = (if is_own nd m
                       then b\<lparr>sbCreditableOwnTotal := vec_add (sbCreditableOwnTotal b) vec\<rparr> else b)
              in (gm_set v (b, ms @ [\<lparr>scId = ID m, scAlloc = alloc_of m, scOwn = is_own nd m\<rparr>]) bs, dims))"

definition fold_acquirable ::
    "'q qlib \<Rightarrow> snapshot \<Rightarrow> (string \<Rightarrow> bool) \<Rightarrow> need \<Rightarrow> string \<Rightarrow> joint_buckets \<times> supply_index
      \<Rightarrow> joint_buckets \<times> supply_index" where
  "fold_acquirable Q snap unavailable nd sameKey st =
    (let (bs, ix) = st;
         (totals, ix) = acquirable_totals Q snap (nProfile nd) sameKey (MinUnit nd) unavailable ix
     in (foldl (\<lambda>bs (v, ab).
             let (b, ms) = bucket_at bs v
             in gm_set v (b\<lparr>sbCount := sbCount b + sbCount ab,
                            sbTotal := vec_add (sbTotal b) (sbTotal ab)\<rparr>, ms) bs) bs totals, ix))"

text \<open>
  The shortcut that returns the slice unchanged when no owned element follows another one gives
  the same list.
\<close>

definition incumbent_first :: "seed_candidate list \<Rightarrow> seed_candidate list" where
  "incumbent_first ms =
    (let rest = dropWhile scOwn ms in
     if list_ex scOwn rest then filter scOwn ms @ filter (\<lambda>c. \<not> scOwn c) ms else ms)"

fun claim_loop ::
    "'q qlib \<Rightarrow> nat \<Rightarrow> precedence \<Rightarrow> int \<Rightarrow> seed_candidate list \<Rightarrow> shared_state \<times> resource_qty list
      \<Rightarrow> shared_state \<times> resource_qty list" where
  "claim_loop Q n prec retries [] st = st"
| "claim_loop Q n prec retries (c # cs) (s, remaining) =
    (if is_zero Q remaining then (s, remaining)
     else claim_loop Q n prec retries cs
       (seed_claim (scId c) n prec retries s, sub_resources Q remaining (scAlloc c)))"

definition creditable_machines :: "snapshot \<Rightarrow> need \<Rightarrow> machine list" where
  "creditable_machines snap nd = bound_machines snap (nCluster nd)
    @ (if snap_count_by_state snap StateCreating > 0
       then filter (is_own nd) (snap_by_state snap StateCreating) else [])"

definition seed_same_profile ::
    "'q qlib \<Rightarrow> snapshot \<Rightarrow> need \<Rightarrow> nat \<Rightarrow> string \<Rightarrow> int
      \<Rightarrow> shared_state \<times> supply_index \<times> (string, unit) gomap
      \<Rightarrow> (shared_state \<times> supply_index \<times> (string, unit) gomap) \<times> resource_qty list" where
  "seed_same_profile Q snap nd n sameKey retries st =
    (let (s, ix, consumed) = st;
         prec = precedence_from_profile (nProfile nd);
         remaining = AggregateResources nd;
         (minVec, dims) = parse_vec Q (siDims ix) (MinUnit nd);
         (bs, dims) = foldl (add_creditable Q s nd sameKey minVec) ([], dims) (creditable_machines snap nd);
         ix = ix\<lparr>siDims := dims\<rparr>;
         (bs, ix) = (if \<not> AcquisitionParked nd
           then fold_acquirable Q snap (\<lambda>k. gm_get consumed k \<noteq> None \<or> is_claimed s k) nd sameKey (bs, ix)
           else (bs, ix));
         (deficitVec, dims) = parse_vec Q (siDims ix) remaining;
         ix = ix\<lparr>siDims := dims\<rparr>
     in case choose_same_bucket (map (fst \<circ> snd) bs) deficitVec of
          None \<Rightarrow> ((s, ix, consumed), remaining)
        | Some best \<Rightarrow>
          let s = record_same_domain n (sbValue best) s;
              s = record_same_satisfiable n (vec_covers (sbTotal best) deficitVec) s;
              s = record_same_candidates n (top_same_candidates (map (fst \<circ> snd) bs) deficitVec) s;
              (s, remaining) = claim_loop Q n prec retries
                (incumbent_first (snd (bucket_at bs (sbValue best)))) (s, remaining);
              (consumed, ix) =
                (if \<not> AcquisitionParked nd \<and> \<not> is_zero Q remaining
                 then consume_acquirable Q snap (nProfile nd) sameKey (sbValue best) (MinUnit nd)
                        remaining consumed ix
                 else (consumed, ix))
          in ((s, ix, consumed), remaining))"

section \<open>The pre-pass\<close>

definition seed_order :: "need list \<Rightarrow> nat list" where
  "seed_order ns =
    sort_less (\<lambda>a b. priority (nProfile (ns ! a)) > priority (nProfile (ns ! b))) [0..<length ns]"

definition seed_need ::
    "'q qlib \<Rightarrow> need list \<Rightarrow> int
      \<Rightarrow> (shared_state \<times> supply_index \<times> (string, unit) gomap) \<times> resource_qty list list \<Rightarrow> nat
      \<Rightarrow> (shared_state \<times> supply_index \<times> (string, unit) gomap) \<times> resource_qty list list" where
  "seed_need Q ns retries st idx =
    (let ((s, ix, consumed), deficits) = st; nd = ns ! idx; snap = ssSnap s;
         (st', remaining) =
           (case same_requirement_key (nProfile nd) of
              Some sameKey \<Rightarrow> seed_same_profile Q snap nd idx sameKey retries (s, ix, consumed)
            | None \<Rightarrow> (let (s, remaining) = seed_plain Q snap nd idx retries s in ((s, ix, consumed), remaining)))
     in (st', deficits[idx := remaining]))"

definition seed_configured_supply ::
    "'q qlib \<Rightarrow> need list \<Rightarrow> int \<Rightarrow> shared_state \<Rightarrow> shared_state \<times> resource_qty list list" where
  "seed_configured_supply Q ns retries s =
    (let ((s, _, _), deficits) =
       foldl (seed_need Q ns retries) ((s, new_supply_index, []), replicate (length ns) []) (seed_order ns)
     in (s, deficits))"

section \<open>What the claims are\<close>

text \<open>The state after claiming a list of free machines for one need.\<close>

definition seed_all :: "nat \<Rightarrow> precedence \<Rightarrow> int \<Rightarrow> string list \<Rightarrow> shared_state \<Rightarrow> shared_state" where
  "seed_all n prec r ids s = foldl (\<lambda>s k. seed_claim k n prec r s) s ids"

lemma seed_all_simps [simp]:
  "seed_all n prec r [] s = s"
  "seed_all n prec r (k # ks) s = seed_all n prec r ks (seed_claim k n prec r s)"
  "seed_all n prec r (ks @ ks') s = seed_all n prec r ks' (seed_all n prec r ks s)"
  by (simp_all add: seed_all_def)

lemma is_claimed_seed [simp]:
  "is_claimed (seed_claim k n prec r s) k' \<longleftrightarrow> k' = k \<or> is_claimed s k'"
  by (simp add: is_claimed_def seed_claim_def)

lemma seed_all_fields [simp]:
  "ssSnap (seed_all n prec r ids s) = ssSnap s"
  "bucketSeq (seed_all n prec r ids s) = bucketSeq s"
  "sameDomain (seed_all n prec r ids s) = sameDomain s"
  by (induction ids arbitrary: s) (simp_all add: seed_claim_def)

lemma seed_all_claim:
  "gm_get (claimedBy (seed_all n prec r ids s)) k =
    (if k \<in> set ids then Some \<lparr>cNeed = n, cPrecedence = prec, cRetriesLeft = r\<rparr>
     else gm_get (claimedBy s) k)"
  by (induction ids arbitrary: s) (auto simp: seed_claim_def)

lemma is_claimed_seed_all: "is_claimed (seed_all n prec r ids s) k \<longleftrightarrow> k \<in> set ids \<or> is_claimed s k"
  by (simp add: is_claimed_def seed_all_claim)

lemma seed_all_steps:
  "distinct ids \<Longrightarrow> \<forall>k\<in>set ids. \<not> is_claimed s k \<Longrightarrow> claim_step\<^sup>*\<^sup>* s (seed_all n prec r ids s)"
proof (induction ids arbitrary: s)
  case (Cons k ks)
  have "claim_step s (seed_claim k n prec r s)" using Cons.prems(2) by (intro cs_seed) simp
  moreover have "claim_step\<^sup>*\<^sup>* (seed_claim k n prec r s) (seed_all n prec r ks (seed_claim k n prec r s))"
    using Cons.prems by (intro Cons.IH) auto
  ultimately show ?case by (simp add: converse_rtranclp_into_rtranclp)
qed simp

lemma claimed_for_seed_all:
  assumes "claims_ok s" "distinct ids" "\<forall>k\<in>set ids. \<not> is_claimed s k"
  shows "claimed_for (seed_all n prec r ids s) n' = (if n' = n then claimed_for s n @ ids else claimed_for s n')"
  using assms
proof (induction ids arbitrary: s)
  case (Cons k ks)
  have fresh: "k \<notin> set (claimed_for s n)"
    using claims_okD(4) [OF Cons.prems(1), of k n] Cons.prems(3)
    by (auto simp: owned_def is_claimed_def)
  have app: "k \<notin> set (map fst l) \<Longrightarrow> map fst (gm_set k () l) = map fst l @ [k]" for l :: "(string, unit) gomap"
    by (induction l) auto
  have "claimed_for (seed_claim k n prec r s) n' = (if n' = n then claimed_for s n @ [k] else claimed_for s n')" for n'
    using fresh app by (auto simp: claimed_for_def seed_claim_def)
  moreover have "claims_ok (seed_claim k n prec r s)"
    using Cons.prems by (intro claims_ok_seed) auto
  moreover have "\<forall>k'\<in>set ks. \<not> is_claimed (seed_claim k n prec r s) k'"
    using Cons.prems(2,3) by auto
  ultimately show ?case using Cons.IH [of "seed_claim k n prec r s"] Cons.prems(2) by simp
qed simp

section \<open>The plain arm\<close>

definition credit_pass ::
    "'q qlib \<Rightarrow> need \<Rightarrow> (machine \<Rightarrow> bool) \<Rightarrow> shared_state \<Rightarrow> machine \<Rightarrow> bool" where
  "credit_pass Q nd mine s m \<longleftrightarrow> \<not> is_claimed s (ID m) \<and> mine m
    \<and> match_profile (nProfile nd) m \<and> covers Q (alloc_of m) (MinUnit nd)"

lemma credit_done: "is_zero Q r \<Longrightarrow> foldl (credit_step Q nd n retries mine) (s, r) ms = (s, r)"
  by (induction ms) (simp_all add: credit_step_def)

lemma take_loop_cong:
  "(\<And>m. m \<in> set ms \<Longrightarrow> pass m = pass' m) \<Longrightarrow> take_loop Q pass ms out r = take_loop Q pass' ms out r"
  by (induction ms arbitrary: out r) (simp_all add: Let_def)

lemma take_loop_out:
  "take_loop Q pass ms out r = (let (t, r', f) = take_loop Q pass ms [] r in (out @ t, r', f))"
proof (induction ms arbitrary: out r)
  case (Cons m ms)
  let ?r = "sub_resources Q r (alloc_of m)"
  obtain t r' f where e: "take_loop Q pass ms [] ?r = (t, r', f)" by (rule prod_cases3)
  show ?case using Cons.IH [of out r] Cons.IH [of "out @ [m]" ?r] Cons.IH [of "[m]" ?r] e by (simp add: Let_def)
qed simp

text \<open>The credit loop is the finders' take loop over the machines that pass at its start.\<close>

lemma credit_fold:
  assumes "distinct (map ID ms)" "\<not> is_zero Q r"
  shows "foldl (credit_step Q nd n retries mine) (s, r) ms =
    (let (out, r', _) = take_loop Q (credit_pass Q nd mine s) ms [] r
     in (seed_all n (precedence_from_profile (nProfile nd)) retries (map ID out) s, r'))"
  using assms
proof (induction ms arbitrary: s r)
  case (Cons m ms)
  let ?f = "credit_step Q nd n retries mine" and ?prec = "precedence_from_profile (nProfile nd)"
  show ?case
  proof (cases "credit_pass Q nd mine s m")
    case False
    then have "?f (s, r) m = (s, r)" using Cons.prems(2) by (auto simp: credit_step_def credit_pass_def)
    then show ?thesis using Cons False by simp
  next
    case True
    let ?s = "seed_claim (ID m) n ?prec retries s" and ?r = "sub_resources Q r (alloc_of m)"
    have step: "?f (s, r) m = (?s, ?r)" using True Cons.prems(2) by (simp add: credit_step_def credit_pass_def)
    have pass: "take_loop Q (credit_pass Q nd mine ?s) ms out r' = take_loop Q (credit_pass Q nd mine s) ms out r'"
      for out r'
      using Cons.prems(1) by (intro take_loop_cong) (auto simp: credit_pass_def image_iff)
    show ?thesis
    proof (cases "is_zero Q ?r")
      case z: True
      have "foldl ?f (s, r) (m # ms) = (?s, ?r)" using step credit_done [OF z] by simp
      then show ?thesis using True z by (simp add: Let_def)
    next
      case False
      obtain t r' f where e: "take_loop Q (credit_pass Q nd mine s) ms [] ?r = (t, r', f)" by (rule prod_cases3)
      have "take_loop Q (credit_pass Q nd mine s) (m # ms) [] r = (m # t, r', f)"
        using True False e take_loop_out [of Q _ ms "[m]" ?r] by (simp add: Let_def)
      then show ?thesis using Cons.IH [OF _ False, of ?s] Cons.prems(1) step pass e by simp
    qed
  qed
qed simp

text \<open>One walk: what it claims, and that it stops only when covered or at the end.\<close>

lemma credit_walk:
  assumes "distinct (map ID ms)"
  obtains taken where
    "foldl (credit_step Q nd n retries mine) (s, r) ms
      = (seed_all n (precedence_from_profile (nProfile nd)) retries (map ID taken) s, remaining_of Q r taken)"
    "distinct (map ID taken)" "\<forall>m\<in>set taken. m \<in> set ms \<and> credit_pass Q nd mine s m"
    "is_zero Q (remaining_of Q r taken) \<or> (\<forall>m\<in>set ms. credit_pass Q nd mine s m \<longrightarrow> m \<in> set taken)"
    "\<forall>a b. taken = a @ b \<longrightarrow> b \<noteq> [] \<longrightarrow> \<not> is_zero Q (remaining_of Q r a)"
proof (cases "is_zero Q r")
  case True
  have "foldl (credit_step Q nd n retries mine) (s, r) ms = (s, r)" by (rule credit_done [OF True])
  then show ?thesis using that [of "[]"] True by simp
next
  case False
  let ?pass = "credit_pass Q nd mine s"
  obtain out r' f where t: "take_loop Q ?pass ms [] r = (out, r', f)" by (rule prod_cases3)
  obtain x where x: "out = [] @ x" and tp: "take_post Q ?pass ms r x r' f" by (rule take_loop_spec [OF t])
  from tp x obtain pre post where P: "ms = pre @ post" "out = filter ?pass pre" "\<not> f \<longrightarrow> post = []"
    unfolding take_post_def by auto
  have r': "r' = remaining_of Q r out" "f \<Longrightarrow> is_zero Q r'" using tp x unfolding take_post_def by auto
  have mid: "\<not> is_zero Q (remaining_of Q r a)" if ab: "out = a @ b" "b \<noteq> []" for a b
  proof (cases "a = []")
    case False
    have "x = a @ b" using x ab(1) by simp
    then show ?thesis using tp ab(2) False unfolding take_post_def by blast
  qed (use False in simp)
  show ?thesis
  proof (rule that [of out])
    show "foldl (credit_step Q nd n retries mine) (s, r) ms
      = (seed_all n (precedence_from_profile (nProfile nd)) retries (map ID out) s, remaining_of Q r out)"
      using credit_fold [OF assms False] t r'(1) by simp
    show "distinct (map ID out)" using assms P(1,2) by (simp add: distinct_map_filter)
    show "\<forall>m\<in>set out. m \<in> set ms \<and> ?pass m" using P by auto
    show "is_zero Q (remaining_of Q r out) \<or> (\<forall>m\<in>set ms. ?pass m \<longrightarrow> m \<in> set out)"
      using r' P by (cases f) auto
  qed (use mid in blast)
qed

text \<open>The machines that are already serving a need, or are being made for it.\<close>

definition bound_to :: "need \<Rightarrow> machine \<Rightarrow> bool" where
  "bound_to nd m \<longleftrightarrow> (State m = StateConfigured \<or> State m = StateConfiguring) \<and> Cluster m = nCluster nd
     \<and> nCluster nd \<noteq> ''''"

definition creating_for :: "need \<Rightarrow> machine \<Rightarrow> bool" where
  "creating_for nd m \<longleftrightarrow> State m = StateCreating \<and> AssignedNeedFingerprint m = fingerprint (nProfile nd)"

lemma set_bound_machines:
  "snapshot_ok snap \<Longrightarrow> m \<in> set (bound_machines snap (nCluster nd))
    \<longleftrightarrow> snap_get snap (ID m) = Some m \<and> bound_to nd m"
  by (auto simp: bound_machines_def bound_to_def snap.by_cluster_iff)

lemma distinct_bound_machines:
  assumes "snapshot_ok snap"
  shows "distinct (map ID (bound_machines snap c))"
proof -
  have "ID m \<noteq> ID m'" if "m \<in> set (snap_keep_bucket snap c StateConfigured)"
    "m' \<in> set (snap_keep_bucket snap c StateConfiguring)" for m m'
    using that snap.one_state [OF assms] snap.by_cluster_state [OF assms] by blast
  then show ?thesis
    using snap.by_cluster_distinct [OF assms] by (auto simp: bound_machines_def)
qed

lemma snap_count_by_state: "snap_count_by_state snap st = length (snap_by_state snap st)"
  by (simp add: snap_count_by_state_def snap_by_state_def)

text \<open>
  A need without a Same requirement is credited with machines of its own cluster and with the
  Creating machines it asked for, until they cover it or there are none left; a machine is
  claimed only while something of the demand remains.
\<close>

definition plain_pass :: "'q qlib \<Rightarrow> snapshot \<Rightarrow> need \<Rightarrow> machine \<Rightarrow> bool" where
  "plain_pass Q snap nd m \<longleftrightarrow> snap_get snap (ID m) = Some m \<and> (bound_to nd m \<or> creating_for nd m)
     \<and> match_profile (nProfile nd) m \<and> covers Q (alloc_of m) (MinUnit nd)"

lemma seed_plain_taken:
  assumes ok: "snapshot_ok snap"
  obtains taken where
    "seed_plain Q snap nd n retries s =
      (seed_all n (precedence_from_profile (nProfile nd)) retries (map ID taken) s,
       remaining_of Q (AggregateResources nd) taken)"
    "distinct (map ID taken)"
    "\<forall>m\<in>set taken. \<not> is_claimed s (ID m) \<and> plain_pass Q snap nd m"
    "is_zero Q (remaining_of Q (AggregateResources nd) taken)
      \<or> (\<forall>m. plain_pass Q snap nd m \<longrightarrow> \<not> is_claimed s (ID m) \<longrightarrow> m \<in> set taken)"
    "\<forall>a b. taken = a @ b \<longrightarrow> b \<noteq> [] \<longrightarrow> \<not> is_zero Q (remaining_of Q (AggregateResources nd) a)"
proof -
  let ?ms = "bound_machines snap (nCluster nd)" and ?cs = "snap_by_state snap StateCreating"
  let ?D = "AggregateResources nd" and ?prec = "precedence_from_profile (nProfile nd)"
  let ?mine = "\<lambda>m. AssignedNeedFingerprint m = fingerprint (nProfile nd)"
  obtain t1 where t1: "foldl (credit_step Q nd n retries (\<lambda>_. True)) (s, ?D) ?ms
      = (seed_all n ?prec retries (map ID t1) s, remaining_of Q ?D t1)"
    "distinct (map ID t1)" "\<forall>m\<in>set t1. m \<in> set ?ms \<and> credit_pass Q nd (\<lambda>_. True) s m"
    "is_zero Q (remaining_of Q ?D t1) \<or> (\<forall>m\<in>set ?ms. credit_pass Q nd (\<lambda>_. True) s m \<longrightarrow> m \<in> set t1)"
    "\<forall>a b. t1 = a @ b \<longrightarrow> b \<noteq> [] \<longrightarrow> \<not> is_zero Q (remaining_of Q ?D a)"
    by (rule credit_walk [OF distinct_bound_machines [OF ok]])
  let ?s1 = "seed_all n ?prec retries (map ID t1) s" and ?r1 = "remaining_of Q ?D t1"
  have pass1: "\<forall>m\<in>set t1. \<not> is_claimed s (ID m) \<and> plain_pass Q snap nd m"
    using t1(3) set_bound_machines [OF ok] by (auto simp: credit_pass_def plain_pass_def)
  have create: "m \<in> set ?cs \<longleftrightarrow> snap_get snap (ID m) = Some m \<and> State m = StateCreating" for m
    by (rule snap.by_state_iff [OF ok])
  show ?thesis
  proof (cases "is_zero Q ?r1 \<or> length ?cs = 0")
    case True
    have "seed_plain Q snap nd n retries s = (?s1, ?r1)"
      using True t1(1) by (auto simp: seed_plain_def snap_count_by_state)
    moreover have "is_zero Q ?r1 \<or> (\<forall>m. plain_pass Q snap nd m \<longrightarrow> \<not> is_claimed s (ID m) \<longrightarrow> m \<in> set t1)"
    proof (cases "is_zero Q ?r1")
      case False
      then have "\<not> creating_for nd m" if "snap_get snap (ID m) = Some m" for m
        using True create [of m] that by (auto simp: creating_for_def)
      then show ?thesis using t1(4) False set_bound_machines [OF ok, of _ nd]
        unfolding plain_pass_def credit_pass_def by blast
    qed simp
    ultimately show ?thesis using that t1(2,5) pass1 by blast
  next
    case False
    obtain t2 where t2: "foldl (credit_step Q nd n retries ?mine) (?s1, ?r1) ?cs
        = (seed_all n ?prec retries (map ID t2) ?s1, remaining_of Q ?r1 t2)"
      "distinct (map ID t2)" "\<forall>m\<in>set t2. m \<in> set ?cs \<and> credit_pass Q nd ?mine ?s1 m"
      "is_zero Q (remaining_of Q ?r1 t2) \<or> (\<forall>m\<in>set ?cs. credit_pass Q nd ?mine ?s1 m \<longrightarrow> m \<in> set t2)"
      "\<forall>a b. t2 = a @ b \<longrightarrow> b \<noteq> [] \<longrightarrow> \<not> is_zero Q (remaining_of Q ?r1 a)"
      by (rule credit_walk [OF snap.by_state_distinct [OF ok]])
    show ?thesis
    proof (rule that [of "t1 @ t2"])
      show "seed_plain Q snap nd n retries s = (seed_all n ?prec retries (map ID (t1 @ t2)) s, remaining_of Q ?D (t1 @ t2))"
        using False t1(1) t2(1) by (simp add: seed_plain_def snap_count_by_state credit_own_creating_def)
      show "distinct (map ID (t1 @ t2))"
        using t1(2) t2(2,3) by (fastforce simp: credit_pass_def is_claimed_seed_all image_iff)
      show "\<forall>m\<in>set (t1 @ t2). \<not> is_claimed s (ID m) \<and> plain_pass Q snap nd m"
        using pass1 t2(3) create by (auto simp: credit_pass_def is_claimed_seed_all plain_pass_def creating_for_def)
      show "is_zero Q (remaining_of Q ?D (t1 @ t2))
        \<or> (\<forall>m. plain_pass Q snap nd m \<longrightarrow> \<not> is_claimed s (ID m) \<longrightarrow> m \<in> set (t1 @ t2))"
      proof (cases "is_zero Q (remaining_of Q ?r1 t2)")
        case nz: False
        show ?thesis
        proof (intro disjI2 allI impI)
          fix m assume m: "plain_pass Q snap nd m" "\<not> is_claimed s (ID m)"
          show "m \<in> set (t1 @ t2)"
          proof (cases "bound_to nd m")
            case True
            then have "m \<in> set t1" using m t1(4) False set_bound_machines [OF ok, of m nd]
              unfolding plain_pass_def credit_pass_def by blast
            then show ?thesis by simp
          next
            case nb: False
            then have c: "creating_for nd m" "m \<in> set ?cs"
              using m create [of m] by (auto simp: plain_pass_def creating_for_def)
            have "ID m \<notin> ID ` set t1"
            proof
              assume "ID m \<in> ID ` set t1"
              then obtain m' where "m' \<in> set t1" "ID m' = ID m" by auto
              then have "m' = m" using pass1 m(1) unfolding plain_pass_def by (metis option.inject)
              then show False using \<open>m' \<in> set t1\<close> t1(3) nb set_bound_machines [OF ok] by blast
            qed
            then have "credit_pass Q nd ?mine ?s1 m"
              using m c by (auto simp: credit_pass_def is_claimed_seed_all plain_pass_def creating_for_def)
            then show ?thesis using t2(4) nz c(2) by auto
          qed
        qed
      qed simp
      show "\<forall>a b. t1 @ t2 = a @ b \<longrightarrow> b \<noteq> [] \<longrightarrow> \<not> is_zero Q (remaining_of Q ?D a)"
      proof (intro allI impI)
        fix a b assume ab: "t1 @ t2 = a @ b" "b \<noteq> []"
        then consider (l) c where "t1 = a @ c" "c \<noteq> []" | (r) c where "a = t1 @ c" "t2 = c @ b"
          by (auto simp: append_eq_append_conv2) (metis append_Nil2 append_self_conv)
        then show "\<not> is_zero Q (remaining_of Q ?D a)"
        proof cases
          case l then show ?thesis using t1(5) by blast
        next
          case r then show ?thesis using t2(5) ab(2) by simp
        qed
      qed
    qed
  qed
qed

section \<open>The Same arm\<close>

definition cand_of :: "need \<Rightarrow> machine \<Rightarrow> seed_candidate" where
  "cand_of nd m = \<lparr>scId = ID m, scAlloc = alloc_of m, scOwn = is_own nd m\<rparr>"

lemma cand_of_simps [simp]:
  "scId (cand_of nd m) = ID m" "scAlloc (cand_of nd m) = alloc_of m" "scOwn (cand_of nd m) = is_own nd m"
  by (simp_all add: cand_of_def)

text \<open>The candidates of a domain value are free matching machines that have the value.\<close>

definition members_from :: "shared_state \<Rightarrow> need \<Rightarrow> string \<Rightarrow> machine list \<Rightarrow> joint_buckets \<Rightarrow> bool" where
  "members_from s nd k ms bs \<longleftrightarrow> (\<forall>v. \<exists>xs. snd (bucket_at bs v) = map (cand_of nd) xs
     \<and> set xs \<subseteq> set ms \<and> distinct (map ID xs)
     \<and> (\<forall>m\<in>set xs. \<not> is_claimed s (ID m) \<and> match_profile (nProfile nd) m \<and> lookup_attribute k m = Some v))"

lemma bucket_at_set:
  "bucket_at (gm_set v x bs) v' = (if v' = v then x else bucket_at bs v')"
  by (simp add: bucket_at_def)

lemma members_from_step:
  assumes m: "members_from s nd k ms (fst st)" "ID m \<notin> ID ` set ms"
  shows "members_from s nd k (ms @ [m]) (fst (add_creditable Q s nd k minVec st m))"
proof -
  obtain bs dims where st: "st = (bs, dims)" by (cases st)
  have keep: "members_from s nd k (ms @ [m]) bs"
    using m(1) st unfolding members_from_def by fastforce
  obtain vec dims' where pv: "parse_vec Q dims (alloc_of m) = (vec, dims')" by (rule prod.exhaust)
  show ?thesis
  proof (cases "is_claimed s (ID m) \<or> \<not> match_profile (nProfile nd) m \<or> \<not> vec_covers vec minVec
      \<or> lookup_attribute k m = None")
    case True
    then have "fst (add_creditable Q s nd k minVec st m) = bs"
      using st pv by (auto simp: add_creditable_def Let_def split: option.splits)
    then show ?thesis using keep by simp
  next
    case False
    then obtain v where v: "lookup_attribute k m = Some v" by auto
    have new: "snd (bucket_at (fst (add_creditable Q s nd k minVec st m)) v')
      = snd (bucket_at bs v') @ (if v' = v then [cand_of nd m] else [])" for v'
      using False st pv v
      by (simp add: add_creditable_def Let_def bucket_at_set cand_of_def split: prod.splits)
    show ?thesis unfolding members_from_def
    proof
      fix v'
      obtain xs where xs: "snd (bucket_at bs v') = map (cand_of nd) xs" "set xs \<subseteq> set ms"
        "distinct (map ID xs)" "\<forall>m\<in>set xs. \<not> is_claimed s (ID m) \<and> match_profile (nProfile nd) m
          \<and> lookup_attribute k m = Some v'"
        using m(1) st unfolding members_from_def by (metis fst_conv)
      let ?ys = "xs @ (if v' = v then [m] else [])"
      show "\<exists>xs. snd (bucket_at (fst (add_creditable Q s nd k minVec st m)) v') = map (cand_of nd) xs
         \<and> set xs \<subseteq> set (ms @ [m]) \<and> distinct (map ID xs)
         \<and> (\<forall>m\<in>set xs. \<not> is_claimed s (ID m) \<and> match_profile (nProfile nd) m \<and> lookup_attribute k m = Some v')"
        using xs m(2) False v by (intro exI [of _ ?ys]) (auto simp: new)
    qed
  qed
qed

lemma members_from_fold:
  assumes "distinct (map ID ms)"
  shows "members_from s nd k ms (fst (foldl (add_creditable Q s nd k minVec) ([], dims) ms))"
  using assms
proof (induction ms rule: rev_induct)
  case Nil
  then show ?case by (simp add: members_from_def bucket_at_def)
next
  case (snoc m ms)
  let ?st = "foldl (add_creditable Q s nd k minVec) ([], dims) ms"
  have "members_from s nd k (ms @ [m]) (fst (add_creditable Q s nd k minVec ?st m))"
    using snoc by (intro members_from_step) auto
  then show ?case by simp
qed

lemma fold_acquirable_members:
  "snd (bucket_at (fst (fold_acquirable Q snap un nd k (bs, ix))) v) = snd (bucket_at bs v)"
proof -
  let ?f = "\<lambda>bs (v, ab). let (b, ms) = bucket_at bs v
      in gm_set v (b\<lparr>sbCount := sbCount b + sbCount ab, sbTotal := vec_add (sbTotal b) (sbTotal ab)\<rparr>, ms) bs"
  have "snd (bucket_at (foldl ?f bs ts) v) = snd (bucket_at bs v)" for ts
    by (induction ts rule: rev_induct) (auto simp: bucket_at_set Let_def split: prod.splits)
  moreover obtain ts ix' where "acquirable_totals Q snap (nProfile nd) k (MinUnit nd) un ix = (ts, ix')"
    by (rule prod.exhaust)
  ultimately show ?thesis by (simp add: fold_acquirable_def)
qed

lemma members_from_acquirable:
  "members_from s nd k ms bs \<Longrightarrow> members_from s nd k ms (fst (fold_acquirable Q snap un nd k' (bs, ix)))"
  by (simp add: members_from_def fold_acquirable_members)

lemma incumbent_first_map:
  obtains ys where "incumbent_first (map (cand_of nd) xs) = map (cand_of nd) ys" "mset ys = mset xs"
proof (cases "list_ex scOwn (dropWhile scOwn (map (cand_of nd) xs))")
  case True
  let ?ys = "filter (is_own nd) xs @ filter (\<lambda>m. \<not> is_own nd m) xs"
  have "incumbent_first (map (cand_of nd) xs) = map (cand_of nd) ?ys"
    using True by (simp add: incumbent_first_def filter_map comp_def)
  moreover have "mset ?ys = mset xs" by simp
  ultimately show ?thesis using that by blast
next
  case False
  then have "incumbent_first (map (cand_of nd) xs) = map (cand_of nd) xs"
    by (simp add: incumbent_first_def del: list_ex_iff)
  then show ?thesis using that by blast
qed

lemma claim_loop_taken:
  obtains a b where "ys = a @ b"
    "claim_loop Q n prec r (map (cand_of nd) ys) (s, rm) = (seed_all n prec r (map ID a) s, remaining_of Q rm a)"
    "b = [] \<or> is_zero Q (remaining_of Q rm a)"
    "\<forall>c d. a = c @ d \<longrightarrow> d \<noteq> [] \<longrightarrow> \<not> is_zero Q (remaining_of Q rm c)"
proof (induction ys arbitrary: s rm thesis)
  case (Cons y ys)
  show ?case
  proof (cases "is_zero Q rm")
    case True
    then show ?thesis using Cons.prems [of "[]" "y # ys"] by simp
  next
    case False
    obtain a b where ab: "ys = a @ b"
      "claim_loop Q n prec r (map (cand_of nd) ys) (seed_claim (ID y) n prec r s, sub_resources Q rm (alloc_of y))
        = (seed_all n prec r (map ID a) (seed_claim (ID y) n prec r s),
           remaining_of Q (sub_resources Q rm (alloc_of y)) a)"
      "b = [] \<or> is_zero Q (remaining_of Q (sub_resources Q rm (alloc_of y)) a)"
      "\<forall>c d. a = c @ d \<longrightarrow> d \<noteq> [] \<longrightarrow> \<not> is_zero Q (remaining_of Q (sub_resources Q rm (alloc_of y)) c)"
      by (rule Cons.IH)
    show ?thesis
    proof (rule Cons.prems [of "y # a" b])
      show "\<forall>c d. y # a = c @ d \<longrightarrow> d \<noteq> [] \<longrightarrow> \<not> is_zero Q (remaining_of Q rm c)"
        using ab(4) False by (auto simp: Cons_eq_append_conv)
    qed (use ab False in auto)
  qed
qed simp

definition same_pass :: "snapshot \<Rightarrow> need \<Rightarrow> string \<Rightarrow> string \<Rightarrow> machine \<Rightarrow> bool" where
  "same_pass snap nd k d m \<longleftrightarrow> snap_get snap (ID m) = Some m
     \<and> (bound_to nd m \<or> State m = StateCreating \<and> is_own nd m)
     \<and> match_profile (nProfile nd) m \<and> lookup_attribute k m = Some d"

lemma creditable_machines_props:
  assumes "snapshot_ok snap"
  shows "distinct (map ID (creditable_machines snap nd))"
    and "m \<in> set (creditable_machines snap nd) \<longleftrightarrow> snap_get snap (ID m) = Some m
      \<and> (bound_to nd m \<or> State m = StateCreating \<and> is_own nd m)"
proof -
  have c: "set (creditable_machines snap nd) = set (bound_machines snap (nCluster nd))
      \<union> {m \<in> set (snap_by_state snap StateCreating). is_own nd m}"
    by (auto simp: creditable_machines_def snap_count_by_state)
  then show "m \<in> set (creditable_machines snap nd) \<longleftrightarrow> snap_get snap (ID m) = Some m
      \<and> (bound_to nd m \<or> State m = StateCreating \<and> is_own nd m)"
    using set_bound_machines [OF assms] snap.by_state_iff [OF assms] by auto
  have "ID m \<noteq> ID m'" if "m \<in> set (bound_machines snap (nCluster nd))"
    "m' \<in> set (snap_by_state snap StateCreating)" for m m'
  proof
    assume e: "ID m = ID m'"
    have g: "snap_get snap (ID m) = Some m" "bound_to nd m" "snap_get snap (ID m') = Some m'"
      "State m' = StateCreating"
      using that set_bound_machines [OF assms] snap.by_state_iff [OF assms] by blast+
    then have "m = m'" using e by (metis option.inject)
    then show False using g(2,4) by (auto simp: bound_to_def)
  qed
  then show "distinct (map ID (creditable_machines snap nd))"
    using distinct_bound_machines [OF assms] snap.by_state_distinct [OF assms]
    by (auto simp: creditable_machines_def distinct_map_filter)
qed

definition same_recorded :: "nat \<Rightarrow> string \<Rightarrow> bool \<Rightarrow> domain_coverage list \<Rightarrow> shared_state \<Rightarrow> shared_state" where
  "same_recorded n d sat cov s =
    record_same_candidates n cov (record_same_satisfiable n sat (record_same_domain n d s))"

lemma same_recorded_fields [simp]:
  "claimedBy (same_recorded n d sat cov s) = claimedBy s"
  "claimed_for (same_recorded n d sat cov s) n' = claimed_for s n'"
  "ssSnap (same_recorded n d sat cov s) = ssSnap s"
  "sameDomain (same_recorded n d sat cov s) = gm_set n d (sameDomain s)"
  "is_claimed (same_recorded n d sat cov s) k = is_claimed s k"
  by (simp_all add: same_recorded_def record_same_candidates_def record_same_satisfiable_def
      record_same_domain_def claimed_for_def is_claimed_def)

lemma same_recorded_steps: "claim_step\<^sup>*\<^sup>* s (same_recorded n d sat cov s)"
  unfolding same_recorded_def
  by (meson claim_step.intros r_into_rtranclp rtranclp.rtrancl_into_rtrancl)

text \<open>
  A need with a Same requirement is credited only inside one domain, which is recorded: free
  machines of its cluster, or Creating machines made for its gang, that match and have the
  domain's value.
\<close>

lemma seed_same_taken:
  assumes ok: "snapshot_ok snap"
    and r: "seed_same_profile Q snap nd n k retries (s, ix, consumed) = ((s', ix', consumed'), rm)"
  obtains (none) "s' = s" "rm = AggregateResources nd"
  | (some) d sat cov taken where
    "s' = seed_all n (precedence_from_profile (nProfile nd)) retries (map ID taken) (same_recorded n d sat cov s)"
    "rm = remaining_of Q (AggregateResources nd) taken" "distinct (map ID taken)"
    "\<forall>m\<in>set taken. \<not> is_claimed s (ID m) \<and> same_pass snap nd k d m"
    "\<forall>a b. taken = a @ b \<longrightarrow> b \<noteq> [] \<longrightarrow> \<not> is_zero Q (remaining_of Q (AggregateResources nd) a)"
proof -
  let ?prec = "precedence_from_profile (nProfile nd)" and ?D = "AggregateResources nd"
  obtain minVec d1 where p1: "parse_vec Q (siDims ix) (MinUnit nd) = (minVec, d1)" by (rule prod.exhaust)
  obtain bs1 d2 where p2: "foldl (add_creditable Q s nd k minVec) ([], d1) (creditable_machines snap nd) = (bs1, d2)"
    by (rule prod.exhaust)
  obtain bs ix3 where p3: "(if \<not> AcquisitionParked nd
      then fold_acquirable Q snap (\<lambda>k. gm_get consumed k \<noteq> None \<or> is_claimed s k) nd k (bs1, ix\<lparr>siDims := d2\<rparr>)
      else (bs1, ix\<lparr>siDims := d2\<rparr>)) = (bs, ix3)" by (rule prod.exhaust)
  obtain dv d4 where p4: "parse_vec Q (siDims ix3) ?D = (dv, d4)" by (rule prod.exhaust)
  have "members_from s nd k (creditable_machines snap nd) bs1"
    using members_from_fold [OF creditable_machines_props(1) [OF ok], where dims = d1] p2 by (metis fst_conv)
  then have mf: "members_from s nd k (creditable_machines snap nd) bs"
  proof (cases "AcquisitionParked nd")
    case False
    then have "bs = fst (fold_acquirable Q snap (\<lambda>k. gm_get consumed k \<noteq> None \<or> is_claimed s k) nd k
      (bs1, ix\<lparr>siDims := d2\<rparr>))" using p3 by simp
    then show ?thesis
      using members_from_acquirable [OF \<open>members_from s nd k (creditable_machines snap nd) bs1\<close>] by simp
  qed (use p3 in simp)
  note rr = r [unfolded seed_same_profile_def Let_def prod.case p1 p2 p3 p4]
  show ?thesis
  proof (cases "choose_same_bucket (map (fst \<circ> snd) bs) dv")
    case None
    then show ?thesis using rr none by simp
  next
    case (Some best)
    let ?d = "sbValue best"
    obtain xs where xs: "snd (bucket_at bs ?d) = map (cand_of nd) xs"
      "set xs \<subseteq> set (creditable_machines snap nd)" "distinct (map ID xs)"
      "\<forall>m\<in>set xs. \<not> is_claimed s (ID m) \<and> match_profile (nProfile nd) m \<and> lookup_attribute k m = Some ?d"
      using mf unfolding members_from_def by metis
    obtain ys where ys: "incumbent_first (map (cand_of nd) xs) = map (cand_of nd) ys" "mset ys = mset xs"
      by (rule incumbent_first_map)
    let ?s = "same_recorded n ?d (vec_covers (sbTotal best) dv) (top_same_candidates (map (fst \<circ> snd) bs) dv) s"
    obtain a b where ab: "ys = a @ b"
      "claim_loop Q n ?prec retries (map (cand_of nd) ys) (?s, ?D)
        = (seed_all n ?prec retries (map ID a) ?s, remaining_of Q ?D a)"
      "b = [] \<or> is_zero Q (remaining_of Q ?D a)"
      "\<forall>c d. a = c @ d \<longrightarrow> d \<noteq> [] \<longrightarrow> \<not> is_zero Q (remaining_of Q ?D c)"
      by (rule claim_loop_taken)
    have set_a: "set a \<subseteq> set xs" using ab(1) mset_eq_setD [OF ys(2)] by auto
    have dist_a: "distinct (map ID a)"
    proof -
      have "distinct (map ID ys)" using ys(2) xs(3) by (metis mset_map mset_eq_imp_distinct_iff)
      then show ?thesis using ab(1) by simp
    qed
    have "s' = seed_all n ?prec retries (map ID a) ?s \<and> rm = remaining_of Q ?D a"
      using rr Some xs(1) ys(1) ab(2)
      by (auto simp: same_recorded_def split: prod.splits if_splits)
    moreover have "\<forall>m\<in>set a. \<not> is_claimed s (ID m) \<and> same_pass snap nd k ?d m"
      using set_a xs(2,4) creditable_machines_props(2) [OF ok] unfolding same_pass_def by blast
    ultimately show ?thesis using some dist_a ab(4) by blast
  qed
qed

section \<open>The whole pre-pass\<close>

text \<open>What a seeded claim of a need may be, given the domain recorded for the need.\<close>

definition credited :: "snapshot \<Rightarrow> need \<Rightarrow> string option \<Rightarrow> machine \<Rightarrow> bool" where
  "credited snap nd dmn m \<longleftrightarrow> snap_get snap (ID m) = Some m
    \<and> (bound_to nd m \<or> creating_for nd m) \<and> match_profile (nProfile nd) m
    \<and> (\<forall>k. same_requirement_key (nProfile nd) = Some k \<longrightarrow> (\<exists>d. dmn = Some d \<and> lookup_attribute k m = Some d))"

text \<open>No shorter prefix of the machines covers the demand.\<close>

definition needed_all :: "'q qlib \<Rightarrow> need \<Rightarrow> machine list \<Rightarrow> bool" where
  "needed_all Q nd taken \<longleftrightarrow>
    (\<forall>a b. taken = a @ b \<longrightarrow> b \<noteq> [] \<longrightarrow> \<not> is_zero Q (remaining_of Q (AggregateResources nd) a))"

lemma same_pass_credited:
  assumes "same_pass snap nd k d m" "same_requirement_key (nProfile nd) = Some k"
  shows "credited snap nd (Some d) m"
proof -
  have "bound_to nd m \<or> creating_for nd m"
    using assms(1) by (auto simp: same_pass_def creating_for_def is_own_def)
  then show ?thesis using assms by (simp add: same_pass_def credited_def)
qed

lemma seed_need_taken:
  assumes ok: "snapshot_ok (ssSnap s)"
    and r: "seed_need Q ns retries ((s, ix, consumed), defs) n = ((s', ix', consumed'), defs')"
  obtains s1 taken where
    "s1 = s \<or> (\<exists>d sat cov. s1 = same_recorded n d sat cov s)"
    "s' = seed_all n (precedence_from_profile (nProfile (ns ! n))) retries (map ID taken) s1"
    "defs' = defs[n := remaining_of Q (AggregateResources (ns ! n)) taken]"
    "distinct (map ID taken)"
    "\<forall>m\<in>set taken. \<not> is_claimed s (ID m) \<and> credited (ssSnap s) (ns ! n) (gm_get (sameDomain s1) n) m"
    "needed_all Q (ns ! n) taken"
    "same_requirement_key (nProfile (ns ! n)) = None \<longrightarrow>
      is_zero Q (remaining_of Q (AggregateResources (ns ! n)) taken)
      \<or> (\<forall>m. plain_pass Q (ssSnap s) (ns ! n) m \<longrightarrow> \<not> is_claimed s (ID m) \<longrightarrow> m \<in> set taken)"
proof (cases "same_requirement_key (nProfile (ns ! n))")
  case None
  obtain taken where t: "seed_plain Q (ssSnap s) (ns ! n) n retries s =
      (seed_all n (precedence_from_profile (nProfile (ns ! n))) retries (map ID taken) s,
       remaining_of Q (AggregateResources (ns ! n)) taken)"
    "distinct (map ID taken)"
    "\<forall>m\<in>set taken. \<not> is_claimed s (ID m) \<and> plain_pass Q (ssSnap s) (ns ! n) m"
    "is_zero Q (remaining_of Q (AggregateResources (ns ! n)) taken)
      \<or> (\<forall>m. plain_pass Q (ssSnap s) (ns ! n) m \<longrightarrow> \<not> is_claimed s (ID m) \<longrightarrow> m \<in> set taken)"
    "\<forall>a b. taken = a @ b \<longrightarrow> b \<noteq> [] \<longrightarrow> \<not> is_zero Q (remaining_of Q (AggregateResources (ns ! n)) a)"
    by (rule seed_plain_taken [OF ok])
  have "s' = seed_all n (precedence_from_profile (nProfile (ns ! n))) retries (map ID taken) s"
    "defs' = defs[n := remaining_of Q (AggregateResources (ns ! n)) taken]"
    using r None t(1) by (simp_all add: seed_need_def)
  moreover have "\<forall>m\<in>set taken. \<not> is_claimed s (ID m) \<and> credited (ssSnap s) (ns ! n) (gm_get (sameDomain s) n) m"
    using t(3) None by (auto simp: plain_pass_def credited_def)
  ultimately show ?thesis using that t(2,4,5) unfolding needed_all_def by metis
next
  case (Some k)
  obtain s1 ix1 c1 rm where p: "seed_same_profile Q (ssSnap s) (ns ! n) n k retries (s, ix, consumed) = ((s1, ix1, c1), rm)"
    by (metis prod.exhaust)
  have e: "s' = s1" "defs' = defs[n := rm]" using r Some p by (simp_all add: seed_need_def)
  show ?thesis
    using ok p
  proof (cases rule: seed_same_taken)
    case none
    then show ?thesis using that [of s "[]"] e Some by (simp add: needed_all_def)
  next
    case (some d sat cov taken)
    have cr: "\<forall>m\<in>set taken. \<not> is_claimed s (ID m)
        \<and> credited (ssSnap s) (ns ! n) (gm_get (sameDomain (same_recorded n d sat cov s)) n) m"
    proof
      fix m assume "m \<in> set taken"
      then have m: "\<not> is_claimed s (ID m)" "same_pass (ssSnap s) (ns ! n) k d m" using some(4) by blast+
      moreover have "gm_get (sameDomain (same_recorded n d sat cov s)) n = Some d" by simp
      ultimately show "\<not> is_claimed s (ID m)
        \<and> credited (ssSnap s) (ns ! n) (gm_get (sameDomain (same_recorded n d sat cov s)) n) m"
        using same_pass_credited [OF m(2) Some] by (simp only: not_False_eq_True simp_thms)
    qed
    show ?thesis
    proof (rule that [of "same_recorded n d sat cov s" taken])
      show "needed_all Q (ns ! n) taken" using some(5) by (simp only: needed_all_def)
      show "same_requirement_key (nProfile (ns ! n)) = None \<longrightarrow>
        is_zero Q (remaining_of Q (AggregateResources (ns ! n)) taken)
        \<or> (\<forall>m. plain_pass Q (ssSnap s) (ns ! n) m \<longrightarrow> \<not> is_claimed s (ID m) \<longrightarrow> m \<in> set taken)"
        using Some by simp
    qed (use some(1-3) e cr in \<open>blast | simp only:\<close>)+
  qed
qed

definition seeded_ok :: "'q qlib \<Rightarrow> need list \<Rightarrow> int \<Rightarrow> nat list \<Rightarrow> shared_state \<Rightarrow> resource_qty list list \<Rightarrow> bool" where
  "seeded_ok Q ns retries done s defs \<longleftrightarrow>
    claims_ok s \<and> fst ` set (sameDomain s) \<subseteq> set done
    \<and> (\<forall>k c. gm_get (claimedBy s) k = Some c \<longrightarrow>
        cNeed c \<in> set done \<and> cPrecedence c = precedence_from_profile (nProfile (ns ! cNeed c))
        \<and> cRetriesLeft c = retries
        \<and> (\<exists>m. ID m = k \<and> credited (ssSnap s) (ns ! cNeed c) (gm_get (sameDomain s) (cNeed c)) m))
    \<and> (\<forall>n\<in>set done. \<exists>taken. claimed_for s n = map ID taken
        \<and> (\<forall>m\<in>set taken. snap_get (ssSnap s) (ID m) = Some m)
        \<and> defs ! n = remaining_of Q (AggregateResources (ns ! n)) taken
        \<and> needed_all Q (ns ! n) taken)
    \<and> (\<forall>n. n \<notin> set done \<longrightarrow> claimed_for s n = [])
    \<and> (\<forall>n\<in>set done. same_requirement_key (nProfile (ns ! n)) = None \<longrightarrow> \<not> is_zero Q (defs ! n) \<longrightarrow>
        (\<forall>m. plain_pass Q (ssSnap s) (ns ! n) m \<longrightarrow>
          (\<exists>c. gm_get (claimedBy s) (ID m) = Some c
             \<and> priority (nProfile (ns ! n)) \<le> priority (nProfile (ns ! cNeed c)))))"

lemma seed_need_ok:
  assumes ok: "snapshot_ok (ssSnap s)" and inv: "seeded_ok Q ns retries done s defs"
    and n: "n \<notin> set done" "n < length defs"
    and pr: "\<forall>p\<in>set done. priority (nProfile (ns ! n)) \<le> priority (nProfile (ns ! p))"
    and r: "seed_need Q ns retries ((s, ix, consumed), defs) n = ((s', ix', consumed'), defs')"
  shows "seeded_ok Q ns retries (done @ [n]) s' defs'" "claim_step\<^sup>*\<^sup>* s s'"
    and "ssSnap s' = ssSnap s" "length defs' = length defs"
proof -
  let ?nd = "ns ! n" let ?prec = "precedence_from_profile (nProfile ?nd)"
  obtain s1 taken where s1: "s1 = s \<or> (\<exists>d sat cov. s1 = same_recorded n d sat cov s)"
    and s': "s' = seed_all n ?prec retries (map ID taken) s1"
    and defs': "defs' = defs[n := remaining_of Q (AggregateResources ?nd) taken]"
    and dist: "distinct (map ID taken)"
    and free: "\<forall>m\<in>set taken. \<not> is_claimed s (ID m) \<and> credited (ssSnap s) ?nd (gm_get (sameDomain s1) n) m"
    and minimal: "needed_all Q ?nd taken"
    and exh: "same_requirement_key (nProfile ?nd) = None \<longrightarrow>
      is_zero Q (remaining_of Q (AggregateResources ?nd) taken)
      \<or> (\<forall>m. plain_pass Q (ssSnap s) ?nd m \<longrightarrow> \<not> is_claimed s (ID m) \<longrightarrow> m \<in> set taken)"
    by (rule seed_need_taken [OF ok r])
  have f1: "claimedBy s1 = claimedBy s" "\<And>n'. claimed_for s1 n' = claimed_for s n'" "ssSnap s1 = ssSnap s"
    "\<And>k. is_claimed s1 k = is_claimed s k" "claim_step\<^sup>*\<^sup>* s s1"
    "\<And>n'. n' \<noteq> n \<Longrightarrow> gm_get (sameDomain s1) n' = gm_get (sameDomain s) n'"
    using s1 same_recorded_steps by auto
  have sdk: "fst ` set (sameDomain s1) \<subseteq> insert n (fst ` set (sameDomain s))"
    using s1
  proof
    assume "\<exists>d sat cov. s1 = same_recorded n d sat cov s"
    then obtain d where "sameDomain s1 = gm_set n d (sameDomain s)" by auto
    then show ?thesis by (simp only: gm_keys_set)
  qed blast
  have ok0: "claims_ok s" using inv by (simp add: seeded_ok_def)
  have free1: "\<forall>k\<in>set (map ID taken). \<not> is_claimed s1 k" using free f1(4) by auto
  have steps: "claim_step\<^sup>*\<^sup>* s s'" using f1(5) seed_all_steps [OF dist free1] s' by (metis rtranclp_trans)
  show "claim_step\<^sup>*\<^sup>* s s'" by (rule steps)
  show snap: "ssSnap s' = ssSnap s" by (simp add: s' f1)
  show "length defs' = length defs" by (simp add: defs')
  have ok1: "claims_ok s1" by (rule occ.steps_inv [OF f1(5) ok0])
  have cf: "claimed_for s' n' = (if n' = n then claimed_for s n @ map ID taken else claimed_for s n')" for n'
    using claimed_for_seed_all [OF ok1 dist free1] f1(2) s' by simp
  have cl: "gm_get (claimedBy s') k = (if k \<in> ID ` set taken
      then Some \<lparr>cNeed = n, cPrecedence = ?prec, cRetriesLeft = retries\<rparr> else gm_get (claimedBy s) k)" for k
    by (simp add: s' seed_all_claim f1)
  have sd: "sameDomain s' = sameDomain s1" by (simp add: s')
  have I: "fst ` set (sameDomain s) \<subseteq> set done"
    "\<And>k c. gm_get (claimedBy s) k = Some c \<Longrightarrow>
        cNeed c \<in> set done \<and> cPrecedence c = precedence_from_profile (nProfile (ns ! cNeed c))
        \<and> cRetriesLeft c = retries
        \<and> (\<exists>m. ID m = k \<and> credited (ssSnap s) (ns ! cNeed c) (gm_get (sameDomain s) (cNeed c)) m)"
    "\<And>n. n \<in> set done \<Longrightarrow> \<exists>taken. claimed_for s n = map ID taken
        \<and> (\<forall>m\<in>set taken. snap_get (ssSnap s) (ID m) = Some m)
        \<and> defs ! n = remaining_of Q (AggregateResources (ns ! n)) taken \<and> needed_all Q (ns ! n) taken"
    "\<And>n. n \<notin> set done \<Longrightarrow> claimed_for s n = []"
    "\<And>n m. n \<in> set done \<Longrightarrow> same_requirement_key (nProfile (ns ! n)) = None \<Longrightarrow> \<not> is_zero Q (defs ! n) \<Longrightarrow>
        plain_pass Q (ssSnap s) (ns ! n) m \<Longrightarrow> (\<exists>c. gm_get (claimedBy s) (ID m) = Some c
             \<and> priority (nProfile (ns ! n)) \<le> priority (nProfile (ns ! cNeed c)))"
    using inv unfolding seeded_ok_def by blast+
  have keep: "gm_get (claimedBy s') k = Some c" if "gm_get (claimedBy s) k = Some c" for k c
    using that free unfolding cl is_claimed_def by auto
  have defn: "defs' ! n' = (if n' = n then remaining_of Q (AggregateResources ?nd) taken else defs ! n')" for n'
    using n(2) by (simp add: defs')
  show "seeded_ok Q ns retries (done @ [n]) s' defs'"
    unfolding seeded_ok_def snap
  proof (intro conjI allI ballI impI)
    show "claims_ok s'" by (rule occ.steps_inv [OF steps ok0])
    show "fst ` set (sameDomain s') \<subseteq> set (done @ [n])" 
      unfolding sd using subset_trans [OF sdk insert_mono [OF I(1)]] by simp
  next
    fix k c assume c: "gm_get (claimedBy s') k = Some c"
    have "(cNeed c \<in> set (done @ [n]) \<and> cPrecedence c = precedence_from_profile (nProfile (ns ! cNeed c))
        \<and> cRetriesLeft c = retries
        \<and> (\<exists>m. ID m = k \<and> credited (ssSnap s) (ns ! cNeed c) (gm_get (sameDomain s') (cNeed c)) m))"
    proof (cases "k \<in> ID ` set taken")
      case True
      then have "c = \<lparr>cNeed = n, cPrecedence = ?prec, cRetriesLeft = retries\<rparr>" using c unfolding cl by simp
      then show ?thesis using True free sd by auto
    next
      case False
      then have old: "gm_get (claimedBy s) k = Some c" using c unfolding cl by simp
      have "cNeed c \<noteq> n" using I(2) [OF old] n(1) by auto
      then show ?thesis using I(2) [OF old] f1(6) sd by auto
    qed
    then show "cNeed c \<in> set (done @ [n])" "cPrecedence c = precedence_from_profile (nProfile (ns ! cNeed c))"
      "cRetriesLeft c = retries"
      "\<exists>m. ID m = k \<and> credited (ssSnap s) (ns ! cNeed c) (gm_get (sameDomain s') (cNeed c)) m" by blast+
  next
    fix n' assume n': "n' \<in> set (done @ [n])"
    show "\<exists>taken. claimed_for s' n' = map ID taken \<and> (\<forall>m\<in>set taken. snap_get (ssSnap s) (ID m) = Some m)
        \<and> defs' ! n' = remaining_of Q (AggregateResources (ns ! n')) taken \<and> needed_all Q (ns ! n') taken"
    proof (cases "n' = n")
      case True
      then show ?thesis using I(4) [OF n(1)] free minimal cf defn unfolding credited_def
        by (intro exI [of _ taken]) simp
    next
      case False
      then show ?thesis using I(3) [of n'] n' cf defn by simp
    qed
  next
    fix n' assume "n' \<notin> set (done @ [n])"
    then show "claimed_for s' n' = []" using I(4) cf by simp
  next
    fix n' m assume n': "n' \<in> set (done @ [n])" "same_requirement_key (nProfile (ns ! n')) = None"
      "\<not> is_zero Q (defs' ! n')" "plain_pass Q (ssSnap s) (ns ! n') m"
    show "\<exists>c. gm_get (claimedBy s') (ID m) = Some c \<and> priority (nProfile (ns ! n')) \<le> priority (nProfile (ns ! cNeed c))"
    proof (cases "n' = n")
      case False
      then show ?thesis using I(5) [of n' m] n' defn keep by auto
    next
      case True
      show ?thesis
      proof (cases "is_claimed s (ID m)")
        case True
        then obtain c where "gm_get (claimedBy s) (ID m) = Some c" by (auto simp: is_claimed_def)
        then show ?thesis using keep I(2) pr \<open>n' = n\<close> by blast
      next
        case False
        then have "m \<in> set taken" using exh n' True defn by auto
        then show ?thesis using cl [of "ID m"] True by auto
      qed
    qed
  qed
qed

lemma seed_order_props:
  "mset (seed_order ns) = mset [0..<length ns]"
  "sorted_wrt (\<lambda>a b. priority (nProfile (ns ! b)) \<le> priority (nProfile (ns ! a))) (seed_order ns)"
proof -
  show "mset (seed_order ns) = mset [0..<length ns]" by (simp add: seed_order_def)
  have "comparator (\<lambda>a b. priority (nProfile (ns ! a)) > priority (nProfile (ns ! b))) (\<lambda>_. True)"
    by unfold_locales auto
  from comparator.sort_sorted [OF this, of "[0..<length ns]"]
  show "sorted_wrt (\<lambda>a b. priority (nProfile (ns ! b)) \<le> priority (nProfile (ns ! a))) (seed_order ns)"
    by (simp add: seed_order_def not_less)
qed

lemma seed_fold_ok:
  assumes ok: "snapshot_ok (ssSnap s)" and inv: "seeded_ok Q ns retries done s defs"
    and len: "length defs = length ns"
    and ord: "distinct (done @ order)" "set order \<subseteq> {..<length ns}"
      "sorted_wrt (\<lambda>a b. priority (nProfile (ns ! b)) \<le> priority (nProfile (ns ! a))) (done @ order)"
    and f: "foldl (seed_need Q ns retries) ((s, ix, consumed), defs) order = ((s', ix', consumed'), defs')"
  shows "seeded_ok Q ns retries (done @ order) s' defs' \<and> claim_step\<^sup>*\<^sup>* s s' \<and> ssSnap s' = ssSnap s
    \<and> length defs' = length ns"
  using assms
proof (induction order arbitrary: s ix consumed defs "done")
  case Nil
  then show ?case by simp
next
  case (Cons n order)
  obtain s1 ix1 c1 d1 where st: "seed_need Q ns retries ((s, ix, consumed), defs) n = ((s1, ix1, c1), d1)"
    by (metis prod.exhaust)
  have "n \<notin> set done" "n < length defs" "\<forall>p\<in>set done. priority (nProfile (ns ! n)) \<le> priority (nProfile (ns ! p))"
    using Cons.prems by (auto simp: sorted_wrt_append)
  note one = seed_need_ok [OF Cons.prems(1,2) this st]
  have "foldl (seed_need Q ns retries) ((s1, ix1, c1), d1) order = ((s', ix', consumed'), defs')"
    using Cons.prems(7) st by simp
  from Cons.IH [OF _ one(1) _ _ _ _ this] show ?case
    using Cons.prems one by (auto intro: rtranclp_trans)
qed

lemma seed_configured_supply_ok:
  assumes ok: "snapshot_ok snap"
    and r: "seed_configured_supply Q ns retries (new_shared_state snap) = (s, defs)"
  shows "seeded_ok Q ns retries (seed_order ns) s defs" "claim_step\<^sup>*\<^sup>* (new_shared_state snap) s"
    "ssSnap s = snap" "length defs = length ns"
proof -
  obtain ix c where f: "foldl (seed_need Q ns retries)
      ((new_shared_state snap, new_supply_index, []), replicate (length ns) []) (seed_order ns) = ((s, ix, c), defs)"
    using r by (auto simp: seed_configured_supply_def split: prod.splits)
  have "seeded_ok Q ns retries [] (new_shared_state snap) (replicate (length ns) [])"
    using claims_ok_new by (simp add: seeded_ok_def new_shared_state_def claimed_for_def)
  moreover have "set (seed_order ns) = {..<length ns}" "distinct (seed_order ns)"
    using mset_eq_setD [OF seed_order_props(1)] mset_eq_imp_distinct_iff [OF seed_order_props(1)] by auto
  ultimately have "seeded_ok Q ns retries ([] @ seed_order ns) s defs
      \<and> claim_step\<^sup>*\<^sup>* (new_shared_state snap) s \<and> ssSnap s = ssSnap (new_shared_state snap)
      \<and> length defs = length ns"
    using ok seed_order_props(2) by (intro seed_fold_ok [OF _ _ _ _ _ _ f]) (auto simp: new_shared_state_def)
  then show "seeded_ok Q ns retries (seed_order ns) s defs" "claim_step\<^sup>*\<^sup>* (new_shared_state snap) s"
    "ssSnap s = snap" "length defs = length ns"
    by (simp_all add: new_shared_state_def)
qed

end
