(* ===== verification/Cycle.thy ===== *)
theory Cycle
  imports Seed
begin

text \<open>
  One cycle of the engine's claiming: the pre-pass, the workers and the reconstruction of the
  outcomes (\<open>pkg/decision/occ/cycle.go\<close>). \<open>process_need\<close> is the worker's per-need flow as
  code; \<open>run_queue\<close> runs it with one worker over the bounded work channel, where a push on a full
  channel never returns. What any number of workers may do is the relation \<open>worker_steps\<close>
  below, of which the one worker's run is an instance.
\<close>

section \<open>The flow of one need\<close>

definition compute_deficit :: "'q qlib \<Rightarrow> need list \<Rightarrow> nat \<Rightarrow> shared_state \<Rightarrow> resource_qty list" where
  "compute_deficit Q ns n s =
    (let sumAlloc = foldl (\<lambda>acc mid. case snap_get (ssSnap s) mid of None \<Rightarrow> acc
           | Some m \<Rightarrow> add_resources Q acc (alloc_of m)) [] (claimed_for s n)
     in sub_resources Q (AggregateResources (ns ! n)) sumAlloc)"

definition has_topology_constraint :: "profile \<Rightarrow> bool" where
  "has_topology_constraint p \<longleftrightarrow> same_requirement_key p \<noteq> None \<or> strict_spread p \<noteq> None"

definition mode_for :: "'q qlib \<Rightarrow> need \<Rightarrow> proposal_mode" where
  "mode_for Q nd =
    (if \<not> list_ex (\<lambda>r. rOperator r = OperatorSame) (requirements (nProfile nd)) then ModeIncremental
     else if covers Q (MinUnit nd) (AggregateResources nd) then ModeIncremental
     else ModeAllOrNothing)"

definition find_candidates_for ::
    "'q qlib \<Rightarrow> pool \<Rightarrow> shared_state \<Rightarrow> state \<Rightarrow> precedence \<Rightarrow> need \<Rightarrow> nat \<Rightarrow> resource_qty list
      \<Rightarrow> candidates" where
  "find_candidates_for Q pl s st prec nd n deficit =
    (case same_requirement_key (nProfile nd) of
       Some sameKey \<Rightarrow>
         if AcquisitionParked nd then no_candidates
         else find_same Q pl s st prec deficit (MinUnit nd) sameKey (same_domain_for s n)
     | None \<Rightarrow>
         case strict_spread (nProfile nd) of
           Some (topoKey, skew) \<Rightarrow> find_spread Q pl s st prec deficit (MinUnit nd) topoKey skew
         | None \<Rightarrow> find_basic Q pl s st prec deficit (MinUnit nd))"

record worker =
  wkShared :: shared_state
  wkCache :: pool_cache
  wkRetries :: int
  wkPushed :: "queued_need list"

datatype outcome = Return | Break | Again

text \<open>One iteration of the inner loop, after its test of the retries.\<close>

definition need_iter ::
    "'q qlib \<Rightarrow> need list \<Rightarrow> nat \<Rightarrow> state \<Rightarrow> worker \<Rightarrow> outcome \<times> worker" where
  "need_iter Q ns n st w =
    (let nd = ns ! n; s = wkShared w; prec = precedence_from_profile (nProfile nd);
         deficit = compute_deficit Q ns n s
     in
     if is_zero Q deficit then (Return, w)
     else
       let (pl, cache) = pool_cache_get (ssSnap s) st (nProfile nd) (wkCache w);
           w = w\<lparr>wkCache := cache\<rparr>;
           cands = find_candidates_for Q pl s st prec nd n deficit
       in if caMachines cands = [] then (Break, w)
          else
            let (r, s) = propose \<lparr>pNeed = n, pBucket = caBucket cands, pMachines = caMachines cands,
                  pObservedSeq = bucket_seq s (caBucket cands), pPrecedence = prec,
                  pMode = mode_for Q nd, pRetriesLeft = wkRetries w\<rparr> s;
                w = w\<lparr>wkShared := s, wkPushed := wkPushed w @ filter (\<lambda>d. qRetriesLeft d > 0) (resDisplaced r)\<rparr>
            in if resStatus r = StatusCommitted
               then (if has_topology_constraint (nProfile nd) then Break else Again, w)
               else (Again, w\<lparr>wkRetries := wkRetries w - 1\<rparr>))"

text \<open>The inner loop; the fuel bounds its iterations and \<open>None\<close> says it ran out.\<close>

fun need_loop ::
    "nat \<Rightarrow> 'q qlib \<Rightarrow> need list \<Rightarrow> nat \<Rightarrow> state \<Rightarrow> worker \<Rightarrow> (bool \<times> worker) option" where
  "need_loop 0 Q ns n st w = None"
| "need_loop (Suc f) Q ns n st w =
    (if wkRetries w \<le> 0 then Some (False, w)
     else case need_iter Q ns n st w of
            (Return, w') \<Rightarrow> Some (True, w')
          | (Break, w') \<Rightarrow> Some (False, w')
          | (Again, w') \<Rightarrow> need_loop f Q ns n st w')"

definition process_need ::
    "nat \<Rightarrow> 'q qlib \<Rightarrow> need list \<Rightarrow> queued_need \<Rightarrow> shared_state \<times> pool_cache
      \<Rightarrow> (shared_state \<times> pool_cache \<times> queued_need list) option" where
  "process_need f Q ns qn st =
    (let w = \<lparr>wkShared = fst st, wkCache = snd st, wkRetries = qRetriesLeft qn, wkPushed = []\<rparr> in
     case need_loop f Q ns (qNeed qn) StateIdle w of
       None \<Rightarrow> None
     | Some (True, w) \<Rightarrow> Some (wkShared w, wkCache w, wkPushed w)
     | Some (False, w) \<Rightarrow>
       (case need_loop f Q ns (qNeed qn) StateSpeculative w of
          None \<Rightarrow> None
        | Some (_, w) \<Rightarrow> Some (wkShared w, wkCache w, wkPushed w)))"

section \<open>The cycle\<close>

text \<open>
  How a run over the work channel ends. A worker that pushes a displaced need on a full channel
  waits for a receiver; the one worker is the only receiver, so it waits for ever (\<open>Blocked\<close>).
\<close>

datatype 'a run_result = Returned 'a | Blocked

text \<open>The capacity of the channel: the initial needs times (retries + 2), at least 64.\<close>

definition queue_buf :: "need list \<Rightarrow> int \<Rightarrow> int" where
  "queue_buf ns retries =
    (let b = int (length ns) * (retries + 2) in if b < 64 then 64 else b)"

text \<open>
  One worker, once the initial needs are in the channel. It has received \<open>qn\<close> when it processes
  it, so the channel holds \<open>work\<close>; some push of the needs it displaces finds the channel full
  exactly when they do not all fit.
\<close>

fun run_queue ::
    "nat \<Rightarrow> nat \<Rightarrow> 'q qlib \<Rightarrow> need list \<Rightarrow> int \<Rightarrow> queued_need list \<Rightarrow> shared_state \<times> pool_cache
      \<Rightarrow> (shared_state \<times> pool_cache) run_result option" where
  "run_queue g f Q ns buf [] st = Some (Returned st)"
| "run_queue 0 f Q ns buf (qn # work) st = None"
| "run_queue (Suc g) f Q ns buf (qn # work) st =
    (case process_need f Q ns qn st of
       None \<Rightarrow> None
     | Some (s, c, pushed) \<Rightarrow>
         if int (length (work @ pushed)) > buf then Some Blocked
         else run_queue g f Q ns buf (work @ pushed) (s, c))"

record matching_supply =
  msIdle :: nat
  msSpeculative :: nat
  msConfigured :: nat
  msCapped :: bool

definition matching_supply_cap :: nat where
  "matching_supply_cap = 256"

fun count_capped :: "(machine \<Rightarrow> bool) \<Rightarrow> machine list \<Rightarrow> nat \<Rightarrow> nat \<times> bool" where
  "count_capped ok [] k = (k, False)"
| "count_capped ok (m # ms) k =
    (if ok m then if k + 1 \<ge> matching_supply_cap then (k + 1, True) else count_capped ok ms (k + 1)
     else count_capped ok ms k)"

definition count_matching_supply ::
    "'q qlib \<Rightarrow> snapshot \<Rightarrow> profile \<Rightarrow> resource_qty list \<Rightarrow> matching_supply" where
  "count_matching_supply Q snap p minUnit =
    (let count = (\<lambda>st. count_capped (\<lambda>m. match_profile p m \<and> covers Q (alloc_of m) minUnit)
           (case pinned_instance_types p of
              None \<Rightarrow> snap_by_state snap st
            | Some types \<Rightarrow> concat (map (snap_by_type snap st) types)) 0);
         (i, ci) = count StateIdle; (sp, cs) = count StateSpeculative; (co, cc) = count StateConfigured
     in \<lparr>msIdle = i, msSpeculative = sp, msConfigured = co, msCapped = ci \<or> cs \<or> cc\<rparr>)"

record need_result =
  nrNeed :: nat
  nrBootstrapMachines :: "string list"
  nrProvisionMachines :: "string list"
  nrUnsatisfied :: bool
  nrDeficit :: "resource_qty list"
  nrSameDomain :: string
  nrSameSatisfiable :: bool
  nrClaimedMachines :: "string list"
  nrMatchingSupplyExists :: bool
  nrMatchingSupply :: matching_supply
  nrSameCandidates :: "domain_coverage list"

definition no_matching_supply :: matching_supply where
  "no_matching_supply = \<lparr>msIdle = 0, msSpeculative = 0, msConfigured = 0, msCapped = False\<rparr>"

definition in_state :: "snapshot \<Rightarrow> state \<Rightarrow> string \<Rightarrow> bool" where
  "in_state snap st mid = (case snap_get snap mid of None \<Rightarrow> False | Some m \<Rightarrow> State m = st)"

definition need_result_for :: "'q qlib \<Rightarrow> need list \<Rightarrow> shared_state \<Rightarrow> nat \<Rightarrow> need_result" where
  "need_result_for Q ns s n =
    (let nd = ns ! n; snap = ssSnap s; mine = claimed_for s n;
         deficit = compute_deficit Q ns n s; unsat = \<not> is_zero Q deficit;
         supply' = (if unsat then count_matching_supply Q snap (nProfile nd) (MinUnit nd)
                    else no_matching_supply)
     in \<lparr>nrNeed = n,
         nrBootstrapMachines = filter (in_state snap StateIdle) mine,
         nrProvisionMachines = filter (in_state snap StateSpeculative) mine,
         nrUnsatisfied = unsat, nrDeficit = deficit,
         nrSameDomain = same_domain_for s n, nrSameSatisfiable = same_satisfiable_for s n,
         nrClaimedMachines = mine,
         nrMatchingSupplyExists = (unsat \<and> (length mine > 0
           \<or> msIdle supply' + msSpeculative supply' + msConfigured supply' > 0)),
         nrMatchingSupply = supply', nrSameCandidates = same_candidates_for s n\<rparr>)"

record cycle_result =
  crResults :: "need_result list"
  crClaimed :: "string list"

definition default_retries :: int where
  "default_retries = 10"

definition initial_work :: "'q qlib \<Rightarrow> resource_qty list list \<Rightarrow> int \<Rightarrow> queued_need list" where
  "initial_work Q defs retries =
    map (\<lambda>i. \<lparr>qNeed = i, qRetriesLeft = retries\<rparr>)
      (filter (\<lambda>i. \<not> is_zero Q (defs ! i)) [0..<length defs])"

definition cycle_results :: "'q qlib \<Rightarrow> need list \<Rightarrow> shared_state \<Rightarrow> cycle_result" where
  "cycle_results Q ns s =
    (let rs = map (need_result_for Q ns s) [0..<length ns]
     in \<lparr>crResults = rs, crClaimed = concat (map nrClaimedMachines rs)\<rparr>)"

text \<open>\<open>g\<close> bounds the needs processed and \<open>f\<close> the iterations of one need's inner loop.\<close>

definition run_cycle ::
    "nat \<Rightarrow> nat \<Rightarrow> 'q qlib \<Rightarrow> snapshot \<Rightarrow> need list \<Rightarrow> int \<Rightarrow> cycle_result run_result option" where
  "run_cycle g f Q snap ns retries0 =
    (let retries = (if retries0 \<le> 0 then default_retries else retries0);
         (s, defs) = seed_configured_supply Q ns retries (new_shared_state snap)
     in case run_queue g f Q ns (queue_buf ns retries) (initial_work Q defs retries) (s, []) of
          None \<Rightarrow> None
        | Some Blocked \<Rightarrow> Some Blocked
        | Some (Returned (s, _)) \<Rightarrow> Some (Returned (cycle_results Q ns s)))"

section \<open>What the finders may return\<close>

lemma take_loop_mem:
  "take_loop Q pass ms out r = (out', r', f) \<Longrightarrow> m \<in> set out' \<Longrightarrow> m \<in> set out \<or> m \<in> set ms \<and> pass m"
  by (erule take_loop_spec) (auto simp: take_post_def)

lemma find_basic_mem:
  assumes "k \<in> set (caMachines (find_basic Q p s st prec deficit minUnit))"
  shows "\<exists>m\<in>set (plSrc p). ID m = k \<and> eligible Q (plProfile p) s prec minUnit m"
proof -
  let ?p1 = "\<lambda>m. \<not> is_claimed s (ID m) \<and> match_profile (plProfile p) m \<and> covers Q (alloc_of m) minUnit"
  let ?p2 = "\<lambda>m. is_claimed s (ID m) \<and> displaceable_by s (ID m) prec
    \<and> match_profile (plProfile p) m \<and> covers Q (alloc_of m) minUnit"
  have un: "displaceable_by s x prec" if "\<not> is_claimed s x" for x
    using that by (simp add: is_claimed_def displaceable_by_def)
  obtain out1 rem1 full where t1: "take_loop Q ?p1 (plSrc p) [] deficit = (out1, rem1, full)" by (rule prod_cases3)
  obtain out2 rem2 full2 where t2: "take_loop Q ?p2 (plSrc p) out1 rem1 = (out2, rem2, full2)" by (rule prod_cases3)
  have "caMachines (find_basic Q p s st prec deficit minUnit) \<in> {[], map ID out1, map ID out2}"
    using t1 t2 by (simp add: find_basic_def no_candidates_def Let_def)
  then obtain m where m: "ID m = k" "m \<in> set out1 \<or> m \<in> set out2" using assms by auto
  have o1: "x \<in> set (plSrc p) \<and> eligible Q (plProfile p) s prec minUnit x" if "x \<in> set out1" for x
    using take_loop_mem [OF t1 that] un by (auto simp: eligible_def)
  moreover have "x \<in> set (plSrc p) \<and> eligible Q (plProfile p) s prec minUnit x" if "x \<in> set out2" for x
    using take_loop_mem [OF t2 that] o1 by (auto simp: eligible_def)
  ultimately show ?thesis using m by blast
qed

lemma find_same_mem:
  assumes "k \<in> set (caMachines (find_same Q p s st prec deficit minUnit sameKey dmn))"
  shows "\<exists>m\<in>set (plSrc p). ID m = k \<and> eligible Q (plProfile p) s prec minUnit m
    \<and> (dmn \<noteq> '''' \<longrightarrow> lookup_attribute sameKey m = Some dmn)"
proof (cases "dmn = ''''")
  case False
  let ?pass = "\<lambda>m. displaceable_by s (ID m) prec \<and> match_profile (plProfile p) m
    \<and> lookup_attribute sameKey m = Some dmn \<and> covers Q (alloc_of m) minUnit"
  obtain out r f where t: "take_loop Q ?pass (plSrc p) [] deficit = (out, r, f)" by (rule prod_cases3)
  have "caMachines (find_same Q p s st prec deficit minUnit sameKey dmn) \<in> {[], map ID out}"
    using t False by (simp add: find_same_def no_candidates_def Let_def)
  then obtain m where "ID m = k" "m \<in> set out" using assms by auto
  then show ?thesis using take_loop_mem [OF t] by (auto simp: eligible_def)
next
  case True
  let ?bs = "same_buckets (plProfile p) sameKey (plSrc p)"
  obtain best where b: "foldl (best_step Q s prec deficit minUnit) None ?bs = Some best"
    using assms True by (cases "foldl (best_step Q s prec deficit minUnit) None ?bs")
      (auto simp: find_same_def no_candidates_def split: if_splits)
  let ?pass = "\<lambda>m. displaceable_by s (ID m) prec \<and> covers Q (alloc_of m) minUnit"
  obtain out r f where t: "take_loop Q ?pass (bbMachines best) [] deficit = (out, r, f)" by (rule prod_cases3)
  have "caMachines (find_same Q p s st prec deficit minUnit sameKey dmn) \<in> {[], map ID out}"
    using t True b by (simp add: find_same_def no_candidates_def Let_def)
  then obtain m where m: "ID m = k" "m \<in> set out" using assms by auto
  have "(bbValue best, bbMachines best) \<in> set ?bs" using best_fold_mem [OF b] by blast
  then have "gm_at [] ?bs (bbValue best) = bbMachines best"
    using gm_ok_same_buckets by (simp add: gm_at_def)
  then have "m' \<in> set (plSrc p) \<and> match_profile (plProfile p) m'" if "m' \<in> set (bbMachines best)" for m'
    using that unfolding same_buckets_at by (auto dest: sym)
  then show ?thesis using take_loop_mem [OF t m(2)] m(1) True by (auto simp: eligible_def)
qed

definition in_buckets :: "spread_buckets \<Rightarrow> machine set" where
  "in_buckets bs = (\<Union>(_, ms, _)\<in>set bs. set ms)"

lemma in_buckets_set: "gm_get bs k = Some (ms, h) \<Longrightarrow> in_buckets (gm_set k (ms, h') bs) \<subseteq> in_buckets bs"
  by (induction bs) (auto simp: in_buckets_def split: if_splits)

lemma spread_loop_mem: "set (spread_loop Q skew bs counts r out) \<subseteq> set out \<union> in_buckets bs"
proof (induction Q skew bs counts r out rule: spread_loop.induct)
  case (1 Q skew bs counts r out)
  let ?keys = "map fst bs" let ?mc = "min_count ?keys counts"
  show ?case
  proof (cases "is_zero Q r \<or> foldl (spread_pick skew ?mc bs counts) None ?keys = None")
    case True
    then show ?thesis by (subst spread_loop.simps) (auto simp: Let_def)
  next
    case False
    then obtain key pr where p: "foldl (spread_pick skew ?mc bs counts) None ?keys = Some (key, pr)" by auto
    obtain ms h where g: "gm_get bs key = Some (ms, h)" "h < length ms" using spread_pick_inv(2) [OF p] by blast
    have at: "gm_at ([], 0) bs key = (ms, h)" using g by (simp add: gm_at_def)
    have "(key, ms, h) \<in> set bs" by (rule map_of_SomeD [OF g(1)])
    then have "ms ! h \<in> in_buckets bs" using g(2) by (force simp: in_buckets_def)
    moreover have "set (spread_loop Q skew bs counts r out) \<subseteq> set (out @ [ms ! h]) \<union> in_buckets (gm_set key (ms, h + 1) bs)"
      using "1.IH" [OF _ refl refl p refl at [symmetric] refl refl] False p at
      by (subst spread_loop.simps) (simp add: Let_def)
    ultimately show ?thesis using in_buckets_set [OF g(1), of "h + 1"] by auto
  qed
qed

lemma spread_buckets_mem:
  "m \<in> in_buckets (spread_buckets Q p s prec minUnit k) \<Longrightarrow>
    m \<in> set (plSrc p) \<and> eligible Q (plProfile p) s prec minUnit m"
proof -
  have step: "in_buckets (spread_add Q p s prec minUnit k bs m) \<subseteq> in_buckets bs \<union>
      (if eligible Q (plProfile p) s prec minUnit m then {m} else {})" for bs m
  proof -
    have upd: "in_buckets (gm_set v x bs) \<subseteq> in_buckets bs \<union> set (fst x)" for v x bs
      by (induction bs) (auto simp: in_buckets_def split: if_splits)
    have at: "set (fst (gm_at ([], 0) bs v)) \<subseteq> in_buckets bs" for v
      by (cases "gm_get bs v") (force simp: gm_at_def in_buckets_def dest: map_of_SomeD)+
    show ?thesis
      using upd [of _ "(fst (gm_at ([], 0) bs (the (lookup_attribute k m))) @ [m], snd (gm_at ([], 0) bs (the (lookup_attribute k m))))"]
        at [of "the (lookup_attribute k m)"]
      by (auto simp: spread_add_def eligible_def Let_def case_prod_beta split: option.splits) fastforce
  qed
  have "in_buckets (foldl (spread_add Q p s prec minUnit k) bs ms) \<subseteq>
      in_buckets bs \<union> {m \<in> set ms. eligible Q (plProfile p) s prec minUnit m}" for bs ms
  proof (induction ms arbitrary: bs)
    case (Cons m ms)
    show ?case using Cons [of "spread_add Q p s prec minUnit k bs m"] step [of bs m]
      by (auto split: if_splits)
  qed simp
  from this [of "[]" "plSrc p"] show "m \<in> in_buckets (spread_buckets Q p s prec minUnit k) \<Longrightarrow> ?thesis"
    by (auto simp: spread_buckets_def in_buckets_def)
qed

lemma find_spread_mem:
  assumes "k \<in> set (caMachines (find_spread Q p s st prec deficit minUnit topo skew))"
  shows "\<exists>m\<in>set (plSrc p). ID m = k \<and> eligible Q (plProfile p) s prec minUnit m"
proof -
  let ?bs = "spread_buckets Q p s prec minUnit topo"
  have "caMachines (find_spread Q p s st prec deficit minUnit topo skew)
      \<in> {[], map ID (spread_loop Q (if skew < 1 then 1 else skew) ?bs [] deficit [])}"
    by (simp add: find_spread_def no_candidates_def Let_def)
  then show ?thesis
    using assms spread_loop_mem [of Q "if skew < 1 then 1 else skew" ?bs "[]" deficit "[]"]
      spread_buckets_mem by fastforce
qed

text \<open>Whatever the route, a candidate is a machine of the pool the need may take.\<close>

lemma find_candidates_mem:
  assumes "k \<in> set (caMachines (find_candidates_for Q pl s st prec nd n deficit))"
  shows "\<exists>m\<in>set (plSrc pl). ID m = k \<and> eligible Q (plProfile pl) s prec (MinUnit nd) m
    \<and> (\<forall>sk. same_requirement_key (nProfile nd) = Some sk \<longrightarrow> same_domain_for s n \<noteq> '''' \<longrightarrow>
        lookup_attribute sk m = Some (same_domain_for s n))"
proof (cases "same_requirement_key (nProfile nd)")
  case (Some sk)
  then have "k \<in> set (caMachines (find_same Q pl s st prec deficit (MinUnit nd) sk (same_domain_for s n)))"
    using assms by (auto simp: find_candidates_for_def no_candidates_def split: if_splits)
  then show ?thesis using find_same_mem Some by fastforce
next
  case None
  then show ?thesis using assms find_basic_mem find_spread_mem
    by (fastforce simp: find_candidates_for_def split: option.splits prod.splits)
qed

lemma build_pool_mem:
  "set (plSrc (build_pool snap st p)) = (case pinned_instance_types p of
      None \<Rightarrow> set (snap_by_state snap st)
    | Some ts \<Rightarrow> (\<Union>t\<in>set ts. set (snap_by_type snap st t)))"
  "plProfile (build_pool snap st p) = p"
  by (auto simp: build_pool_def sort_idle_candidates_def sort_speculative_candidates_def Let_def
      split: option.splits list.splits)

lemma build_pool_state:
  assumes "snapshot_ok snap" "m \<in> set (plSrc (build_pool snap st p))"
  shows "m \<in> set (snap_by_state snap st)"
  using assms snap.by_type_state [OF assms(1)] by (auto simp: build_pool_mem split: option.splits)

section \<open>What any number of workers do\<close>

text \<open>
  A worker proposes machines that \<open>find_candidates_for\<close> returned to it. Each lookup of the finder
  takes the lock on its own, so while other workers commit, what it read is no single state of
  the claims: a view is any state with the snapshot and the recorded domains of the cycle, which
  no worker writes, and each machine of the proposal was a candidate in some view. Nothing is
  assumed of the deficit it computed, the bucket it names and the sequence number it observed.
  The pool is the one of the need's profile, as \<open>pool_cache_transparent\<close> shows of the cache.
\<close>

definition worker_view :: "shared_state \<Rightarrow> shared_state \<Rightarrow> bool" where
  "worker_view s u \<longleftrightarrow> ssSnap u = ssSnap s \<and> sameDomain u = sameDomain s"

definition worker_proposal :: "'q qlib \<Rightarrow> need list \<Rightarrow> shared_state \<Rightarrow> proposal \<Rightarrow> bool" where
  "worker_proposal Q ns s p \<longleftrightarrow> pNeed p < length ns
    \<and> pPrecedence p = precedence_from_profile (nProfile (ns ! pNeed p))
    \<and> pMode p = mode_for Q (ns ! pNeed p)
    \<and> (\<exists>st. (st = StateIdle \<or> st = StateSpeculative)
        \<and> (\<forall>k\<in>set (pMachines p). \<exists>u deficit. worker_view s u
            \<and> k \<in> set (caMachines (find_candidates_for Q
                (build_pool (ssSnap u) st (nProfile (ns ! pNeed p))) u st (pPrecedence p)
                (ns ! pNeed p) (pNeed p) deficit))))"

inductive worker_step :: "'q qlib \<Rightarrow> need list \<Rightarrow> shared_state \<Rightarrow> shared_state \<Rightarrow> bool" for Q ns where
  ws_propose: "worker_proposal Q ns s p \<Longrightarrow> worker_step Q ns s (snd (propose p s))"

abbreviation "worker_steps Q ns \<equiv> (worker_step Q ns)\<^sup>*\<^sup>*"

lemma worker_claim_steps: "worker_steps Q ns s s' \<Longrightarrow> claim_step\<^sup>*\<^sup>* s s'"
  by (induction rule: rtranclp_induct)
    (auto elim!: worker_step.cases intro: cs_propose rtranclp.rtrancl_into_rtrancl)

text \<open>What the broker can rely on: the proposed machines match the need and lie in its domain.\<close>

definition wanted :: "'q qlib \<Rightarrow> snapshot \<Rightarrow> need \<Rightarrow> string \<Rightarrow> machine \<Rightarrow> bool" where
  "wanted Q snap nd dmn m \<longleftrightarrow> snap_get snap (ID m) = Some m
    \<and> (State m = StateIdle \<or> State m = StateSpeculative)
    \<and> match_profile (nProfile nd) m \<and> covers Q (alloc_of m) (MinUnit nd)
    \<and> (\<forall>k. same_requirement_key (nProfile nd) = Some k \<longrightarrow> dmn \<noteq> '''' \<longrightarrow> lookup_attribute k m = Some dmn)"

lemma worker_proposal_wanted:
  assumes ok: "snapshot_ok (ssSnap s)" and p: "worker_proposal Q ns s p" and k: "k \<in> set (pMachines p)"
  shows "\<exists>m. ID m = k \<and> wanted Q (ssSnap s) (ns ! pNeed p) (same_domain_for s (pNeed p)) m"
proof -
  obtain st u d where v: "st = StateIdle \<or> st = StateSpeculative" "worker_view s u"
    "k \<in> set (caMachines (find_candidates_for Q (build_pool (ssSnap u) st (nProfile (ns ! pNeed p)))
        u st (pPrecedence p) (ns ! pNeed p) (pNeed p) d))"
    using p k unfolding worker_proposal_def by metis
  have e: "ssSnap u = ssSnap s" "same_domain_for u n = same_domain_for s n" for n
    using v(2) by (simp_all add: worker_view_def same_domain_for_def)
  obtain m where m: "m \<in> set (plSrc (build_pool (ssSnap s) st (nProfile (ns ! pNeed p))))" "ID m = k"
    "eligible Q (nProfile (ns ! pNeed p)) u (pPrecedence p) (MinUnit (ns ! pNeed p)) m"
    "\<forall>sk. same_requirement_key (nProfile (ns ! pNeed p)) = Some sk \<longrightarrow> same_domain_for s (pNeed p) \<noteq> '''' \<longrightarrow>
        lookup_attribute sk m = Some (same_domain_for s (pNeed p))"
    using find_candidates_mem [OF v(3)] unfolding e build_pool_mem(2) by blast
  have "m \<in> set (snap_by_state (ssSnap s) st)" by (rule build_pool_state [OF ok m(1)])
  then have "snap_get (ssSnap s) (ID m) = Some m" "State m = st"
    using snap.by_state_iff [OF ok, of m st] by blast+
  then show ?thesis using m v(1) by (intro exI [of _ m]) (auto simp: wanted_def eligible_def)
qed

text \<open>What every claim is, at every moment of a cycle.\<close>

definition claim_valid :: "need list \<Rightarrow> shared_state \<Rightarrow> string \<Rightarrow> claim \<Rightarrow> bool" where
  "claim_valid ns s k c \<longleftrightarrow> cNeed c < length ns
    \<and> cPrecedence c = precedence_from_profile (nProfile (ns ! cNeed c))
    \<and> (\<exists>m. ID m = k \<and> snap_get (ssSnap s) k = Some m
        \<and> (bound_to (ns ! cNeed c) m \<or> creating_for (ns ! cNeed c) m
           \<or> State m = StateIdle \<or> State m = StateSpeculative)
        \<and> match_profile (nProfile (ns ! cNeed c)) m
        \<and> (\<forall>sk. same_requirement_key (nProfile (ns ! cNeed c)) = Some sk \<longrightarrow>
             same_domain_for s (cNeed c) \<noteq> '''' \<longrightarrow> lookup_attribute sk m = Some (same_domain_for s (cNeed c))))"

definition claims_valid :: "need list \<Rightarrow> shared_state \<Rightarrow> bool" where
  "claims_valid ns s \<longleftrightarrow> snapshot_ok (ssSnap s) \<and> claims_ok s
    \<and> (\<forall>k c. gm_get (claimedBy s) k = Some c \<longrightarrow> claim_valid ns s k c)"

lemma seeded_claims_valid:
  assumes "snapshot_ok snap" "seed_configured_supply Q ns retries (new_shared_state snap) = (s, defs)"
  shows "claims_valid ns s" "ssSnap s = snap"
proof -
  note S = seed_configured_supply_ok [OF assms]
  show "ssSnap s = snap" by (rule S(3))
  have len: "set (seed_order ns) = {..<length ns}" using mset_eq_setD [OF seed_order_props(1)] by auto
  have "claim_valid ns s k c" if g: "gm_get (claimedBy s) k = Some c" for k c
  proof -
    have c: "cNeed c \<in> set (seed_order ns)" "cPrecedence c = precedence_from_profile (nProfile (ns ! cNeed c))"
      using S(1) g unfolding seeded_ok_def by blast+
    obtain m where m: "ID m = k" "credited (ssSnap s) (ns ! cNeed c) (gm_get (sameDomain s) (cNeed c)) m"
      using S(1) g unfolding seeded_ok_def by blast
    have "lookup_attribute sk m = Some (same_domain_for s (cNeed c))"
      if "same_requirement_key (nProfile (ns ! cNeed c)) = Some sk" for sk
      using m(2) that by (auto simp: credited_def same_domain_for_def gm_at_def)
    then show ?thesis using c len m unfolding claim_valid_def credited_def by auto
  qed
  then show "claims_valid ns s" using S(1,3) assms(1) by (simp add: claims_valid_def seeded_ok_def)
qed

lemma propose_static:
  assumes "claims_ok s"
  shows "ssSnap (snd (propose p s)) = ssSnap s" "sameDomain (snd (propose p s)) = sameDomain s"
  using propose_commit(6,7) [OF assms] propose_conflict by (cases "commits s p"; simp)+

lemma worker_step_valid:
  assumes "worker_step Q ns s s'" "claims_valid ns s"
  shows "claims_valid ns s'" "ssSnap s' = ssSnap s" "sameDomain s' = sameDomain s"
proof -
  obtain p where wp: "worker_proposal Q ns s p" and s': "s' = snd (propose p s)"
    using assms(1) by (cases rule: worker_step.cases)
  have ok: "claims_ok s" and sn: "snapshot_ok (ssSnap s)" using assms(2) by (simp_all add: claims_valid_def)
  note st = propose_static [OF ok, of p]
  show "ssSnap s' = ssSnap s" "sameDomain s' = sameDomain s" by (simp_all add: s' st)
  have same: "claim_valid ns s' k c = claim_valid ns s k c" for k c
    by (simp add: claim_valid_def same_domain_for_def s' st)
  show "claims_valid ns s'"
  proof (cases "commits s p")
    case False
    then show ?thesis using assms(2) s' by (simp add: propose_conflict)
  next
    case True
    note pc = propose_commit [OF ok True]
    have "claim_valid ns s k c" if g: "gm_get (claimedBy s') k = Some c" for k c
    proof (cases "k \<in> set (commit_of s p)")
      case True
      then have c: "c = new_record p" and k: "k \<in> set (pMachines p)"
        using g pc(4) [of k] by (auto simp: s' set_commit_of)
      then obtain m where "ID m = k" "wanted Q (ssSnap s) (ns ! pNeed p) (same_domain_for s (pNeed p)) m"
        using worker_proposal_wanted [OF sn wp] by blast
      then show ?thesis using wp unfolding claim_valid_def c wanted_def worker_proposal_def new_record_def
        by auto
    next
      case False
      then have "gm_get (claimedBy s) k = Some c" using g pc(4) [of k] by (simp add: s' del: map_of_eq_Some_iff)
      then show ?thesis using assms(2) by (simp add: claims_valid_def del: map_of_eq_Some_iff)
    qed
    then show ?thesis using pc(3) same sn st(1) by (simp add: claims_valid_def s' del: map_of_eq_Some_iff)
  qed
qed

lemma worker_steps_valid:
  assumes "worker_steps Q ns s s'" "claims_valid ns s"
  shows "claims_valid ns s' \<and> ssSnap s' = ssSnap s \<and> sameDomain s' = sameDomain s"
  using assms by (induction rule: rtranclp_induct) (auto dest: worker_step_valid)

section \<open>The code's proposals are such proposals\<close>

text \<open>The profiles of the needs do not share fingerprints.\<close>

definition fp_unique :: "need list \<Rightarrow> bool" where
  "fp_unique ns \<longleftrightarrow> (\<forall>a\<in>set ns. \<forall>b\<in>set ns.
     fingerprint (nProfile a) = fingerprint (nProfile b) \<longrightarrow> nProfile a = nProfile b)"

definition cache_ok :: "snapshot \<Rightarrow> need list \<Rightarrow> pool_cache \<Rightarrow> bool" where
  "cache_ok snap ns c \<longleftrightarrow> (\<forall>key pl. gm_get c key = Some pl \<longrightarrow>
     (\<exists>st. \<exists>nd\<in>set ns. key = pool_key st (nProfile nd) \<and> pl = build_pool snap st (nProfile nd)))"

lemma pool_key_eq: "pool_key st p = pool_key st' p' \<longleftrightarrow> st = st' \<and> fingerprint p = fingerprint p'"
proof -
  have lt: "state_code x < 256" for x by (cases x) auto
  have "char_of (state_code st) = (char_of (state_code st') :: char) \<longleftrightarrow> state_code st = state_code st'"
    using lt [of st] lt [of st'] by (metis mod_less of_char_of)
  also have "\<dots> \<longleftrightarrow> st = st'" by (cases st; cases st') auto
  finally show ?thesis by (auto simp: pool_key_def)
qed

text \<open>The cache cannot be told from building each pool anew.\<close>

lemma pool_cache_transparent:
  assumes "fp_unique ns" "nd \<in> set ns" "cache_ok snap ns c"
    and g: "pool_cache_get snap st (nProfile nd) c = (pl, c')"
  shows "pl = build_pool snap st (nProfile nd)" "cache_ok snap ns c'"
proof -
  let ?key = "pool_key st (nProfile nd)"
  have "pl = build_pool snap st (nProfile nd) \<and> cache_ok snap ns c'"
  proof (cases "gm_get c ?key")
    case None
    then have "pl = build_pool snap st (nProfile nd)" "c' = gm_set ?key pl c"
      using g by (auto simp: pool_cache_get_def Let_def)
    then show ?thesis using assms(2,3) unfolding cache_ok_def by (auto simp del: map_of_eq_Some_iff)
  next
    case (Some pl')
    then have e: "pl = pl'" "c' = c" using g by (auto simp: pool_cache_get_def Let_def)
    obtain st' nd' where "nd' \<in> set ns" "?key = pool_key st' (nProfile nd')"
      "pl' = build_pool snap st' (nProfile nd')" using assms(3) Some unfolding cache_ok_def by blast
    then have "pl' = build_pool snap st (nProfile nd)"
      using assms(1,2) unfolding pool_key_eq fp_unique_def by metis
    then show ?thesis using e assms(3) by simp
  qed
  then show "pl = build_pool snap st (nProfile nd)" "cache_ok snap ns c'" by blast+
qed

end
