(* ===== verification/Normalize.thy ===== *)
theory Normalize
  imports Cycle Samples
begin

text \<open>
  Demand normalisation (\<open>pkg/decision/normalize.go\<close>): needs that ask for one domain but fit a
  single machine are folded into plain needs, once per cycle, before the phases see them.
\<close>

section \<open>Memo tables\<close>

text \<open>A map filled on demand: the value stored under the key, or a new one, stored.\<close>

definition memo :: "'k \<Rightarrow> 'v \<Rightarrow> ('k, 'v) gomap \<Rightarrow> 'v \<times> ('k, 'v) gomap" where
  "memo k v c = (case gm_get c k of Some x \<Rightarrow> (x, c) | None \<Rightarrow> (v, gm_set k v c))"

text \<open>A table that holds nothing but values of \<open>f\<close> under their keys.\<close>

definition table_of :: "('a \<Rightarrow> 'k) \<Rightarrow> ('a \<Rightarrow> 'v) \<Rightarrow> ('a \<Rightarrow> bool) \<Rightarrow> ('k, 'v) gomap \<Rightarrow> bool" where
  "table_of key f ok c \<longleftrightarrow> (\<forall>k v. gm_get c k = Some v \<longrightarrow> (\<exists>x. ok x \<and> key x = k \<and> v = f x))"

lemma table_of_empty [simp]: "table_of key f ok []"
  by (simp add: table_of_def)

text \<open>The contract of a memo table: on the inputs it is used for, the key determines the value.\<close>

locale memoized =
  fixes key :: "'a \<Rightarrow> 'k" and f :: "'a \<Rightarrow> 'v" and ok :: "'a \<Rightarrow> bool"
  assumes key_determines: "ok x \<Longrightarrow> ok y \<Longrightarrow> key x = key y \<Longrightarrow> f x = f y"
begin

lemma memo_transparent:
  assumes "table_of key f ok c" "ok x" "memo (key x) (f x) c = (v, c')"
  shows "v = f x" "table_of key f ok c'"
proof -
  have "v = f x \<and> table_of key f ok c'"
  proof (cases "gm_get c (key x)")
    case None
    then have "v = f x" "c' = gm_set (key x) (f x) c" using assms(3) by (auto simp: memo_def)
    then show ?thesis using assms(1,2) unfolding table_of_def by (auto simp del: map_of_eq_Some_iff)
  next
    case (Some u)
    then obtain y where "ok y" "key y = key x" "u = f y" using assms(1) unfolding table_of_def by metis
    then show ?thesis using Some assms key_determines [of y x] by (auto simp: memo_def)
  qed
  then show "v = f x" "table_of key f ok c'" by simp_all
qed

end

section \<open>Aggregates by value\<close>

record res_pair =
  rpName :: string
  rpMilli :: int

record agg_class =
  acPairs :: "res_pair list"
  acKey :: string

definition raw_key :: "resource_qty list \<Rightarrow> string" where
  "raw_key agg = concat (map (\<lambda>r. rqName r @ ''='' @ rqQuantity r @ '';'') agg)"

definition parse_pairs :: "'q qlib \<Rightarrow> resource_qty list \<Rightarrow> res_pair list" where
  "parse_pairs Q agg =
    foldl (\<lambda>ps r. case qParse Q (rqQuantity r) of
        None \<Rightarrow> ps
      | Some q \<Rightarrow> ps @ [\<lparr>rpName = rqName r, rpMilli = qMilli Q q\<rparr>]) [] agg"

definition pair_less :: "res_pair \<Rightarrow> res_pair \<Rightarrow> bool" where
  "pair_less a b \<longleftrightarrow> rpName a < rpName b"

definition pairs_key :: "res_pair list \<Rightarrow> string" where
  "pairs_key ps = concat (map (\<lambda>p. rpName p @ ''='' @ dec_int (rpMilli p) @ '';'') ps)"

definition agg_class_of :: "'q qlib \<Rightarrow> resource_qty list \<Rightarrow> agg_class" where
  "agg_class_of Q agg =
    (let pairs = sort_less pair_less (parse_pairs Q agg)
     in \<lparr>acPairs = pairs, acKey = pairs_key pairs\<rparr>)"

section \<open>The normaliser\<close>

record normalizer =
  aggByRaw :: "(string, agg_class) gomap"
  strippedByFP :: "(string, profile) gomap"
  shardFit :: "(string, bool) gomap"
  clusterFit :: "(string, bool) gomap"

definition new_normalizer :: normalizer where
  "new_normalizer = \<lparr>aggByRaw = [], strippedByFP = [], shardFit = [], clusterFit = []\<rparr>"

definition agg_class_for :: "'q qlib \<Rightarrow> normalizer \<Rightarrow> resource_qty list \<Rightarrow> agg_class \<times> normalizer" where
  "agg_class_for Q z agg =
    (let (cls, c) = memo (raw_key agg) (agg_class_of Q agg) (aggByRaw z) in (cls, z\<lparr>aggByRaw := c\<rparr>))"

definition stripped_profile :: "profile \<Rightarrow> profile" where
  "stripped_profile p =
    new_profile (filter (\<lambda>r. rOperator r \<noteq> OperatorSame) (requirements p)) (spread p) (priority p)
      (interruptionPenaltyBucket p) (reclamationPenaltyBucket p)"

definition stripped_for :: "normalizer \<Rightarrow> profile \<Rightarrow> profile \<times> normalizer" where
  "stripped_for z p =
    (let (s, c) = memo (fingerprint p) (stripped_profile p) (strippedByFP z) in (s, z\<lparr>strippedByFP := c\<rparr>))"

definition machine_covers_pairs :: "'q qlib \<Rightarrow> (string, string) gomap \<Rightarrow> res_pair list \<Rightarrow> bool" where
  "machine_covers_pairs Q alloc pairs =
    list_all (\<lambda>p. rpMilli p \<le> 0 \<or>
      (case qParse Q (gm_at '''' alloc (rpName p)) of
         None \<Rightarrow> False | Some q \<Rightarrow> \<not> qMilli Q q < rpMilli p)) pairs"

definition fits_whole :: "'q qlib \<Rightarrow> profile \<Rightarrow> agg_class \<Rightarrow> machine \<Rightarrow> bool" where
  "fits_whole Q p cls m \<longleftrightarrow>
    match_profile p m \<and> machine_covers_pairs Q (effective_allocatable m) (acPairs cls)"

definition cluster_has_fit :: "'q qlib \<Rightarrow> snapshot \<Rightarrow> string \<Rightarrow> profile \<Rightarrow> agg_class \<Rightarrow> bool" where
  "cluster_has_fit Q snap cluster p cls =
    list_ex (\<lambda>st. list_ex (fits_whole Q p cls) (snap_by_cluster_state snap cluster st))
      [StateConfigured, StateConfiguring]"

definition shard_has_fit :: "'q qlib \<Rightarrow> snapshot \<Rightarrow> profile \<Rightarrow> agg_class \<Rightarrow> bool" where
  "shard_has_fit Q snap p cls =
    list_ex (\<lambda>st.
      let srcs = (case pinned_instance_types p of
            None \<Rightarrow> [snap_by_state snap st]
          | Some ts \<Rightarrow> map (snap_by_type snap st) ts)
      in list_ex (list_ex (fits_whole Q p cls)) srcs)
      [StateIdle, StateSpeculative]"

definition nul :: string where
  "nul = [CHR 0x00]"

definition foldable :: "'q qlib \<Rightarrow> snapshot \<Rightarrow> normalizer \<Rightarrow> need \<Rightarrow> agg_class \<Rightarrow> bool \<times> normalizer" where
  "foldable Q snap z n cls =
    (let p = nProfile n;
         ckey = nCluster n @ nul @ fingerprint p @ nul @ acKey cls;
         (fit, c) = memo ckey (cluster_has_fit Q snap (nCluster n) p cls) (clusterFit z);
         z = z\<lparr>clusterFit := c\<rparr>
     in if fit then (True, z)
        else
          let skey = fingerprint p @ nul @ acKey cls;
              (fit, c) = memo skey (shard_has_fit Q snap p cls) (shardFit z)
          in (fit, z\<lparr>shardFit := c\<rparr>))"

type_synonym group_key = "string \<times> string \<times> string"

record fold_group =
  fgFirst :: need
  fgProfile :: profile
  fgCount :: int
  fgArrival :: int

definition add_member :: "fold_group \<Rightarrow> need \<Rightarrow> fold_group" where
  "add_member g n =
    (let g = g\<lparr>fgCount := fgCount g + 1\<rparr>
     in if ArrivalUnixNanos n \<noteq> 0 \<and> (fgArrival g = 0 \<or> ArrivalUnixNanos n < fgArrival g)
        then g\<lparr>fgArrival := ArrivalUnixNanos n\<rparr> else g)"

definition group_less :: "group_key \<Rightarrow> group_key \<Rightarrow> bool" where
  "group_less a b \<longleftrightarrow>
    (let (ca, fa, ga) = a; (cb, fb, gb) = b
     in if ca \<noteq> cb then ca < cb else if fa \<noteq> fb then fa < fb else ga < gb)"

definition folded_need :: "'q qlib \<Rightarrow> fold_group \<Rightarrow> need" where
  "folded_need Q g =
    \<lparr>nCluster = nCluster (fgFirst g), nProfile = fgProfile g,
     AggregateResources = scale_resources Q (AggregateResources (fgFirst g)) (fgCount g),
     MinUnit = AggregateResources (fgFirst g), ArrivalUnixNanos = fgArrival g, Group = '''',
     AcquisitionParked = False\<rparr>"

record norm_state =
  nsZ :: normalizer
  nsOut :: "need list"
  nsGroups :: "(group_key, fold_group) gomap"
  nsOrder :: "group_key list"

definition normalize_step :: "'q qlib \<Rightarrow> snapshot \<Rightarrow> norm_state \<Rightarrow> need \<Rightarrow> norm_state" where
  "normalize_step Q snap s n =
    (if same_requirement_key (nProfile n) = None then s\<lparr>nsOut := nsOut s @ [n]\<rparr>
     else
       let (cls, z) = agg_class_for Q (nsZ s) (AggregateResources n);
           (fit, z) = foldable Q snap z n cls
       in if \<not> fit then s\<lparr>nsZ := z, nsOut := nsOut s @ [n]\<rparr>
          else
            let (stripped, z) = stripped_for z (nProfile n);
                k = (nCluster n, fingerprint stripped, acKey cls);
                (g, order) = (case gm_get (nsGroups s) k of
                    Some g \<Rightarrow> (g, nsOrder s)
                  | None \<Rightarrow> (\<lparr>fgFirst = n, fgProfile = stripped, fgCount = 0, fgArrival = 0\<rparr>, nsOrder s @ [k]))
            in s\<lparr>nsZ := z, nsGroups := gm_set k (add_member g n) (nsGroups s), nsOrder := order\<rparr>)"

definition normalize_demand :: "'q qlib \<Rightarrow> snapshot \<Rightarrow> need list \<Rightarrow> need list" where
  "normalize_demand Q snap demand =
    (if \<not> list_ex (\<lambda>n. same_requirement_key (nProfile n) \<noteq> None) demand then demand
     else
       let s = foldl (normalize_step Q snap)
             \<lparr>nsZ = new_normalizer, nsOut = [], nsGroups = [], nsOrder = []\<rparr> demand
       in nsOut s @ map (\<lambda>k. folded_need Q (the (gm_get (nsGroups s) k)))
            (sort_less group_less (nsOrder s)))"

section \<open>The memo tables are transparent\<close>

definition agg_text_ok :: "resource_qty list \<Rightarrow> bool" where
  "agg_text_ok agg \<longleftrightarrow>
    list_all (\<lambda>r. set (rqName r) \<inter> set ''=;'' = {} \<and> CHR '';'' \<notin> set (rqQuantity r)) agg"

definition nul_free :: "string \<Rightarrow> bool" where
  "nul_free s \<longleftrightarrow> CHR 0x00 \<notin> set s"

text \<open>Names and quantities without the separators the keys are built with.\<close>

definition norm_ok :: "need \<Rightarrow> bool" where
  "norm_ok n \<longleftrightarrow> nul_free (nCluster n) \<and> nul_free (fingerprint (nProfile n))
    \<and> profile_ok (nProfile n) \<and> agg_text_ok (AggregateResources n)"

lemma raw_key_inj:
  assumes "agg_text_ok x" "agg_text_ok y" "raw_key x = raw_key y"
  shows "x = y"
proof (rule terminated_inj [where f = "\<lambda>r. rqName r @ ''='' @ rqQuantity r" and c = "CHR '';''"])
  show "concat (map (\<lambda>r. (rqName r @ ''='' @ rqQuantity r) @ '';'') x)
      = concat (map (\<lambda>r. (rqName r @ ''='' @ rqQuantity r) @ '';'') y)"
    using assms(3) by (simp add: raw_key_def)
  show "\<forall>r\<in>set x. CHR '';'' \<notin> set (rqName r @ ''='' @ rqQuantity r)"
    "\<forall>r\<in>set y. CHR '';'' \<notin> set (rqName r @ ''='' @ rqQuantity r)"
    using assms(1,2) by (auto simp: agg_text_ok_def list_all_iff)
  fix r s assume r: "r \<in> set x" and s: "s \<in> set y" and e: "rqName r @ ''='' @ rqQuantity r = rqName s @ ''='' @ rqQuantity s"
  have "rqName r = rqName s \<and> rqQuantity r = rqQuantity s"
    using e assms(1,2) r s by (intro cut_unique [where c = "CHR ''=''"]) (auto simp: agg_text_ok_def list_all_iff)
  then show "r = s" by (cases r; cases s) simp
qed

lemma parse_pairs_names: "p \<in> set (parse_pairs Q agg) \<Longrightarrow> \<exists>r\<in>set agg. rpName p = rqName r"
proof -
  have "p \<in> set (foldl (\<lambda>ps r. case qParse Q (rqQuantity r) of
        None \<Rightarrow> ps | Some q \<Rightarrow> ps @ [\<lparr>rpName = rqName r, rpMilli = qMilli Q q\<rparr>]) ps agg)
      \<Longrightarrow> p \<in> set ps \<or> (\<exists>r\<in>set agg. rpName p = rqName r)" for ps
    by (induction agg arbitrary: ps) (fastforce split: option.splits)+
  from this [of "[]"] show "p \<in> set (parse_pairs Q agg) \<Longrightarrow> \<exists>r\<in>set agg. rpName p = rqName r"
    by (simp add: parse_pairs_def)
qed

lemma pairs_key_inj:
  assumes "pairs_key x = pairs_key y" "\<forall>p\<in>set x \<union> set y. set (rpName p) \<inter> set ''=;'' = {}"
  shows "x = y"
proof (rule terminated_inj [where f = "\<lambda>p. rpName p @ ''='' @ dec_int (rpMilli p)" and c = "CHR '';''"])
  have d: "CHR '';'' \<notin> set (dec_int v)" for v using dec_int_no_sep [of v] by auto
  show "concat (map (\<lambda>r. (rpName r @ ''='' @ dec_int (rpMilli r)) @ '';'') x)
      = concat (map (\<lambda>r. (rpName r @ ''='' @ dec_int (rpMilli r)) @ '';'') y)"
    using assms(1) by (simp add: pairs_key_def)
  show "\<forall>r\<in>set x. CHR '';'' \<notin> set (rpName r @ ''='' @ dec_int (rpMilli r))"
    "\<forall>r\<in>set y. CHR '';'' \<notin> set (rpName r @ ''='' @ dec_int (rpMilli r))"
    using assms(2) d by auto
  fix r s assume r: "r \<in> set x" "s \<in> set y" "rpName r @ ''='' @ dec_int (rpMilli r) = rpName s @ ''='' @ dec_int (rpMilli s)"
  have "rpName r = rpName s \<and> dec_int (rpMilli r) = dec_int (rpMilli s)"
    using r assms(2) by (intro cut_unique [where c = "CHR ''=''"]) auto
  then show "r = s" using dec_int_inj by (cases r; cases s) simp
qed

lemma agg_key_inj:
  assumes "agg_text_ok x" "agg_text_ok y" "acKey (agg_class_of Q x) = acKey (agg_class_of Q y)"
  shows "agg_class_of Q x = agg_class_of Q y"
proof -
  have n: "set (rpName p) \<inter> set ''=;'' = {}" if "p \<in> set (parse_pairs Q v)" "agg_text_ok v" for p v
    using parse_pairs_names [OF that(1)] that(2) by (auto simp: agg_text_ok_def list_all_iff)
  have "sort_less pair_less (parse_pairs Q x) = sort_less pair_less (parse_pairs Q y)"
    using assms(3) n assms(1,2) by (intro pairs_key_inj) (auto simp: agg_class_of_def Let_def)
  then show ?thesis by (simp add: agg_class_of_def)
qed

interpretation agg_memo: memoized raw_key "agg_class_of Q" agg_text_ok for Q
  by unfold_locales (metis raw_key_inj)

interpretation strip_memo: memoized fingerprint stripped_profile profile_ok
  by unfold_locales (metis fingerprint_inj)

lemma nul_cut: "a @ nul @ x = b @ nul @ y \<Longrightarrow> nul_free a \<Longrightarrow> nul_free b \<Longrightarrow> a = b \<and> x = y"
  using cut_unique [of a "CHR 0x00" x b y] by (simp add: nul_def nul_free_def)

type_synonym fit_input = "string \<times> profile \<times> resource_qty list"

definition fit_ok :: "fit_input \<Rightarrow> bool" where
  "fit_ok = (\<lambda>(c, p, agg). nul_free c \<and> nul_free (fingerprint p) \<and> profile_ok p \<and> agg_text_ok agg)"

definition shard_key :: "'q qlib \<Rightarrow> fit_input \<Rightarrow> string" where
  "shard_key Q = (\<lambda>(c, p, agg). fingerprint p @ nul @ acKey (agg_class_of Q agg))"

definition cluster_key :: "'q qlib \<Rightarrow> fit_input \<Rightarrow> string" where
  "cluster_key Q = (\<lambda>(c, p, agg). c @ nul @ fingerprint p @ nul @ acKey (agg_class_of Q agg))"

definition cluster_fits :: "'q qlib \<Rightarrow> snapshot \<Rightarrow> fit_input \<Rightarrow> bool" where
  "cluster_fits Q snap = (\<lambda>(c, p, agg). cluster_has_fit Q snap c p (agg_class_of Q agg))"

definition shard_fits :: "'q qlib \<Rightarrow> snapshot \<Rightarrow> fit_input \<Rightarrow> bool" where
  "shard_fits Q snap = (\<lambda>(c, p, agg). shard_has_fit Q snap p (agg_class_of Q agg))"

lemma shard_key_inj:
  assumes "fit_ok (c, p, agg)" "fit_ok (c', p', agg')" "shard_key Q (c, p, agg) = shard_key Q (c', p', agg')"
  shows "p = p' \<and> agg_class_of Q agg = agg_class_of Q agg'"
proof -
  have "fingerprint p = fingerprint p' \<and> acKey (agg_class_of Q agg) = acKey (agg_class_of Q agg')"
    using assms by (intro nul_cut) (simp_all add: fit_ok_def shard_key_def)
  then show ?thesis using assms(1,2) fingerprint_inj agg_key_inj by (metis (no_types, lifting) fit_ok_def case_prod_conv)
qed

interpretation shard_memo: memoized "shard_key Q" "shard_fits Q snap" fit_ok for Q snap
proof unfold_locales
  fix x y assume ok: "fit_ok x" "fit_ok y" "shard_key Q x = shard_key Q y"
  obtain c p agg c' p' agg' where xy: "x = (c, p, agg)" "y = (c', p', agg')" by (cases x; cases y) auto
  show "shard_fits Q snap x = shard_fits Q snap y"
    using shard_key_inj [OF ok [unfolded xy]] unfolding xy by (simp add: shard_fits_def)
qed

interpretation cluster_memo: memoized "cluster_key Q" "cluster_fits Q snap" fit_ok for Q snap
proof unfold_locales
  fix x y assume ok: "fit_ok x" "fit_ok y" and e: "cluster_key Q x = cluster_key Q y"
  obtain c p agg c' p' agg' where xy: "x = (c, p, agg)" "y = (c', p', agg')" by (cases x; cases y) auto
  have k: "c = c'" "shard_key Q (c, p, agg) = shard_key Q (c', p', agg')"
    using nul_cut [of c "shard_key Q (c, p, agg)" c' "shard_key Q (c', p', agg')"] ok e
    unfolding xy by (simp_all add: cluster_key_def shard_key_def fit_ok_def)
  show "cluster_fits Q snap x = cluster_fits Q snap y"
    using shard_key_inj [OF ok [unfolded xy] k(2)] k(1) unfolding xy by (simp add: cluster_fits_def)
qed

definition z_ok :: "'q qlib \<Rightarrow> snapshot \<Rightarrow> normalizer \<Rightarrow> bool" where
  "z_ok Q snap z \<longleftrightarrow> table_of raw_key (agg_class_of Q) agg_text_ok (aggByRaw z)
    \<and> table_of fingerprint stripped_profile profile_ok (strippedByFP z)
    \<and> table_of (shard_key Q) (shard_fits Q snap) fit_ok (shardFit z)
    \<and> table_of (cluster_key Q) (cluster_fits Q snap) fit_ok (clusterFit z)"

lemma z_ok_new: "z_ok Q snap new_normalizer"
  by (simp add: z_ok_def new_normalizer_def)

lemma agg_class_for_ok:
  assumes "z_ok Q snap z" "agg_text_ok agg" "agg_class_for Q z agg = (cls, z')"
  shows "cls = agg_class_of Q agg" "z_ok Q snap z'"
proof -
  obtain c where m: "memo (raw_key agg) (agg_class_of Q agg) (aggByRaw z) = (cls, c)" "z' = z\<lparr>aggByRaw := c\<rparr>"
    using assms(3) by (auto simp: agg_class_for_def split: prod.splits)
  have t: "table_of raw_key (agg_class_of Q) agg_text_ok (aggByRaw z)" using assms(1) by (simp add: z_ok_def)
  show "cls = agg_class_of Q agg" "z_ok Q snap z'"
    using agg_memo.memo_transparent [OF t assms(2) m(1)] assms(1) by (simp_all add: m(2) z_ok_def)
qed

lemma stripped_for_ok:
  assumes "z_ok Q snap z" "profile_ok p" "stripped_for z p = (s, z')"
  shows "s = stripped_profile p" "z_ok Q snap z'"
proof -
  obtain c where m: "memo (fingerprint p) (stripped_profile p) (strippedByFP z) = (s, c)" "z' = z\<lparr>strippedByFP := c\<rparr>"
    using assms(3) by (auto simp: stripped_for_def split: prod.splits)
  have t: "table_of fingerprint stripped_profile profile_ok (strippedByFP z)" using assms(1) by (simp add: z_ok_def)
  show "s = stripped_profile p" "z_ok Q snap z'"
    using strip_memo.memo_transparent [OF t assms(2) m(1)] assms(1) by (simp_all add: m(2) z_ok_def)
qed

text \<open>Whether some machine can host the whole need.\<close>

definition has_host :: "'q qlib \<Rightarrow> snapshot \<Rightarrow> need \<Rightarrow> bool" where
  "has_host Q snap n \<longleftrightarrow>
    cluster_has_fit Q snap (nCluster n) (nProfile n) (agg_class_of Q (AggregateResources n))
    \<or> shard_has_fit Q snap (nProfile n) (agg_class_of Q (AggregateResources n))"

lemma foldable_ok:
  assumes "z_ok Q snap z" "norm_ok n" "foldable Q snap z n (agg_class_of Q (AggregateResources n)) = (fit, z')"
  shows "fit = has_host Q snap n" "z_ok Q snap z'"
proof -
  let ?x = "(nCluster n, nProfile n, AggregateResources n)"
  have ok: "fit_ok ?x" using assms(2) by (simp add: fit_ok_def norm_ok_def)
  have tc: "table_of (cluster_key Q) (cluster_fits Q snap) fit_ok (clusterFit z)" and ts: "table_of (shard_key Q) (shard_fits Q snap) fit_ok (shardFit z)"
    using assms(1) by (simp_all add: z_ok_def)
  obtain f c where mc: "memo (cluster_key Q ?x) (cluster_fits Q snap ?x) (clusterFit z) = (f, c)" by (rule prod.exhaust)
  note C = cluster_memo.memo_transparent [OF tc ok mc]
  obtain g s where ms: "memo (shard_key Q ?x) (shard_fits Q snap ?x) (shardFit z) = (g, s)" by (rule prod.exhaust)
  note S = shard_memo.memo_transparent [OF ts ok ms]
  have "(fit, z') = (if f then (True, z\<lparr>clusterFit := c\<rparr>) else (g, z\<lparr>clusterFit := c, shardFit := s\<rparr>))"
    using assms(3) mc ms
    by (cases f) (simp_all add: foldable_def Let_def cluster_key_def cluster_fits_def shard_key_def shard_fits_def)
  moreover have "has_host Q snap n \<longleftrightarrow> f \<or> g"
    unfolding C(1) S(1) by (simp add: has_host_def cluster_fits_def shard_fits_def)
  ultimately show "fit = has_host Q snap n" "z_ok Q snap z'"
    using C(2) S(2) assms(1) by (auto simp: z_ok_def split: if_splits)
qed

section \<open>What normalisation does\<close>

definition folds :: "'q qlib \<Rightarrow> snapshot \<Rightarrow> need \<Rightarrow> bool" where
  "folds Q snap n \<longleftrightarrow> same_requirement_key (nProfile n) \<noteq> None \<and> has_host Q snap n"

definition fold_key :: "'q qlib \<Rightarrow> need \<Rightarrow> group_key" where
  "fold_key Q n = (nCluster n, fingerprint (stripped_profile (nProfile n)),
     acKey (agg_class_of Q (AggregateResources n)))"

definition group_of :: "need list \<Rightarrow> fold_group" where
  "group_of ns = foldl add_member
     \<lparr>fgFirst = hd ns, fgProfile = stripped_profile (nProfile (hd ns)), fgCount = 0, fgArrival = 0\<rparr> ns"

text \<open>
  The reference: what does not fold passes through in order; then one row for each key, in the
  order of the keys.
\<close>

definition normalize_spec :: "'q qlib \<Rightarrow> snapshot \<Rightarrow> need list \<Rightarrow> need list" where
  "normalize_spec Q snap ns =
    (let fs = filter (folds Q snap) ns
     in filter (\<lambda>n. \<not> folds Q snap n) ns
        @ map (\<lambda>k. folded_need Q (group_of (filter (\<lambda>n. fold_key Q n = k) fs)))
            (sort_less group_less (map fst (group_by (fold_key Q) fs))))"

definition groups_map :: "(group_key, need list) gomap \<Rightarrow> (group_key, fold_group) gomap" where
  "groups_map m = map (\<lambda>(k, g). (k, group_of g)) m"

lemma groups_map_get: "gm_get (groups_map m) k = map_option group_of (gm_get m k)"
  unfolding groups_map_def by (induction m) auto

lemma groups_map_set: "groups_map (gm_set k g m) = gm_set k (group_of g) (groups_map m)"
  unfolding groups_map_def by (induction m) auto

lemma groups_map_keys: "map fst (groups_map m) = map fst m"
  unfolding groups_map_def by (induction m) auto

lemma group_of_snoc:
  "g \<noteq> [] \<Longrightarrow> group_of (g @ [n]) = add_member (group_of g) n"
  by (simp add: group_of_def)

definition norm_inv :: "'q qlib \<Rightarrow> snapshot \<Rightarrow> need list \<Rightarrow> norm_state \<Rightarrow> bool" where
  "norm_inv Q snap ns s \<longleftrightarrow> z_ok Q snap (nsZ s)
    \<and> nsOut s = filter (\<lambda>n. \<not> folds Q snap n) ns
    \<and> nsGroups s = groups_map (group_by (fold_key Q) (filter (folds Q snap) ns))
    \<and> nsOrder s = map fst (group_by (fold_key Q) (filter (folds Q snap) ns))"

lemma norm_inv_step:
  assumes inv: "norm_inv Q snap ns s" and n: "norm_ok n"
  shows "norm_inv Q snap (ns @ [n]) (normalize_step Q snap s n)"
proof (cases "same_requirement_key (nProfile n) = None")
  case True
  then show ?thesis using inv by (simp add: normalize_step_def norm_inv_def folds_def)
next
  case False
  then obtain sk where sk: "same_requirement_key (nProfile n) = Some sk" by blast
  note I = inv [unfolded norm_inv_def]
  obtain cls z1 where a: "agg_class_for Q (nsZ s) (AggregateResources n) = (cls, z1)" by (rule prod.exhaust)
  have ag: "agg_text_ok (AggregateResources n)" "profile_ok (nProfile n)" using n by (simp_all add: norm_ok_def)
  have A: "cls = agg_class_of Q (AggregateResources n)" "z_ok Q snap z1"
    using agg_class_for_ok [OF _ ag(1) a] I by blast+
  obtain fit z2 where f: "foldable Q snap z1 n cls = (fit, z2)" by (rule prod.exhaust)
  have F: "fit = has_host Q snap n" "z_ok Q snap z2" using foldable_ok [OF A(2) n] f A(1) by blast+
  show ?thesis
  proof (cases fit)
    case no: False
    then show ?thesis using False I F a f by (simp add: normalize_step_def norm_inv_def folds_def)
  next
    case True
    let ?m = "group_by (fold_key Q) (filter (folds Q snap) ns)"
    obtain st z3 where t: "stripped_for z2 (nProfile n) = (st, z3)" by (rule prod.exhaust)
    have T: "st = stripped_profile (nProfile n)" "z_ok Q snap z3"
      using stripped_for_ok [OF F(2) ag(2) t] by simp_all
    have k: "(nCluster n, fingerprint st, acKey cls) = fold_key Q n" by (simp add: fold_key_def T(1) A(1))
    have fo: "folds Q snap n" using False True F(1) by (simp add: folds_def)
    have gb: "group_by (fold_key Q) (filter (folds Q snap) (ns @ [n]))
        = gm_set (fold_key Q n) (gm_at [] ?m (fold_key Q n) @ [n]) ?m"
      using fo by (simp add: group_by_def gm_append_def)
    have st: "normalize_step Q snap s n
        = (let (g, order) = (case gm_get (nsGroups s) (fold_key Q n) of
                Some g \<Rightarrow> (g, nsOrder s)
              | None \<Rightarrow> (\<lparr>fgFirst = n, fgProfile = stripped_profile (nProfile n), fgCount = 0, fgArrival = 0\<rparr>,
                  nsOrder s @ [fold_key Q n]))
           in s\<lparr>nsZ := z3, nsGroups := gm_set (fold_key Q n) (add_member g n) (nsGroups s), nsOrder := order\<rparr>)"
      unfolding normalize_step_def Let_def a f t case_prod_conv k
      using sk True by (simp add: T(1) split: option.split)
    show ?thesis
    proof (cases "gm_get ?m (fold_key Q n)")
      case None
      have key: "fold_key Q n \<notin> fst ` set ?m" using None by (simp add: gm_get_none_iff)
      have g1: "add_member \<lparr>fgFirst = n, fgProfile = stripped_profile (nProfile n), fgCount = 0, fgArrival = 0\<rparr> n
          = group_of [n]" by (simp add: group_of_def)
      have e: "gm_at [] ?m (fold_key Q n) = []" using None by (simp add: gm_at_def)
      have gn: "gm_set (fold_key Q n) (group_of [n]) (groups_map ?m) = groups_map (?m @ [(fold_key Q n, [n])])"
        using groups_map_set [of "fold_key Q n" "[n]" ?m] gm_set_new [OF key, of "[n]"] by simp
      show ?thesis
        using I T(2) fo None key unfolding norm_inv_def st gb e
        by (simp add: groups_map_get g1 gn gm_set_new)
    next
      case (Some g)
      have ge: "(fold_key Q n, g) \<in> set ?m" using Some by (rule map_of_SomeD)
      have nz: "g \<noteq> []" by (rule group_by_entry(2) [OF ge])
      have e: "gm_at [] ?m (fold_key Q n) = g" using Some by (simp add: gm_at_def)
      have keys: "map fst (gm_set (fold_key Q n) (g @ [n]) ?m) = map fst ?m"
        using ge by (simp add: update_keys) force
      show ?thesis
        using I T(2) fo Some keys unfolding norm_inv_def st gb e
        by (simp add: groups_map_get groups_map_set group_of_snoc [OF nz])
    qed
  qed
qed

lemma norm_inv_loop:
  assumes "\<forall>n\<in>set ns. norm_ok n"
  shows "norm_inv Q snap ns (foldl (normalize_step Q snap)
    \<lparr>nsZ = new_normalizer, nsOut = [], nsGroups = [], nsOrder = []\<rparr> ns)"
  using assms
proof (induction ns rule: rev_induct)
  case Nil
  then show ?case by (simp add: norm_inv_def z_ok_new groups_map_def group_by_def)
next
  case (snoc n ns)
  then have "norm_inv Q snap ns (foldl (normalize_step Q snap)
      \<lparr>nsZ = new_normalizer, nsOut = [], nsGroups = [], nsOrder = []\<rparr> ns)" "norm_ok n" by simp_all
  from norm_inv_step [OF this] show ?case by simp
qed

lemma normalize_refines:
  assumes "\<forall>n\<in>set ns. norm_ok n"
  shows "normalize_demand Q snap ns = normalize_spec Q snap ns"
proof (cases "list_ex (\<lambda>n. same_requirement_key (nProfile n) \<noteq> None) ns")
  case False
  then have "filter (folds Q snap) ns = []" "filter (\<lambda>n. \<not> folds Q snap n) ns = ns"
    by (auto simp: filter_empty_conv filter_id_conv folds_def list_ex_iff)
  then show ?thesis using False by (simp add: normalize_demand_def normalize_spec_def group_by_def)
next
  case True
  let ?s = "foldl (normalize_step Q snap) \<lparr>nsZ = new_normalizer, nsOut = [], nsGroups = [], nsOrder = []\<rparr> ns"
  let ?m = "group_by (fold_key Q) (filter (folds Q snap) ns)"
  note I = norm_inv_loop [OF assms, of Q snap, unfolded norm_inv_def]
  have g: "the (gm_get (nsGroups ?s) k) = group_of (filter (\<lambda>n. fold_key Q n = k) (filter (folds Q snap) ns))"
    if "k \<in> set (map fst ?m)" for k
  proof -
    obtain g where g: "gm_get ?m k = Some g" using \<open>k \<in> set (map fst ?m)\<close> by (metis gm_get_none_iff list.set_map not_None_eq)
    then have "gm_at [] ?m k = g" by (simp add: gm_at_def)
    then have "g = filter (\<lambda>n. fold_key Q n = k) (filter (folds Q snap) ns)"
      by (simp only: gm_at_group_by)
    then show ?thesis using I g by (simp only: groups_map_get) simp
  qed
  have "map (\<lambda>k. folded_need Q (the (gm_get (nsGroups ?s) k))) (sort_less group_less (nsOrder ?s))
      = map (\<lambda>k. folded_need Q (group_of (filter (\<lambda>n. fold_key Q n = k) (filter (folds Q snap) ns))))
          (sort_less group_less (map fst ?m))"
    using I g by (intro map_cong) simp_all
  then show ?thesis using True I by (simp add: normalize_demand_def normalize_spec_def Let_def)
qed

section \<open>Demand is conserved\<close>

lemma rval_scale:
  assumes q: "quantity_laws Q val" and v: "rv_ok v" and n: "0 < n"
    and cap: "\<bar>of_int n * rval Q val v d\<bar> \<le> q_cap"
  shows "rval Q val (scale_resources Q v n) d = of_int n * rval Q val v d"
proof (cases "d \<in> rqName ` set v")
  case False
  have nm: "rqName ` set (scale_resources Q v n) \<subseteq> rqName ` set v"
    by (auto simp: scale_resources_def Let_def)
  then have "d \<notin> rqName ` set (scale_resources Q v n)" using False by blast
  then show ?thesis using rval_absent [OF q] False by simp
next
  case True
  then obtain r where r: "r \<in> set v" "rqName r = d" by blast
  let ?q = "parse_or_zero Q (rqQuantity r)" and ?f = "\<lambda>q. \<lambda>s. qAdd Q s q"
  have pw: "val ((?f q ^^ k) x) = val x + of_nat k * val q" for q x k
    by (induction k) (simp_all add: quantity_lawsD(2) [OF q] algebra_simps)
  let ?x = "(?f ?q ^^ nat (n - 1)) ?q"
  have "rval Q val v d = val ?q" using rval_mem [OF v r(1)] r(2) by simp
  moreover have "val ?x = of_int n * val ?q"
  proof -
    have "of_nat (nat (n - 1)) = (of_int n - 1 :: rat)" using n by (simp add: of_nat_nat)
    then show ?thesis unfolding pw by (simp add: left_diff_distrib)
  qed
  ultimately have x: "val ?x = of_int n * rval Q val v d" by simp
  let ?r = "r\<lparr>rqQuantity := qString Q ?x\<rparr>"
  have "v \<noteq> []" using r(1) by auto
  then have s: "scale_resources Q v n = map (\<lambda>r. let q = parse_or_zero Q (rqQuantity r)
      in r\<lparr>rqQuantity := qString Q (((\<lambda>s. qAdd Q s q) ^^ nat (n - 1)) q)\<rparr>) v"
    using n by (simp add: scale_resources_def)
  have "?r \<in> set (scale_resources Q v n)" unfolding s using r(1) by (auto simp: Let_def image_iff)
  moreover have "rv_ok (scale_resources Q v n)"
    using v unfolding s by (simp add: rv_ok_def comp_def Let_def)
  ultimately have "rval Q val (scale_resources Q v n) (rqName ?r) = val (parse_or_zero Q (rqQuantity ?r))"
    by (intro rval_mem)
  moreover obtain y where "qParse Q (qString Q ?x) = Some y" "val y = val ?x"
    using quantity_string [OF q] cap x by metis
  ultimately show ?thesis using x r(2) by (simp add: parse_or_zero_def)
qed

lemma parse_pairs_set:
  "set (parse_pairs Q agg) = {\<lparr>rpName = rqName r, rpMilli = qMilli Q q\<rparr> | r q. r \<in> set agg \<and> qParse Q (rqQuantity r) = Some q}"
proof -
  have "set (foldl (\<lambda>ps r. case qParse Q (rqQuantity r) of
        None \<Rightarrow> ps | Some q \<Rightarrow> ps @ [\<lparr>rpName = rqName r, rpMilli = qMilli Q q\<rparr>]) ps agg)
      = set ps \<union> {\<lparr>rpName = rqName r, rpMilli = qMilli Q q\<rparr> | r q. r \<in> set agg \<and> qParse Q (rqQuantity r) = Some q}"
    for ps by (induction agg arbitrary: ps) (auto split: option.splits)
  then show ?thesis by (simp add: parse_pairs_def)
qed

text \<open>A need's quantities: each dimension named once, in whole milli-units that fit.\<close>

definition exact_demand :: "'q qlib \<Rightarrow> ('q \<Rightarrow> rat) \<Rightarrow> resource_qty list \<Rightarrow> bool" where
  "exact_demand Q val v \<longleftrightarrow> rv_ok v \<and> milli_fits Q val v \<and> milli_exact Q val v"

lemma class_value:
  assumes q: "quantity_laws Q val" and ex: "exact_demand Q val x"
  shows "rval Q val x d =
    (if \<exists>m. \<lparr>rpName = d, rpMilli = m\<rparr> \<in> set (parse_pairs Q x)
     then of_int (SOME m. \<lparr>rpName = d, rpMilli = m\<rparr> \<in> set (parse_pairs Q x)) / 1000 else 0)"
proof -
  have val_pair: "of_int m = 1000 * rval Q val x d" if mem: "\<lparr>rpName = d, rpMilli = m\<rparr> \<in> set (parse_pairs Q x)" for m
  proof -
    obtain r p where r: "r \<in> set x" "rqName r = d" "qParse Q (rqQuantity r) = Some p" "m = qMilli Q p"
      using mem unfolding parse_pairs_set by auto
    have v: "rval Q val x d = val p"
      using rval_mem [of x r Q val] ex r by (simp add: exact_demand_def parse_or_zero_def)
    have "m = \<lceil>1000 * val p\<rceil>"
      using quantity_lawsD(10) [OF q, of p] ex r(4) v unfolding exact_demand_def milli_fits_def by metis
    then show ?thesis using ex v unfolding exact_demand_def milli_exact_def by metis
  qed
  have zero: "rval Q val x d = 0" if "\<nexists>m. \<lparr>rpName = d, rpMilli = m\<rparr> \<in> set (parse_pairs Q x)"
  proof (cases "d \<in> rqName ` set x")
    case True
    then obtain r where r: "r \<in> set x" "rqName r = d" by blast
    then have "qParse Q (rqQuantity r) = None"
      using that unfolding parse_pairs_set by (cases "qParse Q (rqQuantity r)") blast+
    then show ?thesis
      using rval_mem [of x r Q val] ex r quantity_lawsD(1) [OF q] by (simp add: exact_demand_def parse_or_zero_def)
  qed (rule rval_absent [OF q])
  show ?thesis
  proof (cases "\<exists>m. \<lparr>rpName = d, rpMilli = m\<rparr> \<in> set (parse_pairs Q x)")
    case True
    from val_pair [OF someI_ex [OF this]] True show ?thesis by simp
  qed (simp add: zero)
qed

lemma same_class_value:
  assumes q: "quantity_laws Q val" and ex: "exact_demand Q val x" "exact_demand Q val y"
    and t: "agg_text_ok x" "agg_text_ok y" "acKey (agg_class_of Q x) = acKey (agg_class_of Q y)"
  shows "rval Q val x d = rval Q val y d"
proof -
  have "acPairs (agg_class_of Q x) = acPairs (agg_class_of Q y)" using agg_key_inj [OF t] by simp
  then have "set (sort_less pair_less (parse_pairs Q x)) = set (sort_less pair_less (parse_pairs Q y))"
    by (simp only: agg_class_of_def Let_def agg_class.select_convs)
  then have "set (parse_pairs Q x) = set (parse_pairs Q y)" by simp
  then show ?thesis unfolding class_value [OF q ex(1)] class_value [OF q ex(2)] by simp
qed

lemma group_of_fields:
  assumes "ns \<noteq> []"
  shows "fgFirst (group_of ns) = hd ns" "fgProfile (group_of ns) = stripped_profile (nProfile (hd ns))"
    "fgCount (group_of ns) = int (length ns)"
proof -
  have am: "fgFirst (add_member g n) = fgFirst g" "fgProfile (add_member g n) = fgProfile g"
    "fgCount (add_member g n) = fgCount g + 1" for g n by (simp_all add: add_member_def Let_def)
  have f: "fgFirst (foldl add_member g xs) = fgFirst g" "fgProfile (foldl add_member g xs) = fgProfile g"
    "fgCount (foldl add_member g xs) = fgCount g + int (length xs)" for g xs
    by (induction xs arbitrary: g) (simp_all add: am)
  show "fgFirst (group_of ns) = hd ns" "fgProfile (group_of ns) = stripped_profile (nProfile (hd ns))"
    "fgCount (group_of ns) = int (length ns)" by (simp_all add: group_of_def f)
qed

lemma folded_need_fields:
  assumes "g \<noteq> []"
  shows "nCluster (folded_need Q (group_of g)) = nCluster (hd g)"
    "nProfile (folded_need Q (group_of g)) = stripped_profile (nProfile (hd g))"
    "MinUnit (folded_need Q (group_of g)) = AggregateResources (hd g)"
  by (simp_all add: folded_need_def group_of_fields [OF assms])

lemma folded_demand:
  assumes q: "quantity_laws Q val" and g: "g \<noteq> []" and k: "\<forall>n\<in>set g. fold_key Q n = k"
    and ok: "\<forall>n\<in>set g. norm_ok n \<and> exact_demand Q val (AggregateResources n)"
    and cap: "\<bar>sum_list (map (\<lambda>n. demand_of Q val n d) g)\<bar> \<le> q_cap"
  shows "demand_of Q val (folded_need Q (group_of g)) d = sum_list (map (\<lambda>n. demand_of Q val n d) g)"
    and "\<forall>n\<in>set g. rval Q val (MinUnit (folded_need Q (group_of g))) d = demand_of Q val n d"
proof -
  have h: "hd g \<in> set g" using g by simp
  have e: "demand_of Q val n d = demand_of Q val (hd g) d" if n: "n \<in> set g" for n
  proof -
    have "acKey (agg_class_of Q (AggregateResources n)) = acKey (agg_class_of Q (AggregateResources (hd g)))"
      using k n h by (metis fold_key_def prod.inject)
    then show ?thesis
      using same_class_value [OF q] ok n h unfolding demand_of_def norm_ok_def by blast
  qed
  have s: "sum_list (map (\<lambda>n. demand_of Q val n d) g) = of_int (int (length g)) * demand_of Q val (hd g) d"
    using e by (subst map_cong [OF refl, where g = "\<lambda>_. demand_of Q val (hd g) d"])
      (simp_all add: sum_list_triv)
  have "\<bar>of_int (int (length g)) * rval Q val (AggregateResources (hd g)) d\<bar> \<le> q_cap"
    using cap unfolding s by (simp add: demand_of_def)
  then have "rval Q val (scale_resources Q (AggregateResources (hd g)) (int (length g))) d
      = of_int (int (length g)) * rval Q val (AggregateResources (hd g)) d"
    using g ok h by (intro rval_scale [OF q]) (auto simp: exact_demand_def)
  then show "demand_of Q val (folded_need Q (group_of g)) d = sum_list (map (\<lambda>n. demand_of Q val n d) g)"
    unfolding s by (simp add: demand_of_def folded_need_def group_of_fields [OF g])
  show "\<forall>n\<in>set g. rval Q val (MinUnit (folded_need Q (group_of g))) d = demand_of Q val n d"
    using e by (simp add: folded_need_def group_of_fields [OF g] demand_of_def)
qed

text \<open>
  A host of a need: a machine of the snapshot the need may count on, large enough for all of it.
  A machine without a cluster is in no cluster's list, one without an instance type in no type's.
\<close>

definition host_of :: "'q qlib \<Rightarrow> snapshot \<Rightarrow> need \<Rightarrow> machine \<Rightarrow> bool" where
  "host_of Q snap n m \<longleftrightarrow> snap_get snap (ID m) = Some m
    \<and> (State m \<in> {StateIdle, StateSpeculative}
         \<and> (pinned_instance_types (nProfile n) \<noteq> None \<longrightarrow> InstanceType (MProfile m) \<noteq> '''')
       \<or> State m \<in> {StateConfigured, StateConfiguring} \<and> Cluster m = nCluster n \<and> nCluster n \<noteq> '''')
    \<and> match_profile (nProfile n) m
    \<and> machine_covers_pairs Q (effective_allocatable m) (acPairs (agg_class_of Q (AggregateResources n)))"

lemma pinned_requirement:
  assumes "pinned_instance_types p = Some ts"
  obtains r where "r \<in> set (requirements p)" "rKey r = instance_type_key" "rOperator r = OperatorIn" "rValues r = ts"
proof -
  obtain r where r: "find (\<lambda>r. rKey r = instance_type_key) (requirements p) = Some r"
      "rOperator r = OperatorIn" "rValues r = ts"
    using assms unfolding pinned_instance_types_def by (auto split: option.splits if_splits)
  have "r \<in> set (requirements p) \<and> rKey r = instance_type_key"
    using r(1) by (auto simp: find_Some_iff)
  then show ?thesis using that r(2,3) by blast
qed

lemma has_host_iff:
  assumes "snapshot_ok snap"
  shows "has_host Q snap n \<longleftrightarrow> (\<exists>m. host_of Q snap n m)"
proof -
  obtain i where i: "inv_ok i" "snap = snapshot_of i" using assms(1) by (auto simp: snapshot_ok_def)
  note L = snapshot_lists [OF i(1)] and G = snap_get_inv [OF i(1)] set_inv_machines [OF i(1)]
  let ?p = "nProfile n" and ?c = "agg_class_of Q (AggregateResources n)"
  have cl: "cluster_has_fit Q snap (nCluster n) ?p ?c \<longleftrightarrow> (\<exists>m. gm_get (byID i) (ID m) = Some m
      \<and> State m \<in> {StateConfigured, StateConfiguring} \<and> Cluster m = nCluster n \<and> nCluster n \<noteq> ''''
      \<and> fits_whole Q ?p ?c m)"
    unfolding cluster_has_fit_def i(2) L by (auto simp: list_ex_iff G(2))
  have sh: "shard_has_fit Q snap ?p ?c \<longleftrightarrow> (\<exists>m. gm_get (byID i) (ID m) = Some m
      \<and> State m \<in> {StateIdle, StateSpeculative}
      \<and> (pinned_instance_types ?p \<noteq> None \<longrightarrow> InstanceType (MProfile m) \<noteq> '''') \<and> fits_whole Q ?p ?c m)"
  proof (cases "pinned_instance_types ?p")
    case None
    then show ?thesis unfolding shard_has_fit_def i(2) Let_def L by (auto simp: list_ex_iff G(2))
  next
    case (Some ts)
    obtain r where r: "r \<in> set (requirements ?p)" "rKey r = instance_type_key" "rOperator r = OperatorIn" "rValues r = ts"
      by (rule pinned_requirement [OF Some])
    have "InstanceType (MProfile m) \<in> set ts" if "fits_whole Q ?p ?c m" "InstanceType (MProfile m) \<noteq> ''''" for m
      using match_in_type [OF _ r(1-3) that(2)] that(1) r(4) by (simp add: fits_whole_def)
    then show ?thesis unfolding shard_has_fit_def i(2) Let_def L Some by (auto simp: list_ex_iff G(2))
  qed
  show ?thesis unfolding has_host_def cl sh host_of_def unfolding i(2) G(1) fits_whole_def by blast
qed

lemma stripped_no_same: "same_requirement_key (stripped_profile p) = None"
proof -
  have "find (\<lambda>r. rOperator r = OperatorSame) (requirements (stripped_profile p)) = None"
    by (auto simp: find_none_iff stripped_profile_def new_profile_def canon_req_def Let_def)
  then show ?thesis by (simp add: same_requirement_key_def)
qed

text \<open>The memo tables of the normaliser cannot be told from classifying each need anew, and its
  result is deterministic: what does not fold passes through in order, then one row for each
  cluster, profile and aggregate that folds, in the order of these keys.\<close>

theorem normalize_memo_free:
  assumes "\<forall>n\<in>set ns. norm_ok n"
  shows "normalize_demand Q snap ns = normalize_spec Q snap ns"
  by (rule normalize_refines [OF assms])

text \<open>The earliest arrival among needs, 0 when none of them has one.\<close>

definition earliest_arrival :: "need list \<Rightarrow> int" where
  "earliest_arrival g = (let as = filter (\<lambda>t. t \<noteq> 0) (map ArrivalUnixNanos g) in if as = [] then 0 else Min (set as))"

lemma group_of_arrival:
  assumes "g \<noteq> []"
  shows "fgArrival (group_of g) = earliest_arrival g"
proof -
  have "fgArrival (foldl add_member \<lparr>fgFirst = h, fgProfile = q, fgCount = 0, fgArrival = 0\<rparr> g) = earliest_arrival g" for h q
  proof (induction g rule: rev_induct)
    case Nil
    then show ?case by (simp add: earliest_arrival_def)
  next
    case (snoc n g)
    let ?as = "filter (\<lambda>t. t \<noteq> 0) (map ArrivalUnixNanos g)"
    have "0 \<notin> set ?as" by simp
    then have z: "?as \<noteq> [] \<Longrightarrow> Min (set ?as) \<noteq> 0" by (metis List.finite_set Min_in set_empty)
    have e: "earliest_arrival (g @ [n]) = (if ArrivalUnixNanos n \<noteq> 0
        \<and> (earliest_arrival g = 0 \<or> ArrivalUnixNanos n < earliest_arrival g)
      then ArrivalUnixNanos n else earliest_arrival g)"
    proof (cases "?as = []")
      case False
      then have m: "earliest_arrival g = Min (set ?as)" by (simp add: earliest_arrival_def Let_def)
      have "earliest_arrival (g @ [n]) = (if ArrivalUnixNanos n = 0 then Min (set ?as)
          else Min (insert (ArrivalUnixNanos n) (set ?as)))"
        using False by (simp add: earliest_arrival_def Let_def)
      moreover have "Min (insert x (set ?as)) = min x (Min (set ?as))" for x
        using False by (metis List.finite_set Min_insert set_empty)
      ultimately show ?thesis using z [OF False] unfolding m by (auto simp: min_def)
    qed (simp add: earliest_arrival_def Let_def)
    show ?case using snoc.IH unfolding e by (simp add: add_member_def Let_def)
  qed
  then show ?thesis by (simp add: group_of_def)
qed

lemma mset_by_groups:
  assumes "distinct ks" "\<forall>x\<in>set xs. key x \<in> set ks"
  shows "mset (concat (map (\<lambda>k. filter (\<lambda>x. key x = k) xs) ks)) = mset xs"
  using assms
proof (induction ks arbitrary: xs)
  case (Cons k ks)
  let ?rest = "filter (\<lambda>x. key x \<noteq> k) xs"
  have f: "filter (\<lambda>x. key x = k') xs = filter (\<lambda>x. key x = k') ?rest" if "k' \<in> set ks" for k'
    using that Cons.prems(1) by (auto simp: filter_filter intro: filter_cong)
  have "concat (map (\<lambda>k. filter (\<lambda>x. key x = k) xs) ks) = concat (map (\<lambda>k. filter (\<lambda>x. key x = k) ?rest) ks)"
    using f by (intro arg_cong [where f = concat] map_cong) simp_all
  moreover have "mset (concat (map (\<lambda>k. filter (\<lambda>x. key x = k) ?rest) ks)) = mset ?rest"
    using Cons.prems by (intro Cons.IH) auto
  ultimately show ?case using multiset_partition [of "mset xs" "\<lambda>x. key x = k"] by simp
qed simp

text \<open>
  The plain need a group of co-located needs is folded into: it keeps their cluster and the rest
  of their profile, asks for as much as they do together on machines that can each take one of
  them whole, and dates from the earliest of them.
\<close>

definition folded_from :: "'q qlib \<Rightarrow> ('q \<Rightarrow> rat) \<Rightarrow> need list \<Rightarrow> need \<Rightarrow> bool" where
  "folded_from Q val g r \<longleftrightarrow> g \<noteq> [] \<and> same_requirement_key (nProfile r) = None
    \<and> (\<forall>d. demand_of Q val r d = sum_list (map (\<lambda>n. demand_of Q val n d) g))
    \<and> (\<forall>n\<in>set g. nCluster r = nCluster n \<and> nProfile r = stripped_profile (nProfile n)
        \<and> (\<forall>d. rval Q val (MinUnit r) d = demand_of Q val n d))
    \<and> ArrivalUnixNanos r = earliest_arrival g \<and> Group r = '''' \<and> \<not> AcquisitionParked r"

lemma folded_from_group:
  assumes q: "quantity_laws Q val" and g: "g \<noteq> []" and k: "\<forall>n\<in>set g. fold_key Q n = k"
    and ok: "\<forall>n\<in>set g. norm_ok n \<and> exact_demand Q val (AggregateResources n)
      \<and> profile_ok (stripped_profile (nProfile n))"
    and cap: "\<forall>d. \<bar>sum_list (map (\<lambda>n. demand_of Q val n d) g)\<bar> \<le> q_cap"
  shows "folded_from Q val g (folded_need Q (group_of g))"
proof -
  have h: "hd g \<in> set g" using g by simp
  have "nCluster (hd g) = nCluster n \<and> stripped_profile (nProfile (hd g)) = stripped_profile (nProfile n)"
    if n: "n \<in> set g" for n
  proof -
    have "fold_key Q n = fold_key Q (hd g)" using k n h by simp
    then have "nCluster (hd g) = nCluster n"
      "fingerprint (stripped_profile (nProfile (hd g))) = fingerprint (stripped_profile (nProfile n))"
      by (simp_all add: fold_key_def)
    then show ?thesis using fingerprint_inj ok n h by blast
  qed
  moreover have "norm_ok n \<and> exact_demand Q val (AggregateResources n)" if "n \<in> set g" for n
    using ok that by blast
  ultimately show ?thesis
    using folded_demand [OF q g k] cap stripped_no_same g
    by (simp add: folded_from_def folded_need_fields [OF g] folded_need_def [of Q "group_of g"]
        group_of_fields [OF g] group_of_arrival [OF g])
qed

text \<open>Needs as they may come: keys without separators, whole milli-units, nothing negative.\<close>

definition normalizable :: "'q qlib \<Rightarrow> ('q \<Rightarrow> rat) \<Rightarrow> need \<Rightarrow> bool" where
  "normalizable Q val n \<longleftrightarrow> norm_ok n \<and> exact_demand Q val (AggregateResources n)
    \<and> profile_ok (stripped_profile (nProfile n)) \<and> (\<forall>d. 0 \<le> demand_of Q val n d)"

lemma normalize_groups:
  assumes q: "quantity_laws Q val" and ok: "\<forall>n\<in>set ns. normalizable Q val n"
    and cap: "\<forall>d. sum_list (map (\<lambda>n. demand_of Q val n d) ns) \<le> q_cap"
    and fs_def: "fs = filter (folds Q snap) ns"
  obtains gs rs where "normalize_demand Q snap ns = filter (\<lambda>n. \<not> folds Q snap n) ns @ rs"
    "list_all2 (folded_from Q val) gs rs" "mset (concat gs) = mset fs"
    "\<And>i j a b. i < length gs \<Longrightarrow> j < length gs \<Longrightarrow> a \<in> set (gs ! i) \<Longrightarrow> b \<in> set (gs ! j) \<Longrightarrow>
      fold_key Q a = fold_key Q b \<Longrightarrow> i = j"
proof -
  let ?D = "\<lambda>d n. demand_of Q val n d" and ?grp = "\<lambda>k. filter (\<lambda>n. fold_key Q n = k) fs"
  let ?ks = "sort_less group_less (map fst (group_by (fold_key Q) fs))"
  have sub: "set (?grp k) \<subseteq> set ns" for k by (auto simp: fs_def)
  have norm: "normalize_demand Q snap ns
      = filter (\<lambda>n. \<not> folds Q snap n) ns @ map (\<lambda>k. folded_need Q (group_of (?grp k))) ?ks"
    using normalize_refines [of ns Q snap] ok by (simp add: normalize_spec_def Let_def fs_def normalizable_def)
  have ks: "set ?ks = fold_key Q ` set fs" "distinct ?ks"
    using gm_keys_group_by [of "fold_key Q" fs] gm_ok_group_by [of "fold_key Q" fs] by simp_all
  have nz: "?grp k \<noteq> []" if "k \<in> set ?ks" for k using that unfolding ks(1) by (auto simp: filter_empty_conv)
  have pos: "0 \<le> sum_list (map (?D d) xs)" if "set xs \<subseteq> set ns" for xs d
    using that ok by (intro sum_list_nonneg) (auto simp: normalizable_def)
  have part: "sum_list (map (?D d) (filter P xs)) + sum_list (map (?D d) (filter (\<lambda>n. \<not> P n) xs))
      = sum_list (map (?D d) xs)" for P xs d by (induction xs) simp_all
  have grp_le: "\<bar>sum_list (map (?D d) (?grp k))\<bar> \<le> q_cap" for d k
    using part [of d "\<lambda>n. fold_key Q n = k" fs] part [of d "folds Q snap" ns]
      pos [of "?grp k" d] pos [of "filter (\<lambda>n. fold_key Q n \<noteq> k) fs" d]
      pos [of "filter (\<lambda>n. \<not> folds Q snap n) ns" d] cap [rule_format, of d] by (auto simp: fs_def)
  have ff: "folded_from Q val (?grp k) (folded_need Q (group_of (?grp k)))" if k: "k \<in> set ?ks" for k
    using ok sub grp_le by (intro folded_from_group [OF q nz [OF k], of k]) (auto simp: normalizable_def fs_def)
  show ?thesis
  proof (rule that [of "map (\<lambda>k. folded_need Q (group_of (?grp k))) ?ks" "map ?grp ?ks"])
    show "list_all2 (folded_from Q val) (map ?grp ?ks) (map (\<lambda>k. folded_need Q (group_of (?grp k))) ?ks)"
      unfolding list_all2_map1 list_all2_map2 by (rule list.rel_refl_strong) (rule ff)
    show "mset (concat (map ?grp ?ks)) = mset fs"
      by (rule mset_by_groups [OF ks(2)]) (simp add: ks(1) del: set_sort_less)
    fix i j a b assume "i < length (map ?grp ?ks)" "j < length (map ?grp ?ks)"
      "a \<in> set (map ?grp ?ks ! i)" "b \<in> set (map ?grp ?ks ! j)" "fold_key Q a = fold_key Q b"
    then show "i = j" using nth_eq_iff_index_eq [OF ks(2)] by simp
  qed (rule norm)
qed

text \<open>C19: Normalisation changes what is asked for in form only, and folds only what belongs together.
  The needs that do not ask for one domain, and those no machine of the snapshot could host whole,
  pass through in order. The others are divided into groups, each of them in one group: every need
  of a group has the same cluster, the same profile but for the co-location, and the same demand,
  needs that agree in these are in one group, and each group becomes one row that asks for their
  sum in units of one of them and dates from the earliest. So the total demand is conserved.\<close>

theorem normalize_conserves:
  assumes "quantity_laws Q val" "snapshot_ok snap" "\<forall>n\<in>set ns. normalizable Q val n"
    and "\<forall>d. sum_list (map (\<lambda>n. demand_of Q val n d) ns) \<le> q_cap"
  shows "let folds = (\<lambda>n. same_requirement_key (nProfile n) \<noteq> None \<and> (\<exists>m. host_of Q snap n m))
    in \<exists>gs rs. normalize_demand Q snap ns = filter (\<lambda>n. \<not> folds n) ns @ rs
      \<and> mset (concat gs) = mset (filter folds ns) \<and> list_all2 (folded_from Q val) gs rs
      \<and> (\<forall>i<length gs. \<forall>j<length gs. \<forall>a\<in>set (gs ! i). \<forall>b\<in>set (gs ! j).
          nCluster a = nCluster b \<and> stripped_profile (nProfile a) = stripped_profile (nProfile b)
          \<and> AggregateResources a = AggregateResources b \<longrightarrow> i = j)
      \<and> (\<forall>d. sum_list (map (\<lambda>n. demand_of Q val n d) (normalize_demand Q snap ns))
          = sum_list (map (\<lambda>n. demand_of Q val n d) ns))"
proof -
  have f: "(\<lambda>n. same_requirement_key (nProfile n) \<noteq> None \<and> (\<exists>m. host_of Q snap n m)) = folds Q snap"
    unfolding folds_def has_host_iff [OF assms(2)] by blast
  obtain gs rs where g: "normalize_demand Q snap ns = filter (\<lambda>n. \<not> folds Q snap n) ns @ rs"
    "list_all2 (folded_from Q val) gs rs" "mset (concat gs) = mset (filter (folds Q snap) ns)"
    and one: "\<And>i j a b. i < length gs \<Longrightarrow> j < length gs \<Longrightarrow> a \<in> set (gs ! i) \<Longrightarrow> b \<in> set (gs ! j) \<Longrightarrow>
      fold_key Q a = fold_key Q b \<Longrightarrow> i = j"
    using normalize_groups [OF assms(1,3,4) refl] by metis
  let ?D = "\<lambda>d n. demand_of Q val n d"
  have "sum_list (map (?D d) rs) = sum_list (map (?D d) (concat gs))" for d
    using g(2) by (induction rule: list_all2_induct) (simp_all add: folded_from_def)
  moreover have "sum_list (map (?D d) (concat gs)) = sum_list (map (?D d) (filter (folds Q snap) ns))" for d
    using g(3) by (metis mset_map sum_mset_sum_list)
  moreover have "sum_list (map (?D d) (filter (\<lambda>n. \<not> folds Q snap n) ns))
      + sum_list (map (?D d) (filter (folds Q snap) ns)) = sum_list (map (?D d) ns)" for d by (induction ns) simp_all
  ultimately have tot: "\<forall>d. sum_list (map (?D d) (normalize_demand Q snap ns)) = sum_list (map (?D d) ns)"
    unfolding g(1) by simp
  have "fold_key Q a = fold_key Q b" if "nCluster a = nCluster b"
    "stripped_profile (nProfile a) = stripped_profile (nProfile b)" "AggregateResources a = AggregateResources b" for a b
    using that by (simp add: fold_key_def)
  then show ?thesis unfolding Let_def f using g tot one by (intro exI [of _ gs] exI [of _ rs]) blast
qed

definition same_demand :: "need list" where
  "same_demand = [sample_need ''c1'' ''4'', sample_need ''c1'' ''4'', sample_need ''c2'' ''4'']"

lemma four_value: "rval int_lib of_int [\<lparr>rqName = ''cpu'', rqQuantity = ''4''\<rparr>] d = (if d = ''cpu'' then 4 else 0)"
proof -
  have "parse_or_zero int_lib ''4'' = 4" by code_simp
  then show ?thesis by (simp add: rval_def to_qty_map_def gm_at_def) (simp add: int_lib_def)
qed

lemma four_demand: "demand_of int_lib of_int (sample_need c ''4'') d = (if d = ''cpu'' then 4 else 0)"
  by (simp add: demand_of_def sample_need_def four_value)

lemma four_exact: "exact_demand int_lib of_int [\<lparr>rqName = ''cpu'', rqQuantity = ''4''\<rparr>]"
  by (simp add: exact_demand_def rv_ok_def milli_fits_def milli_exact_def four_value in_i64_def)

lemma sample_norm_ok: "norm_ok (sample_need ''c1'' ''4'')" "norm_ok (sample_need ''c2'' ''4'')"
  "profile_ok (stripped_profile (nProfile (sample_need ''c1'' ''4'')))"
  "profile_ok (stripped_profile (nProfile (sample_need ''c2'' ''4'')))"
  by code_simp+

theorem normalize_conserves_witness:
  "sum_list (map (\<lambda>n. demand_of int_lib of_int n ''cpu'')
      (normalize_demand int_lib (snapshot_of sample_inventory) same_demand)) = 12"
proof -
  have "\<forall>n\<in>set same_demand. normalizable int_lib of_int n"
    by (simp add: same_demand_def normalizable_def four_demand sample_norm_ok) (simp add: sample_need_def four_exact)
  moreover have "\<forall>d. sum_list (map (\<lambda>n. demand_of int_lib of_int n d) same_demand) \<le> q_cap"
    by (simp add: same_demand_def four_demand q_cap_def)
  ultimately have "sum_list (map (\<lambda>n. demand_of int_lib of_int n ''cpu'')
      (normalize_demand int_lib (snapshot_of sample_inventory) same_demand))
    = sum_list (map (\<lambda>n. demand_of int_lib of_int n ''cpu'') same_demand)"
    using normalize_conserves [OF int_lib_laws sample_snapshot_ok] unfolding Let_def by blast
  then show ?thesis by (simp add: same_demand_def four_demand)
qed

theorem normalize_memo_free_witness:
  "normalize_demand int_lib (snapshot_of sample_inventory) same_demand
    = normalize_spec int_lib (snapshot_of sample_inventory) same_demand"
  by (rule normalize_memo_free) (simp add: same_demand_def sample_norm_ok)

end
