(* ===== verification/CycleProps.thy ===== *)
theory CycleProps
  imports Cycle
begin

text \<open>
  The one-worker run of \<open>run_queue\<close> is a run of the workers' relation, and it ends: the fuel a
  cycle needs is bounded by its needs and machines, and so are the needs it re-queues, so that the
  work channel cannot fill when it has room for them.
\<close>

section \<open>One iteration\<close>

text \<open>The machines of a state that a precedence could still take.\<close>

definition takeable :: "state \<Rightarrow> precedence \<Rightarrow> shared_state \<Rightarrow> string set" where
  "takeable st prec s = {k \<in> ID ` set (snap_by_state (ssSnap s) st). displaceable_by s k prec}"

lemma finite_takeable [simp]: "finite (takeable st prec s)"
  by (simp add: takeable_def)

text \<open>What a worker's view of the cycle satisfies.\<close>

definition worker_ok :: "need list \<Rightarrow> worker \<Rightarrow> bool" where
  "worker_ok ns w \<longleftrightarrow> snapshot_ok (ssSnap (wkShared w)) \<and> fp_unique ns
    \<and> claims_valid ns (wkShared w) \<and> cache_ok (ssSnap (wkShared w)) ns (wkCache w)"

definition need_prec :: "need list \<Rightarrow> nat \<Rightarrow> precedence" where
  "need_prec ns n = precedence_from_profile (nProfile (ns ! n))"

definition proposal_for ::
    "'q qlib \<Rightarrow> need list \<Rightarrow> nat \<Rightarrow> state \<Rightarrow> shared_state \<Rightarrow> int \<Rightarrow> proposal" where
  "proposal_for Q ns n st s retries =
    (let cands = find_candidates_for Q (build_pool (ssSnap s) st (nProfile (ns ! n))) s st (need_prec ns n)
           (ns ! n) n (compute_deficit Q ns n s)
     in \<lparr>pNeed = n, pBucket = caBucket cands, pMachines = caMachines cands,
         pObservedSeq = bucket_seq s (caBucket cands), pPrecedence = need_prec ns n,
         pMode = mode_for Q (ns ! n), pRetriesLeft = retries\<rparr>)"

lemma proposal_for_simps [simp]:
  "pNeed (proposal_for Q ns n st s r) = n" "pPrecedence (proposal_for Q ns n st s r) = need_prec ns n"
  "pRetriesLeft (proposal_for Q ns n st s r) = r"
  by (simp_all add: proposal_for_def Let_def)

text \<open>A worker that runs alone never meets a conflict: its candidates are all takeable.\<close>

lemma proposal_for_props:
  assumes ok: "snapshot_ok (ssSnap s)" and n: "n < length ns" and st: "st = StateIdle \<or> st = StateSpeculative"
  shows "worker_proposal Q ns s (proposal_for Q ns n st s r)"
    and "set (pMachines (proposal_for Q ns n st s r)) \<subseteq> takeable st (need_prec ns n) s"
    and "pMachines (proposal_for Q ns n st s r) \<noteq> [] \<Longrightarrow> commits s (proposal_for Q ns n st s r)"
proof -
  let ?p = "proposal_for Q ns n st s r" and ?pl = "build_pool (ssSnap s) st (nProfile (ns ! n))"
  have mem: "\<exists>m. ID m = k \<and> m \<in> set (snap_by_state (ssSnap s) st)
      \<and> eligible Q (nProfile (ns ! n)) s (need_prec ns n) (MinUnit (ns ! n)) m
      \<and> (\<forall>sk. same_requirement_key (nProfile (ns ! n)) = Some sk \<longrightarrow> same_domain_for s n \<noteq> '''' \<longrightarrow>
          lookup_attribute sk m = Some (same_domain_for s n))" if k: "k \<in> set (pMachines ?p)" for k
  proof -
    have "k \<in> set (caMachines (find_candidates_for Q ?pl s st (need_prec ns n) (ns ! n) n (compute_deficit Q ns n s)))"
      using k by (simp add: proposal_for_def Let_def)
    from find_candidates_mem [OF this] show ?thesis
      using build_pool_state [OF ok] unfolding build_pool_mem(2) by blast
  qed
  show "set (pMachines ?p) \<subseteq> takeable st (need_prec ns n) s"
    using mem by (fastforce simp: takeable_def eligible_def)
  then have disp: "\<forall>k\<in>set (pMachines ?p). displaceable_by s k (need_prec ns n)" by (auto simp: takeable_def)
  show "worker_proposal Q ns s ?p"
    using n st by (auto simp: worker_proposal_def proposal_for_def need_prec_def Let_def worker_view_def)
  have "bucket_seq s (pBucket ?p) = pObservedSeq ?p" by (simp add: proposal_for_def Let_def)
  then show "pMachines ?p \<noteq> [] \<Longrightarrow> commits s ?p"
    using disp by (cases "pMode ?p") (auto simp: commits_def neq_Nil_conv)
qed

definition pushed_by :: "result \<Rightarrow> queued_need list" where
  "pushed_by r = filter (\<lambda>d. qRetriesLeft d > 0) (resDisplaced r)"

lemma need_iter_cases:
  assumes ok: "worker_ok ns w" and n: "n < length ns" and st: "st = StateIdle \<or> st = StateSpeculative"
    and it: "need_iter Q ns n st w = (oc, w')"
  defines "s \<equiv> wkShared w" and "p \<equiv> proposal_for Q ns n st (wkShared w) (wkRetries w)"
  shows "(oc = Return \<and> w' = w \<and> is_zero Q (compute_deficit Q ns n s))
    \<or> cache_ok (ssSnap s) ns (wkCache w') \<and> wkRetries w' = wkRetries w \<and>
      (oc = Break \<and> wkShared w' = s \<and> wkPushed w' = wkPushed w \<and> pMachines p = []
      \<or> pMachines p \<noteq> [] \<and> commits s p \<and> wkShared w' = snd (propose p s)
        \<and> wkPushed w' = wkPushed w @ pushed_by (fst (propose p s))
        \<and> oc = (if has_topology_constraint (nProfile (ns ! n)) then Break else Again))"
proof (cases "is_zero Q (compute_deficit Q ns n s)")
  case True
  then show ?thesis using it by (simp add: need_iter_def s_def)
next
  case False
  obtain pl c' where g: "pool_cache_get (ssSnap s) st (nProfile (ns ! n)) (wkCache w) = (pl, c')" by (rule prod.exhaust)
  have pl: "pl = build_pool (ssSnap s) st (nProfile (ns ! n))" "cache_ok (ssSnap s) ns c'"
    using pool_cache_transparent [OF _ _ _ g] ok n unfolding worker_ok_def s_def by (meson nth_mem)+
  let ?cands = "find_candidates_for Q pl s st (need_prec ns n) (ns ! n) n (compute_deficit Q ns n s)"
  have pm: "pMachines p = caMachines ?cands" by (simp add: p_def proposal_for_def Let_def pl s_def)
  have pe: "p = \<lparr>pNeed = n, pBucket = caBucket ?cands, pMachines = caMachines ?cands,
      pObservedSeq = bucket_seq s (caBucket ?cands), pPrecedence = need_prec ns n,
      pMode = mode_for Q (ns ! n), pRetriesLeft = wkRetries w\<rparr>"
    by (simp add: p_def proposal_for_def Let_def pl s_def)
  note i = it [unfolded need_iter_def Let_def, folded s_def, folded need_prec_def]
  show ?thesis
  proof (cases "caMachines ?cands = []")
    case True
    then have "oc = Break" "w' = w\<lparr>wkCache := c'\<rparr>" using i False g by simp_all
    then show ?thesis using pm True pl(2) by (simp add: s_def)
  next
    case ne: False
    have cm: "commits s p" "claims_ok s"
      using proposal_for_props(3) [of s n ns st Q "wkRetries w", folded p_def [folded s_def]] ok n st ne pm
      by (simp_all add: worker_ok_def claims_valid_def s_def)
    obtain r s2 where pr: "propose p s = (r, s2)" by (rule prod.exhaust)
    have "resStatus r = StatusCommitted" using propose_commit(1) [OF cm(2,1)] pr by simp
    then have "oc = (if has_topology_constraint (nProfile (ns ! n)) then Break else Again)"
      "w' = w\<lparr>wkCache := c', wkShared := s2, wkPushed := wkPushed w @ pushed_by r\<rparr>"
      using i False g ne pr unfolding pe by (auto simp: pushed_by_def)
    then show ?thesis using cm pr pm ne pl(2) by simp
  qed
qed

section \<open>Progress\<close>

lemma propose_displaceable:
  assumes ok: "claims_ok s" and c: "commits s p"
  shows "displaceable_by (snd (propose p s)) k (pPrecedence p)
    \<longleftrightarrow> k \<notin> set (commit_of s p) \<and> displaceable_by s k (pPrecedence p)"
  using propose_commit(4) [OF ok c, of k] by (simp add: displaceable_by_def new_record_def)

lemma takeable_decreases:
  assumes ok: "claims_ok s" and c: "commits s p" and ne: "pMachines p \<noteq> []"
    and sub: "set (pMachines p) \<subseteq> takeable st (pPrecedence p) s"
  shows "card (takeable st (pPrecedence p) (snd (propose p s))) < card (takeable st (pPrecedence p) s)"
proof (rule psubset_card_mono)
  have sn: "ssSnap (snd (propose p s)) = ssSnap s" by (rule propose_static(1) [OF ok])
  have "set (commit_of s p) = set (pMachines p)" using sub by (auto simp: set_commit_of takeable_def)
  then have "takeable st (pPrecedence p) (snd (propose p s)) = takeable st (pPrecedence p) s - set (pMachines p)"
    using propose_displaceable [OF ok c] by (auto simp: takeable_def sn)
  then show "takeable st (pPrecedence p) (snd (propose p s)) \<subset> takeable st (pPrecedence p) s"
    using sub ne by (auto simp: neq_Nil_conv)
qed simp

text \<open>
  The rank of a precedence among those of the needs (the lowest has rank 1), and the sum over all
  claims of the ranks above the lowest: each displacement raises it.
\<close>

definition prec_rank :: "need list \<Rightarrow> precedence \<Rightarrow> nat" where
  "prec_rank ns q = card {x \<in> need_prec ns ` {..<length ns}. x \<le> q}"

definition claim_rank :: "need list \<Rightarrow> shared_state \<Rightarrow> string \<Rightarrow> nat" where
  "claim_rank ns s k =
    (case gm_get (claimedBy s) k of None \<Rightarrow> 0 | Some c \<Rightarrow> prec_rank ns (cPrecedence c) - 1)"

definition machine_ids :: "shared_state \<Rightarrow> string set" where
  "machine_ids s = {k. snap_get (ssSnap s) k \<noteq> None}"

definition potential :: "need list \<Rightarrow> shared_state \<Rightarrow> nat" where
  "potential ns s = (\<Sum>k\<in>machine_ids s. claim_rank ns s k)"

lemma finite_machine_ids: "finite (machine_ids s)"
proof -
  have "machine_ids s \<subseteq> fst ` set (snById (ssSnap s))"
    by (auto simp: machine_ids_def snap_get_def gm_get_none_iff split: option.splits)
  then show ?thesis by (rule finite_subset) simp
qed

lemma prec_rank_less:
  assumes "x < y" "y \<in> need_prec ns ` {..<length ns}"
  shows "prec_rank ns x < prec_rank ns y"
  unfolding prec_rank_def
  using assms by (intro psubset_card_mono) (auto simp: less_le_not_le)

lemma prec_rank_pos: "y \<in> need_prec ns ` {..<length ns} \<Longrightarrow> 0 < prec_rank ns y"
  unfolding prec_rank_def by (subst card_gt_0_iff) auto

text \<open>How often all the machines together can change hands: each once for each level above the lowest.\<close>

definition displacements :: "need list \<Rightarrow> nat \<Rightarrow> nat" where
  "displacements ns machines = machines * (card (need_prec ns ` {..<length ns}) - 1)"

lemma displacements_le: "displacements ns k \<le> k * length ns"
proof -
  have "card (need_prec ns ` {..<length ns}) \<le> length ns"
    using card_image_le [of "{..<length ns}" "need_prec ns"] by simp
  then have "card (need_prec ns ` {..<length ns}) - 1 \<le> length ns" by simp
  then show ?thesis unfolding displacements_def by (rule mult_le_mono2)
qed

lemma potential_bound: "potential ns s \<le> displacements ns (card (machine_ids s))"
proof -
  have "prec_rank ns y \<le> card (need_prec ns ` {..<length ns})" for y
    unfolding prec_rank_def by (intro card_mono) auto
  then have "claim_rank ns s k \<le> card (need_prec ns ` {..<length ns}) - 1" for k
    by (auto simp: claim_rank_def split: option.splits intro: diff_le_mono)
  then show ?thesis unfolding potential_def displacements_def
    using sum_bounded_above [of "machine_ids s" "claim_rank ns s"] by fastforce
qed

lemma displaced_count:
  assumes ok: "claims_ok s" and c: "commits s p"
  shows "length (resDisplaced (fst (propose p s)))
    \<le> card {k \<in> set (commit_of s p). gm_get (claimedBy s) k \<noteq> None}"
proof -
  let ?ds = "resDisplaced (fst (propose p s))"
  let ?low = "filter (\<lambda>m. gm_get (claimedBy s) m \<noteq> None \<and> displaceable_by s m (pPrecedence p)) (pMachines p)"
  have d: "distinct (map qNeed ?ds)" by (rule propose_commit(8) [OF ok c])
  have "qNeed ` set ?ds \<subseteq> (\<lambda>m. cNeed (the (gm_get (claimedBy s) m))) ` set ?low"
  proof
    fix n assume "n \<in> qNeed ` set ?ds"
    then obtain q where q: "q \<in> set ?ds" "n = qNeed q" by auto
    then have "budget_after (map (\<lambda>m. (m, the (gm_get (claimedBy s) m))) ?low) (qNeed q) \<noteq> None"
      using propose_commit(9) [OF ok c] by simp
    then have "filter (\<lambda>d. cNeed (snd d) = qNeed q) (map (\<lambda>m. (m, the (gm_get (claimedBy s) m))) ?low) \<noteq> []"
      by (auto simp: budget_after_def Let_def)
    then show "n \<in> (\<lambda>m. cNeed (the (gm_get (claimedBy s) m))) ` set ?low"
      using q(2) by (auto simp: filter_empty_conv image_iff)
  qed
  then have "card (qNeed ` set ?ds) \<le> card (set ?low)" by (rule surj_card_le [rotated]) simp
  moreover have "card (qNeed ` set ?ds) = length ?ds"
    using distinct_card [OF d] by simp
  moreover have "set ?low = {k \<in> set (commit_of s p). gm_get (claimedBy s) k \<noteq> None}"
    by (auto simp: set_commit_of)
  ultimately show ?thesis by simp
qed

lemma potential_grows:
  assumes v: "claims_valid ns s" and wp: "worker_proposal Q ns s p" and c: "commits s p"
  shows "potential ns s + length (resDisplaced (fst (propose p s))) \<le> potential ns (snd (propose p s))"
proof -
  let ?s = "snd (propose p s)" and ?D = "{k \<in> set (commit_of s p). gm_get (claimedBy s) k \<noteq> None}"
  have ok: "claims_ok s" and sn: "snapshot_ok (ssSnap s)" using v by (simp_all add: claims_valid_def)
  have ids: "machine_ids ?s = machine_ids s" by (simp add: machine_ids_def propose_static(1) [OF ok])
  have sub: "?D \<subseteq> machine_ids s"
    using worker_proposal_wanted [OF sn wp] by (fastforce simp: set_commit_of wanted_def machine_ids_def)
  have pp: "pPrecedence p \<in> need_prec ns ` {..<length ns}"
    using wp by (auto simp: worker_proposal_def need_prec_def)
  have up: "claim_rank ns s k + (if k \<in> ?D then 1 else 0) \<le> claim_rank ns ?s k" for k
  proof (cases "k \<in> set (commit_of s p)")
    case True
    then have r: "claim_rank ns ?s k = prec_rank ns (pPrecedence p) - 1"
      using propose_commit(4) [OF ok c, of k] by (simp add: claim_rank_def new_record_def)
    show ?thesis
    proof (cases "gm_get (claimedBy s) k")
      case None
      then show ?thesis by (simp add: claim_rank_def)
    next
      case (Some cl)
      have "displaceable_by s k (pPrecedence p)" using True by (simp add: set_commit_of)
      then have "prec_rank ns (cPrecedence cl) < prec_rank ns (pPrecedence p)"
        using prec_rank_less [OF _ pp] Some by (simp add: displaceable_by_def)
      moreover have "claim_valid ns s k cl" using v Some unfolding claims_valid_def by blast
      then have "cPrecedence cl \<in> need_prec ns ` {..<length ns}"
        unfolding claim_valid_def need_prec_def by auto
      then have "0 < prec_rank ns (cPrecedence cl)" by (rule prec_rank_pos)
      ultimately have "(prec_rank ns (cPrecedence cl) - 1) + 1 \<le> prec_rank ns (pPrecedence p) - 1" by linarith
      moreover have "claim_rank ns s k = prec_rank ns (cPrecedence cl) - 1" using Some by (simp add: claim_rank_def)
      ultimately show ?thesis unfolding r by simp
    qed
  next
    case False
    then show ?thesis using propose_commit(4) [OF ok c, of k] by (simp add: claim_rank_def)
  qed
  have "potential ns s + card ?D = (\<Sum>k\<in>machine_ids s. claim_rank ns s k + (if k \<in> ?D then 1 else 0))"
    using finite_machine_ids sub by (simp add: potential_def sum.distrib sum.If_cases Int_absorb1)
  also have "\<dots> \<le> potential ns ?s" unfolding potential_def ids using up by (intro sum_mono)
  finally show ?thesis using displaced_count [OF ok c] by simp
qed

section \<open>The loops\<close>

definition queued_ok :: "need list \<Rightarrow> queued_need list \<Rightarrow> bool" where
  "queued_ok ns work \<longleftrightarrow> (\<forall>q\<in>set work. qNeed q < length ns)"

text \<open>A run of the loops from one worker state to another.\<close>

definition ran :: "'q qlib \<Rightarrow> need list \<Rightarrow> worker \<Rightarrow> worker \<Rightarrow> bool" where
  "ran Q ns w w' \<longleftrightarrow> worker_ok ns w' \<and> worker_steps Q ns (wkShared w) (wkShared w')
    \<and> wkRetries w' = wkRetries w
    \<and> (\<exists>ps. wkPushed w' = wkPushed w @ ps \<and> queued_ok ns ps
         \<and> potential ns (wkShared w) + length ps \<le> potential ns (wkShared w'))"

lemma ran_refl: "worker_ok ns w \<Longrightarrow> ran Q ns w w"
  by (auto simp: ran_def queued_ok_def)

lemma ran_trans: "ran Q ns w w' \<Longrightarrow> ran Q ns w' w'' \<Longrightarrow> ran Q ns w w''"
  unfolding ran_def queued_ok_def
proof (elim conjE exE, intro conjI)
  fix ps qs assume "wkPushed w' = wkPushed w @ ps" "wkPushed w'' = wkPushed w' @ qs"
    "\<forall>q\<in>set ps. qNeed q < length ns" "\<forall>q\<in>set qs. qNeed q < length ns"
    "potential ns (wkShared w) + length ps \<le> potential ns (wkShared w')"
    "potential ns (wkShared w') + length qs \<le> potential ns (wkShared w'')"
  then show "\<exists>ps. wkPushed w'' = wkPushed w @ ps \<and> (\<forall>q\<in>set ps. qNeed q < length ns)
      \<and> potential ns (wkShared w) + length ps \<le> potential ns (wkShared w'')"
    by (intro exI [of _ "ps @ qs"]) auto
qed auto

lemma pushed_by_props:
  assumes v: "claims_valid ns s" and c: "commits s p"
  shows "queued_ok ns (pushed_by (fst (propose p s)))"
    and "length (pushed_by (fst (propose p s))) \<le> length (resDisplaced (fst (propose p s)))"
proof -
  have ok: "claims_ok s" using v by (simp add: claims_valid_def)
  have "qNeed q < length ns" if q: "q \<in> set (resDisplaced (fst (propose p s)))" for q
  proof -
    let ?low = "filter (\<lambda>m. gm_get (claimedBy s) m \<noteq> None \<and> displaceable_by s m (pPrecedence p)) (pMachines p)"
    have "budget_after (map (\<lambda>m. (m, the (gm_get (claimedBy s) m))) ?low) (qNeed q) \<noteq> None"
      using q propose_commit(9) [OF ok c] by simp
    then have "filter (\<lambda>d. cNeed (snd d) = qNeed q) (map (\<lambda>m. (m, the (gm_get (claimedBy s) m))) ?low) \<noteq> []"
      by (auto simp: budget_after_def Let_def)
    then obtain m cl where "gm_get (claimedBy s) m = Some cl" "cNeed cl = qNeed q"
      by (auto simp: filter_empty_conv)
    moreover from this have "claim_valid ns s m cl" using v unfolding claims_valid_def by blast
    ultimately show ?thesis unfolding claim_valid_def by metis
  qed
  then show "queued_ok ns (pushed_by (fst (propose p s)))" by (auto simp: queued_ok_def pushed_by_def)
  show "length (pushed_by (fst (propose p s))) \<le> length (resDisplaced (fst (propose p s)))"
    by (simp add: pushed_by_def)
qed

lemma need_iter_ran:
  assumes ok: "worker_ok ns w" and n: "n < length ns" and st: "st = StateIdle \<or> st = StateSpeculative"
    and it: "need_iter Q ns n st w = (oc, w')"
  shows "ran Q ns w w'"
    and "oc = Again \<Longrightarrow> card (takeable st (need_prec ns n) (wkShared w'))
      < card (takeable st (need_prec ns n) (wkShared w))"
proof -
  let ?s = "wkShared w" and ?p = "proposal_for Q ns n st (wkShared w) (wkRetries w)"
  have v: "claims_valid ns ?s" "claims_ok ?s" using ok by (simp_all add: worker_ok_def claims_valid_def)
  have wp: "worker_proposal Q ns ?s ?p" and sub: "set (pMachines ?p) \<subseteq> takeable st (need_prec ns n) ?s"
    using proposal_for_props(1,2) [OF _ n st, of ?s] ok unfolding worker_ok_def by blast+
  have commit: "ran Q ns w w'" if c: "commits ?s ?p" and w': "wkShared w' = snd (propose ?p ?s)"
    "wkPushed w' = wkPushed w @ pushed_by (fst (propose ?p ?s))"
    "cache_ok (ssSnap ?s) ns (wkCache w')" "wkRetries w' = wkRetries w"
  proof -
    have step: "worker_step Q ns ?s (wkShared w')" unfolding w'(1) using wp by (rule ws_propose)
    note sv = worker_step_valid [OF step v(1)]
    have "worker_ok ns w'" using ok sv w'(3) by (simp add: worker_ok_def)
    moreover have "potential ns ?s + length (pushed_by (fst (propose ?p ?s))) \<le> potential ns (wkShared w')"
      using potential_grows [OF v(1) wp c] pushed_by_props(2) [OF v(1) c] w'(1) by simp
    ultimately show ?thesis using step w' pushed_by_props(1) [OF v(1) c] by (auto simp: ran_def)
  qed
  note ic = need_iter_cases [OF ok n st it]
  show "ran Q ns w w'"
    using ic
  proof (elim disjE conjE)
    assume "w' = w"
    then show ?thesis using ran_refl [OF ok] by simp
  next
    assume "cache_ok (ssSnap ?s) ns (wkCache w')" "wkRetries w' = wkRetries w" "wkShared w' = ?s"
      "wkPushed w' = wkPushed w"
    then show ?thesis using ok by (auto simp: ran_def worker_ok_def queued_ok_def)
  qed (use commit in blast)
  show "card (takeable st (need_prec ns n) (wkShared w')) < card (takeable st (need_prec ns n) ?s)" if "oc = Again"
  proof -
    have "commits ?s ?p" "wkShared w' = snd (propose ?p ?s)" "pMachines ?p \<noteq> []"
      using ic that by auto
    then show ?thesis using takeable_decreases [OF v(2), of ?p st] sub by simp
  qed
qed

lemma need_loop_ran:
  assumes "worker_ok ns w" "n < length ns" "st = StateIdle \<or> st = StateSpeculative"
    and "card (takeable st (need_prec ns n) (wkShared w)) < f"
  shows "\<exists>b w'. need_loop f Q ns n st w = Some (b, w') \<and> ran Q ns w w'"
  using assms
proof (induction f arbitrary: w)
  case (Suc f)
  obtain oc w1 where it: "need_iter Q ns n st w = (oc, w1)" by (rule prod.exhaust)
  note r1 = need_iter_ran [OF Suc.prems(1-3) it]
  show ?case
  proof (cases "wkRetries w \<le> 0 \<or> oc \<noteq> Again")
    case True
    then show ?thesis using it r1(1) ran_refl [OF Suc.prems(1)] by (cases oc) auto
  next
    case False
    then have "card (takeable st (need_prec ns n) (wkShared w1)) < f" using r1(2) Suc.prems(4) by simp
    moreover have "worker_ok ns w1" using r1(1) by (simp add: ran_def)
    ultimately obtain b w' where "need_loop f Q ns n st w1 = Some (b, w')" "ran Q ns w1 w'"
      using Suc.IH Suc.prems(2,3) by blast
    then show ?thesis using it False ran_trans [OF r1(1)] by auto
  qed
qed simp

lemma takeable_bound:
  "snapshot_ok (ssSnap s) \<Longrightarrow> card (takeable st prec s) \<le> card (machine_ids s)"
  using snap.by_state_iff
  by (intro card_mono finite_machine_ids) (auto simp: takeable_def machine_ids_def)

lemma steps_machine_ids: "worker_steps Q ns s s' \<Longrightarrow> claims_valid ns s \<Longrightarrow> machine_ids s' = machine_ids s"
  by (simp add: machine_ids_def worker_steps_valid)

lemma process_need_ran:
  assumes ok: "snapshot_ok (ssSnap s)" "fp_unique ns" "claims_valid ns s" "cache_ok (ssSnap s) ns c"
    and n: "qNeed qn < length ns" and f: "card (machine_ids s) < f"
  shows "\<exists>s' c' pushed. process_need f Q ns qn (s, c) = Some (s', c', pushed)
    \<and> worker_steps Q ns s s' \<and> cache_ok (ssSnap s') ns c' \<and> queued_ok ns pushed
    \<and> potential ns s + length pushed \<le> potential ns s'"
proof -
  let ?w = "\<lparr>wkShared = s, wkCache = c, wkRetries = qRetriesLeft qn, wkPushed = []\<rparr>"
  have w0: "worker_ok ns ?w" using ok by (simp add: worker_ok_def)
  obtain b w1 where l1: "need_loop f Q ns (qNeed qn) StateIdle ?w = Some (b, w1)" "ran Q ns ?w w1"
    using need_loop_ran [OF w0 n, of StateIdle f] takeable_bound [OF ok(1), of StateIdle] f
    by (metis le_less_trans worker.select_convs(1))
  have fin: ?thesis if r: "ran Q ns ?w w'" and
    p: "process_need f Q ns qn (s, c) = Some (wkShared w', wkCache w', wkPushed w')" for w'
    using r p by (auto simp: ran_def worker_ok_def)
  show ?thesis
  proof (cases b)
    case True
    then show ?thesis using fin [OF l1(2)] l1(1) by (simp add: process_need_def)
  next
    case False
    have w1: "worker_ok ns w1" "worker_steps Q ns s (wkShared w1)" using l1(2) by (simp_all add: ran_def)
    have "card (takeable StateSpeculative (need_prec ns (qNeed qn)) (wkShared w1)) < f"
      using takeable_bound [of "wkShared w1"] w1 f steps_machine_ids [OF w1(2) ok(3)]
      by (metis le_less_trans worker_ok_def)
    then obtain b2 w2 where l2: "need_loop f Q ns (qNeed qn) StateSpeculative w1 = Some (b2, w2)" "ran Q ns w1 w2"
      using need_loop_ran [OF w1(1) n, of StateSpeculative f] by blast
    show ?thesis using fin [OF ran_trans [OF l1(2) l2(2)]] l1(1) l2(1) False by (simp add: process_need_def)
  qed
qed

text \<open>
  Enough fuel: one unit for each need queued, one for each claim that may still rise. The channel
  never fills when it has room for as many.
\<close>

lemma run_queue_ran:
  assumes "snapshot_ok (ssSnap s)" "fp_unique ns" "claims_valid ns s" "cache_ok (ssSnap s) ns c"
    and "queued_ok ns work" "card (machine_ids s) < f"
    and "length work + displacements ns (card (machine_ids s)) \<le> g + potential ns s"
  shows "\<exists>x. run_queue g f Q ns buf work (s, c) = Some x
    \<and> (\<forall>s' c'. x = Returned (s', c') \<longrightarrow> worker_steps Q ns s s')
    \<and> (int (length work + displacements ns (card (machine_ids s))) \<le> buf + int (potential ns s) \<longrightarrow> x \<noteq> Blocked)"
  using assms
proof (induction g arbitrary: work s c)
  case 0
  then have "length work \<le> 0" using potential_bound [of ns s] by linarith
  then show ?case by auto
next
  case (Suc g)
  show ?case
  proof (cases work)
    case (Cons qn rest)
    have n: "qNeed qn < length ns" using Suc.prems(5) Cons by (simp add: queued_ok_def)
    obtain s1 c1 pushed where p: "process_need f Q ns qn (s, c) = Some (s1, c1, pushed)"
      "worker_steps Q ns s s1" "cache_ok (ssSnap s1) ns c1" "queued_ok ns pushed"
      "potential ns s + length pushed \<le> potential ns s1"
      using process_need_ran [OF Suc.prems(1-4) n Suc.prems(6)] by blast
    note sv = worker_steps_valid [OF p(2) Suc.prems(3)]
    have ids: "machine_ids s1 = machine_ids s" by (rule steps_machine_ids [OF p(2) Suc.prems(3)])
    have q: "queued_ok ns (rest @ pushed)" using Suc.prems(5) p(4) Cons by (auto simp: queued_ok_def)
    have l: "length (rest @ pushed) + displacements ns (card (machine_ids s1)) \<le> g + potential ns s1"
      using Suc.prems(7) p(5) Cons ids by simp
    obtain x where x: "run_queue g f Q ns buf (rest @ pushed) (s1, c1) = Some x"
      "\<forall>s' c'. x = Returned (s', c') \<longrightarrow> worker_steps Q ns s1 s'"
      "int (length (rest @ pushed) + displacements ns (card (machine_ids s1))) \<le> buf + int (potential ns s1)
        \<longrightarrow> x \<noteq> Blocked"
      using Suc.IH [of s1 c1 "rest @ pushed"] Suc.prems(1,2,6) sv p(3) q l ids by metis
    have steps: "\<forall>s' c'. x = Returned (s', c') \<longrightarrow> worker_steps Q ns s s'"
      using x(2) rtranclp_trans [OF p(2)] by blast
    show ?thesis
    proof (cases "int (length (rest @ pushed)) > buf")
      case True
      have "\<not> int (length work + displacements ns (card (machine_ids s))) \<le> buf + int (potential ns s)"
        using True p(5) Cons potential_bound [of ns s1] ids by simp
      then show ?thesis using True Cons p(1) by auto
    next
      case False
      have "int (length work + displacements ns (card (machine_ids s))) \<le> buf + int (potential ns s) \<longrightarrow> x \<noteq> Blocked"
        using x(3) p(5) Cons ids by simp
      then show ?thesis using False Cons p(1) x(1) steps by auto
    qed
  qed auto
qed

text \<open>The channel has room for the needs and for every displacement there can be.\<close>

definition channel_fits :: "snapshot \<Rightarrow> need list \<Rightarrow> int \<Rightarrow> bool" where
  "channel_fits snap ns retries \<longleftrightarrow> int (length ns + displacements ns (snap_len snap)) \<le> queue_buf ns retries"

lemma run_queue_steps:
  assumes "snapshot_ok snap" "fp_unique ns"
    and sd: "seed_configured_supply Q ns retries (new_shared_state snap) = (s, defs)"
    and f: "snap_len snap < f" and g: "length ns + snap_len snap * length ns \<le> g"
  shows "\<exists>x. run_queue g f Q ns (queue_buf ns retries) (initial_work Q defs retries) (s, []) = Some x
    \<and> (\<forall>s' c'. x = Returned (s', c') \<longrightarrow> worker_steps Q ns s s')
    \<and> (channel_fits snap ns retries \<longrightarrow> x \<noteq> Blocked)"
proof -
  note V = seeded_claims_valid [OF assms(1) sd]
  have len: "length defs = length ns" by (rule seed_configured_supply_ok(4) [OF assms(1) sd])
  have "card (machine_ids s) \<le> snap_len snap"
  proof -
    have "machine_ids s \<subseteq> ID ` set (snMachines snap)"
    proof
      fix k assume "k \<in> machine_ids s"
      then obtain m where m: "snap_get snap k = Some m" using V(2) by (auto simp: machine_ids_def)
      obtain i where i: "inv_ok i" "snap = snapshot_of i" using assms(1) by (auto simp: snapshot_ok_def)
      have "gm_get (byID i) k = Some m" "ID m = k"
        using m snap_get_inv [OF i(1)] snap.get_id [OF assms(1) m] i(2) by auto
      then have "m \<in> set (inv_machines i)" using set_inv_machines [OF i(1)] by metis
      then show "k \<in> ID ` set (snMachines snap)"
        using \<open>ID m = k\<close> snapshot_lists(1) [OF i(1)] i(2) by auto
    qed
    then have "card (machine_ids s) \<le> card (ID ` set (snMachines snap))" by (intro card_mono) auto
    also have "\<dots> \<le> length (snMachines snap)" using card_image_le card_length order_trans by blast
    finally show ?thesis by (simp add: snap_len_def)
  qed
  then have d: "displacements ns (card (machine_ids s)) \<le> displacements ns (snap_len snap)"
    by (simp add: displacements_def)
  have w: "length (initial_work Q defs retries) \<le> length ns" using len
    by (simp add: initial_work_def) (metis length_filter_le length_upt minus_nat.diff_0)
  have q: "queued_ok ns (initial_work Q defs retries)"
    using len by (auto simp: queued_ok_def initial_work_def)
  have e: "length (initial_work Q defs retries) + displacements ns (card (machine_ids s)) \<le> g + potential ns s"
    using d w g displacements_le [of ns "snap_len snap"] by linarith
  have c: "cache_ok (ssSnap s) ns []" by (simp add: cache_ok_def)
  have m: "card (machine_ids s) < f" using \<open>card (machine_ids s) \<le> snap_len snap\<close> f by simp
  have "snapshot_ok (ssSnap s)" using V(2) assms(1) by simp
  then obtain x where x: "run_queue g f Q ns (queue_buf ns retries) (initial_work Q defs retries) (s, []) = Some x"
    "\<forall>s' c'. x = Returned (s', c') \<longrightarrow> worker_steps Q ns s s'"
    "int (length (initial_work Q defs retries) + displacements ns (card (machine_ids s)))
      \<le> queue_buf ns retries + int (potential ns s) \<longrightarrow> x \<noteq> Blocked"
    using run_queue_ran [OF _ assms(2) V(1) c q m e] by blast
  then show ?thesis using d w by (intro exI [of _ x]) (auto simp: channel_fits_def)
qed

section \<open>The outcomes\<close>

text \<open>The machines a need has claimed, as the snapshot holds them.\<close>

definition claimed_machines :: "shared_state \<Rightarrow> nat \<Rightarrow> machine list" where
  "claimed_machines s n = map (\<lambda>k. the (snap_get (ssSnap s) k)) (claimed_for s n)"

lemma claimed_get:
  assumes "claims_valid ns s" "k \<in> set (claimed_for s n)"
  obtains m c where "gm_get (claimedBy s) k = Some c" "cNeed c = n" "claim_valid ns s k c"
    "snap_get (ssSnap s) k = Some m" "ID m = k"
proof -
  obtain c where c: "gm_get (claimedBy s) k = Some c" "cNeed c = n"
    using assms claims_okD(4) [of s k n] unfolding claims_valid_def owned_def by blast
  then have v: "claim_valid ns s k c" using assms(1) unfolding claims_valid_def by blast
  then obtain m where "snap_get (ssSnap s) k = Some m" "ID m = k" unfolding claim_valid_def by blast
  then show ?thesis using that c v by blast
qed

lemma sum_fold:
  assumes q: "quantity_laws Q val" and c: "capacity_ok Q val ms"
    and cap: "\<forall>d. capacity_sum Q val ms d \<le> q_cap"
  shows "rval Q val (foldl (\<lambda>acc m. add_resources Q acc (alloc_of m)) [] ms) d = capacity_sum Q val ms d"
  using c cap
proof (induction ms arbitrary: d rule: rev_induct)
  case Nil
  then show ?case using rval_nil [OF q] by simp
next
  case (snoc m ms)
  have nn: "0 \<le> rval Q val (alloc_of m) d" for d using snoc.prems(1) by (simp add: capacity_ok_def)
  have ms: "capacity_ok Q val ms" using snoc.prems(1) by (simp add: capacity_ok_def)
  have le: "capacity_sum Q val ms d \<le> q_cap" for d
  proof -
    have "capacity_sum Q val ms d + rval Q val (alloc_of m) d \<le> q_cap" using snoc.prems(2) by simp
    then show ?thesis using nn [of d] by linarith
  qed
  have IH: "rval Q val (foldl (\<lambda>acc m. add_resources Q acc (alloc_of m)) [] ms) d = capacity_sum Q val ms d" for d
    using snoc.IH ms le by blast
  have "0 \<le> capacity_sum Q val ms d" using ms by (auto simp: capacity_sum_def capacity_ok_def intro!: sum_list_nonneg)
  moreover have "capacity_sum Q val ms d + rval Q val (alloc_of m) d \<le> q_cap" using snoc.prems(2) by simp
  ultimately have "\<bar>capacity_sum Q val ms d + rval Q val (alloc_of m) d\<bar> \<le> q_cap"
    using nn [of d] by linarith
  then show ?case using rval_add [OF q] IH by simp
qed

lemma claimed_fold:
  assumes "claims_valid ns s"
  shows "foldl (\<lambda>acc mid. case snap_get (ssSnap s) mid of None \<Rightarrow> acc
      | Some m \<Rightarrow> add_resources Q acc (alloc_of m)) a (claimed_for s n)
    = foldl (\<lambda>acc m. add_resources Q acc (alloc_of m)) a (claimed_machines s n)"
proof -
  have "\<forall>k\<in>set (claimed_for s n). snap_get (ssSnap s) k \<noteq> None"
    using claimed_get [OF assms] by (metis option.distinct(1))
  then have "set ks \<subseteq> set (claimed_for s n) \<Longrightarrow>
    foldl (\<lambda>acc mid. case snap_get (ssSnap s) mid of None \<Rightarrow> acc
      | Some m \<Rightarrow> add_resources Q acc (alloc_of m)) a ks
    = foldl (\<lambda>acc m. add_resources Q acc (alloc_of m)) a (map (\<lambda>k. the (snap_get (ssSnap s) k)) ks)" for ks
    by (induction ks arbitrary: a) auto
  then show ?thesis by (simp add: claimed_machines_def)
qed

text \<open>The deficit of a need is its demand less the capacity of the machines it claims.\<close>

lemma deficit_value:
  assumes q: "quantity_laws Q val" and v: "claims_valid ns s"
    and c: "capacity_ok Q val (claimed_machines s n)"
    and cap: "\<forall>d. capacity_sum Q val (claimed_machines s n) d \<le> q_cap"
  shows "rval Q val (compute_deficit Q ns n s) d
    = max 0 (rval Q val (AggregateResources (ns ! n)) d - capacity_sum Q val (claimed_machines s n) d)"
proof -
  let ?sum = "foldl (\<lambda>acc m. add_resources Q acc (alloc_of m)) [] (claimed_machines s n)"
  have e: "compute_deficit Q ns n s = sub_resources Q (AggregateResources (ns ! n)) ?sum"
    by (simp add: compute_deficit_def claimed_fold [OF v])
  have r: "rval Q val ?sum d = capacity_sum Q val (claimed_machines s n) d" by (rule sum_fold [OF q c cap])
  have "0 \<le> rval Q val ?sum d" using c unfolding r by (auto simp: capacity_sum_def capacity_ok_def intro!: sum_list_nonneg)
  then show ?thesis unfolding e using rval_sub [OF q] r by metis
qed

lemma deficit_zero_iff:
  assumes q: "quantity_laws Q val" and v: "claims_valid ns s"
    and c: "capacity_ok Q val (claimed_machines s n)"
    and cap: "\<forall>d. capacity_sum Q val (claimed_machines s n) d \<le> q_cap"
  shows "is_zero Q (compute_deficit Q ns n s)
    \<longleftrightarrow> (\<forall>d. rval Q val (AggregateResources (ns ! n)) d \<le> capacity_sum Q val (claimed_machines s n) d)"
proof -
  have "rv_ok (compute_deficit Q ns n s)" by (simp add: compute_deficit_def sub_resources_def rv_ok_combine)
  then show ?thesis unfolding is_zero_iff [OF q \<open>rv_ok _\<close>] deficit_value [OF assms] by simp
qed

lemma claimed_disjoint:
  assumes "claims_ok s" "distinct ns"
  shows "distinct (concat (map (claimed_for s) ns))"
  using assms(2)
proof (induction ns)
  case (Cons n ns)
  have "set (claimed_for s n) \<inter> set (concat (map (claimed_for s) ns)) = {}"
    using owned_one [OF assms(1)] Cons.prems by (fastforce simp: owned_def)
  then show ?case using Cons claims_okD(3) [OF assms(1)] by simp
qed simp

text \<open>
  How a cycle ends, given fuel: it returns the results of a reachable state of the claims, or its
  worker blocks on the channel, which it does not when the channel fits.
\<close>

lemma run_cycle_ends:
  assumes ok: "snapshot_ok snap" "fp_unique ns"
    and f: "snap_len snap < f" and g: "length ns + snap_len snap * length ns \<le> g"
  shows "(run_cycle g f Q snap ns retries = Some Blocked
      \<and> \<not> channel_fits snap ns (if retries \<le> 0 then default_retries else retries))
    \<or> (\<exists>s. run_cycle g f Q snap ns retries = Some (Returned (cycle_results Q ns s))
      \<and> claims_valid ns s \<and> ssSnap s = snap \<and> claim_step\<^sup>*\<^sup>* (new_shared_state snap) s)"
proof -
  let ?r = "if retries \<le> 0 then default_retries else retries"
  obtain s0 defs where sd: "seed_configured_supply Q ns ?r (new_shared_state snap) = (s0, defs)"
    by (rule prod.exhaust)
  obtain x where q: "run_queue g f Q ns (queue_buf ns ?r) (initial_work Q defs ?r) (s0, []) = Some x"
    "\<forall>s' c'. x = Returned (s', c') \<longrightarrow> worker_steps Q ns s0 s'" "channel_fits snap ns ?r \<longrightarrow> x \<noteq> Blocked"
    using run_queue_steps [OF ok sd f g] by blast
  note V = seeded_claims_valid [OF ok(1) sd]
  note S = seed_configured_supply_ok [OF ok(1) sd]
  show ?thesis
  proof (cases x)
    case Blocked
    then show ?thesis using sd q by (simp add: run_cycle_def Let_def)
  next
    case (Returned st)
    obtain s' c' where st: "st = (s', c')" by (rule prod.exhaust)
    then have w: "worker_steps Q ns s0 s'" using q(2) Returned by blast
    have "claim_step\<^sup>*\<^sup>* (new_shared_state snap) s'"
      using S(2) worker_claim_steps [OF w] by (rule rtranclp_trans)
    moreover have "run_cycle g f Q snap ns retries = Some (Returned (cycle_results Q ns s'))"
      using sd q(1) Returned st by (simp add: run_cycle_def Let_def)
    ultimately show ?thesis using worker_steps_valid [OF w V(1)] V(2) by auto
  qed
qed

lemma run_cycle_returned:
  assumes "snapshot_ok snap" "fp_unique ns"
    and "snap_len snap < f" "length ns + snap_len snap * length ns \<le> g"
    and "run_cycle g f Q snap ns retries = Some (Returned r)"
  obtains s where "r = cycle_results Q ns s" "claims_valid ns s" "ssSnap s = snap"
    "claim_step\<^sup>*\<^sup>* (new_shared_state snap) s"
  using run_cycle_ends [OF assms(1-4), of Q retries] assms(5) by auto

lemma run_cycle_some:
  assumes "snapshot_ok snap" "fp_unique ns"
    and "snap_len snap < f" "length ns + snap_len snap * length ns \<le> g"
    and "channel_fits snap ns (if retries \<le> 0 then default_retries else retries)"
  obtains s where "run_cycle g f Q snap ns retries = Some (Returned (cycle_results Q ns s))"
    "claims_valid ns s" "ssSnap s = snap" "claim_step\<^sup>*\<^sup>* (new_shared_state snap) s"
  using run_cycle_ends [OF assms(1-4), of Q retries] assms(5) by auto

end
