(* ===== verification/Phases.thy ===== *)
theory Phases
  imports Normalize CycleProps
begin

text \<open>
  The three phases of a decision cycle (\<open>pkg/decision/phase1_assign.go\<close>,
  \<open>phase2_inversions.go\<close>, \<open>phase3_reclaim.go\<close>): what the claims of the cycle become as actions,
  which machines of lower priority are preempted for the needs still short, and which machines
  are given back.
\<close>

section \<open>Phase 1: actions from the cycle's claims\<close>

record need_verdict =
  nvNeed :: nat
  nvSatisfied :: bool
  nvDeficit :: "resource_qty list"
  nvClaimedCount :: nat
  nvBootstrapCount :: nat
  nvProvisionCount :: nat
  nvSameDomain :: string
  nvSameSatisfiable :: bool
  nvMatchingSupplyExists :: bool
  nvMatchingSupply :: matching_supply
  nvSameCandidates :: "domain_coverage list"

record satisfied_gang =
  sgNeed :: need
  sgDomain :: string
  sgMachines :: "string list"

record unsatisfied_need =
  unNeed :: need
  unDeficit :: "resource_qty list"
  unSameDomain :: string
  unAcquired :: nat
  unSameSatisfiable :: bool
  unPreempted :: bool
  unVictimsFound :: nat
  unCapacityFreed :: "resource_qty list"

record phase1_result =
  p1Actions :: "action list"
  p1Unsatisfied :: "unsatisfied_need list"
  p1Claimed :: "string list"
  p1SatisfiedGangs :: "satisfied_gang list"
  p1Verdicts :: "need_verdict list"

definition verdict_of :: "need_result \<Rightarrow> need_verdict" where
  "verdict_of r =
    \<lparr>nvNeed = nrNeed r, nvSatisfied = (\<not> nrUnsatisfied r), nvDeficit = nrDeficit r,
     nvClaimedCount = length (nrClaimedMachines r),
     nvBootstrapCount = length (nrBootstrapMachines r),
     nvProvisionCount = length (nrProvisionMachines r),
     nvSameDomain = nrSameDomain r, nvSameSatisfiable = nrSameSatisfiable r,
     nvMatchingSupplyExists = nrMatchingSupplyExists r, nvMatchingSupply = nrMatchingSupply r,
     nvSameCandidates = nrSameCandidates r\<rparr>"

definition bootstrap_action :: "need \<Rightarrow> string \<Rightarrow> action" where
  "bootstrap_action nd mid = zero_action\<lparr>aKind := ActionKindBootstrap, aMachineID := mid,
     aCluster := nCluster nd, aSourceProfile := Some (nProfile nd), aSourceGroup := Group nd,
     aReason := ''phase1.idle''\<rparr>"

definition provision_action :: "need \<Rightarrow> string \<Rightarrow> action" where
  "provision_action nd mid = zero_action\<lparr>aKind := ActionKindProvision, aMachineID := mid,
     aCluster := nCluster nd, aSourceProfile := Some (nProfile nd), aSourceGroup := Group nd,
     aReason := ''phase1.speculative''\<rparr>"

definition phase1_step :: "need list \<Rightarrow> phase1_result \<Rightarrow> need_result \<Rightarrow> phase1_result" where
  "phase1_step ns res r =
    (let nd = ns ! nrNeed r;
         res = res\<lparr>p1Verdicts := p1Verdicts res @ [verdict_of r]\<rparr>;
         res = res\<lparr>p1Actions := p1Actions res @ map (bootstrap_action nd) (nrBootstrapMachines r)\<rparr>;
         res = res\<lparr>p1Actions := p1Actions res @ map (provision_action nd) (nrProvisionMachines r)\<rparr>
     in if nrUnsatisfied r
        then res\<lparr>p1Unsatisfied := p1Unsatisfied res @
               [\<lparr>unNeed = nd, unDeficit = nrDeficit r, unSameDomain = nrSameDomain r,
                 unAcquired = length (nrBootstrapMachines r) + length (nrProvisionMachines r),
                 unSameSatisfiable = nrSameSatisfiable r, unPreempted = False, unVictimsFound = 0,
                 unCapacityFreed = []\<rparr>]\<rparr>
        else if same_requirement_key (nProfile nd) \<noteq> None
        then res\<lparr>p1SatisfiedGangs := p1SatisfiedGangs res @
               [\<lparr>sgNeed = nd, sgDomain = nrSameDomain r, sgMachines = nrClaimedMachines r\<rparr>]\<rparr>
        else res)"

definition phase1_of :: "need list \<Rightarrow> cycle_result \<Rightarrow> phase1_result" where
  "phase1_of ns c =
    foldl (phase1_step ns) \<lparr>p1Actions = [], p1Unsatisfied = [], p1Claimed = crClaimed c,
      p1SatisfiedGangs = [], p1Verdicts = []\<rparr> (crResults c)"

definition phase1 ::
    "nat \<Rightarrow> nat \<Rightarrow> 'q qlib \<Rightarrow> snapshot \<Rightarrow> need list \<Rightarrow> phase1_result run_result option" where
  "phase1 g f Q snap ns =
    map_option (map_run_result (phase1_of ns)) (run_cycle g f Q snap ns default_retries)"

section \<open>Phase 2: preemption\<close>

record phase2_options =
  poWeights :: victim_weights
  poDrainDuration :: int

definition default_phase2_options :: phase2_options where
  "default_phase2_options = \<lparr>poWeights = default_victim_weights, poDrainDuration = 30 * Second\<rparr>"

record scored_victim =
  svM :: machine
  svScore :: f64

record phase2_result =
  p2Actions :: "action list"
  p2Unresolved :: "unsatisfied_need list"

text \<open>Whether the snapshot's minimum priorities rule out a victim below \<open>prio\<close>.\<close>

definition no_victim :: "snapshot \<Rightarrow> string list option \<Rightarrow> int \<Rightarrow> bool" where
  "no_victim snap types prio =
    (case types of
       None \<Rightarrow> snap_min_priority snap StateConfigured \<ge> prio
     | Some [t] \<Rightarrow> snap_min_priority_by_type snap StateConfigured t \<ge> prio
     | Some ts \<Rightarrow> \<not> list_ex (\<lambda>t. snap_min_priority_by_type snap StateConfigured t < prio) ts)"

definition victim_pool :: "snapshot \<Rightarrow> string list option \<Rightarrow> machine list" where
  "victim_pool snap types =
    (case types of
       None \<Rightarrow> snap_by_state snap StateConfigured
     | Some [t] \<Rightarrow> snap_by_type snap StateConfigured t
     | Some ts \<Rightarrow> concat (map (snap_by_type snap StateConfigured) ts))"

definition scored_less :: "scored_victim \<Rightarrow> scored_victim \<Rightarrow> bool" where
  "scored_less a b \<longleftrightarrow>
    (if \<not> f64_eq (svScore a) (svScore b) then f64_gt (svScore a) (svScore b)
     else ID (svM a) < ID (svM b))"

definition score_victim :: "phase2_options \<Rightarrow> int \<Rightarrow> machine \<Rightarrow> scored_victim" where
  "score_victim opts prio m =
    \<lparr>svM = m,
     svScore = victim_score prio
       \<lparr>vcMachine = m, vcAssignedPriority = AssignedPriority m,
        vcInterruptionPenalty = AssignedInterruptionPenalty m,
        vcReclamationPenalty = AssignedReclamationPenalty m,
        vcEstimatedDrainDuration = poDrainDuration opts\<rparr> (poWeights opts)\<rparr>"

definition scored_victims :: "snapshot \<Rightarrow> phase2_options \<Rightarrow> profile \<Rightarrow> scored_victim list" where
  "scored_victims snap opts p =
    (let prio = priority p; types = pinned_instance_types p;
         pool = (if no_victim snap types prio then [] else victim_pool snap types);
         fit = filter (\<lambda>m. \<not> AssignedPriority m \<ge> prio \<and> match_profile p m) pool
     in sort_less scored_less (map (score_victim opts prio) fit))"

text \<open>The drain walk of one need, from the head of the scored victims.\<close>

fun drain_walk ::
    "'q qlib \<Rightarrow> unsatisfied_need \<Rightarrow> string set \<Rightarrow> scored_victim list \<Rightarrow> resource_qty list
      \<Rightarrow> machine list \<Rightarrow> machine list \<times> resource_qty list" where
  "drain_walk Q u claimed [] remaining picks = (picks, remaining)"
| "drain_walk Q u claimed (sv # svs) remaining picks =
    (if is_zero Q remaining then (picks, remaining)
     else if ID (svM sv) \<in> claimed then drain_walk Q u claimed svs remaining picks
     else
       let alloc = alloc_of (svM sv) in
       if \<not> covers Q alloc (MinUnit (unNeed u)) then drain_walk Q u claimed svs remaining picks
       else if (case same_requirement_key (nProfile (unNeed u)) of
                  None \<Rightarrow> False
                | Some k \<Rightarrow> lookup_attribute k (svM sv) \<noteq> Some (unSameDomain u))
       then drain_walk Q u claimed svs remaining picks
       else drain_walk Q u claimed svs (sub_resources Q remaining alloc) (picks @ [svM sv]))"

definition preempt_action :: "int \<Rightarrow> machine \<Rightarrow> action" where
  "preempt_action prio m = zero_action\<lparr>aKind := ActionKindPreempt, aMachineID := ID m,
     aCluster := Cluster m, aGracePeriod := drain_grace prio (AssignedPriority m),
     aPreemptorPriority := prio, aReason := ''phase2.inversion''\<rparr>"

text \<open>A parked need, or a co-located one without a domain, is passed on as it is.\<close>

definition passed_over :: "unsatisfied_need \<Rightarrow> bool" where
  "passed_over u \<longleftrightarrow> AcquisitionParked (unNeed u)
    \<or> same_requirement_key (nProfile (unNeed u)) \<noteq> None \<and> unSameDomain u = ''''"

type_synonym score_cache = "(string \<times> int, scored_victim list) gomap"

definition phase2_step ::
    "'q qlib \<Rightarrow> snapshot \<Rightarrow> phase2_options \<Rightarrow> string set \<times> score_cache \<times> phase2_result \<Rightarrow> unsatisfied_need
      \<Rightarrow> string set \<times> score_cache \<times> phase2_result" where
  "phase2_step Q snap opts st u =
    (let (claimed, cache, out) = st in
     if passed_over u then (claimed, cache, out\<lparr>p2Unresolved := p2Unresolved out @ [u]\<rparr>)
     else
       let p = nProfile (unNeed u);
           (sorted, cache) = memo (fingerprint p, priority p) (scored_victims snap opts p) cache;
           (picks, remaining) = drain_walk Q u claimed sorted (unDeficit u) [];
           claimed = claimed \<union> set (map ID picks);
           out = out\<lparr>p2Actions := p2Actions out @ map (preempt_action (priority p)) picks\<rparr>
       in if \<not> is_zero Q remaining
          then (claimed, cache, out\<lparr>p2Unresolved := p2Unresolved out @
                  [\<lparr>unNeed = unNeed u, unDeficit = remaining, unSameDomain = '''', unAcquired = 0,
                    unSameSatisfiable = False, unPreempted = length picks > 0,
                    unVictimsFound = length picks,
                    unCapacityFreed = foldl (\<lambda>acc m. add_resources Q acc (alloc_of m)) [] picks\<rparr>]\<rparr>)
          else (claimed, cache, out))"

definition preemption_order :: "unsatisfied_need list \<Rightarrow> unsatisfied_need list" where
  "preemption_order us =
    sort_less (\<lambda>a b. priority (nProfile (unNeed a)) > priority (nProfile (unNeed b))) us"

definition phase2 ::
    "'q qlib \<Rightarrow> snapshot \<Rightarrow> unsatisfied_need list \<Rightarrow> phase2_options \<Rightarrow> phase2_result" where
  "phase2 Q snap unresolved opts =
    (if length unresolved = 0 then \<lparr>p2Actions = [], p2Unresolved = []\<rparr>
     else
       let (_, _, out) = foldl (phase2_step Q snap opts)
             ({}, [], \<lparr>p2Actions = [], p2Unresolved = []\<rparr>) (preemption_order unresolved)
       in out)"

section \<open>Phase 3: giving machines back\<close>

text \<open>\<open>time.Time.Sub\<close> saturates at the limits of \<open>time.Duration\<close>.\<close>

definition time_sub :: "int \<Rightarrow> int \<Rightarrow> int" where
  "time_sub t u = max (- (2 ^ 63)) (min (2 ^ 63 - 1) (t - u))"

definition clusters_with_configured :: "snapshot \<Rightarrow> string list" where
  "clusters_with_configured snap =
    sort_less (<) (filter (\<lambda>c. snap_count_by_cluster_state snap c StateConfigured > 0) (snap_clusters snap))"

definition reclaim_action :: "string \<Rightarrow> machine \<Rightarrow> action" where
  "reclaim_action cluster m = zero_action\<lparr>aKind := ActionKindReclaim, aMachineID := ID m,
     aCluster := cluster, aGracePeriod := reclaim_grace, aReason := ''phase3.excess''\<rparr>"

definition reclaim_actions :: "snapshot \<Rightarrow> string set \<Rightarrow> (string \<Rightarrow> bool) \<Rightarrow> action list" where
  "reclaim_actions snap claimed ready =
    concat (map (\<lambda>cluster.
      if \<not> ready cluster then []
      else map (reclaim_action cluster)
        (filter (\<lambda>m. ID m \<notin> claimed) (snap_keep_bucket snap cluster StateConfigured)))
      (clusters_with_configured snap))"

definition delete_action :: "machine \<Rightarrow> action" where
  "delete_action m = zero_action\<lparr>aKind := ActionKindDelete, aMachineID := ID m, aReason := ''phase3.release''\<rparr>"

definition released :: "snapshot \<Rightarrow> string set \<Rightarrow> release_policy \<Rightarrow> int \<Rightarrow> machine \<Rightarrow> bool" where
  "released snap claimed policy now m =
    (if ID m \<in> claimed then False
     else
       let (h, releasable) = hold policy (CapacityType (MProfile m)) in
       if \<not> releasable then False
       else case snap_idle_since snap (ID m) of
              None \<Rightarrow> False
            | Some since \<Rightarrow> \<not> time_sub now since < h)"

definition phase3 ::
    "snapshot \<Rightarrow> string set \<Rightarrow> (string \<Rightarrow> bool) \<Rightarrow> release_policy \<Rightarrow> int \<Rightarrow> action list" where
  "phase3 snap claimed ready policy now =
    reclaim_actions snap claimed ready
    @ map delete_action (filter (released snap claimed policy now) (snap_by_state snap StateIdle))"

section \<open>What phase 2 may preempt\<close>

text \<open>A machine that could be preempted for a need.\<close>

definition victim_of :: "'q qlib \<Rightarrow> snapshot \<Rightarrow> unsatisfied_need \<Rightarrow> machine \<Rightarrow> bool" where
  "victim_of Q snap u m \<longleftrightarrow>
    snap_get snap (ID m) = Some m \<and> State m = StateConfigured
    \<and> AssignedPriority m < priority (nProfile (unNeed u))
    \<and> match_profile (nProfile (unNeed u)) m
    \<and> (pinned_instance_types (nProfile (unNeed u)) \<noteq> None \<longrightarrow> InstanceType (MProfile m) \<noteq> '''')
    \<and> covers Q (alloc_of m) (MinUnit (unNeed u))
    \<and> (\<forall>k. same_requirement_key (nProfile (unNeed u)) = Some k \<longrightarrow>
         lookup_attribute k m = Some (unSameDomain u))"

text \<open>A pinned instance-type list names each type once.\<close>

definition types_distinct :: "profile \<Rightarrow> bool" where
  "types_distinct p \<longleftrightarrow> (\<forall>ts. pinned_instance_types p = Some ts \<longrightarrow> distinct ts)"

text \<open>The minimum priority of the Configured machines is indexed.\<close>

definition priorities_indexed :: "snapshot \<Rightarrow> bool" where
  "priorities_indexed snap \<longleftrightarrow>
    snap_by_state snap StateConfigured = []
    \<or> (\<exists>m\<in>set (snap_by_state snap StateConfigured). InstanceType (MProfile m) \<noteq> '''')"

lemma victim_pool_mem:
  "set (victim_pool snap types) = (case types of
      None \<Rightarrow> set (snap_by_state snap StateConfigured)
    | Some ts \<Rightarrow> (\<Union>t\<in>set ts. set (snap_by_type snap StateConfigured t)))"
  by (auto simp: victim_pool_def split: option.splits list.splits)

lemma victim_pool_iff:
  assumes ok: "snapshot_ok snap" and p: "match_profile p m"
  shows "m \<in> set (victim_pool snap (pinned_instance_types p)) \<longleftrightarrow>
    snap_get snap (ID m) = Some m \<and> State m = StateConfigured
    \<and> (pinned_instance_types p \<noteq> None \<longrightarrow> InstanceType (MProfile m) \<noteq> '''')"
proof (cases "pinned_instance_types p")
  case None
  then show ?thesis by (simp add: victim_pool_mem snap.by_state_iff [OF ok])
next
  case (Some ts)
  obtain r where r: "r \<in> set (requirements p)" "rKey r = instance_type_key" "rOperator r = OperatorIn" "rValues r = ts"
    by (rule pinned_requirement [OF Some])
  have "InstanceType (MProfile m) \<in> set ts" if "InstanceType (MProfile m) \<noteq> ''''"
    using match_in_type [OF p r(1-3) that] r(4) by simp
  then show ?thesis unfolding victim_pool_mem Some using snap.by_type_iff [OF ok] by auto
qed

lemma victim_pool_distinct:
  assumes ok: "snapshot_ok snap" and d: "types_distinct p"
  shows "distinct (map ID (victim_pool snap (pinned_instance_types p)))"
proof (cases "pinned_instance_types p")
  case None
  then show ?thesis using snap.by_state_distinct [OF ok] by (simp add: victim_pool_def)
next
  case (Some ts)
  have "distinct ts" using d Some by (simp add: types_distinct_def)
  then have "distinct (map ID (concat (map (snap_by_type snap StateConfigured) ts)))"
  proof (induction ts)
    case (Cons t ts)
    have "ID ` set (snap_by_type snap StateConfigured t) \<inter> ID ` set (snap_by_type snap StateConfigured t') = {}"
      if "t' \<in> set ts" for t'
      using snap.one_type [OF ok, of _ StateConfigured t _ StateConfigured t'] that Cons.prems by fastforce
    then show ?case using Cons snap.by_type_distinct [OF ok] by (auto simp: image_Union)
  qed simp
  moreover have "victim_pool snap (Some ts) = concat (map (snap_by_type snap StateConfigured) ts)"
    by (simp add: victim_pool_def split: list.split)
  ultimately show ?thesis using Some by simp
qed

text \<open>The short-circuit skips no victim.\<close>

lemma no_victim_sound:
  assumes ok: "snapshot_ok snap" and ix: "priorities_indexed snap"
    and nv: "no_victim snap types prio" and m: "m \<in> set (victim_pool snap types)"
  shows "prio \<le> AssignedPriority m"
proof -
  obtain i where i: "inv_ok i" "snap = snapshot_of i" using ok by (auto simp: snapshot_ok_def)
  have ty: "snap_min_priority_by_type snap StateConfigured t \<le> AssignedPriority x"
    if "x \<in> set (snap_by_type snap StateConfigured t)" for t x
    using that unfolding i(2) min_priority_by_type_inv by (rule min_priority_le(2))
  show ?thesis
  proof (cases types)
    case None
    have mm: "m \<in> set (snap_by_state snap StateConfigured)" using m None by (simp add: victim_pool_mem)
    then obtain x where x: "x \<in> set (snap_by_state snap StateConfigured)" "InstanceType (MProfile x) \<noteq> ''''"
      using ix by (auto simp: priorities_indexed_def)
    have "snap_min_priority snap StateConfigured \<le> AssignedPriority m"
      using mm x unfolding i(2) snapshot_lists(2) [OF i(1)]
      by (intro min_priority_by_state_le [OF i(1)]) auto
    then show ?thesis using nv None by (simp add: no_victim_def)
  next
    case (Some ts)
    obtain t where t: "t \<in> set ts" "m \<in> set (snap_by_type snap StateConfigured t)"
      using m Some by (auto simp: victim_pool_mem)
    have "prio \<le> snap_min_priority_by_type snap StateConfigured t"
      using nv t(1) Some by (cases ts; cases "tl ts") (auto simp: no_victim_def not_less list_ex_iff)
    then show ?thesis using ty [OF t(2)] by simp
  qed
qed

lemma scored_victims_props:
  assumes ok: "snapshot_ok snap"
  shows "m \<in> set (map svM (scored_victims snap opts p)) \<Longrightarrow>
      m \<in> set (victim_pool snap (pinned_instance_types p)) \<and> AssignedPriority m < priority p \<and> match_profile p m"
    and "priorities_indexed snap \<Longrightarrow> m \<in> set (victim_pool snap (pinned_instance_types p)) \<Longrightarrow>
      AssignedPriority m < priority p \<Longrightarrow> match_profile p m \<Longrightarrow> m \<in> set (map svM (scored_victims snap opts p))"
    and "types_distinct p \<Longrightarrow> distinct (map ID (map svM (scored_victims snap opts p)))"
proof -
  let ?fit = "\<lambda>pool. filter (\<lambda>m. \<not> AssignedPriority m \<ge> priority p \<and> match_profile p m) pool"
  let ?pool = "if no_victim snap (pinned_instance_types p) (priority p) then []
    else victim_pool snap (pinned_instance_types p)"
  have s: "scored_victims snap opts p = sort_less scored_less (map (score_victim opts (priority p)) (?fit ?pool))"
    by (simp add: scored_victims_def Let_def)
  have "svM \<circ> score_victim opts (priority p) = id" by (rule ext) (simp add: score_victim_def)
  then have set_eq: "set (map svM (scored_victims snap opts p)) = set (?fit ?pool)"
    unfolding s by (simp add: image_comp)
  show "m \<in> set (map svM (scored_victims snap opts p)) \<Longrightarrow>
      m \<in> set (victim_pool snap (pinned_instance_types p)) \<and> AssignedPriority m < priority p \<and> match_profile p m"
    unfolding set_eq by (auto split: if_splits)
  show "priorities_indexed snap \<Longrightarrow> m \<in> set (victim_pool snap (pinned_instance_types p)) \<Longrightarrow>
      AssignedPriority m < priority p \<Longrightarrow> match_profile p m \<Longrightarrow> m \<in> set (map svM (scored_victims snap opts p))"
    unfolding set_eq using no_victim_sound [OF ok, of "pinned_instance_types p" "priority p" m] by auto
  assume d: "types_distinct p"
  have "map ID (map svM (map (score_victim opts (priority p)) xs)) = map ID xs" for xs
    by (simp add: score_victim_def comp_def)
  moreover have "distinct (map ID (?fit ?pool))"
    using victim_pool_distinct [OF ok d] by (intro distinct_map_filter) simp
  ultimately have "distinct (map ID (map svM (map (score_victim opts (priority p)) (?fit ?pool))))"
    by (simp only:)
  then show "distinct (map ID (map svM (scored_victims snap opts p)))"
    unfolding s by (simp add: comp_def)
qed

section \<open>The run of phase 2\<close>

definition drain_pass :: "'q qlib \<Rightarrow> unsatisfied_need \<Rightarrow> string set \<Rightarrow> machine \<Rightarrow> bool" where
  "drain_pass Q u claimed m \<longleftrightarrow> ID m \<notin> claimed \<and> covers Q (alloc_of m) (MinUnit (unNeed u))
    \<and> (\<forall>k. same_requirement_key (nProfile (unNeed u)) = Some k \<longrightarrow> lookup_attribute k m = Some (unSameDomain u))"

lemma drain_walk_take:
  "drain_walk Q u claimed svs r picks =
    (if is_zero Q r then (picks, r)
     else case take_loop Q (drain_pass Q u claimed) (map svM svs) picks r of (out, r', _) \<Rightarrow> (out, r'))"
proof (induction svs arbitrary: r picks)
  case (Cons sv svs)
  have "drain_walk Q u claimed (sv # svs) r picks =
      (if is_zero Q r then (picks, r)
       else if \<not> drain_pass Q u claimed (svM sv) then drain_walk Q u claimed svs r picks
       else drain_walk Q u claimed svs (sub_resources Q r (alloc_of (svM sv))) (picks @ [svM sv]))"
    by (cases "same_requirement_key (nProfile (unNeed u))") (simp_all add: drain_pass_def Let_def)
  then show ?case unfolding Cons.IH by (simp add: Let_def)
qed simp

lemma drain_walk_spec:
  assumes "drain_walk Q u claimed svs r [] = (picks, r')"
  shows "r' = remaining_of Q r picks"
    and "\<forall>m\<in>set picks. m \<in> set (map svM svs) \<and> drain_pass Q u claimed m"
    and "distinct (map ID (map svM svs)) \<Longrightarrow> distinct (map ID picks)"
    and "is_zero Q r' \<or> (\<forall>m\<in>set (map svM svs). drain_pass Q u claimed m \<longrightarrow> m \<in> set picks)"
proof -
  have "r' = remaining_of Q r picks \<and> (\<forall>m\<in>set picks. m \<in> set (map svM svs) \<and> drain_pass Q u claimed m)
    \<and> (distinct (map ID (map svM svs)) \<longrightarrow> distinct (map ID picks))
    \<and> (is_zero Q r' \<or> (\<forall>m\<in>set (map svM svs). drain_pass Q u claimed m \<longrightarrow> m \<in> set picks))"
  proof (cases "is_zero Q r")
    case True
    then show ?thesis using assms by (simp add: drain_walk_take)
  next
    case False
    obtain full where t: "take_loop Q (drain_pass Q u claimed) (map svM svs) [] r = (picks, r', full)"
      using assms False by (auto simp: drain_walk_take split: prod.splits)
    obtain pre post where tp: "map svM svs = pre @ post" "picks = filter (drain_pass Q u claimed) pre"
        "\<not> full \<longrightarrow> post = []" "r' = remaining_of Q r picks" "full \<longrightarrow> is_zero Q r'"
      by (rule take_loop_spec [OF t]) (auto simp: take_post_def)
    then show ?thesis by (cases full) (auto simp: distinct_map_filter)
  qed
  then show "r' = remaining_of Q r picks"
    "\<forall>m\<in>set picks. m \<in> set (map svM svs) \<and> drain_pass Q u claimed m"
    "distinct (map ID (map svM svs)) \<Longrightarrow> distinct (map ID picks)"
    "is_zero Q r' \<or> (\<forall>m\<in>set (map svM svs). drain_pass Q u claimed m \<longrightarrow> m \<in> set picks)"
    by blast+
qed

interpretation score_memo: memoized "\<lambda>p. (fingerprint p, priority p)" "scored_victims snap opts" profile_ok
  for snap opts
  by unfold_locales (metis fingerprint_inj prod.inject)

text \<open>The run without its cache: each need with the machines preempted for it.\<close>

fun victims_for ::
    "'q qlib \<Rightarrow> snapshot \<Rightarrow> phase2_options \<Rightarrow> string set \<Rightarrow> unsatisfied_need list
      \<Rightarrow> (unsatisfied_need \<times> machine list) list" where
  "victims_for Q snap opts claimed [] = []"
| "victims_for Q snap opts claimed (u # us) =
    (let picks = (if passed_over u then []
           else fst (drain_walk Q u claimed (scored_victims snap opts (nProfile (unNeed u))) (unDeficit u) []))
     in (u, picks) # victims_for Q snap opts (claimed \<union> set (map ID picks)) us)"

definition unresolved_of :: "'q qlib \<Rightarrow> unsatisfied_need \<times> machine list \<Rightarrow> unsatisfied_need list" where
  "unresolved_of Q = (\<lambda>(u, picks).
     if passed_over u then [u]
     else if is_zero Q (remaining_of Q (unDeficit u) picks) then []
     else [\<lparr>unNeed = unNeed u, unDeficit = remaining_of Q (unDeficit u) picks, unSameDomain = '''',
            unAcquired = 0, unSameSatisfiable = False, unPreempted = length picks > 0,
            unVictimsFound = length picks,
            unCapacityFreed = foldl (\<lambda>acc m. add_resources Q acc (alloc_of m)) [] picks\<rparr>])"

definition preempts :: "unsatisfied_need \<times> machine list \<Rightarrow> action list" where
  "preempts = (\<lambda>(u, picks). map (preempt_action (priority (nProfile (unNeed u)))) picks)"

lemma phase2_loop:
  assumes "\<forall>u\<in>set us. profile_ok (nProfile (unNeed u))"
    and "table_of (\<lambda>p. (fingerprint p, priority p)) (scored_victims snap opts) profile_ok cache"
  shows "\<exists>claimed' cache'. foldl (phase2_step Q snap opts) (claimed, cache, out) us = (claimed', cache',
    \<lparr>p2Actions = p2Actions out @ concat (map preempts (victims_for Q snap opts claimed us)),
     p2Unresolved = p2Unresolved out @ concat (map (unresolved_of Q) (victims_for Q snap opts claimed us))\<rparr>)"
  using assms
proof (induction us arbitrary: claimed cache out)
  case (Cons u us)
  show ?case
  proof (cases "passed_over u")
    case True
    then have st: "phase2_step Q snap opts (claimed, cache, out) u
        = (claimed, cache, out\<lparr>p2Unresolved := p2Unresolved out @ [u]\<rparr>)"
      by (simp add: phase2_step_def)
    have "\<forall>u\<in>set us. profile_ok (nProfile (unNeed u))" using Cons.prems(1) by simp
    from Cons.IH [OF this Cons.prems(2), of claimed "out\<lparr>p2Unresolved := p2Unresolved out @ [u]\<rparr>"]
    show ?thesis using True by (simp add: st preempts_def unresolved_of_def)
  next
    case False
    let ?p = "nProfile (unNeed u)"
    obtain sorted cache1 where m: "memo (fingerprint ?p, priority ?p) (scored_victims snap opts ?p) cache
        = (sorted, cache1)" by (rule prod.exhaust)
    have pk: "profile_ok ?p" using Cons.prems(1) by simp
    note M = score_memo.memo_transparent [OF Cons.prems(2) pk m]
    obtain picks r where dw: "drain_walk Q u claimed (scored_victims snap opts ?p) (unDeficit u) [] = (picks, r)"
      by (rule prod.exhaust)
    have r: "r = remaining_of Q (unDeficit u) picks" by (rule drain_walk_spec(1) [OF dw])
    let ?out = "\<lparr>p2Actions = p2Actions out @ preempts (u, picks),
      p2Unresolved = p2Unresolved out @ unresolved_of Q (u, picks)\<rparr>"
    have st: "phase2_step Q snap opts (claimed, cache, out) u = (claimed \<union> set (map ID picks), cache1, ?out)"
      using False m dw unfolding M(1)
      by (simp add: phase2_step_def Let_def preempts_def unresolved_of_def r)
    have "\<forall>u\<in>set us. profile_ok (nProfile (unNeed u))" using Cons.prems(1) by simp
    from Cons.IH [OF this M(2), of "claimed \<union> set (map ID picks)" ?out]
    show ?thesis using False dw by (simp add: st Let_def)
  qed
qed simp

lemma phase2_trace:
  assumes "\<forall>u\<in>set us. profile_ok (nProfile (unNeed u))"
  shows "phase2 Q snap us opts =
    \<lparr>p2Actions = concat (map preempts (victims_for Q snap opts {} (preemption_order us))),
     p2Unresolved = concat (map (unresolved_of Q) (victims_for Q snap opts {} (preemption_order us)))\<rparr>"
proof (cases "us = []")
  case True
  then show ?thesis by (simp add: phase2_def preemption_order_def)
next
  case False
  have "\<forall>u\<in>set (preemption_order us). profile_ok (nProfile (unNeed u))"
    using assms by (simp add: preemption_order_def)
  from phase2_loop [OF this table_of_empty, of Q snap opts "{}" "\<lparr>p2Actions = [], p2Unresolved = []\<rparr>"]
  show ?thesis using False by (auto simp: phase2_def)
qed

text \<open>What the trace promises: only victims, none twice, and none left while a need is short.\<close>

definition trace_ok :: "'q qlib \<Rightarrow> snapshot \<Rightarrow> string set \<Rightarrow> (unsatisfied_need \<times> machine list) list \<Rightarrow> bool" where
  "trace_ok Q snap claimed tr \<longleftrightarrow>
    distinct (map ID (concat (map snd tr)))
    \<and> (\<forall>(u, picks)\<in>set tr. \<forall>m\<in>set picks. victim_of Q snap u m \<and> ID m \<notin> claimed \<and> \<not> passed_over u)"

lemma trace_okD:
  "trace_ok Q snap claimed tr \<Longrightarrow> distinct (map ID (concat (map snd tr)))"
  "trace_ok Q snap claimed tr \<Longrightarrow> (u, picks) \<in> set tr \<Longrightarrow> m \<in> set picks \<Longrightarrow>
    victim_of Q snap u m \<and> ID m \<notin> claimed \<and> \<not> passed_over u"
  unfolding trace_ok_def by blast+

lemma drain_victim:
  assumes ok: "snapshot_ok snap"
    and m: "m \<in> set (map svM (scored_victims snap opts (nProfile (unNeed u))))" "drain_pass Q u claimed m"
  shows "victim_of Q snap u m \<and> ID m \<notin> claimed"
  using scored_victims_props(1) [OF ok m(1)] m(2) victim_pool_iff [OF ok]
  by (auto simp: victim_of_def drain_pass_def)

lemma image_disjointI: "(\<And>m. m \<in> B \<Longrightarrow> f m \<notin> f ` A) \<Longrightarrow> f ` A \<inter> f ` B = {}"
  by (force simp: image_iff)

lemma victims_ok:
  assumes ok: "snapshot_ok snap" and d: "\<forall>u\<in>set us. types_distinct (nProfile (unNeed u))"
  shows "trace_ok Q snap claimed (victims_for Q snap opts claimed us)
    \<and> map fst (victims_for Q snap opts claimed us) = us"
  using d
proof (induction us arbitrary: claimed)
  case (Cons u us)
  define sv where "sv = scored_victims snap opts (nProfile (unNeed u))"
  define picks where "picks = (if passed_over u then [] else fst (drain_walk Q u claimed sv (unDeficit u) []))"
  let ?claimed = "claimed \<union> set (map ID picks)"
  have v: "victims_for Q snap opts claimed (u # us) = (u, picks) # victims_for Q snap opts ?claimed us"
    by (simp add: picks_def sv_def Let_def)
  have p: "distinct (map ID picks)" "\<forall>m\<in>set picks. victim_of Q snap u m \<and> ID m \<notin> claimed \<and> \<not> passed_over u"
  proof -
    obtain ps r where dw: "drain_walk Q u claimed sv (unDeficit u) [] = (ps, r)" by (rule prod.exhaust)
    note D = drain_walk_spec [OF dw]
    have "distinct (map ID (map svM sv))"
      unfolding sv_def using Cons.prems by (intro scored_victims_props(3) [OF ok]) simp
    then show "distinct (map ID picks)" using D(3) dw by (simp add: picks_def)
    show "\<forall>m\<in>set picks. victim_of Q snap u m \<and> ID m \<notin> claimed \<and> \<not> passed_over u"
      using D(2) dw drain_victim [OF ok, of _ opts u Q claimed, folded sv_def]
      by (auto simp: picks_def)
  qed
  have IH: "trace_ok Q snap ?claimed (victims_for Q snap opts ?claimed us)"
    "map fst (victims_for Q snap opts ?claimed us) = us" using Cons by auto
  have disj: "ID ` set picks \<inter> ID ` set (concat (map snd (victims_for Q snap opts ?claimed us))) = {}"
  proof -
    have "ID m \<notin> ID ` set picks"
      if m: "m \<in> set (concat (map snd (victims_for Q snap opts ?claimed us)))" for m
    proof -
      obtain u' pk where "(u', pk) \<in> set (victims_for Q snap opts ?claimed us)" "m \<in> set pk" using m by auto
      from trace_okD(2) [OF IH(1) this] show ?thesis by simp
    qed
    then show ?thesis by (rule image_disjointI)
  qed
  show ?case
    unfolding v trace_ok_def
  proof (intro conjI)
    show "distinct (map ID (concat (map snd ((u, picks) # victims_for Q snap opts ?claimed us))))"
      using trace_okD(1) [OF IH(1)] p(1) disj by simp
    show "map fst ((u, picks) # victims_for Q snap opts ?claimed us) = u # us" using IH(2) by simp
    show "\<forall>(u', pk)\<in>set ((u, picks) # victims_for Q snap opts ?claimed us).
        \<forall>m\<in>set pk. victim_of Q snap u' m \<and> ID m \<notin> claimed \<and> \<not> passed_over u'"
    proof (clarify, goal_cases)
      case (1 u' pk m)
      show ?case
      proof (cases "(u', pk) = (u, picks)")
        case True
        then show ?thesis using p(2) 1 by blast
      next
        case False
        then have "(u', pk) \<in> set (victims_for Q snap opts ?claimed us)" using 1 by auto
        from trace_okD(2) [OF IH(1) this] show ?thesis using 1 by simp
      qed
    qed
  qed
qed (simp add: trace_ok_def)

text \<open>A need is left short only when each of its victims goes to it or to a need before it.\<close>

lemma victims_exhaust:
  assumes ok: "snapshot_ok snap" and ix: "priorities_indexed snap"
    and so: "sorted_wrt (\<lambda>a b. priority (nProfile (unNeed b)) \<le> priority (nProfile (unNeed a))) us"
    and e: "(u, picks) \<in> set (victims_for Q snap opts claimed us)" "\<not> passed_over u"
      "\<not> is_zero Q (remaining_of Q (unDeficit u) picks)"
    and m: "victim_of Q snap u m"
  shows "ID m \<in> claimed \<or> (\<exists>u' picks'. (u', picks') \<in> set (victims_for Q snap opts claimed us)
    \<and> ID m \<in> ID ` set picks' \<and> priority (nProfile (unNeed u)) \<le> priority (nProfile (unNeed u')))"
  using so e(1)
proof (induction us arbitrary: claimed)
  case (Cons v us)
  define sv where "sv = scored_victims snap opts (nProfile (unNeed v))"
  define pk where "pk = (if passed_over v then [] else fst (drain_walk Q v claimed sv (unDeficit v) []))"
  let ?claimed = "claimed \<union> set (map ID pk)"
  have t: "victims_for Q snap opts claimed (v # us) = (v, pk) # victims_for Q snap opts ?claimed us"
    by (simp add: pk_def sv_def Let_def)
  show ?case
  proof (cases "(u, picks) = (v, pk)")
    case True
    obtain r where dw: "drain_walk Q u claimed (scored_victims snap opts (nProfile (unNeed u))) (unDeficit u) [] = (picks, r)"
      using True e(2) by (auto simp: pk_def sv_def intro: prod.exhaust_sel that)
    note D = drain_walk_spec [OF dw]
    have mp: "match_profile (nProfile (unNeed u)) m" using m by (simp add: victim_of_def)
    have "m \<in> set (map svM (scored_victims snap opts (nProfile (unNeed u))))"
      using m by (intro scored_victims_props(2) [OF ok ix _ _ mp] victim_pool_iff [OF ok mp, THEN iffD2])
        (simp_all add: victim_of_def)
    moreover have "drain_pass Q u claimed m" if "ID m \<notin> claimed"
      using m that by (simp add: drain_pass_def victim_of_def)
    ultimately have "ID m \<in> claimed \<or> m \<in> set picks" using D(1,4) e(3) by blast
    then show ?thesis using Cons.prems(2) by (metis image_eqI order_refl)
  next
    case False
    then have tl: "(u, picks) \<in> set (victims_for Q snap opts ?claimed us)" using Cons.prems(2) t by auto
    have fst_us: "map fst (victims_for Q snap opts c us) = us" for c
      by (induction us arbitrary: c) (simp_all add: Let_def)
    have "u \<in> set us" using tl fst_us [of ?claimed] by (metis fst_conv image_eqI list.set_map)
    then have le: "priority (nProfile (unNeed u)) \<le> priority (nProfile (unNeed v))" using Cons.prems(1) by simp
    have "sorted_wrt (\<lambda>a b. priority (nProfile (unNeed b)) \<le> priority (nProfile (unNeed a))) us"
      using Cons.prems(1) by simp
    from Cons.IH [OF this tl] le show ?thesis unfolding t by auto
  qed
qed simp

interpretation preempt_cmp: comparator
  "\<lambda>a b. priority (nProfile (unNeed a)) > priority (nProfile (unNeed b))" "\<lambda>_. True"
  by unfold_locales auto

lemma preemption_order_props:
  "set (preemption_order us) = set us"
  "sorted_wrt (\<lambda>a b. priority (nProfile (unNeed b)) \<le> priority (nProfile (unNeed a))) (preemption_order us)"
  using preempt_cmp.sort_sorted [of us] by (simp_all add: preemption_order_def not_less)

lemma preempts_ids: "map aMachineID (concat (map preempts tr)) = map ID (concat (map snd tr))"
  by (induction tr) (auto simp: preempts_def preempt_action_def)

lemma preempts_mem:
  "a \<in> set (concat (map preempts tr)) \<longleftrightarrow>
    (\<exists>u picks m. (u, picks) \<in> set tr \<and> m \<in> set picks \<and> a = preempt_action (priority (nProfile (unNeed u))) m)"
  by (auto simp: preempts_def)

lemma preempt_action_fields [simp]:
  "aMachineID (preempt_action pr m) = ID m" "aPreemptorPriority (preempt_action pr m) = pr"
  by (simp_all add: preempt_action_def)

text \<open>C15: Preemption disturbs only what it may: every Preempt is of a Configured machine of the snapshot
  that serves a strictly lower priority, matches the preemptor's profile, is large enough for one
  of its units and lies in its domain if it is co-located; it carries the machine's own cluster
  and the grace of the table. No machine is preempted twice, and parked needs, or co-located ones
  without a domain, preempt nothing.\<close>

theorem preempts_only_outranked:
  assumes "snapshot_ok snap"
    and "\<forall>u\<in>set us. profile_ok (nProfile (unNeed u)) \<and> types_distinct (nProfile (unNeed u))"
  shows "let acts = p2Actions (phase2 Q snap us opts) in
    distinct (map aMachineID acts)
    \<and> (\<forall>a\<in>set acts. \<exists>u\<in>set us. \<exists>m. a = preempt_action (priority (nProfile (unNeed u))) m
        \<and> victim_of Q snap u m \<and> \<not> passed_over u)"
proof -
  let ?tr = "victims_for Q snap opts {} (preemption_order us)"
  have p: "p2Actions (phase2 Q snap us opts) = concat (map preempts ?tr)"
    using phase2_trace [of us Q snap opts] assms(2) by simp
  have v: "trace_ok Q snap {} ?tr" "map fst ?tr = preemption_order us"
    using victims_ok [OF assms(1), of "preemption_order us" Q "{}" opts] assms(2)
    by (simp_all add: preemption_order_props(1))
  have "\<exists>u\<in>set us. \<exists>m. a = preempt_action (priority (nProfile (unNeed u))) m \<and> victim_of Q snap u m \<and> \<not> passed_over u"
    if act: "a \<in> set (concat (map preempts ?tr))" for a
  proof -
    obtain u picks m where u: "(u, picks) \<in> set ?tr" "m \<in> set picks" "a = preempt_action (priority (nProfile (unNeed u))) m"
      using act unfolding preempts_mem by blast
    have "u \<in> set us" using u(1) v(2) preemption_order_props(1) by (metis fst_conv image_eqI list.set_map)
    then show ?thesis using trace_okD(2) [OF v(1) u(1,2)] u(3) by blast
  qed
  moreover have "distinct (map aMachineID (concat (map preempts ?tr)))"
    unfolding preempts_ids by (rule trace_okD(1) [OF v(1)])
  ultimately show ?thesis unfolding Let_def p by blast
qed

text \<open>C18: Preemption goes as far as it can: a need is reported unresolved only if it was passed over, or
  if something is still missing and each machine that could be preempted for it is being
  preempted, for it or for a need of at least its priority.\<close>

theorem unresolved_only_if_exhausted:
  assumes "snapshot_ok snap" "priorities_indexed snap"
    and "\<forall>u\<in>set us. profile_ok (nProfile (unNeed u))"
    and "e \<in> set (p2Unresolved (phase2 Q snap us opts))"
  shows "e \<in> set us \<and> passed_over e
    \<or> (\<exists>u\<in>set us. unNeed e = unNeed u \<and> \<not> is_zero Q (unDeficit e)
        \<and> (\<forall>m. victim_of Q snap u m \<longrightarrow> (\<exists>a\<in>set (p2Actions (phase2 Q snap us opts)).
             aMachineID a = ID m \<and> priority (nProfile (unNeed u)) \<le> aPreemptorPriority a)))"
proof -
  let ?tr = "victims_for Q snap opts {} (preemption_order us)"
  have p: "p2Actions (phase2 Q snap us opts) = concat (map preempts ?tr)"
    "p2Unresolved (phase2 Q snap us opts) = concat (map (unresolved_of Q) ?tr)"
    using phase2_trace [of us Q snap opts] assms(3) by simp_all
  obtain u picks where u: "(u, picks) \<in> set ?tr" "e \<in> set (unresolved_of Q (u, picks))"
    using assms(4) unfolding p(2) by auto
  have fst_tr: "map fst (victims_for Q snap opts c vs) = vs" for c vs
    by (induction vs arbitrary: c) (simp_all add: Let_def)
  have "u \<in> set (preemption_order us)" using u(1) fst_tr by (metis fst_conv image_eqI list.set_map)
  then have us: "u \<in> set us" by (simp add: preemption_order_props(1))
  show ?thesis
  proof (cases "passed_over u")
    case True
    then show ?thesis using u(2) us by (simp add: unresolved_of_def)
  next
    case False
    then have nz: "\<not> is_zero Q (remaining_of Q (unDeficit u) picks)"
      and e: "unNeed e = unNeed u" "unDeficit e = remaining_of Q (unDeficit u) picks"
      using u(2) by (auto simp: unresolved_of_def split: if_splits)
    have "\<exists>a\<in>set (p2Actions (phase2 Q snap us opts)).
        aMachineID a = ID m \<and> priority (nProfile (unNeed u)) \<le> aPreemptorPriority a" if vm: "victim_of Q snap u m" for m
    proof -
      obtain u' picks' m' where x: "(u', picks') \<in> set ?tr" "m' \<in> set picks'" "ID m' = ID m"
          "priority (nProfile (unNeed u)) \<le> priority (nProfile (unNeed u'))"
        using victims_exhaust [OF assms(1,2) preemption_order_props(2) u(1) False nz vm] by auto
      have "preempt_action (priority (nProfile (unNeed u'))) m' \<in> set (p2Actions (phase2 Q snap us opts))"
        unfolding p(1) preempts_mem using x(1,2) by blast
      then show ?thesis using x(3,4) by (metis preempt_action_fields)
    qed
    then show ?thesis using us e nz by metis
  qed
qed

section \<open>What phase 1 asks for\<close>

definition result_actions :: "need list \<Rightarrow> need_result \<Rightarrow> action list" where
  "result_actions ns r = map (bootstrap_action (ns ! nrNeed r)) (nrBootstrapMachines r)
    @ map (provision_action (ns ! nrNeed r)) (nrProvisionMachines r)"

lemma phase1_loop:
  "let out = foldl (phase1_step ns) res rs in
    p1Actions out = p1Actions res @ concat (map (result_actions ns) rs)
    \<and> p1Claimed out = p1Claimed res
    \<and> map unNeed (p1Unsatisfied out) = map unNeed (p1Unsatisfied res)
        @ map (\<lambda>r. ns ! nrNeed r) (filter nrUnsatisfied rs)
    \<and> map unDeficit (p1Unsatisfied out) = map unDeficit (p1Unsatisfied res)
        @ map nrDeficit (filter nrUnsatisfied rs)
    \<and> p1Verdicts out = p1Verdicts res @ map verdict_of rs"
proof (induction rs arbitrary: res)
  case (Cons r rs)
  have st: "p1Actions (phase1_step ns res r) = p1Actions res @ result_actions ns r"
    "p1Claimed (phase1_step ns res r) = p1Claimed res"
    "map unNeed (p1Unsatisfied (phase1_step ns res r)) = map unNeed (p1Unsatisfied res)
      @ (if nrUnsatisfied r then [ns ! nrNeed r] else [])"
    "map unDeficit (p1Unsatisfied (phase1_step ns res r)) = map unDeficit (p1Unsatisfied res)
      @ (if nrUnsatisfied r then [nrDeficit r] else [])"
    "p1Verdicts (phase1_step ns res r) = p1Verdicts res @ [verdict_of r]"
    by (simp_all add: phase1_step_def result_actions_def Let_def)
  show ?case using Cons [of "phase1_step ns res r"] by (simp add: Let_def st)
qed simp

lemma phase1_of_fields:
  "p1Actions (phase1_of ns c) = concat (map (result_actions ns) (crResults c))"
  "p1Claimed (phase1_of ns c) = crClaimed c"
  "map unNeed (p1Unsatisfied (phase1_of ns c)) = map (\<lambda>r. ns ! nrNeed r) (filter nrUnsatisfied (crResults c))"
  "map unDeficit (p1Unsatisfied (phase1_of ns c)) = map nrDeficit (filter nrUnsatisfied (crResults c))"
  "p1Verdicts (phase1_of ns c) = map verdict_of (crResults c)"
  using phase1_loop [of ns "\<lparr>p1Actions = [], p1Unsatisfied = [], p1Claimed = crClaimed c,
      p1SatisfiedGangs = [], p1Verdicts = []\<rparr>" "crResults c"]
  by (simp_all add: phase1_of_def Let_def)

lemma new_action_fields [simp]:
  "aMachineID (bootstrap_action nd k) = k" "aKind (bootstrap_action nd k) = ActionKindBootstrap"
  "aCluster (bootstrap_action nd k) = nCluster nd" "aSourceProfile (bootstrap_action nd k) = Some (nProfile nd)"
  "aMachineID (provision_action nd k) = k" "aKind (provision_action nd k) = ActionKindProvision"
  "aCluster (provision_action nd k) = nCluster nd" "aSourceProfile (provision_action nd k) = Some (nProfile nd)"
  "aMachineID (reclaim_action c m) = ID m" "aKind (reclaim_action c m) = ActionKindReclaim"
  "aCluster (reclaim_action c m) = c" "aGracePeriod (reclaim_action c m) = reclaim_grace"
  "aMachineID (delete_action m) = ID m" "aKind (delete_action m) = ActionKindDelete"
  by (simp_all add: bootstrap_action_def provision_action_def reclaim_action_def delete_action_def)

lemma in_state_iff: "in_state snap st k \<longleftrightarrow> (\<exists>m. snap_get snap k = Some m \<and> State m = st)"
  by (auto simp: in_state_def split: option.splits)

lemma result_actions_ids:
  "map aMachineID (result_actions ns r) = nrBootstrapMachines r @ nrProvisionMachines r"
  by (simp add: result_actions_def comp_def)

lemma distinct_concat_elem: "distinct (concat (map f xs)) \<Longrightarrow> x \<in> set xs \<Longrightarrow> distinct (f x)"
  by (induction xs) auto

lemma distinct_concat_sub:
  assumes "distinct (concat (map f xs))" "\<forall>x\<in>set xs. distinct (g x) \<and> set (g x) \<subseteq> set (f x)"
  shows "distinct (concat (map g xs))"
  using assms by (induction xs) (auto, blast)

text \<open>Phase 1 returns, or its cycle blocks on the work channel.\<close>

lemma phase1_ends:
  assumes "snapshot_ok snap" "fp_unique ns"
    and "snap_len snap < f" "length ns + snap_len snap * length ns \<le> g"
  shows "phase1 g f Q snap ns = Some Blocked \<and> \<not> channel_fits snap ns default_retries
    \<or> (\<exists>res. phase1 g f Q snap ns = Some (Returned res))"
  using run_cycle_ends [OF assms, of Q default_retries]
  by (auto simp: phase1_def default_retries_def)

lemma phase1_exact:
  assumes ok: "snapshot_ok snap" "fp_unique ns"
    and fuel: "snap_len snap < f" "length ns + snap_len snap * length ns \<le> g"
    and returned: "phase1 g f Q snap ns = Some (Returned res)"
  shows "distinct (map aMachineID (p1Actions res))
    \<and> (\<forall>a\<in>set (p1Actions res). \<exists>nd\<in>set ns. \<exists>m. snap_get snap (aMachineID a) = Some m
        \<and> match_profile (nProfile nd) m \<and> aCluster a = nCluster nd \<and> aSourceProfile a = Some (nProfile nd)
        \<and> (aKind a = ActionKindBootstrap \<and> State m = StateIdle
           \<or> aKind a = ActionKindProvision \<and> State m = StateSpeculative))
    \<and> aMachineID ` set (p1Actions res)
        = {k \<in> set (p1Claimed res). in_state snap StateIdle k \<or> in_state snap StateSpeculative k}
    \<and> (\<forall>u\<in>set (p1Unsatisfied res). unNeed u \<in> set ns \<and> \<not> is_zero Q (unDeficit u))"
proof -
  obtain c where c: "run_cycle g f Q snap ns default_retries = Some (Returned c)" "res = phase1_of ns c"
    using returned by (cases "the (run_cycle g f Q snap ns default_retries)") (auto simp: phase1_def)
  obtain s where s: "c = cycle_results Q ns s" "claims_valid ns s" "ssSnap s = snap"
    by (rule run_cycle_returned [OF ok fuel c(1)])
  let ?c = "cycle_results Q ns s" and ?rs = "map (need_result_for Q ns s) [0..<length ns]"
  have rs: "crResults ?c = ?rs" "crClaimed ?c = concat (map nrClaimedMachines ?rs)"
    by (simp_all add: cycle_results_def)
  have fields: "nrNeed (need_result_for Q ns s n) = n"
    "nrClaimedMachines (need_result_for Q ns s n) = claimed_for s n"
    "nrBootstrapMachines (need_result_for Q ns s n) = filter (in_state snap StateIdle) (claimed_for s n)"
    "nrProvisionMachines (need_result_for Q ns s n) = filter (in_state snap StateSpeculative) (claimed_for s n)"
    "nrUnsatisfied (need_result_for Q ns s n) \<longleftrightarrow> \<not> is_zero Q (nrDeficit (need_result_for Q ns s n))" for n
    using s(3) by (simp_all add: need_result_for_def Let_def)
  have one: "\<not> (in_state snap StateIdle k \<and> in_state snap StateSpeculative k)" for k by (auto simp: in_state_iff)
  have d: "distinct (concat (map nrClaimedMachines ?rs))"
    using claimed_disjoint [of s "[0..<length ns]"] s(2) by (simp add: claims_valid_def comp_def fields)
  have acts: "p1Actions (phase1_of ns ?c) = concat (map (result_actions ns) ?rs)"
    using phase1_of_fields(1) rs(1) by simp
  have "distinct (concat (map (\<lambda>r. nrBootstrapMachines r @ nrProvisionMachines r) ?rs))"
  proof (rule distinct_concat_sub [OF d], intro ballI)
    fix r assume r: "r \<in> set ?rs"
    have "distinct (nrClaimedMachines r)" by (rule distinct_concat_elem [OF d r])
    then show "distinct (nrBootstrapMachines r @ nrProvisionMachines r)
        \<and> set (nrBootstrapMachines r @ nrProvisionMachines r) \<subseteq> set (nrClaimedMachines r)"
      using r one by (auto simp: fields)
  qed
  then have dist: "distinct (map aMachineID (p1Actions (phase1_of ns ?c)))"
    unfolding acts map_concat map_map comp_def result_actions_ids .
  have cl: "set (p1Claimed (phase1_of ns ?c)) = (\<Union>n<length ns. set (claimed_for s n))"
    unfolding phase1_of_fields(2) rs(2) by (auto simp: fields)
  have ids: "aMachineID ` set (p1Actions (phase1_of ns ?c))
      = {k \<in> set (p1Claimed (phase1_of ns ?c)). in_state snap StateIdle k \<or> in_state snap StateSpeculative k}"
    unfolding cl acts set_concat set_map image_Union image_image
    by (auto simp: fields result_actions_def image_Un image_image atLeast0LessThan)
  have each: "\<exists>nd\<in>set ns. \<exists>m. snap_get snap (aMachineID a) = Some m
        \<and> match_profile (nProfile nd) m \<and> aCluster a = nCluster nd \<and> aSourceProfile a = Some (nProfile nd)
        \<and> (aKind a = ActionKindBootstrap \<and> State m = StateIdle
           \<or> aKind a = ActionKindProvision \<and> State m = StateSpeculative)"
    if a: "a \<in> set (p1Actions (phase1_of ns ?c))" for a
  proof -
    obtain n k where n: "n < length ns" "k \<in> set (claimed_for s n)"
      "a = bootstrap_action (ns ! n) k \<and> in_state snap StateIdle k
        \<or> a = provision_action (ns ! n) k \<and> in_state snap StateSpeculative k"
      using a unfolding acts by (auto simp: result_actions_def fields)
    obtain c where c: "claim_valid ns s k c" "cNeed c = n" by (rule claimed_get [OF s(2) n(2)])
    then obtain m where m: "snap_get snap k = Some m" "match_profile (nProfile (ns ! n)) m"
      using c s(3) unfolding claim_valid_def by blast
    have "ns ! n \<in> set ns" using n(1) by simp
    moreover have "State m = st" if "in_state snap st k" for st using that m(1) by (auto simp: in_state_iff)
    ultimately show ?thesis using n(3) m by (intro bexI [of _ "ns ! n"] exI [of _ m]) auto
  qed
  have unsat: "unNeed u \<in> set ns \<and> \<not> is_zero Q (unDeficit u)" if u: "u \<in> set (p1Unsatisfied (phase1_of ns ?c))" for u
  proof -
    have "unNeed u \<in> set (map unNeed (p1Unsatisfied (phase1_of ns ?c)))"
      "unDeficit u \<in> set (map unDeficit (p1Unsatisfied (phase1_of ns ?c)))" using u by simp_all
    then show ?thesis unfolding phase1_of_fields(3,4) rs(1) by (auto simp: fields(1,5))
  qed
  have "res = phase1_of ns ?c" using s(1) c(2) by simp
  then show ?thesis using dist ids each unsat by blast
qed

section \<open>What phase 3 gives back\<close>

lemma gm_ok_append2: "gm_ok m \<Longrightarrow> gm_ok (gm_append2 a b x m)"
  by (simp add: gm_append2_def distinct_update)

lemma clusters_distinct: "distinct (snap_clusters (snapshot_of i))"
proof -
  have "gm_ok (snByClusterState (foldl (index_machine i) empty_snapshot ids))" for ids
  proof (induction ids rule: rev_induct)
    case (snoc k ids)
    then show ?case by (simp add: index_machine_fields gm_ok_append2)
  qed (simp add: empty_snapshot_def)
  then show ?thesis by (simp add: snap_clusters_def snapshot_of_index index_of_def)
qed

lemma configured_bound:
  assumes "snapshot_ok snap" "snap_get snap k = Some m" "State m = StateConfigured"
  shows "Cluster m \<noteq> ''''"
  using snap.get_wf [OF assms(1,2)] assms(3) by (simp add: wf_machine_def)

lemma clusters_with_configured_mem:
  assumes ok: "snapshot_ok snap"
  shows "c \<in> set (clusters_with_configured snap) \<longleftrightarrow>
      (\<exists>k m. snap_get snap k = Some m \<and> State m = StateConfigured \<and> Cluster m = c)"
    and "distinct (clusters_with_configured snap)"
proof -
  obtain i where i: "inv_ok i" "snap = snapshot_of i" using ok by (auto simp: snapshot_ok_def)
  have cnt: "snap_count_by_cluster_state snap c st = length (snap_by_cluster_state snap c st)" for c st
    by (simp add: snap_count_by_cluster_state_def snap_by_cluster_state_def)
  have keys: "c \<in> set (snap_clusters snap)" if "snap_by_cluster_state snap c st \<noteq> []" for c st
  proof (rule ccontr)
    assume "c \<notin> set (snap_clusters snap)"
    then have "gm_get (snByClusterState snap) c = None" by (simp add: snap_clusters_def gm_get_none_iff)
    then have "gm_at [] (snByClusterState snap) c = []" by (simp add: gm_at_def)
    then show False using that by (simp add: snap_by_cluster_state_def)
  qed
  have mem: "c \<in> set (clusters_with_configured snap) \<longleftrightarrow> snap_by_cluster_state snap c StateConfigured \<noteq> []"
    using keys [of c StateConfigured] by (auto simp: clusters_with_configured_def cnt)
  note ne = configured_bound [OF ok]
  have "snap_by_cluster_state snap c StateConfigured \<noteq> []
      \<longleftrightarrow> (\<exists>m. gm_get (byID i) (ID m) = Some m \<and> State m = StateConfigured \<and> Cluster m = c \<and> c \<noteq> '''')"
    unfolding i(2) snapshot_lists(3) [OF i(1)] by (auto simp: filter_empty_conv set_inv_machines [OF i(1)])
  also have "\<dots> \<longleftrightarrow> (\<exists>k m. snap_get snap k = Some m \<and> State m = StateConfigured \<and> Cluster m = c)"
    using ne snap.get_id [OF ok] unfolding i(2) snap_get_inv [OF i(1)] by metis
  finally show "c \<in> set (clusters_with_configured snap) \<longleftrightarrow>
      (\<exists>k m. snap_get snap k = Some m \<and> State m = StateConfigured \<and> Cluster m = c)" using mem by simp
  show "distinct (clusters_with_configured snap)"
    using clusters_distinct [of i] i(2) by (simp add: clusters_with_configured_def)
qed

text \<open>Which machines may be reclaimed and which released.\<close>

definition excess :: "snapshot \<Rightarrow> string set \<Rightarrow> (string \<Rightarrow> bool) \<Rightarrow> machine \<Rightarrow> bool" where
  "excess snap claimed ready m \<longleftrightarrow> snap_get snap (ID m) = Some m \<and> State m = StateConfigured
    \<and> ready (Cluster m) \<and> ID m \<notin> claimed"

definition expired :: "snapshot \<Rightarrow> string set \<Rightarrow> release_policy \<Rightarrow> int \<Rightarrow> machine \<Rightarrow> bool" where
  "expired snap claimed policy now m \<longleftrightarrow> snap_get snap (ID m) = Some m \<and> State m = StateIdle
    \<and> ID m \<notin> claimed
    \<and> (CapacityType (MProfile m) = CapacityTypeOnDemand \<or> CapacityType (MProfile m) = CapacityTypeSpot)
    \<and> 0 < fst (hold policy (CapacityType (MProfile m)))
    \<and> (\<exists>since. snap_idle_since snap (ID m) = Some since
         \<and> fst (hold policy (CapacityType (MProfile m))) \<le> time_sub now since)"

lemma released_iff:
  assumes "snapshot_ok snap"
  shows "m \<in> set (filter (released snap claimed policy now) (snap_by_state snap StateIdle))
    \<longleftrightarrow> expired snap claimed policy now m"
  using snap.by_state_iff [OF assms, of m StateIdle]
  by (cases "CapacityType (MProfile m)")
    (auto simp: released_def expired_def hold_def not_less split: option.splits)

lemma reclaim_list:
  "map aMachineID (reclaim_actions snap claimed ready) = concat (map (\<lambda>c.
     if ready c then map ID (filter (\<lambda>m. ID m \<notin> claimed) (snap_keep_bucket snap c StateConfigured)) else [])
     (clusters_with_configured snap))"
  unfolding reclaim_actions_def map_concat map_map
  by (intro arg_cong [where f = concat] map_cong refl) simp

lemma reclaim_mem:
  assumes ok: "snapshot_ok snap"
  shows "a \<in> set (reclaim_actions snap claimed ready) \<longleftrightarrow>
    (\<exists>m. excess snap claimed ready m \<and> a = reclaim_action (Cluster m) m)"
proof -
  have kb: "m \<in> set (snap_keep_bucket snap c StateConfigured) \<longleftrightarrow>
      snap_get snap (ID m) = Some m \<and> State m = StateConfigured \<and> Cluster m = c" for m c
    using snap.by_cluster_iff [OF ok, of m c StateConfigured] configured_bound [OF ok] by blast
  show ?thesis
  proof
    assume "a \<in> set (reclaim_actions snap claimed ready)"
    then show "\<exists>m. excess snap claimed ready m \<and> a = reclaim_action (Cluster m) m"
      by (auto simp: reclaim_actions_def kb excess_def split: if_splits)
  next
    assume "\<exists>m. excess snap claimed ready m \<and> a = reclaim_action (Cluster m) m"
    then obtain m where m: "excess snap claimed ready m" "a = reclaim_action (Cluster m) m" by blast
    have c: "Cluster m \<in> set (clusters_with_configured snap)"
      using m(1) unfolding clusters_with_configured_mem(1) [OF ok] excess_def by blast
    have "a \<in> set (if \<not> ready (Cluster m) then [] else map (reclaim_action (Cluster m))
        (filter (\<lambda>m. ID m \<notin> claimed) (snap_keep_bucket snap (Cluster m) StateConfigured)))"
      using m by (simp add: kb excess_def)
    then show "a \<in> set (reclaim_actions snap claimed ready)"
      unfolding reclaim_actions_def set_concat set_map using c by blast
  qed
qed

lemma reclaim_distinct:
  assumes ok: "snapshot_ok snap"
  shows "distinct (map aMachineID (reclaim_actions snap claimed ready))"
proof -
  have "distinct (concat (map (\<lambda>c. map ID (snap_keep_bucket snap c StateConfigured)) cs))" if "distinct cs" for cs
    using that
  proof (induction cs)
    case (Cons c cs)
    have "ID ` set (snap_keep_bucket snap c StateConfigured) \<inter> ID ` set (snap_keep_bucket snap c' StateConfigured) = {}"
      if "c' \<in> set cs" for c'
      using snap.one_cluster [OF ok, of _ c StateConfigured _ c' StateConfigured] that Cons.prems by fastforce
    then show ?case using Cons snap.by_cluster_distinct [OF ok] by (auto simp: image_Union)
  qed simp
  from this [OF clusters_with_configured_mem(2) [OF ok]] show ?thesis
    unfolding reclaim_list
    by (rule distinct_concat_sub) (use snap.by_cluster_distinct [OF ok] in \<open>auto intro: distinct_map_filter\<close>)
qed

lemma phase3_char:
  assumes "snapshot_ok snap"
  shows "let acts = phase3 snap claimed ready policy now in
    distinct (map aMachineID acts)
    \<and> (\<forall>a. a \<in> set acts \<longleftrightarrow>
        (\<exists>m. excess snap claimed ready m \<and> a = reclaim_action (Cluster m) m)
        \<or> (\<exists>m. expired snap claimed policy now m \<and> a = delete_action m))"
proof -
  let ?R = "reclaim_actions snap claimed ready"
  let ?I = "filter (released snap claimed policy now) (snap_by_state snap StateIdle)"
  let ?D = "map delete_action ?I"
  have d: "distinct (map aMachineID ?D)"
    using snap.by_state_distinct [OF assms, of StateIdle] by (simp add: comp_def distinct_map_filter)
  have disj: "aMachineID ` set ?R \<inter> aMachineID ` set (map delete_action ?I) = {}"
  proof -
    have "aMachineID a \<noteq> aMachineID b" if ab: "a \<in> set ?R" "b \<in> set (map delete_action ?I)" for a b
    proof -
      obtain m where m: "excess snap claimed ready m" "a = reclaim_action (Cluster m) m"
        using ab(1) reclaim_mem [OF assms] by blast
      obtain x where x: "x \<in> set ?I" "b = delete_action x" using ab(2) by auto
      have "expired snap claimed policy now x" using x(1) released_iff [OF assms] by blast
      then have x': "snap_get snap (ID x) = Some x" "State x = StateIdle" unfolding expired_def by blast+
      have m': "snap_get snap (ID m) = Some m" "State m = StateConfigured"
        using m(1) unfolding excess_def by blast+
      have "ID m \<noteq> ID x" using m' x' by (metis option.inject state.distinct)
      then show ?thesis using m(2) x(2) by simp
    qed
    then show ?thesis by blast
  qed
  have D: "a \<in> set ?D \<longleftrightarrow> (\<exists>m. expired snap claimed policy now m \<and> a = delete_action m)" for a
    unfolding set_map using released_iff [OF assms] by blast
  have e: "phase3 snap claimed ready policy now = ?R @ ?D" by (simp add: phase3_def)
  have "distinct (map aMachineID (?R @ ?D))"
    unfolding map_append distinct_append using reclaim_distinct [OF assms] d disj by (simp only: set_map simp_thms)
  moreover have "a \<in> set (?R @ ?D) \<longleftrightarrow> (\<exists>m. excess snap claimed ready m \<and> a = reclaim_action (Cluster m) m)
      \<or> (\<exists>m. expired snap claimed policy now m \<and> a = delete_action m)" for a
    unfolding set_append Un_iff D reclaim_mem [OF assms] by (rule refl)
  ultimately show ?thesis unfolding Let_def e by blast
qed

text \<open>Phase 1 turns the cycle's claims into actions, all of them and nothing else: the actions are on
  distinct machines, each claimed by the need whose cluster and profile it names and matching that
  profile, Bootstrap for an Idle and Provision for a Speculative one; every claimed machine in one
  of these states has its action; and the unsatisfied list is the needs whose claims fall short.\<close>

theorem phase1_actions_exact:
  assumes ok: "snapshot_ok snap" "fp_unique ns"
    and fuel: "snap_len snap < f" "length ns + snap_len snap * length ns \<le> g"
    and returned: "phase1 g f Q snap ns = Some (Returned res)"
  shows "distinct (map aMachineID (p1Actions res))
    \<and> (\<forall>a\<in>set (p1Actions res). \<exists>nd\<in>set ns. \<exists>m. snap_get snap (aMachineID a) = Some m
        \<and> match_profile (nProfile nd) m \<and> aCluster a = nCluster nd \<and> aSourceProfile a = Some (nProfile nd)
        \<and> (aKind a = ActionKindBootstrap \<and> State m = StateIdle
           \<or> aKind a = ActionKindProvision \<and> State m = StateSpeculative))
    \<and> aMachineID ` set (p1Actions res)
        = {k \<in> set (p1Claimed res). in_state snap StateIdle k \<or> in_state snap StateSpeculative k}
    \<and> (\<forall>u\<in>set (p1Unsatisfied res). unNeed u \<in> set ns \<and> \<not> is_zero Q (unDeficit u))"
  by (rule phase1_exact [OF assms])

text \<open>C16: Phase 3 gives back exactly the surplus: it reclaims every Configured machine that no need
  claimed in a cluster that has reported, and no other; it deletes every unclaimed Idle machine of
  an elastic capacity type whose idle stamp is older than the type's hold, and no other, so never
  owned or reserved hardware and nothing without a stamp. No machine is given back twice.\<close>

theorem phase3_exact:
  assumes "snapshot_ok snap"
  shows "let acts = phase3 snap claimed ready policy now in
    distinct (map aMachineID acts)
    \<and> (\<forall>a. a \<in> set acts \<longleftrightarrow>
        (\<exists>m. excess snap claimed ready m \<and> a = reclaim_action (Cluster m) m)
        \<or> (\<exists>m. expired snap claimed policy now m \<and> a = delete_action m))"
  by (rule phase3_char [OF assms])

section \<open>The phases together\<close>

text \<open>C17: The phases share one attribution of machines to needs: of the actions of phase 1 and of
  phase 3, given the claims of phase 1, no two are for one machine; no machine a need claimed is
  given back, and none that is given back was claimed. Phase 1 returns, unless its one worker
  blocks on the work channel, which takes a channel too small for the displacements there can be.\<close>

theorem one_attribution:
  assumes ok: "snapshot_ok snap" "fp_unique ns"
    and fuel: "snap_len snap < f" "length ns + snap_len snap * length ns \<le> g"
  shows "phase1 g f Q snap ns = Some Blocked \<and> \<not> channel_fits snap ns default_retries
    \<or> (\<exists>res. phase1 g f Q snap ns = Some (Returned res)
      \<and> (let given = phase3 snap (set (p1Claimed res)) ready policy now in
           distinct (map aMachineID (p1Actions res @ given))
           \<and> aMachineID ` set given \<inter> set (p1Claimed res) = {}))"
proof (cases "phase1 g f Q snap ns = Some Blocked \<and> \<not> channel_fits snap ns default_retries")
  case False
  then obtain res where r: "phase1 g f Q snap ns = Some (Returned res)"
    using phase1_ends [OF ok fuel, of Q] by blast
  note x = phase1_exact [OF ok fuel r]
  then have res: "phase1 g f Q snap ns = Some (Returned res)" "distinct (map aMachineID (p1Actions res))"
    "aMachineID ` set (p1Actions res)
        = {k \<in> set (p1Claimed res). in_state snap StateIdle k \<or> in_state snap StateSpeculative k}"
    using r by blast+
  let ?given = "phase3 snap (set (p1Claimed res)) ready policy now"
  have bk: "distinct (map aMachineID ?given)" "\<forall>a\<in>set ?given. aMachineID a \<notin> set (p1Claimed res)"
  proof -
    note P = phase3_char [OF ok(1), of "set (p1Claimed res)" ready policy now, unfolded Let_def]
    show "distinct (map aMachineID ?given)" using P by blast
    show "\<forall>a\<in>set ?given. aMachineID a \<notin> set (p1Claimed res)"
    proof
      fix a assume "a \<in> set ?given"
      then consider m where "excess snap (set (p1Claimed res)) ready m" "a = reclaim_action (Cluster m) m"
        | m where "expired snap (set (p1Claimed res)) policy now m" "a = delete_action m"
        using P by blast
      then show "aMachineID a \<notin> set (p1Claimed res)"
        by cases (simp_all only: excess_def expired_def new_action_fields not_False_eq_True)
    qed
  qed
  have "aMachineID ` set ?given \<inter> set (p1Claimed res) = {}" using bk(2) by blast
  moreover have "distinct (map aMachineID (p1Actions res @ ?given))"
    unfolding map_append distinct_append set_map res(3) using res(2) bk by blast
  ultimately show ?thesis using res(1) unfolding Let_def by blast
qed blast

section \<open>Concrete runs\<close>

lemma sample_snapshot_len: "snap_len (snapshot_of sample_inventory) = 3"
proof -
  have "length (inv_machines sample_inventory) = length (byID sample_inventory)"
    by (simp add: inv_machines_def inv_ids_def)
  also have "\<dots> = 3" by (simp add: sample_inventory_def)
  finally show ?thesis by (simp only: snap_len_def snapshot_lists(1) [OF sample_inventory_ok])
qed

lemma sample_phase1:
  "fp_unique [sample_need ''c1'' ''4'']" "snap_len (snapshot_of sample_inventory) < 4"
  "length [sample_need ''c1'' ''4''] + snap_len (snapshot_of sample_inventory) * length [sample_need ''c1'' ''4''] \<le> 4"
  by (simp_all add: fp_unique_def sample_snapshot_len)

lemma sample_fits: "channel_fits (snapshot_of sample_inventory) [sample_need ''c1'' ''4''] default_retries"
proof -
  have "displacements [sample_need ''c1'' ''4''] k = 0" for k
    using card_image_le [of "{..<1}" "need_prec [sample_need ''c1'' ''4'']"] by (simp add: displacements_def)
  then show ?thesis by (simp add: channel_fits_def queue_buf_def default_retries_def)
qed

theorem phase1_actions_exact_witness:
  "\<exists>res. phase1 4 4 int_lib (snapshot_of sample_inventory) [sample_need ''c1'' ''4''] = Some (Returned res)
    \<and> distinct (map aMachineID (p1Actions res))"
  using phase1_ends [OF sample_snapshot_ok sample_phase1, where Q = int_lib] sample_fits
    phase1_actions_exact [OF sample_snapshot_ok sample_phase1, where Q = int_lib] by blast

theorem one_attribution_witness:
  "\<exists>res. phase1 4 4 int_lib (snapshot_of sample_inventory) [sample_need ''c1'' ''4''] = Some (Returned res)
    \<and> distinct (map aMachineID (p1Actions res @
        phase3 (snapshot_of sample_inventory) (set (p1Claimed res)) (\<lambda>_. True) default_release_policy 100))"
  using one_attribution [OF sample_snapshot_ok sample_phase1, where Q = int_lib and ready = "\<lambda>_. True"
      and policy = default_release_policy and now = 100] sample_fits
  unfolding Let_def by blast

theorem phase3_exact_witness:
  "delete_action (sample_machine ''b'' StateIdle '''' ''z1'')
      \<in> set (phase3 (snapshot_of sample_inventory) {} (\<lambda>_. False) default_release_policy (11 * Minute))"
proof -
  let ?m = "sample_machine ''b'' StateIdle '''' ''z1''"
  have f: "ID ?m = ''b''" "State ?m = StateIdle" "CapacityType (MProfile ?m) = CapacityTypeOnDemand"
    by (simp_all add: sample_machine_def zero_machine_def zero_mprofile_def)
  have "snap_get (snapshot_of sample_inventory) ''b'' = Some ?m"
    by (simp only: snap_get_inv [OF sample_inventory_ok]) (simp add: sample_inventory_def)
  moreover have "snap_idle_since (snapshot_of sample_inventory) ''b'' = Some 5"
    by (simp only: snap_idle_since_def snapshot_of_index) (simp add: sample_inventory_def)
  ultimately have "expired (snapshot_of sample_inventory) {} default_release_policy (11 * Minute) ?m"
    unfolding expired_def f by (simp add: hold_def default_release_policy_def time_sub_def)
  then show ?thesis
    using phase3_exact [OF sample_snapshot_ok, where claimed = "{}" and ready = "\<lambda>_. False"
        and policy = default_release_policy and now = "11 * Minute"] unfolding Let_def by blast
qed

definition sample_short :: "int \<Rightarrow> unsatisfied_need" where
  "sample_short prio = \<lparr>unNeed = (sample_need ''c2'' ''4'')\<lparr>nProfile := sample_profile prio\<rparr>,
     unDeficit = [\<lparr>rqName = ''cpu'', rqQuantity = ''4''\<rparr>], unSameDomain = ''z1'', unAcquired = 0,
     unSameSatisfiable = False, unPreempted = False, unVictimsFound = 0, unCapacityFreed = []\<rparr>"

lemma sample_short_ok:
  "profile_ok (nProfile (unNeed (sample_short 7)))" "types_distinct (nProfile (unNeed (sample_short 7)))"
  "profile_ok (nProfile (unNeed (sample_short (- 1))))" "\<not> passed_over (sample_short (- 1))"
proof -
  have "pinned_instance_types (nProfile (unNeed (sample_short 7))) = None" by code_simp
  then show "types_distinct (nProfile (unNeed (sample_short 7)))" by (simp add: types_distinct_def)
qed code_simp+

theorem preempts_only_outranked_witness:
  "distinct (map aMachineID (p2Actions (phase2 int_lib (snapshot_of sample_inventory) [sample_short 7]
      default_phase2_options)))"
proof -
  have "\<forall>u\<in>set [sample_short 7]. profile_ok (nProfile (unNeed u)) \<and> types_distinct (nProfile (unNeed u))"
    by (simp add: sample_short_ok)
  from preempts_only_outranked [OF sample_snapshot_ok this, of int_lib default_phase2_options]
  show ?thesis unfolding Let_def by blast
qed

lemma sample_indexed: "priorities_indexed (snapshot_of sample_inventory)"
proof -
  let ?m = "sample_machine ''a'' StateConfigured ''c1'' ''z1''"
  have "snap_get (snapshot_of sample_inventory) ''a'' = Some ?m"
    by (simp only: snap_get_inv [OF sample_inventory_ok]) (simp add: sample_inventory_def)
  moreover have "ID ?m = ''a''" "State ?m = StateConfigured" "InstanceType (MProfile ?m) \<noteq> ''''"
    by (simp_all add: sample_machine_def)
  ultimately show ?thesis
    using snap.by_state_iff [OF sample_snapshot_ok, of ?m StateConfigured] unfolding priorities_indexed_def by metis
qed

lemma sample_priorities:
  "snap_get (snapshot_of sample_inventory) k = Some m \<Longrightarrow> AssignedPriority m = 0"
  unfolding snap_get_inv [OF sample_inventory_ok]
  by (auto simp: sample_inventory_def sample_machine_def zero_machine_def split: if_splits)

text \<open>A need of priority -1 finds nobody to preempt.\<close>

lemma sample_unresolved:
  "(sample_short (- 1))\<lparr>unSameDomain := ''''\<rparr>
    \<in> set (p2Unresolved (phase2 int_lib (snapshot_of sample_inventory) [sample_short (- 1)] default_phase2_options))"
proof -
  let ?u = "sample_short (- 1)" and ?s = "snapshot_of sample_inventory"
  have pr: "priority (nProfile (unNeed ?u)) = - 1"
    by (simp add: sample_short_def sample_profile_def new_profile_def Let_def)
  have e: "scored_victims ?s default_phase2_options (nProfile (unNeed ?u)) = []"
  proof (rule ccontr)
    assume "scored_victims ?s default_phase2_options (nProfile (unNeed ?u)) \<noteq> []"
    then obtain m where "m \<in> set (map svM (scored_victims ?s default_phase2_options (nProfile (unNeed ?u))))"
      by (cases "scored_victims ?s default_phase2_options (nProfile (unNeed ?u))") auto
    note m = scored_victims_props(1) [OF sample_snapshot_ok this]
    then have "snap_get ?s (ID m) = Some m"
      using victim_pool_iff [OF sample_snapshot_ok, of "nProfile (unNeed ?u)" m] by blast
    then show False using m pr sample_priorities by fastforce
  qed
  have d: "\<not> is_zero int_lib (unDeficit ?u)" unfolding sample_short_def unsatisfied_need.select_convs by code_simp
  have o: "preemption_order [?u] = [?u]" by (simp add: preemption_order_def)
  have "p2Unresolved (phase2 int_lib ?s [?u] default_phase2_options)
      = unresolved_of int_lib (?u, [])"
    using phase2_trace [of "[?u]" int_lib ?s default_phase2_options] sample_short_ok(3,4)
    by (simp add: o e)
  also have "\<dots> = [?u\<lparr>unSameDomain := ''''\<rparr>]"
    using d sample_short_ok(4) by (simp add: unresolved_of_def sample_short_def)
  finally show ?thesis by simp
qed

theorem unresolved_only_if_exhausted_witness:
  "ID ` Collect (victim_of int_lib (snapshot_of sample_inventory) (sample_short (- 1)))
    \<subseteq> aMachineID ` set (p2Actions (phase2 int_lib (snapshot_of sample_inventory) [sample_short (- 1)]
        default_phase2_options))"
proof -
  have "\<forall>u\<in>set [sample_short (- 1)]. profile_ok (nProfile (unNeed u))" by (simp add: sample_short_ok)
  note x = unresolved_only_if_exhausted [OF sample_snapshot_ok sample_indexed this sample_unresolved]
  have "(sample_short (- 1))\<lparr>unSameDomain := ''''\<rparr> \<notin> set [sample_short (- 1)]"
    by (simp add: sample_short_def)
  then have all: "\<forall>m. victim_of int_lib (snapshot_of sample_inventory) (sample_short (- 1)) m \<longrightarrow>
    (\<exists>a\<in>set (p2Actions (phase2 int_lib (snapshot_of sample_inventory) [sample_short (- 1)]
      default_phase2_options)). aMachineID a = ID m)"
    using x by (simp only: list.set) blast
  show ?thesis
  proof (rule image_subsetI)
    fix m assume "m \<in> Collect (victim_of int_lib (snapshot_of sample_inventory) (sample_short (- 1)))"
    then obtain a where a: "a \<in> set (p2Actions (phase2 int_lib (snapshot_of sample_inventory)
        [sample_short (- 1)] default_phase2_options))" "aMachineID a = ID m"
      using all unfolding mem_Collect_eq by blast
    show "ID m \<in> aMachineID ` set (p2Actions (phase2 int_lib (snapshot_of sample_inventory)
        [sample_short (- 1)] default_phase2_options))"
      unfolding a(2) [symmetric] by (rule imageI [OF a(1)])
  qed
qed

end
