(* ===== verification/Conv.thy ===== *)
theory Conv
  imports Needs Machine
begin

text \<open>
  Package \<open>conv\<close> (\<open>pkg/conv/conv.go\<close>): the translation between wire messages and the records
  of the engine, with the two ingest gates: a roll-up is taken whole or not at all, and a
  machine that crosses the wire keeps everything but its assignment.
\<close>

section \<open>Wire messages\<close>

text \<open>
  The generated message types, field by field; enumerations are open on the wire, so they are
  integers here. A message field that may be absent is an option.
\<close>

record pb_requirement =
  pbrKey :: string
  pbrOperator :: int
  pbrValues :: "string list"

record pb_spread =
  pbsTopologyKey :: string
  pbsMaxSkew :: int
  pbsWhenUnsatisfiable :: int

record pb_capacity_need =
  pbnRequirements :: "pb_requirement list"
  pbnSpread :: "pb_spread list"
  pbnPriority :: int
  pbnInterruptionBucket :: int
  pbnReclamationBucket :: int
  pbnAggregate :: "(string, string) gomap"
  pbnMinUnit :: "(string, string) gomap"
  pbnGroup :: string

record pb_rollup =
  pbCluster :: string
  pbTimestamp :: int
  pbNeeds :: "pb_capacity_need list"

record pb_machine =
  pbmId :: string
  pbmState :: int
  pbmHost :: "host_ref option"
  pbmInstanceType :: string
  pbmZone :: string
  pbmCapacityType :: int
  pbmResources :: "(string, string) gomap option"
  pbmLabels :: "(string, string) gomap"
  pbmPrice :: f64
  pbmProbability :: f64
  pbmLastError :: string
  pbmCluster :: string
  pbmShardMetadata :: "(string, string) gomap"
  pbmAllocatable :: "(string, string) gomap option"

datatype conv_error =
    ConvNilMachine
  | ConvUnknownState int
  | ConvUnknownOperator int
  | ConvInterruptionBucket int
  | ConvReclamationBucket int
  | ConvAggregate string string
  | ConvMinUnit string string
  | ConvNeed nat conv_error

section \<open>Enumerations\<close>

definition operator_from_proto :: "int \<Rightarrow> conv_error + operator" where
  "operator_from_proto n =
    (if n = 0 then Inr OperatorUnspecified else if n = 1 then Inr OperatorIn
     else if n = 2 then Inr OperatorNotIn else if n = 3 then Inr OperatorExists
     else if n = 4 then Inr OperatorDoesNotExist else if n = 5 then Inr OperatorSame
     else Inl (ConvUnknownOperator n))"

fun operator_to_proto :: "operator \<Rightarrow> int" where
  "operator_to_proto OperatorIn = 1"
| "operator_to_proto OperatorNotIn = 2"
| "operator_to_proto OperatorExists = 3"
| "operator_to_proto OperatorDoesNotExist = 4"
| "operator_to_proto OperatorSame = 5"
| "operator_to_proto OperatorUnspecified = 0"

definition requirements_to_proto :: "requirement list \<Rightarrow> pb_requirement list" where
  "requirements_to_proto rs =
    map (\<lambda>r. \<lparr>pbrKey = rKey r, pbrOperator = operator_to_proto (rOperator r), pbrValues = rValues r\<rparr>) rs"

definition when_unsatisfiable_from_proto :: "int \<Rightarrow> when_unsatisfiable" where
  "when_unsatisfiable_from_proto n =
    (if n = 1 then WhenUnsatisfiableDoNotSchedule
     else if n = 2 then WhenUnsatisfiableScheduleAnyway
     else WhenUnsatisfiableUnspecified)"

definition penalty_bucket_from_proto :: "int \<Rightarrow> penalty_bucket option" where
  "penalty_bucket_from_proto b =
    (if b < 0 \<or> b > int bucket_pinned then None else Some (nat b))"

definition state_from_proto :: "int \<Rightarrow> conv_error + state" where
  "state_from_proto n =
    (if n = 0 then Inr StateUnspecified else if n = 1 then Inr StateSpeculative
     else if n = 2 then Inr StateCreating else if n = 3 then Inr StateIdle
     else if n = 4 then Inr StateConfiguring else if n = 5 then Inr StateConfigured
     else if n = 6 then Inr StateDraining else if n = 7 then Inr StateDeleting
     else if n = 8 then Inr StateFailed else Inl (ConvUnknownState n))"

fun state_to_proto :: "state \<Rightarrow> int" where
  "state_to_proto StateSpeculative = 1"
| "state_to_proto StateCreating = 2"
| "state_to_proto StateIdle = 3"
| "state_to_proto StateConfiguring = 4"
| "state_to_proto StateConfigured = 5"
| "state_to_proto StateDraining = 6"
| "state_to_proto StateDeleting = 7"
| "state_to_proto StateFailed = 8"
| "state_to_proto StateUnspecified = 0"

definition capacity_type_from_proto :: "int \<Rightarrow> capacity_type" where
  "capacity_type_from_proto n =
    (if n = 1 then CapacityTypeBareMetal else if n = 2 then CapacityTypeReserved
     else if n = 3 then CapacityTypeOnDemand else if n = 4 then CapacityTypeSpot
     else CapacityTypeUnspecified)"

fun capacity_type_to_proto :: "capacity_type \<Rightarrow> int" where
  "capacity_type_to_proto CapacityTypeBareMetal = 1"
| "capacity_type_to_proto CapacityTypeReserved = 2"
| "capacity_type_to_proto CapacityTypeOnDemand = 3"
| "capacity_type_to_proto CapacityTypeSpot = 4"
| "capacity_type_to_proto CapacityTypeUnspecified = 0"

lemma operator_roundtrip [simp]: "operator_from_proto (operator_to_proto x) = Inr x"
  by (cases x) (simp_all add: operator_from_proto_def)

lemma state_roundtrip [simp]: "state_from_proto (state_to_proto x) = Inr x"
  by (cases x) (simp_all add: state_from_proto_def)

lemma capacity_type_roundtrip [simp]: "capacity_type_from_proto (capacity_type_to_proto x) = x"
  by (cases x) (simp_all add: capacity_type_from_proto_def)

section \<open>Machines\<close>

definition machine_to_proto :: "machine \<Rightarrow> pb_machine" where
  "machine_to_proto m =
    \<lparr>pbmId = ID m, pbmState = state_to_proto (State m),
     pbmHost = (if host_empty (Host m) then None else Some (Host m)),
     pbmInstanceType = InstanceType (MProfile m), pbmZone = Zone (MProfile m),
     pbmCapacityType = capacity_type_to_proto (CapacityType (MProfile m)),
     pbmResources = (if length (Resources (MProfile m)) > 0 then Some (Resources (MProfile m)) else None),
     pbmLabels = Labels (MProfile m), pbmPrice = PricePerHour m,
     pbmProbability = InterruptionProbability m, pbmLastError = LastError m,
     pbmCluster = Cluster m, pbmShardMetadata = ShardMetadata m,
     pbmAllocatable = (if length (Allocatable m) > 0 then Some (Allocatable m) else None)\<rparr>"

definition machine_from_proto :: "pb_machine option \<Rightarrow> conv_error + machine" where
  "machine_from_proto pm =
    (case pm of None \<Rightarrow> Inl ConvNilMachine
     | Some p \<Rightarrow>
       (case state_from_proto (pbmState p) of Inl e \<Rightarrow> Inl e
        | Inr st \<Rightarrow>
          Inr (zero_machine
            \<lparr>ID := pbmId p, State := st, PricePerHour := pbmPrice p,
             InterruptionProbability := pbmProbability p, LastError := pbmLastError p,
             Cluster := pbmCluster p, ShardMetadata := pbmShardMetadata p,
             Host := (case pbmHost p of None \<Rightarrow> no_host | Some h \<Rightarrow> h),
             MProfile := \<lparr>InstanceType = pbmInstanceType p, Zone = pbmZone p,
               CapacityType = capacity_type_from_proto (pbmCapacityType p),
               Resources = (case pbmResources p of None \<Rightarrow> [] | Some r \<Rightarrow> r),
               Labels = pbmLabels p\<rparr>,
             Allocatable := (case pbmAllocatable p of None \<Rightarrow> [] | Some a \<Rightarrow> a)\<rparr>)))"

text \<open>What the wire drops: the assignment, which only the metadata carries.\<close>

definition unassigned :: "machine \<Rightarrow> machine" where
  "unassigned m = m\<lparr>AssignedPriority := 0, AssignedInterruptionPenalty := f64_zero,
     AssignedReclamationPenalty := f64_zero, AssignedNeedFingerprint := '''', AssignedGroup := ''''\<rparr>"

lemma unassigned_simps [simp]:
  "ID (unassigned m) = ID m" "State (unassigned m) = State m" "Host (unassigned m) = Host m"
  "Cluster (unassigned m) = Cluster m" "MProfile (unassigned m) = MProfile m"
  "PricePerHour (unassigned m) = PricePerHour m" "LastError (unassigned m) = LastError m"
  "InterruptionProbability (unassigned m) = InterruptionProbability m"
  "Allocatable (unassigned m) = Allocatable m" "ShardMetadata (unassigned m) = ShardMetadata m"
  by (simp_all add: unassigned_def)

lemma no_host_unique: "host_empty h \<longleftrightarrow> h = no_host"
  by (cases h) (simp add: host_empty_def no_host_def)

lemma machine_roundtrip: "machine_from_proto (Some (machine_to_proto m)) = Inr (unassigned m)"
proof -
  have "\<lparr>InstanceType = InstanceType (MProfile m), Zone = Zone (MProfile m),
      CapacityType = CapacityType (MProfile m), Resources = Resources (MProfile m),
      Labels = Labels (MProfile m)\<rparr> = MProfile m" by simp
  then show ?thesis
    by (simp add: machine_from_proto_def machine_to_proto_def unassigned_def zero_machine_def no_host_unique)
qed

section \<open>Roll-ups\<close>

definition resource_qtys_from_proto ::
    "'q qlib \<Rightarrow> (string \<Rightarrow> string \<Rightarrow> conv_error) \<Rightarrow> (string, string) gomap \<Rightarrow> conv_error + resource_qty list" where
  "resource_qtys_from_proto Q bad m =
    foldl (\<lambda>acc (k, v). case acc of Inl e \<Rightarrow> Inl e
       | Inr out \<Rightarrow> (case qParse Q v of None \<Rightarrow> Inl (bad k v)
                   | Some _ \<Rightarrow> Inr (out @ [\<lparr>rqName = k, rqQuantity = v\<rparr>])))
      (Inr []) m"

fun requirements_from_proto :: "pb_requirement list \<Rightarrow> conv_error + requirement list" where
  "requirements_from_proto [] = Inr []"
| "requirements_from_proto (r # rs) =
    (case operator_from_proto (pbrOperator r) of Inl e \<Rightarrow> Inl e
     | Inr op \<Rightarrow> (case requirements_from_proto rs of Inl e \<Rightarrow> Inl e
         | Inr out \<Rightarrow> Inr (\<lparr>rKey = pbrKey r, rOperator = op, rValues = pbrValues r\<rparr> # out)))"

definition spread_from_proto :: "pb_spread \<Rightarrow> topology_spread" where
  "spread_from_proto s =
    \<lparr>tsTopologyKey = pbsTopologyKey s, tsMaxSkew = pbsMaxSkew s,
     tsWhenUnsatisfiable = when_unsatisfiable_from_proto (pbsWhenUnsatisfiable s)\<rparr>"

definition profile_from_proto :: "pb_capacity_need \<Rightarrow> conv_error + profile" where
  "profile_from_proto n =
    (case requirements_from_proto (pbnRequirements n) of Inl e \<Rightarrow> Inl e
     | Inr reqs \<Rightarrow>
       (case penalty_bucket_from_proto (pbnInterruptionBucket n) of
          None \<Rightarrow> Inl (ConvInterruptionBucket (pbnInterruptionBucket n))
        | Some ib \<Rightarrow>
          (case penalty_bucket_from_proto (pbnReclamationBucket n) of
             None \<Rightarrow> Inl (ConvReclamationBucket (pbnReclamationBucket n))
           | Some rb \<Rightarrow>
             Inr (new_profile reqs (map spread_from_proto (pbnSpread n)) (pbnPriority n) ib rb))))"

definition need_from_proto :: "'q qlib \<Rightarrow> string \<Rightarrow> int \<Rightarrow> pb_capacity_need \<Rightarrow> conv_error + need" where
  "need_from_proto Q cluster ts n =
    (case profile_from_proto n of Inl e \<Rightarrow> Inl e
     | Inr p \<Rightarrow>
       (case resource_qtys_from_proto Q ConvAggregate (pbnAggregate n) of Inl e \<Rightarrow> Inl e
        | Inr agg \<Rightarrow>
          (case resource_qtys_from_proto Q ConvMinUnit (pbnMinUnit n) of Inl e \<Rightarrow> Inl e
           | Inr mu \<Rightarrow>
             Inr \<lparr>nCluster = cluster, nProfile = p, AggregateResources = agg, MinUnit = mu,
                  ArrivalUnixNanos = ts, Group = pbnGroup n, AcquisitionParked = False\<rparr>)))"

text \<open>The loop over the needs, with the index the error names.\<close>

fun needs_from ::
    "'q qlib \<Rightarrow> string \<Rightarrow> int \<Rightarrow> nat \<Rightarrow> pb_capacity_need list \<Rightarrow> conv_error + need list" where
  "needs_from Q cluster ts i [] = Inr []"
| "needs_from Q cluster ts i (n # ns) =
    (case need_from_proto Q cluster ts n of Inl e \<Rightarrow> Inl (ConvNeed i e)
     | Inr x \<Rightarrow> (case needs_from Q cluster ts (i + 1) ns of Inl e \<Rightarrow> Inl e | Inr out \<Rightarrow> Inr (x # out)))"

definition needs_from_rollup :: "'q qlib \<Rightarrow> pb_rollup option \<Rightarrow> conv_error + need list" where
  "needs_from_rollup Q r =
    (case r of None \<Rightarrow> Inr []
     | Some u \<Rightarrow> needs_from Q (pbCluster u) (pbTimestamp u) 0 (pbNeeds u))"

subsection \<open>The gate\<close>

definition quantities_parse :: "'q qlib \<Rightarrow> (string, string) gomap \<Rightarrow> bool" where
  "quantities_parse Q m = list_all (\<lambda>(k, v). qParse Q v \<noteq> None) m"

definition pb_need_ok :: "'q qlib \<Rightarrow> pb_capacity_need \<Rightarrow> bool" where
  "pb_need_ok Q n \<longleftrightarrow>
    list_all (\<lambda>r. 0 \<le> pbrOperator r \<and> pbrOperator r \<le> 5) (pbnRequirements n)
    \<and> 0 \<le> pbnInterruptionBucket n \<and> pbnInterruptionBucket n \<le> 27
    \<and> 0 \<le> pbnReclamationBucket n \<and> pbnReclamationBucket n \<le> 27
    \<and> quantities_parse Q (pbnAggregate n) \<and> quantities_parse Q (pbnMinUnit n)"

definition qtys_of :: "(string, string) gomap \<Rightarrow> resource_qty list" where
  "qtys_of m = map (\<lambda>(k, v). \<lparr>rqName = k, rqQuantity = v\<rparr>) m"

lemma resource_qtys_gate:
  "quantities_parse Q m \<Longrightarrow> resource_qtys_from_proto Q bad m = Inr (qtys_of m)"
  "\<not> quantities_parse Q m \<Longrightarrow> \<exists>k v. (k, v) \<in> set m \<and> qParse Q v = None
     \<and> resource_qtys_from_proto Q bad m = Inl (bad k v)"
proof (induction m rule: rev_induct)
  case (snoc x m)
  case 1
  then show ?case using snoc.IH(1)
    by (auto simp: resource_qtys_from_proto_def quantities_parse_def qtys_of_def split: prod.splits)
next
  case (snoc x m)
  case 2
  show ?case
  proof (cases "quantities_parse Q m")
    case True
    then show ?thesis using 2 snoc.IH(1)
      by (auto simp: resource_qtys_from_proto_def quantities_parse_def split: prod.splits)
  next
    case False
    then obtain k v where "(k, v) \<in> set m" "qParse Q v = None"
      "resource_qtys_from_proto Q bad m = Inl (bad k v)" using snoc.IH(2) by blast
    then show ?thesis by (intro exI [of _ k] exI [of _ v]) (auto simp: resource_qtys_from_proto_def)
  qed
qed (simp_all add: resource_qtys_from_proto_def quantities_parse_def qtys_of_def)

lemma requirements_gate:
  "(\<exists>rs'. requirements_from_proto rs = Inr rs')
    \<longleftrightarrow> list_all (\<lambda>r. 0 \<le> pbrOperator r \<and> pbrOperator r \<le> 5) rs"
proof (induction rs)
  case (Cons r rs)
  have "(\<exists>x. operator_from_proto (pbrOperator r) = Inr x) \<longleftrightarrow> 0 \<le> pbrOperator r \<and> pbrOperator r \<le> 5"
    by (auto simp: operator_from_proto_def)
  then show ?case using Cons.IH by (auto split: sum.splits)
qed simp

lemma bucket_gate: "penalty_bucket_from_proto b = (if 0 \<le> b \<and> b \<le> 27 then Some (nat b) else None)"
  by (auto simp: penalty_bucket_from_proto_def)

lemma profile_gate:
  "(\<exists>p. profile_from_proto n = Inr p) \<longleftrightarrow>
    list_all (\<lambda>r. 0 \<le> pbrOperator r \<and> pbrOperator r \<le> 5) (pbnRequirements n)
    \<and> 0 \<le> pbnInterruptionBucket n \<and> pbnInterruptionBucket n \<le> 27
    \<and> 0 \<le> pbnReclamationBucket n \<and> pbnReclamationBucket n \<le> 27"
  unfolding profile_from_proto_def bucket_gate requirements_gate [symmetric] by (auto split: sum.splits)

lemma need_gate: "(\<exists>x. need_from_proto Q c ts n = Inr x) \<longleftrightarrow> pb_need_ok Q n"
proof -
  have q: "(\<exists>x. resource_qtys_from_proto Q bad m = Inr x) \<longleftrightarrow> quantities_parse Q m" for bad m
    using resource_qtys_gate [of Q m bad] by (cases "quantities_parse Q m") auto
  have "(\<exists>x. need_from_proto Q c ts n = Inr x) \<longleftrightarrow> (\<exists>p. profile_from_proto n = Inr p)
      \<and> (\<exists>a. resource_qtys_from_proto Q ConvAggregate (pbnAggregate n) = Inr a)
      \<and> (\<exists>a. resource_qtys_from_proto Q ConvMinUnit (pbnMinUnit n) = Inr a)"
    by (auto simp: need_from_proto_def split: sum.splits)
  then show ?thesis unfolding q profile_gate pb_need_ok_def by blast
qed

text \<open>What an accepted need says: it is the message's, and each of its quantities is a number.\<close>

lemma need_from_proto_fields:
  assumes "need_from_proto Q c ts n = Inr x"
  shows "nCluster x = c" "Group x = pbnGroup n" "ArrivalUnixNanos x = ts" "\<not> AcquisitionParked x"
    "AggregateResources x = qtys_of (pbnAggregate n)" "MinUnit x = qtys_of (pbnMinUnit n)"
    "priority (nProfile x) = pbnPriority n"
    "interruptionPenaltyBucket (nProfile x) = nat (pbnInterruptionBucket n)"
    "reclamationPenaltyBucket (nProfile x) = nat (pbnReclamationBucket n)"
proof -
  have ok: "pb_need_ok Q n" using need_gate assms by blast
  note q = resource_qtys_gate(1) [of Q "pbnAggregate n" ConvAggregate]
    resource_qtys_gate(1) [of Q "pbnMinUnit n" ConvMinUnit]
  show "nCluster x = c" "Group x = pbnGroup n" "ArrivalUnixNanos x = ts" "\<not> AcquisitionParked x"
    "AggregateResources x = qtys_of (pbnAggregate n)" "MinUnit x = qtys_of (pbnMinUnit n)"
    using assms ok q by (auto simp: need_from_proto_def pb_need_ok_def split: sum.splits)
  obtain p where "profile_from_proto n = Inr p" "nProfile x = p"
    using assms by (auto simp: need_from_proto_def split: sum.splits)
  then show "priority (nProfile x) = pbnPriority n"
    "interruptionPenaltyBucket (nProfile x) = nat (pbnInterruptionBucket n)"
    "reclamationPenaltyBucket (nProfile x) = nat (pbnReclamationBucket n)"
    by (auto simp: profile_from_proto_def bucket_gate new_profile_def Let_def
        split: sum.splits option.splits if_splits)
qed

lemma needs_from_gate:
  "(\<exists>xs. needs_from Q c ts i ns = Inr xs) \<longleftrightarrow> list_all (pb_need_ok Q) ns"
proof (induction ns arbitrary: i)
  case (Cons n ns)
  show ?case unfolding list.pred_inject Cons.IH [of "i + 1", symmetric] need_gate [of Q c ts n, symmetric]
    by (auto split: sum.splits)
qed simp

lemma needs_from_rows:
  "needs_from Q c ts i ns = Inr xs \<Longrightarrow> list_all2 (\<lambda>n x. need_from_proto Q c ts n = Inr x) ns xs"
  by (induction ns arbitrary: i xs) (auto split: sum.splits)

text \<open>The error names the first bad need.\<close>

lemma needs_from_error:
  "needs_from Q c ts i ns = Inl e \<Longrightarrow> \<exists>k e'. e = ConvNeed (i + k) e' \<and> k < length ns
     \<and> need_from_proto Q c ts (ns ! k) = Inl e' \<and> list_all (pb_need_ok Q) (take k ns)"
proof (induction ns arbitrary: i)
  case (Cons n ns)
  show ?case
  proof (cases "need_from_proto Q c ts n")
    case (Inl e')
    then show ?thesis using Cons.prems by (intro exI [of _ 0] exI [of _ e']) simp
  next
    case (Inr x)
    then have "needs_from Q c ts (i + 1) ns = Inl e" using Cons.prems by (auto split: sum.splits)
    from Cons.IH [OF this] obtain k e' where k: "e = ConvNeed (i + 1 + k) e'" "k < length ns"
      "need_from_proto Q c ts (ns ! k) = Inl e'" "list_all (pb_need_ok Q) (take k ns)" by blast
    moreover have "pb_need_ok Q n" using need_gate Inr by blast
    ultimately show ?thesis by (intro exI [of _ "Suc k"] exI [of _ e']) simp
  qed
qed simp

end
