(* ===== verification/Execute.thy ===== *)
theory Execute
  imports Conv Inventory Phases
begin

text \<open>
  Executing an action (\<open>pkg/shard/execute.go\<close>, and \<open>applyTransition\<close>, \<open>notifyNodeState\<close> of
  \<open>pkg/shard/shard.go\<close>): how the shard drives a machine through its states with the provider
  and the operator. A call to the provider or to an operator takes time; meanwhile other
  goroutines work on the same state, so a call is a function of the model that answers and
  hands back the world as it is when the answer arrives.
\<close>

section \<open>Messages to operators\<close>

record node_update =
  nuMachine :: string
  nuState :: int
  nuProviderId :: string
  nuLastError :: string
  nuLabels :: "(string, string) gomap"
  nuResources :: "(string, string) gomap"

record reclaim_instruction =
  riNodes :: "string list"
  riGraceSeconds :: int
  riPreemptorPriority :: int

datatype confidence = ConfidenceNone | ConfidenceMedium | ConfidenceHigh

record capacity_update =
  cuSupersedesKey :: string
  cuRequirements :: "pb_requirement list"
  cuCount :: int
  cuConfidence :: confidence
  cuCost :: f64

datatype session_message =
    NodeStateUpdate node_update
  | ReclaimInstruction reclaim_instruction
  | AvailableCapacityUpdate capacity_update
  | Acknowledgement string

text \<open>
  The part of the shard a worker reads and writes: the inventory, the clusters that have a
  session, what went down the sessions, when demand was first seen, and the clock.
\<close>

record world =
  wInv :: inventory
  wSessions :: "string list"
  wSent :: "(string \<times> session_message) list"
  wObserved :: "(string, (string, int) gomap) gomap"
  wNow :: int

definition send :: "string \<Rightarrow> session_message \<Rightarrow> world \<Rightarrow> world" where
  "send cluster msg w = w\<lparr>wSent := wSent w @ [(cluster, msg)]\<rparr>"

definition node_labels :: "machine \<Rightarrow> (string, string) gomap" where
  "node_labels m =
    (let p = MProfile m in
     if InstanceType p \<noteq> '''' \<or> Zone p \<noteq> '''' \<or> length (Labels p) > 0
     then let ls = Labels p;
              ls = (if InstanceType p \<noteq> '''' then gm_set instance_type_key (InstanceType p) ls else ls)
          in if Zone p \<noteq> '''' then gm_set zone_key (Zone p) ls else ls
     else [])"

definition node_update_of :: "machine \<Rightarrow> node_update" where
  "node_update_of m =
    \<lparr>nuMachine = ID m, nuState = state_to_proto (State m),
     nuProviderId = (if host_empty (Host m) then '''' else hrRef (Host m)),
     nuLastError = LastError m, nuLabels = node_labels m,
     nuResources = effective_allocatable m\<rparr>"

text \<open>To the cluster the machine is bound to, or else to the one it was bound to before.\<close>

definition notify_node_state :: "machine \<Rightarrow> string \<Rightarrow> world \<Rightarrow> world" where
  "notify_node_state m prevCluster w =
    (let cluster = (if Cluster m = '''' then prevCluster else Cluster m)
     in if cluster = '''' \<or> cluster \<notin> set (wSessions w) then w
        else send cluster (NodeStateUpdate (node_update_of m)) w)"

section \<open>Transitions\<close>

definition apply_transition ::
    "string \<Rightarrow> state \<Rightarrow> (machine \<Rightarrow> machine) option \<Rightarrow> world \<Rightarrow> inventory_error option \<times> world" where
  "apply_transition k target mut w =
    (let put = (\<lambda>m prev. case inv_apply (wNow w) (wInv w) m of
                 (Some e, _) \<Rightarrow> (Some e, w)
               | (None, i) \<Rightarrow> (None, notify_node_state m prev (w\<lparr>wInv := i\<rparr>)));
         change = (\<lambda>m. case mut of None \<Rightarrow> m | Some f \<Rightarrow> f m)
     in case inv_get (wInv w) k of
          Inl _ \<Rightarrow>
            let fresh = change (zero_machine\<lparr>ID := k, State := target\<rparr>)
            in (case inv_insert (wNow w) (wInv w) fresh of
                  (Some e, _) \<Rightarrow> (Some e, w)
                | (None, i) \<Rightarrow> (None, notify_node_state fresh '''' (w\<lparr>wInv := i\<rparr>)))
        | Inr cur \<Rightarrow>
            if State cur = target
            then (case mut of None \<Rightarrow> (None, w) | Some f \<Rightarrow> put (f cur) (Cluster cur))
            else put (change (cur\<lparr>State := target\<rparr>)) (Cluster cur))"

section \<open>Errors\<close>

datatype rpc_error = RpcCanceled | RpcDeadlineExceeded | RpcFenced string | RpcError string

datatype exec_error =
    EMissingProfile string
  | EInventoryGet string inventory_error
  | EStale string string state string
  | ETransition string inventory_error
  | ERpc string rpc_error
  | EAckRejected machine_error
  | ENoSession string
  | ERaced
  | EUnknownKind action_kind

text \<open>The texts of the errors; the arrow is its three bytes in UTF-8.\<close>

definition arrow :: string where
  "arrow = [CHR 0xE2, CHR 0x86, CHR 0x92]"

text \<open>The two cost errors show the value they reject; \<open>x\<close> is that value rendered.\<close>

fun machine_error_text :: "string \<Rightarrow> machine_error \<Rightarrow> string" where
  "machine_error_text x (ErrInvalidTransition s t) =
    ''invalid state transition: '' @ state_string s @ '' '' @ arrow @ '' '' @ state_string t"
| "machine_error_text x (ErrHostForbidden k s) =
    ''machine '' @ k @ '': '' @ state_string s @ '' state must have empty host''"
| "machine_error_text x (ErrClusterForbidden k s) =
    ''machine '' @ k @ '': '' @ state_string s @ '' state must have empty cluster''"
| "machine_error_text x (ErrHostMissing k s) =
    ''machine '' @ k @ '': '' @ state_string s @ '' state must have a host''"
| "machine_error_text x (ErrClusterMissing k s) =
    ''machine '' @ k @ '': '' @ state_string s @ '' state must have a cluster''"
| "machine_error_text x (ErrLastErrorMissing k) =
    ''machine '' @ k @ '': Failed state must have last_error populated''"
| "machine_error_text x (ErrStateUnspecified k) = ''machine '' @ k @ '': state is Unspecified''"
| "machine_error_text x (ErrProbability k) =
    ''machine '' @ k @ '': interruption_probability '' @ x @ '' outside [0,1]''"
| "machine_error_text x (ErrPrice k) =
    ''machine '' @ k @ '': price_per_hour '' @ x @ '' negative or NaN''"

definition rejected_value :: "machine_error \<Rightarrow> machine \<Rightarrow> f64" where
  "rejected_value e m = (case e of ErrProbability _ \<Rightarrow> InterruptionProbability m | _ \<Rightarrow> PricePerHour m)"

fun inventory_error_text :: "string \<Rightarrow> inventory_error \<Rightarrow> string" where
  "inventory_error_text x (InvInvariant e) = ''inventory: '' @ machine_error_text x e"
| "inventory_error_text x (InvExists k) = ''inventory: machine '' @ k @ '' already exists''"
| "inventory_error_text x (InvNotFound k) = ''inventory: machine not found: '' @ k"
| "inventory_error_text x (InvTransition e) = ''inventory: '' @ machine_error_text x e"

fun rpc_error_text :: "rpc_error \<Rightarrow> string" where
  "rpc_error_text RpcCanceled = ''context canceled''"
| "rpc_error_text RpcDeadlineExceeded = ''context deadline exceeded''"
| "rpc_error_text (RpcFenced s) = s"
| "rpc_error_text (RpcError s) = s"

definition is_ctx_error :: "rpc_error \<Rightarrow> bool" where
  "is_ctx_error e \<longleftrightarrow> e = RpcCanceled \<or> e = RpcDeadlineExceeded"

text \<open>
  What a worker is given: the rendering of floats (in errors and in metadata), whether the
  bootstrap blob comes from a local hook, and the calls.
\<close>

record exec_env =
  eeFmt :: "f64 \<Rightarrow> string"
  eeMeta :: "f64 \<Rightarrow> string"
  eeLocalBootstrap :: bool
  eeBlob :: "string \<Rightarrow> requirement list \<Rightarrow> world \<Rightarrow> (rpc_error + string) \<times> world"
  eeCreate :: "string \<Rightarrow> world \<Rightarrow> (rpc_error + machine) \<times> world"
  eeConfigure :: "string \<Rightarrow> string \<Rightarrow> string \<Rightarrow> (string, string) gomap \<Rightarrow> world \<Rightarrow> (rpc_error + machine) \<times> world"
  eeDrain :: "string \<Rightarrow> int \<Rightarrow> world \<Rightarrow> (rpc_error + machine) \<times> world"
  eeDelete :: "string \<Rightarrow> world \<Rightarrow> (rpc_error + machine) \<times> world"

section \<open>Bootstrap\<close>

text \<open>A timed-out blob fetch rolls the machine back to Idle; any other failure is terminal.\<close>

definition handle_bootstrap_blob_err :: "string \<Rightarrow> rpc_error \<Rightarrow> string \<Rightarrow> world \<Rightarrow> world" where
  "handle_bootstrap_blob_err k err prefix w =
    (if is_ctx_error err
     then snd (apply_transition k StateIdle (Some (\<lambda>m. m\<lparr>Cluster := '''', LastError := ''''\<rparr>)) w)
     else snd (apply_transition k StateFailed (Some (\<lambda>m. m\<lparr>LastError := prefix @ rpc_error_text err\<rparr>)) w))"

text \<open>From the local hook, or from the operator of the destination cluster.\<close>

definition fetch_blob :: "exec_env \<Rightarrow> action \<Rightarrow> profile \<Rightarrow> world \<Rightarrow> (exec_error + string) \<times> world" where
  "fetch_blob E a p w =
    (if eeLocalBootstrap E then
       (case eeBlob E (aCluster a) (requirements p) w of
          (Inl err, w) \<Rightarrow> (Inl (ERpc ''bootstrap: LocalBootstrap'' err),
             handle_bootstrap_blob_err (aMachineID a) err ''bootstrap: '' w)
        | (Inr blob, w) \<Rightarrow> (Inr blob, w))
     else if aCluster a \<notin> set (wSessions w) then
       (Inl (ENoSession (aCluster a)),
        snd (apply_transition (aMachineID a) StateIdle (Some (\<lambda>m. m\<lparr>Cluster := ''''\<rparr>)) w))
     else
       (case eeBlob E (aCluster a) (requirements p) w of
          (Inl err, w) \<Rightarrow> (Inl (ERpc ''bootstrap: requestBootstrap'' err),
             handle_bootstrap_blob_err (aMachineID a) err ''bootstrap: '' w)
        | (Inr blob, w) \<Rightarrow> (Inr blob, w)))"

definition observe_provisioning_latency :: "string \<Rightarrow> string \<Rightarrow> world \<Rightarrow> world" where
  "observe_provisioning_latency cluster fp w =
    (case gm_get (gm_at [] (wObserved w) cluster) fp of
       None \<Rightarrow> w
     | Some t \<Rightarrow> w\<lparr>wObserved := gm_set cluster (gm_del fp (gm_at [] (wObserved w) cluster)) (wObserved w)\<rparr>)"

text \<open>A machine as its acknowledgement shows it after the round trip through the wire form.\<close>

definition acked :: "machine \<Rightarrow> machine" where
  "acked m = (case machine_from_proto (Some (machine_to_proto m)) of Inl _ \<Rightarrow> zero_machine | Inr x \<Rightarrow> x)"

lemma acked_unassigned [simp]: "acked m = unassigned m"
  by (simp add: acked_def machine_roundtrip)

definition int_penalty :: "profile \<Rightarrow> f64" where
  "int_penalty p = bucket_upper_bound_dollars (interruptionPenaltyBucket p)"

definition rec_penalty :: "profile \<Rightarrow> f64" where
  "rec_penalty p = bucket_upper_bound_dollars (reclamationPenaltyBucket p)"

definition configured_mut :: "action \<Rightarrow> profile \<Rightarrow> machine \<Rightarrow> machine \<Rightarrow> machine" where
  "configured_mut a p configured m =
    m\<lparr>Cluster := aCluster a, Host := Host configured, MProfile := MProfile configured,
      AssignedPriority := priority p, AssignedInterruptionPenalty := int_penalty p,
      AssignedReclamationPenalty := rec_penalty p, AssignedNeedFingerprint := fingerprint p,
      AssignedGroup := aSourceGroup a\<rparr>"

fun is_invalid_transition :: "inventory_error \<Rightarrow> bool" where
  "is_invalid_transition (InvTransition (ErrInvalidTransition s t)) = True"
| "is_invalid_transition _ = False"

definition configure_machine ::
    "exec_env \<Rightarrow> action \<Rightarrow> profile \<Rightarrow> string \<Rightarrow> world \<Rightarrow> exec_error option \<times> world" where
  "configure_machine E a p blob w =
    (let md = encode_shard_metadata (eeMeta E) (priority p) (int_penalty p) (rec_penalty p)
                (fingerprint p) (aSourceGroup a)
     in case eeConfigure E (aMachineID a) (aCluster a) blob md w of
          (Inl err, w) \<Rightarrow>
            (Some (ERpc ''bootstrap: provider.Configure'' err),
             snd (apply_transition (aMachineID a) StateFailed
               (Some (\<lambda>m. m\<lparr>LastError := ''configure: '' @ rpc_error_text err\<rparr>)) w))
        | (Inr ack, w) \<Rightarrow>
            let configured = acked ack
            in (case apply_transition (aMachineID a) (State configured)
                       (Some (configured_mut a p configured)) w of
                  (Some e, w) \<Rightarrow>
                    (if is_invalid_transition e \<and> state_in (wInv w) (aMachineID a) = Some StateIdle
                     then (Some ERaced, w)
                     else (Some (ETransition ''bootstrap: post-Configure transition'' e), w))
                | (None, w) \<Rightarrow>
                    (None, if State configured = StateConfigured
                           then observe_provisioning_latency (aCluster a) (fingerprint p) w else w)))"

definition execute_bootstrap :: "exec_env \<Rightarrow> action \<Rightarrow> world \<Rightarrow> exec_error option \<times> world" where
  "execute_bootstrap E a w =
    (case aSourceProfile a of None \<Rightarrow> (Some (EMissingProfile ''bootstrap''), w)
     | Some p \<Rightarrow>
       (case inv_get (wInv w) (aMachineID a) of
          Inl e \<Rightarrow> (Some (EInventoryGet ''bootstrap: inventory get'' e), w)
        | Inr cur \<Rightarrow>
          if State cur = StateConfigured \<and> Cluster cur = aCluster a
             \<and> AssignedNeedFingerprint cur = fingerprint p then (None, w)
          else if State cur \<noteq> StateIdle
          then (Some (EStale ''bootstrap'' (aMachineID a) (State cur) ''Idle''), w)
          else
            (case apply_transition (aMachineID a) StateConfiguring
                    (Some (\<lambda>m. m\<lparr>Cluster := aCluster a, AssignedNeedFingerprint := fingerprint p,
                       AssignedGroup := aSourceGroup a\<rparr>)) w of
               (Some e, w) \<Rightarrow> (Some (ETransition (''bootstrap: '' @ arrow @ '' Configuring'') e), w)
             | (None, w) \<Rightarrow>
               (case fetch_blob E a p w of
                  (Inl err, w) \<Rightarrow> (Some err, w)
                | (Inr blob, w) \<Rightarrow> configure_machine E a p blob w))))"

section \<open>Provision\<close>

definition execute_provision :: "exec_env \<Rightarrow> action \<Rightarrow> world \<Rightarrow> exec_error option \<times> world" where
  "execute_provision E a w =
    (case aSourceProfile a of None \<Rightarrow> (Some (EMissingProfile ''provision''), w)
     | Some p \<Rightarrow>
       (case inv_get (wInv w) (aMachineID a) of
          Inl e \<Rightarrow> (Some (EInventoryGet ''provision: inventory get'' e), w)
        | Inr cur \<Rightarrow>
          if State cur \<noteq> StateSpeculative
          then (Some (EStale ''provision'' (aMachineID a) (State cur) ''Speculative''), w)
          else
            (case apply_transition (aMachineID a) StateCreating
                    (Some (\<lambda>m. m\<lparr>AssignedNeedFingerprint := fingerprint p,
                       AssignedGroup := aSourceGroup a\<rparr>)) w of
               (Some e, w) \<Rightarrow> (Some (ETransition (''provision: '' @ arrow @ '' Creating'') e), w)
             | (None, w) \<Rightarrow>
               (case eeCreate E (aMachineID a) w of
                  (Inl err, w) \<Rightarrow>
                    (Some (ERpc ''provision: provider.Create'' err),
                     snd (apply_transition (aMachineID a) StateFailed
                       (Some (\<lambda>m. m\<lparr>LastError := ''create: '' @ rpc_error_text err\<rparr>)) w))
                | (Inr ack, w) \<Rightarrow>
                    let created = acked ack
                    in (case invariant created of
                          Some v \<Rightarrow>
                            (Some (EAckRejected v),
                             snd (apply_transition (aMachineID a) StateFailed
                               (Some (\<lambda>m. m\<lparr>LastError := ''create: ack rejected: ''
                                  @ machine_error_text (eeFmt E (rejected_value v created)) v\<rparr>)) w))
                        | None \<Rightarrow>
                          (case apply_transition (aMachineID a) (State created)
                                  (Some (\<lambda>m. m\<lparr>Host := Host created, MProfile := MProfile created,
                                     PricePerHour := PricePerHour created,
                                     InterruptionProbability := InterruptionProbability created\<rparr>)) w of
                             (Some e, w) \<Rightarrow> (Some (ETransition ''provision: post-Create transition'' e), w)
                           | (None, w) \<Rightarrow>
                             if State created = StateIdle then execute_bootstrap E a w else (None, w)))))))"

section \<open>Drain and delete\<close>

definition send_reclaim :: "action \<Rightarrow> world \<Rightarrow> world" where
  "send_reclaim a w =
    (if aCluster a \<in> set (wSessions w)
     then send (aCluster a) (ReclaimInstruction
            \<lparr>riNodes = [aMachineID a], riGraceSeconds = f64_to_int (duration_seconds (aGracePeriod a)),
             riPreemptorPriority = aPreemptorPriority a\<rparr>) w
     else w)"

definition drained_mut :: "machine \<Rightarrow> machine \<Rightarrow> machine" where
  "drained_mut drained m =
    (let m = m\<lparr>Cluster := '''', AssignedPriority := 0, AssignedInterruptionPenalty := f64_zero,
               AssignedReclamationPenalty := f64_zero, AssignedNeedFingerprint := '''',
               AssignedGroup := ''''\<rparr>
     in if \<not> host_empty (Host drained) then m\<lparr>Host := Host drained\<rparr> else m)"

definition execute_drain :: "exec_env \<Rightarrow> action \<Rightarrow> world \<Rightarrow> exec_error option \<times> world" where
  "execute_drain E a w =
    (case inv_get (wInv w) (aMachineID a) of
       Inl e \<Rightarrow> (Some (EInventoryGet ''drain: inventory get'' e), w)
     | Inr cur \<Rightarrow>
       if State cur \<noteq> StateConfigured then (None, w)
       else
         (case apply_transition (aMachineID a) StateDraining None (send_reclaim a w) of
            (Some e, w) \<Rightarrow> (Some (ETransition (''drain: '' @ arrow @ '' Draining'') e), w)
          | (None, w) \<Rightarrow>
            (case eeDrain E (aMachineID a) (f64_to_int (duration_seconds (aGracePeriod a))) w of
               (Inl err, w) \<Rightarrow>
                 (Some (ERpc ''drain: provider.Drain'' err),
                  snd (apply_transition (aMachineID a) StateFailed
                    (Some (\<lambda>m. m\<lparr>LastError := ''drain: '' @ rpc_error_text err\<rparr>)) w))
             | (Inr ack, w) \<Rightarrow>
                 let drained = acked ack
                 in if State drained = StateIdle
                    then (case apply_transition (aMachineID a) StateIdle (Some (drained_mut drained)) w of
                            (Some e, w) \<Rightarrow> (Some (ETransition ''drain: post-Drain transition'' e), w)
                          | (None, w) \<Rightarrow> (None, w))
                    else (None, w))))"

definition deleted_mut :: "machine \<Rightarrow> machine \<Rightarrow> machine" where
  "deleted_mut deleted m =
    (if State deleted = StateSpeculative then m\<lparr>Host := no_host, Cluster := ''''\<rparr> else m)"

definition execute_delete :: "exec_env \<Rightarrow> action \<Rightarrow> world \<Rightarrow> exec_error option \<times> world" where
  "execute_delete E a w =
    (case inv_get (wInv w) (aMachineID a) of
       Inl e \<Rightarrow> (Some (EInventoryGet ''delete: inventory get'' e), w)
     | Inr cur \<Rightarrow>
       if State cur \<noteq> StateIdle then (None, w)
       else
         (case apply_transition (aMachineID a) StateDeleting None w of
            (Some e, w) \<Rightarrow> (Some (ETransition (''delete: '' @ arrow @ '' Deleting'') e), w)
          | (None, w) \<Rightarrow>
            (case eeDelete E (aMachineID a) w of
               (Inl err, w) \<Rightarrow>
                 (Some (ERpc ''delete: provider.Delete'' err),
                  snd (apply_transition (aMachineID a) StateFailed
                    (Some (\<lambda>m. m\<lparr>LastError := ''delete: '' @ rpc_error_text err\<rparr>)) w))
             | (Inr ack, w) \<Rightarrow>
                 let deleted = acked ack
                 in (case apply_transition (aMachineID a) (State deleted) (Some (deleted_mut deleted)) w of
                       (Some e, w) \<Rightarrow> (Some (ETransition ''delete: post-Delete transition'' e), w)
                     | (None, w) \<Rightarrow> (None, w)))))"

definition execute_action :: "exec_env \<Rightarrow> action \<Rightarrow> world \<Rightarrow> exec_error option \<times> world" where
  "execute_action E a w =
    (case aKind a of
       ActionKindBootstrap \<Rightarrow> execute_bootstrap E a w
     | ActionKindProvision \<Rightarrow> execute_provision E a w
     | ActionKindReclaim \<Rightarrow> execute_drain E a w
     | ActionKindPreempt \<Rightarrow> execute_drain E a w
     | ActionKindDelete \<Rightarrow> execute_delete E a w
     | ActionKindUnspecified \<Rightarrow> (Some (EUnknownKind (aKind a)), w))"

section \<open>Outcome labels\<close>

definition format_err :: "string \<Rightarrow> string \<Rightarrow> string" where
  "format_err prefix txt = prefix @ '': '' @ txt"

fun exec_error_text :: "string \<Rightarrow> exec_error \<Rightarrow> string" where
  "exec_error_text x (EMissingProfile p) = p @ '': missing source profile''"
| "exec_error_text x (EInventoryGet p e) = format_err p (inventory_error_text x e)"
| "exec_error_text x (EStale p k s t) =
    p @ '': machine '' @ k @ '' in state '' @ state_string s @ ''; expected '' @ t"
| "exec_error_text x (ETransition p e) = format_err p (inventory_error_text x e)"
| "exec_error_text x (ERpc p e) = format_err p (rpc_error_text e)"
| "exec_error_text x (EAckRejected e) =
    format_err ''provision: provider.Create ack rejected'' (machine_error_text x e)"
| "exec_error_text x (ENoSession c) = ''bootstrap: no active operator session for cluster '' @ c"
| "exec_error_text x ERaced = ''post-Configure transition: machine raced from Configuring to Idle''"
| "exec_error_text x (EUnknownKind k) = ''unknown action kind: '' @ action_kind_string k"

text \<open>\<open>strings.Contains\<close>.\<close>

fun str_contains :: "string \<Rightarrow> string \<Rightarrow> bool" where
  "str_contains [] sub = (sub = [])"
| "str_contains (c # s) sub = (take (length sub) (c # s) = sub \<or> str_contains s sub)"

definition contains_any :: "string \<Rightarrow> string list \<Rightarrow> bool" where
  "contains_any s subs = list_ex (str_contains s) subs"

definition outcome_fenced :: string where
  "outcome_fenced = ''fenced''"

fun is_fenced :: "rpc_error \<Rightarrow> bool" where
  "is_fenced (RpcFenced t) = True"
| "is_fenced _ = False"

text \<open>\<open>errors.Is\<close> looks through the wrapping.\<close>

fun call_error :: "(rpc_error \<Rightarrow> bool) \<Rightarrow> exec_error \<Rightarrow> bool" where
  "call_error P (ERpc p r) = P r"
| "call_error P _ = False"

definition classify_execute_error :: "bool \<Rightarrow> string \<Rightarrow> exec_error option \<Rightarrow> string" where
  "classify_execute_error ctx_done x err =
    (case err of None \<Rightarrow> ''success''
     | Some e \<Rightarrow>
       let msg = exec_error_text x e in
       if ctx_done \<or> call_error is_ctx_error e
       then ''ctx_canceled''
       else if call_error is_fenced e then outcome_fenced
       else if str_contains msg ''no active operator session'' then ''no_session''
       else if e = ERaced then ''transition_raced_to_idle''
       else if contains_any msg [arrow @ '' Configuring'', arrow @ '' Creating'', arrow @ '' Draining'',
            arrow @ '' Deleting'', ''post-Create transition'', ''post-Configure transition'',
            ''post-Drain transition'', ''post-Delete transition''] then ''transition_error''
       else if contains_any msg [''LocalBootstrap'', ''requestBootstrap''] then ''blob_error''
       else if contains_any msg [''provider.Configure'', ''provider.Create'', ''provider.Drain'',
            ''provider.Delete''] then ''provider_error''
       else if contains_any msg [''expected Idle'', ''expected Speculative'', ''expected Configured'']
       then ''stale_state''
       else if str_contains msg ''inventory get'' then ''inventory_miss''
       else if str_contains msg ''missing source profile'' then ''missing_profile''
       else ''other'')"

text \<open>The label of a rejected machine record at ingest.\<close>

definition machine_reject_reason :: "string \<Rightarrow> machine_error \<Rightarrow> string" where
  "machine_reject_reason x e =
    (let msg = machine_error_text x e
     in if str_contains msg ''price_per_hour'' then ''price''
        else if str_contains msg ''interruption_probability'' then ''interruption_probability''
        else ''structural'')"

section \<open>What every execution keeps\<close>

text \<open>Changes of a record that leave its identity and its state alone.\<close>

definition keeps_state :: "(machine \<Rightarrow> machine) \<Rightarrow> bool" where
  "keeps_state f \<longleftrightarrow> (\<forall>m. ID (f m) = ID m \<and> State (f m) = State m)"

text \<open>The calls of an environment stay within a relation on worlds.\<close>

definition calls_in :: "(world \<Rightarrow> world \<Rightarrow> bool) \<Rightarrow> exec_env \<Rightarrow> bool" where
  "calls_in R E \<longleftrightarrow>
    (\<forall>c rs w. R w (snd (eeBlob E c rs w))) \<and> (\<forall>k w. R w (snd (eeCreate E k w)))
    \<and> (\<forall>k c b md w. R w (snd (eeConfigure E k c b md w)))
    \<and> (\<forall>k g w. R w (snd (eeDrain E k g w))) \<and> (\<forall>k w. R w (snd (eeDelete E k w)))"

text \<open>
  What a worker guarantees about its machine \<open>k\<close>: a relation on worlds that the writes of an
  execution stay within. Whatever the other goroutines do inside it while a call is out, the
  whole execution stays inside.
\<close>

locale worker_guarantee =
  fixes R :: "string \<Rightarrow> world \<Rightarrow> world \<Rightarrow> bool"
  assumes refl: "R k w w"
    and trans: "R k u v \<Longrightarrow> R k v w \<Longrightarrow> R k u w"
    and transition: "pred_option keeps_state mut \<Longrightarrow> R k w (snd (apply_transition k t mut w))"
    and sending: "R k w (send c msg w)"
    and observing: "R k w (w\<lparr>wObserved := ob\<rparr>)"
begin

text \<open>The rules follow the shape of the code: sequencing, case distinctions, returns.\<close>

lemma bind:
  assumes "R k w0 (snd c)" "\<And>x w'. R k w0 w' \<Longrightarrow> R k w0 (snd (body x w'))"
  shows "R k w0 (snd (case c of (x, w') \<Rightarrow> body x w'))"
  using assms by (cases c) simp

lemma branch:
  "(b = None \<Longrightarrow> R k w0 (snd x)) \<Longrightarrow> (\<And>y. R k w0 (snd (f y)))
    \<Longrightarrow> R k w0 (snd (case b of None \<Rightarrow> x | Some y \<Rightarrow> f y))"
  "(\<And>y. R k w0 (snd (g y))) \<Longrightarrow> (\<And>y. R k w0 (snd (h y)))
    \<Longrightarrow> R k w0 (snd (case s of Inl y \<Rightarrow> g y | Inr y \<Rightarrow> h y))"
  "R k w0 (snd x) \<Longrightarrow> R k w0 (snd z) \<Longrightarrow> R k w0 (snd (if P then x else z))"
  "R k w0 u \<Longrightarrow> R k w0 v \<Longrightarrow> R k w0 (if P then u else v)"
  by (simp_all split: option.splits sum.splits)

lemma ret: "R k w0 w \<Longrightarrow> R k w0 (snd (x, w))"
  by simp

lemma transit:
  assumes "R k w0 w" "pred_option keeps_state mut"
  shows "R k w0 (snd (apply_transition k t mut w))"
  using transition [OF assms(2), where t = t and w = w] assms(1) trans by metis

lemma calls:
  assumes "calls_in (R k) E" "R k w0 w"
  shows "R k w0 (snd (eeBlob E c rs w))" "R k w0 (snd (eeCreate E k' w))"
    "R k w0 (snd (eeConfigure E k' c b md w))" "R k w0 (snd (eeDrain E k' g w))"
    "R k w0 (snd (eeDelete E k' w))"
  using assms trans unfolding calls_in_def by metis+

lemma observe: "R k w0 w \<Longrightarrow> R k w0 (observe_provisioning_latency c fp w)"
  by (auto simp: observe_provisioning_latency_def split: option.splits intro: trans [OF _ observing])

lemma reclaim: "R k w0 w \<Longrightarrow> R k w0 (send_reclaim a w)"
  by (auto simp: send_reclaim_def intro: trans [OF _ sending])

lemmas shape = ret branch bind transit calls observe reclaim

lemma blob_err: "R k w0 w \<Longrightarrow> R k w0 (handle_bootstrap_blob_err k err p w)"
  unfolding handle_bootstrap_blob_err_def by (rule shape | assumption | simp add: keeps_state_def)+

lemma blob:
  assumes "calls_in (R (aMachineID a)) E" "R (aMachineID a) w0 w"
  shows "R (aMachineID a) w0 (snd (fetch_blob E a p w))"
  unfolding fetch_blob_def
  by (rule assms shape blob_err | assumption | simp add: keeps_state_def)+

lemma configure:
  assumes "calls_in (R (aMachineID a)) E" "R (aMachineID a) w0 w"
  shows "R (aMachineID a) w0 (snd (configure_machine E a p b w))"
  unfolding configure_machine_def Let_def
  by (rule assms shape | assumption | simp add: keeps_state_def configured_mut_def)+

lemma bootstrap:
  assumes "calls_in (R (aMachineID a)) E" "R (aMachineID a) w0 w"
  shows "R (aMachineID a) w0 (snd (execute_bootstrap E a w))"
  unfolding execute_bootstrap_def
  by (rule assms blob configure shape | assumption | simp add: keeps_state_def)+

lemma provision:
  assumes "calls_in (R (aMachineID a)) E" "R (aMachineID a) w0 w"
  shows "R (aMachineID a) w0 (snd (execute_provision E a w))"
  unfolding execute_provision_def Let_def
  by (rule assms bootstrap shape | assumption | simp add: keeps_state_def)+

lemma drain:
  assumes "calls_in (R (aMachineID a)) E" "R (aMachineID a) w0 w"
  shows "R (aMachineID a) w0 (snd (execute_drain E a w))"
  unfolding execute_drain_def Let_def
  by (rule assms shape | assumption | simp add: keeps_state_def drained_mut_def Let_def)+

lemma delete:
  assumes "calls_in (R (aMachineID a)) E" "R (aMachineID a) w0 w"
  shows "R (aMachineID a) w0 (snd (execute_delete E a w))"
  unfolding execute_delete_def Let_def
  by (rule assms shape | assumption | simp add: keeps_state_def deleted_mut_def)+

lemma execute:
  assumes "calls_in (R (aMachineID a)) E"
  shows "R (aMachineID a) w (snd (execute_action E a w))"
proof -
  note r = assms refl [of "aMachineID a" w]
  show ?thesis
    by (cases "aKind a") (simp_all add: execute_action_def bootstrap [OF r] provision [OF r] drain [OF r]
        delete [OF r] refl)
qed

end

section \<open>One transition\<close>

definition changed :: "(machine \<Rightarrow> machine) option \<Rightarrow> machine \<Rightarrow> machine" where
  "changed mut m = (case mut of None \<Rightarrow> m | Some f \<Rightarrow> f m)"

lemma changed_simps [simp]: "changed None m = m" "changed (Some f) m = f m"
  by (simp_all add: changed_def)

lemma notify_fields [simp]:
  "wInv (notify_node_state m p w) = wInv w" "wSessions (notify_node_state m p w) = wSessions w"
  "wNow (notify_node_state m p w) = wNow w" "wObserved (notify_node_state m p w) = wObserved w"
  "wInv (send c msg w) = wInv w" "wSessions (send c msg w) = wSessions w"
  "wNow (send c msg w) = wNow w"
  by (simp_all add: notify_node_state_def send_def Let_def)

text \<open>A transition is at most one validated write of the store, of the machine it names.\<close>

lemma transition_write:
  assumes "inv_ok (wInv w)" "pred_option keeps_state mut"
  shows "snd (apply_transition k t mut w) = w
    \<or> (\<exists>m op. ID m = k \<and> op \<in> {OpInsert m, OpApply m}
         \<and> wInv (snd (apply_transition k t mut w)) = inv_do (wNow w) op (wInv w))"
proof (cases "gm_get (byID (wInv w)) k")
  case None
  have i: "ID (changed mut (zero_machine\<lparr>ID := k, State := t\<rparr>)) = k"
    using assms(2) by (cases mut) (simp_all add: keeps_state_def)
  show ?thesis
  proof (cases "inv_insert (wNow w) (wInv w) (changed mut (zero_machine\<lparr>ID := k, State := t\<rparr>))")
    case (Pair e i)
    then show ?thesis using None \<open>ID _ = k\<close>
      by (cases e) (auto simp: apply_transition_def inv_get_def Let_def changed_def
          intro!: exI [of _ "changed mut (zero_machine\<lparr>ID := k, State := t\<rparr>)"] split: option.splits)
  qed
next
  case (Some cur)
  have k: "ID cur = k" using inv_okD(3) [OF assms(1) Some] .
  have i: "ID (changed mut cur) = k" "ID (changed mut (cur\<lparr>State := t\<rparr>)) = k"
    using assms(2) k by (cases mut; simp add: keeps_state_def)+
  show ?thesis
  proof (cases "State cur = t")
    case True
    show ?thesis
    proof (cases mut)
      case None
      then show ?thesis using Some True by (simp add: apply_transition_def inv_get_def Let_def)
    next
      case (Some f)
      then have f: "ID (f cur) = k" using i(1) by simp
      show ?thesis
        by (cases "inv_apply (wNow w) (wInv w) (f cur)", cases "fst (inv_apply (wNow w) (wInv w) (f cur))")
          (use f Some \<open>gm_get (byID (wInv w)) k = Some cur\<close> True in
            \<open>auto simp: apply_transition_def inv_get_def Let_def intro!: exI [of _ "f cur"]\<close>)
    qed
  next
    case False
    show ?thesis
      by (cases "inv_apply (wNow w) (wInv w) (changed mut (cur\<lparr>State := t\<rparr>))",
          cases "fst (inv_apply (wNow w) (wInv w) (changed mut (cur\<lparr>State := t\<rparr>)))")
        (use i(2) Some False in \<open>auto simp: apply_transition_def inv_get_def Let_def changed_def
            intro!: exI [of _ "changed mut (cur\<lparr>State := t\<rparr>)"]\<close>)
  qed
qed

text \<open>On a machine the inventory has: allowed and well formed, or refused without effect.\<close>

lemma transition_present:
  fixes t :: state and k :: string
  assumes "inv_ok (wInv w)" "gm_get (byID (wInv w)) k = Some m" "pred_option keeps_state mut"
  defines "m' \<equiv> changed mut (m\<lparr>State := t\<rparr>)"
  shows "(State m = t \<or> can_transition (State m) t) \<and> wf_machine m' \<Longrightarrow>
      \<exists>w'. apply_transition k t mut w = (None, w') \<and> gm_get (byID (wInv w')) k = Some m'
        \<and> inv_ok (wInv w') \<and> wSessions w' = wSessions w"
    and "\<not> ((State m = t \<or> can_transition (State m) t) \<and> wf_machine m') \<Longrightarrow>
      \<exists>e. apply_transition k t mut w = (Some e, w)"
proof -
  have k: "ID m = k" using inv_okD(3) [OF assms(1,2)] .
  have i: "ID m' = k" "State m' = t" using assms(3) k by (cases mut; simp add: m'_def keeps_state_def)+
  have eqm: "m\<lparr>State := t\<rparr> = m" if "State m = t" using that by simp
  have wf: "wf_machine m" using inv_okD(4) [OF assms(1,2)] .
  have ap: "apply_transition k t mut w = (case inv_apply (wNow w) (wInv w) m' of
      (Some e, _) \<Rightarrow> (Some e, w) | (None, i) \<Rightarrow> (None, notify_node_state m' (Cluster m) (w\<lparr>wInv := i\<rparr>)))"
    if n: "\<not> (State m = t \<and> mut = None)"
  proof (cases "State m = t")
    case True
    then obtain f where f: "mut = Some f" using n by (cases mut) auto
    show ?thesis unfolding m'_def eqm [OF True] f changed_simps
      using True f assms(2) by (simp add: apply_transition_def inv_get_def Let_def)
  next
    case False
    then show ?thesis unfolding m'_def changed_def
      using assms(2) by (simp add: apply_transition_def inv_get_def Let_def)
  qed
  have triv: "apply_transition k t mut w = (None, w)" "m' = m" if "State m = t" "mut = None"
    using that assms(2) by (simp_all add: apply_transition_def inv_get_def Let_def m'_def)
  show "\<exists>w'. apply_transition k t mut w = (None, w') \<and> gm_get (byID (wInv w')) k = Some m'
      \<and> inv_ok (wInv w') \<and> wSessions w' = wSessions w"
    if g: "(State m = t \<or> can_transition (State m) t) \<and> wf_machine m'"
  proof (cases "State m = t \<and> mut = None")
    case True
    then show ?thesis using triv assms(1,2) by simp
  next
    case False
    have a: "fst (inv_apply (wNow w) (wInv w) m') = None"
      "gm_get (byID (snd (inv_apply (wNow w) (wInv w) m'))) k = Some m'"
      using g i assms(2) by (auto simp: inv_apply_def invariant_none_iff [symmetric] check_transition_def Let_def)
    then show ?thesis using ap [OF False] inv_ok_apply [OF assms(1), of "wNow w" m']
      by (cases "inv_apply (wNow w) (wInv w) m'") auto
  qed
  show "\<exists>e. apply_transition k t mut w = (Some e, w)"
    if g: "\<not> ((State m = t \<or> can_transition (State m) t) \<and> wf_machine m')"
  proof -
    have n: "\<not> (State m = t \<and> mut = None)" using g wf triv(2) by auto
    have "\<exists>e. fst (inv_apply (wNow w) (wInv w) m') = Some e"
      using g i assms(2) unfolding invariant_none_iff [symmetric]
      by (cases "invariant m'") (auto simp: inv_apply_def check_transition_def Let_def)
    then show ?thesis using ap [OF n] by (cases "inv_apply (wNow w) (wInv w) m'") auto
  qed
qed

section \<open>Guarantees\<close>

text \<open>The machine moves along the transition table, and the inventory stays well formed.\<close>

definition moves :: "string \<Rightarrow> world \<Rightarrow> world \<Rightarrow> bool" where
  "moves k w w' \<longleftrightarrow> (inv_ok (wInv w) \<longrightarrow> inv_ok (wInv w')
     \<and> (\<forall>s. state_in (wInv w) k = Some s \<longrightarrow>
          (\<exists>s'. state_in (wInv w') k = Some s' \<and> can_transition\<^sup>*\<^sup>* s s')))"

text \<open>Another machine \<open>j\<close> is left as it is.\<close>

definition leaves_alone :: "string \<Rightarrow> string \<Rightarrow> world \<Rightarrow> world \<Rightarrow> bool" where
  "leaves_alone j k w w' \<longleftrightarrow> (j \<noteq> k \<longrightarrow> inv_ok (wInv w) \<longrightarrow> inv_ok (wInv w')
     \<and> gm_get (byID (wInv w')) j = gm_get (byID (wInv w)) j
     \<and> gm_get (idleSince (wInv w')) j = gm_get (idleSince (wInv w)) j)"

text \<open>What the others owe a machine that a worker holds: to keep away from it.\<close>

definition keeps_away :: "string \<Rightarrow> world \<Rightarrow> world \<Rightarrow> bool" where
  "keeps_away k w w' \<longleftrightarrow> (inv_ok (wInv w) \<longrightarrow> inv_ok (wInv w')
     \<and> gm_get (byID (wInv w')) k = gm_get (byID (wInv w)) k)"

lemma write_frame:
  assumes "ID m = k" "op \<in> {OpInsert m, OpApply m}" "j \<noteq> k"
  shows "gm_get (byID (inv_do now op i)) j = gm_get (byID i) j"
    "gm_get (idleSince (inv_do now op i)) j = gm_get (idleSince i) j"
  using assms by (auto simp: inv_insert_def inv_apply_def Let_def split: option.splits)

lemma write_moves:
  assumes "inv_ok i" "ID m = k" "op \<in> {OpInsert m, OpApply m}" "state_in i k = Some s"
  shows "\<exists>s'. state_in (inv_do now op i) k = Some s' \<and> can_transition\<^sup>*\<^sup>* s s'"
proof -
  have "state_in (inv_do now op i) k \<noteq> None"
    using assms(2-4) by (auto simp: state_in_def inv_insert_def inv_apply_def Let_def split: option.splits)
  then obtain s' where s': "state_in (inv_do now op i) k = Some s'" by blast
  then have "s' = s \<or> can_transition s s'" using do_transition [OF assms(1,4) s'] by blast
  then show ?thesis using s' by blast
qed

interpretation moving: worker_guarantee moves
proof
  show "moves k w w" for k w by (auto simp: moves_def)
  show "moves k u w" if "moves k u v" "moves k v w" for k u v w
    using that unfolding moves_def by (metis rtranclp_trans)
  show "moves k w (snd (apply_transition k t mut w))" if "pred_option keeps_state mut" for k w t mut
    unfolding moves_def
  proof (intro impI)
    assume ok: "inv_ok (wInv w)"
    show "inv_ok (wInv (snd (apply_transition k t mut w))) \<and> (\<forall>s. state_in (wInv w) k = Some s \<longrightarrow>
        (\<exists>s'. state_in (wInv (snd (apply_transition k t mut w))) k = Some s' \<and> can_transition\<^sup>*\<^sup>* s s'))"
      using transition_write [OF ok that, of k t]
    proof
      assume "\<exists>m op. ID m = k \<and> op \<in> {OpInsert m, OpApply m}
        \<and> wInv (snd (apply_transition k t mut w)) = inv_do (wNow w) op (wInv w)"
      then show ?thesis using inv_ok_do [OF ok] write_moves [OF ok] by metis
    qed (use ok in auto)
  qed
qed (auto simp: moves_def)

interpretation frame: worker_guarantee "leaves_alone j" for j
proof
  show "leaves_alone j k w (snd (apply_transition k t mut w))" if "pred_option keeps_state mut" for k w t mut
    unfolding leaves_alone_def
  proof (intro impI)
    assume jk: "j \<noteq> k" and ok: "inv_ok (wInv w)"
    show "inv_ok (wInv (snd (apply_transition k t mut w)))
      \<and> gm_get (byID (wInv (snd (apply_transition k t mut w)))) j = gm_get (byID (wInv w)) j
      \<and> gm_get (idleSince (wInv (snd (apply_transition k t mut w)))) j = gm_get (idleSince (wInv w)) j"
      using transition_write [OF ok that, of k t]
    proof
      assume "\<exists>m op. ID m = k \<and> op \<in> {OpInsert m, OpApply m}
        \<and> wInv (snd (apply_transition k t mut w)) = inv_do (wNow w) op (wInv w)"
      then show ?thesis using inv_ok_do [OF ok] write_frame [OF _ _ jk] by metis
    qed (simp add: ok)
  qed
qed (auto simp: leaves_alone_def)

lemma keeps_away_moves: "keeps_away k w w' \<Longrightarrow> moves k w w'"
  by (auto simp: keeps_away_def moves_def state_in_def)

lemma calls_in_mono: "calls_in R E \<Longrightarrow> (\<And>w w'. R w w' \<Longrightarrow> S w w') \<Longrightarrow> calls_in S E"
  unfolding calls_in_def by blast

section \<open>Outcomes\<close>

text \<open>A machine as the inventory has it, in a well-formed world.\<close>

definition holds :: "world \<Rightarrow> string \<Rightarrow> machine \<Rightarrow> bool" where
  "holds w k m \<longleftrightarrow> inv_ok (wInv w) \<and> gm_get (byID (wInv w)) k = Some m"

lemma holds_wf: "holds w k m \<Longrightarrow> wf_machine m"
  using inv_okD(4) unfolding holds_def by blast

lemma holds_transition:
  assumes "holds w k m" "pred_option keeps_state mut" "apply_transition k t mut w = (e, w')"
  shows "e = None \<Longrightarrow> holds w' k (changed mut (m\<lparr>State := t\<rparr>))" "e \<noteq> None \<Longrightarrow> w' = w"
    and "(State m = t \<or> can_transition (State m) t) \<and> wf_machine (changed mut (m\<lparr>State := t\<rparr>)) \<Longrightarrow> e = None"
    and "wSessions w' = wSessions w"
  using transition_present [of w k m mut t] assms unfolding holds_def by fastforce+

lemma holds_call: "holds w k m \<Longrightarrow> keeps_away k w w' \<Longrightarrow> holds w' k m"
  by (auto simp: holds_def keeps_away_def)

lemma fail_transition:
  assumes "holds w k m" "can_transition (State m) StateFailed" "x \<noteq> ''''"
  shows "holds (snd (apply_transition k StateFailed (Some (\<lambda>m. m\<lparr>LastError := x\<rparr>)) w)) k
    (m\<lparr>State := StateFailed, LastError := x\<rparr>)"
proof -
  obtain e w' where r: "apply_transition k StateFailed (Some (\<lambda>m. m\<lparr>LastError := x\<rparr>)) w = (e, w')"
    by (cases "apply_transition k StateFailed (Some (\<lambda>m. m\<lparr>LastError := x\<rparr>)) w")
  have "wf_machine (m\<lparr>State := StateFailed, LastError := x\<rparr>)"
    using holds_wf [OF assms(1)] assms(3) by (simp add: wf_machine_def)
  then have "e = None" using holds_transition(3) [OF assms(1) _ r] assms(2) by (simp add: keeps_state_def)
  then have "holds w' k (m\<lparr>State := StateFailed, LastError := x\<rparr>)"
    using holds_transition(1) [OF assms(1) _ r] by (simp add: keeps_state_def)
  then show ?thesis using r by simp
qed

lemma rollback_transition:
  assumes "holds w k m" "State m = StateConfiguring" "keeps_state f"
    and "\<And>m. Cluster (f m) = '''' \<and> Host (f m) = Host m \<and> PricePerHour (f m) = PricePerHour m
           \<and> InterruptionProbability (f m) = InterruptionProbability m"
  shows "holds (snd (apply_transition k StateIdle (Some f) w)) k (f (m\<lparr>State := StateIdle\<rparr>))"
proof -
  obtain e w' where r: "apply_transition k StateIdle (Some f) w = (e, w')"
    by (cases "apply_transition k StateIdle (Some f) w")
  have "wf_machine (f (m\<lparr>State := StateIdle\<rparr>))" "State (f (m\<lparr>State := StateIdle\<rparr>)) = StateIdle"
    using holds_wf [OF assms(1)] assms(2-4) by (simp_all add: wf_machine_def keeps_state_def)
  moreover from this have "e = None" using holds_transition(3) [OF assms(1) _ r] assms(2,3) by simp
  ultimately show ?thesis using holds_transition(1) [OF assms(1) _ r] assms(3) r by simp
qed

text \<open>
  What a failed step of a Bootstrap makes of the machine \<open>m\<close>, Configuring for the action's cluster:
  a blob that timed out, or that nobody could be asked for, leaves it Idle and unbound; any other
  failure of the blob, and a Configure that failed, leaves it Failed with the text of the error. An
  accepted Configure whose outcome the inventory refuses leaves it Configuring.
\<close>

definition after_failure :: "action \<Rightarrow> exec_error \<Rightarrow> machine \<Rightarrow> machine \<Rightarrow> bool" where
  "after_failure a err m m' =
    (case err of
       ENoSession c \<Rightarrow> c = aCluster a \<and> m' = m\<lparr>State := StateIdle, Cluster := ''''\<rparr>
     | ERpc step e \<Rightarrow>
         if step = ''bootstrap: provider.Configure''
         then m' = m\<lparr>State := StateFailed, LastError := ''configure: '' @ rpc_error_text e\<rparr>
         else (step = ''bootstrap: LocalBootstrap'' \<or> step = ''bootstrap: requestBootstrap'')
           \<and> m' = (if e \<in> {RpcCanceled, RpcDeadlineExceeded}
                   then m\<lparr>State := StateIdle, Cluster := '''', LastError := ''''\<rparr>
                   else m\<lparr>State := StateFailed, LastError := ''bootstrap: '' @ rpc_error_text e\<rparr>)
     | ETransition step e \<Rightarrow> step = ''bootstrap: post-Configure transition'' \<and> m' = m
     | _ \<Rightarrow> False)"

lemma blob_err_outcome:
  assumes "holds w k m" "State m = StateConfiguring" "prefix \<noteq> ''''"
  shows "holds (handle_bootstrap_blob_err k err prefix w) k
    (if err \<in> {RpcCanceled, RpcDeadlineExceeded}
     then m\<lparr>State := StateIdle, Cluster := '''', LastError := ''''\<rparr>
     else m\<lparr>State := StateFailed, LastError := prefix @ rpc_error_text err\<rparr>)"
  unfolding handle_bootstrap_blob_err_def
  using rollback_transition [OF assms(1,2), of "\<lambda>m. m\<lparr>Cluster := '''', LastError := ''''\<rparr>"]
    fail_transition [OF assms(1), of "prefix @ rpc_error_text err"] assms(2,3)
  by (simp add: keeps_state_def is_ctx_error_def)

lemma fetch_blob_outcome:
  assumes "holds w (aMachineID a) m" "State m = StateConfiguring" "calls_in (keeps_away (aMachineID a)) E"
    and "fetch_blob E a p w = (r, w')"
  shows "case r of Inr b \<Rightarrow> holds w' (aMachineID a) m
      | Inl e \<Rightarrow> \<exists>m'. holds w' (aMachineID a) m' \<and> after_failure a e m m'"
proof (cases "\<not> eeLocalBootstrap E \<and> aCluster a \<notin> set (wSessions w)")
  case True
  have "holds (snd (apply_transition (aMachineID a) StateIdle (Some (\<lambda>m. m\<lparr>Cluster := ''''\<rparr>)) w)) (aMachineID a)
      (m\<lparr>State := StateIdle, Cluster := ''''\<rparr>)"
    using rollback_transition [OF assms(1,2), of "\<lambda>m. m\<lparr>Cluster := ''''\<rparr>"] by (simp add: keeps_state_def)
  then show ?thesis using assms(4) True by (auto simp: fetch_blob_def after_failure_def)
next
  case False
  obtain x w1 where c: "eeBlob E (aCluster a) (requirements p) w = (x, w1)"
    by (cases "eeBlob E (aCluster a) (requirements p) w")
  have "keeps_away (aMachineID a) w w1" using assms(3) c unfolding calls_in_def by (metis snd_conv)
  then have h: "holds w1 (aMachineID a) m" by (rule holds_call [OF assms(1)])
  show ?thesis
  proof (cases x)
    case (Inl e)
    have "holds (handle_bootstrap_blob_err (aMachineID a) e ''bootstrap: '' w1) (aMachineID a)
      (if e \<in> {RpcCanceled, RpcDeadlineExceeded}
       then m\<lparr>State := StateIdle, Cluster := '''', LastError := ''''\<rparr>
       else m\<lparr>State := StateFailed, LastError := ''bootstrap: '' @ rpc_error_text e\<rparr>)"
      by (rule blob_err_outcome [OF h assms(2)]) simp
    then show ?thesis using assms(4) False c Inl
      by (cases "eeLocalBootstrap E") (auto simp: fetch_blob_def after_failure_def)
  next
    case (Inr b)
    then show ?thesis using assms(4) False c h by (auto simp: fetch_blob_def split: if_splits)
  qed
qed

text \<open>What the provider documents of an accepted Configure: the machine is on its way, or there.\<close>

definition configure_acks :: "exec_env \<Rightarrow> bool" where
  "configure_acks E \<longleftrightarrow> (\<forall>k c b md w ack. fst (eeConfigure E k c b md w) = Inr ack
     \<longrightarrow> State ack \<in> {StateConfiguring, StateConfigured})"

definition bound_to :: "action \<Rightarrow> profile \<Rightarrow> machine \<Rightarrow> bool" where
  "bound_to a p m \<longleftrightarrow> Cluster m = aCluster a \<and> AssignedPriority m = priority p
     \<and> AssignedInterruptionPenalty m = int_penalty p \<and> AssignedReclamationPenalty m = rec_penalty p
     \<and> AssignedNeedFingerprint m = fingerprint p \<and> AssignedGroup m = aSourceGroup a"

lemma configure_outcome:
  assumes h: "holds w (aMachineID a) m" "State m = StateConfiguring" "Cluster m = aCluster a"
    and E: "calls_in (keeps_away (aMachineID a)) E" "configure_acks E"
    and r: "configure_machine E a p b w = (err, w')"
  shows "\<exists>m'. holds w' (aMachineID a) m'
    \<and> (case err of None \<Rightarrow> State m' \<in> {StateConfiguring, StateConfigured} \<and> bound_to a p m'
       | Some e \<Rightarrow> after_failure a e m m')"
proof -
  let ?k = "aMachineID a" and ?md = "encode_shard_metadata (eeMeta E) (priority p) (int_penalty p)
    (rec_penalty p) (fingerprint p) (aSourceGroup a)"
  obtain x w1 where c: "eeConfigure E ?k (aCluster a) b ?md w = (x, w1)"
    by (cases "eeConfigure E ?k (aCluster a) b ?md w")
  have "keeps_away ?k w w1" using E(1) c unfolding calls_in_def by (metis snd_conv)
  then have h1: "holds w1 ?k m" by (rule holds_call [OF h(1)])
  show ?thesis
  proof (cases x)
    case (Inl e)
    then have w': "err = Some (ERpc ''bootstrap: provider.Configure'' e)" "w' = snd (apply_transition ?k StateFailed
        (Some (\<lambda>m. m\<lparr>LastError := ''configure: '' @ rpc_error_text e\<rparr>)) w1)"
      using r c by (simp_all add: configure_machine_def Let_def)
    have "holds w' ?k (m\<lparr>State := StateFailed, LastError := ''configure: '' @ rpc_error_text e\<rparr>)"
      unfolding w'(2) by (rule fail_transition [OF h1]) (simp_all add: h(2))
    then show ?thesis unfolding w'(1) by (auto simp: after_failure_def)
  next
    case (Inr ack)
    have st: "State ack \<in> {StateConfiguring, StateConfigured}" using E(2) c Inr unfolding configure_acks_def by (metis fst_conv)
    let ?mut = "Some (configured_mut a p (unassigned ack))"
    have ks: "pred_option keeps_state ?mut" by (simp add: keeps_state_def configured_mut_def)
    obtain e w2 where t: "apply_transition ?k (State ack) ?mut w1 = (e, w2)"
      by (cases "apply_transition ?k (State ack) ?mut w1")
    show ?thesis
    proof (cases e)
      case None
      have h2: "holds w2 ?k (configured_mut a p (unassigned ack) (m\<lparr>State := State ack\<rparr>))"
        using holds_transition(1) [OF h1 ks t None] by simp
      then have "holds w' ?k (configured_mut a p (unassigned ack) (m\<lparr>State := State ack\<rparr>)) \<and> err = None"
        using r c Inr t None
        by (auto simp: configure_machine_def Let_def holds_def observe_provisioning_latency_def split: option.splits if_splits)
      then show ?thesis using st by (intro exI [of _ "configured_mut a p (unassigned ack) (m\<lparr>State := State ack\<rparr>)"])
          (auto simp: configured_mut_def bound_to_def)
    next
      case (Some ie)
      have w2: "w2 = w1" using holds_transition(2) [OF h1 ks t] Some by simp
      have "state_in (wInv w2) ?k \<noteq> Some StateIdle" using h1 h(2) w2 by (simp add: holds_def state_in_def)
      then have "err = Some (ETransition ''bootstrap: post-Configure transition'' ie)" "w' = w1"
        using r c Inr t Some w2 by (simp_all add: configure_machine_def Let_def)
      then show ?thesis using h1 by (auto simp: after_failure_def)
    qed
  qed
qed

text \<open>The machine a Bootstrap works on: the Idle one, stamped for its need and bound.\<close>

definition bootstrapping :: "action \<Rightarrow> profile \<Rightarrow> machine \<Rightarrow> machine" where
  "bootstrapping a p m = m\<lparr>State := StateConfiguring, Cluster := aCluster a,
     AssignedNeedFingerprint := fingerprint p, AssignedGroup := aSourceGroup a\<rparr>"

lemma bootstrap_outcome:
  assumes h: "holds w (aMachineID a) m" "State m = StateIdle" "aSourceProfile a = Some p"
    and E: "calls_in (keeps_away (aMachineID a)) E" "configure_acks E"
    and r: "execute_bootstrap E a w = (err, w')"
  shows "\<exists>m'. holds w' (aMachineID a) m'
    \<and> (case err of None \<Rightarrow> State m' \<in> {StateConfiguring, StateConfigured} \<and> bound_to a p m'
       | Some e \<Rightarrow> after_failure a e (bootstrapping a p m) m')"
proof -
  let ?k = "aMachineID a" and ?mut = "Some (\<lambda>m. m\<lparr>Cluster := aCluster a, AssignedNeedFingerprint := fingerprint p,
    AssignedGroup := aSourceGroup a\<rparr>)"
  obtain e w1 where t: "apply_transition ?k StateConfiguring ?mut w = (e, w1)"
    by (cases "apply_transition ?k StateConfiguring ?mut w")
  let ?m1 = "m\<lparr>State := StateConfiguring, Cluster := aCluster a, AssignedNeedFingerprint := fingerprint p,
    AssignedGroup := aSourceGroup a\<rparr>"
  have ks: "pred_option keeps_state ?mut" by (simp add: keeps_state_def)
  have "wf_machine ?m1" using holds_wf [OF h(1)] h(2) by (simp add: wf_machine_def)
  then have e: "e = None" using holds_transition(3) [OF h(1) ks t] h(2) by simp
  have h1: "holds w1 ?k ?m1" using holds_transition(1) [OF h(1) ks t e] by simp
  have g: "inv_get (wInv w) ?k = Inr m" using h(1) by (simp add: holds_def inv_get_def)
  obtain x w2 where f: "fetch_blob E a p w1 = (x, w2)" by (cases "fetch_blob E a p w1")
  note F = fetch_blob_outcome [OF h1 _ E(1) f]
  show ?thesis
  proof (cases x)
    case (Inl xe)
    then have "err = Some xe" "w' = w2" using r g h(2,3) t e f by (simp_all add: execute_bootstrap_def)
    then show ?thesis using F Inl by (auto simp: bootstrapping_def)
  next
    case (Inr b)
    then have c: "configure_machine E a p b w2 = (err, w')" using r g h(2,3) t e f by (simp add: execute_bootstrap_def)
    have h2: "holds w2 ?k ?m1" using F Inr by simp
    show ?thesis unfolding bootstrapping_def by (rule configure_outcome [OF h2 _ _ E c]) simp_all
  qed
qed

lemma transition_told:
  assumes "holds w k m" "apply_transition k t mut w = (None, w')" "State m \<noteq> t"
    and "c = (if Cluster (changed mut (m\<lparr>State := t\<rparr>)) = '''' then Cluster m else Cluster (changed mut (m\<lparr>State := t\<rparr>)))"
    and "c \<noteq> ''''" "c \<in> set (wSessions w)"
  shows "wSent w' = wSent w @ [(c, NodeStateUpdate (node_update_of (changed mut (m\<lparr>State := t\<rparr>))))]"
  using assms
  by (auto simp: holds_def apply_transition_def inv_get_def Let_def changed_def notify_node_state_def send_def
      split: prod.splits option.splits if_splits)

definition unbound :: "machine \<Rightarrow> bool" where
  "unbound m \<longleftrightarrow> Cluster m = '''' \<and> AssignedPriority m = 0 \<and> AssignedInterruptionPenalty m = f64_zero
     \<and> AssignedReclamationPenalty m = f64_zero \<and> AssignedNeedFingerprint m = '''' \<and> AssignedGroup m = ''''"

lemma drain_outcome:
  assumes h: "holds w (aMachineID a) m" "State m = StateConfigured"
    and E: "calls_in (keeps_away (aMachineID a)) E"
    and r: "execute_drain E a w = (err, w')"
  shows "\<exists>m'. holds w' (aMachineID a) m'
    \<and> (if err = None
       then m' = m\<lparr>State := StateDraining\<rparr>
         \<or> State m' = StateIdle \<and> unbound m'
           \<and> (Cluster m \<in> set (wSessions w') \<longrightarrow> (Cluster m, NodeStateUpdate (node_update_of m')) \<in> set (wSent w'))
       else State m' = StateFailed \<and> LastError m' \<noteq> '''')"
proof -
  let ?k = "aMachineID a" and ?g = "f64_to_int (duration_seconds (aGracePeriod a))"
  have h0: "holds (send_reclaim a w) ?k m" using h(1) by (simp add: send_reclaim_def holds_def)
  obtain e w1 where t: "apply_transition ?k StateDraining None (send_reclaim a w) = (e, w1)"
    by (cases "apply_transition ?k StateDraining None (send_reclaim a w)")
  let ?m1 = "m\<lparr>State := StateDraining\<rparr>"
  have "wf_machine ?m1" using holds_wf [OF h(1)] h(2) by (simp add: wf_machine_def)
  then have e: "e = None" using holds_transition(3) [OF h0 _ t] h(2) by simp
  have h1: "holds w1 ?k ?m1" using holds_transition(1) [OF h0 _ t e] by simp
  have g: "inv_get (wInv w) ?k = Inr m" using h(1) by (simp add: holds_def inv_get_def)
  obtain x w2 where c: "eeDrain E ?k ?g w1 = (x, w2)" by (cases "eeDrain E ?k ?g w1")
  have "keeps_away ?k w1 w2" using E c unfolding calls_in_def by (metis snd_conv)
  then have h2: "holds w2 ?k ?m1" by (rule holds_call [OF h1])
  show ?thesis
  proof (cases x)
    case (Inl er)
    then have w': "err \<noteq> None" "w' = snd (apply_transition ?k StateFailed
        (Some (\<lambda>m. m\<lparr>LastError := ''drain: '' @ rpc_error_text er\<rparr>)) w2)"
      using r g h(2) t e c by (auto simp: execute_drain_def)
    have "holds w' ?k (?m1\<lparr>State := StateFailed, LastError := ''drain: '' @ rpc_error_text er\<rparr>)"
      unfolding w'(2) by (rule fail_transition [OF h2]) simp_all
    then show ?thesis using w'(1) by (intro exI) auto
  next
    case (Inr ack)
    show ?thesis
    proof (cases "State ack = StateIdle")
      case False
      then have "err = None" "w' = w2" using r g h(2) t e c Inr by (simp_all add: execute_drain_def Let_def)
      then show ?thesis using h2 by auto
    next
      case True
      let ?mut = "Some (drained_mut (unassigned ack))"
      have ks: "pred_option keeps_state ?mut" by (simp add: keeps_state_def drained_mut_def Let_def)
      let ?m2 = "drained_mut (unassigned ack) (m\<lparr>State := StateIdle\<rparr>)"
      have m2: "State ?m2 = StateIdle" "unbound ?m2" "wf_machine ?m2" "Cluster ?m2 = ''''"
        using holds_wf [OF h(1)] h(2) by (auto simp: drained_mut_def unbound_def wf_machine_def Let_def)
      obtain e3 w3 where t3: "apply_transition ?k StateIdle ?mut w2 = (e3, w3)"
        by (cases "apply_transition ?k StateIdle ?mut w2")
      have e3: "e3 = None" using holds_transition(3) [OF h2 ks t3] m2(3) by simp
      then have w': "err = None" "w' = w3"
        using r g h(2) t e c Inr True t3 by (simp_all add: execute_drain_def Let_def)
      have h3: "holds w' ?k ?m2" using holds_transition(1) [OF h2 ks t3 e3] w' by simp
      have "(Cluster m, NodeStateUpdate (node_update_of ?m2)) \<in> set (wSent w')" if "Cluster m \<in> set (wSessions w')"
      proof -
        have "Cluster m \<noteq> ''''" using holds_wf [OF h(1)] h(2) by (simp add: wf_machine_def)
        then show ?thesis
          using transition_told [OF h2 t3 [unfolded e3], of "Cluster m"] m2(4) that w' holds_transition(4) [OF h2 ks t3]
          by simp
      qed
      then show ?thesis using h3 m2(1,2) w'(1) by auto
    qed
  qed
qed

text \<open>What the provider documents of an accepted Delete.\<close>

definition delete_acks :: "exec_env \<Rightarrow> bool" where
  "delete_acks E \<longleftrightarrow> (\<forall>k w ack. fst (eeDelete E k w) = Inr ack
     \<longrightarrow> State ack \<in> {StateDeleting, StateSpeculative})"

lemma delete_outcome:
  assumes h: "holds w (aMachineID a) m" "State m = StateIdle"
    and E: "calls_in (keeps_away (aMachineID a)) E" "delete_acks E"
    and r: "execute_delete E a w = (err, w')"
  shows "\<exists>m'. holds w' (aMachineID a) m'
    \<and> (if err = None
       then m' = m\<lparr>State := StateDeleting\<rparr>
         \<or> m' = m\<lparr>State := StateSpeculative, Host := no_host, Cluster := ''''\<rparr>
       else State m' = StateFailed \<and> LastError m' \<noteq> '''')"
proof -
  let ?k = "aMachineID a"
  obtain e w1 where t: "apply_transition ?k StateDeleting None w = (e, w1)"
    by (cases "apply_transition ?k StateDeleting None w")
  let ?m1 = "m\<lparr>State := StateDeleting\<rparr>"
  have "wf_machine ?m1" using holds_wf [OF h(1)] h(2) by (simp add: wf_machine_def)
  then have e: "e = None" using holds_transition(3) [OF h(1) _ t] h(2) by simp
  have h1: "holds w1 ?k ?m1" using holds_transition(1) [OF h(1) _ t e] by simp
  have g: "inv_get (wInv w) ?k = Inr m" using h(1) by (simp add: holds_def inv_get_def)
  obtain x w2 where c: "eeDelete E ?k w1 = (x, w2)" by (cases "eeDelete E ?k w1")
  have "keeps_away ?k w1 w2" using E(1) c unfolding calls_in_def by (metis snd_conv)
  then have h2: "holds w2 ?k ?m1" by (rule holds_call [OF h1])
  show ?thesis
  proof (cases x)
    case (Inl er)
    let ?f = "\<lambda>m. m\<lparr>LastError := ''delete: '' @ rpc_error_text er\<rparr>"
    obtain e3 where w': "err \<noteq> None" "apply_transition ?k StateFailed (Some ?f) w2 = (e3, w')"
      using r g h(2) t e c Inl by (auto simp: execute_delete_def) (metis prod.collapse)
    note T = holds_transition [OF h2 _ w'(2)]
    have "e3 = None" using T(3) holds_wf [OF h2] by (simp add: keeps_state_def wf_machine_def)
    then have "holds w' ?k (?f (?m1\<lparr>State := StateFailed\<rparr>))" using T(1) by (simp add: keeps_state_def)
    then show ?thesis using w'(1) by auto
  next
    case (Inr ack)
    have st: "State ack \<in> {StateDeleting, StateSpeculative}" using E(2) c Inr unfolding delete_acks_def by (metis fst_conv)
    let ?mut = "Some (deleted_mut (unassigned ack))"
    have ks: "pred_option keeps_state ?mut" by (simp add: keeps_state_def deleted_mut_def)
    obtain e3 w3 where t3: "apply_transition ?k (State ack) ?mut w2 = (e3, w3)"
      by (cases "apply_transition ?k (State ack) ?mut w2")
    let ?m2 = "deleted_mut (unassigned ack) (m\<lparr>State := State ack\<rparr>)"
    have m2: "wf_machine ?m2" using st holds_wf [OF h(1)] h(2)
      by (auto simp: deleted_mut_def wf_machine_def host_empty_def no_host_def)
    have e3: "e3 = None" using holds_transition(3) [OF h2 ks t3] m2 st by auto
    then have w': "err = None" "w' = w3"
      using r g h(2) t e c Inr t3 by (simp_all add: execute_delete_def Let_def)
    then have "holds w' ?k ?m2" using holds_transition(1) [OF h2 ks t3 e3] by simp
    then show ?thesis using st w'(1) by (auto simp: deleted_mut_def)
  qed
qed

text \<open>What the provider documents of an accepted Create.\<close>

definition create_acks :: "exec_env \<Rightarrow> bool" where
  "create_acks E \<longleftrightarrow> (\<forall>k w ack. fst (eeCreate E k w) = Inr ack \<longrightarrow> State ack \<in> {StateCreating, StateIdle})"

text \<open>The machine a Provision works on, once it is made, and what a failed Create makes of it.\<close>

definition creating :: "action \<Rightarrow> profile \<Rightarrow> machine \<Rightarrow> machine" where
  "creating a p m =
    m\<lparr>State := StateCreating, AssignedNeedFingerprint := fingerprint p, AssignedGroup := aSourceGroup a\<rparr>"

definition created :: "machine \<Rightarrow> host_ref \<Rightarrow> mprofile \<Rightarrow> f64 \<Rightarrow> f64 \<Rightarrow> machine" where
  "created m h mp price prob = m\<lparr>State := StateIdle, Host := h, MProfile := mp, PricePerHour := price,
     InterruptionProbability := prob\<rparr>"

definition create_failure :: "exec_error \<Rightarrow> machine \<Rightarrow> machine \<Rightarrow> bool" where
  "create_failure err m m' =
    (case err of
       ERpc step e \<Rightarrow> step = ''provision: provider.Create''
         \<and> m' = m\<lparr>State := StateFailed, LastError := ''create: '' @ rpc_error_text e\<rparr>
     | EAckRejected v \<Rightarrow>
         (\<exists>x. m' = m\<lparr>State := StateFailed, LastError := ''create: ack rejected: '' @ machine_error_text x v\<rparr>)
     | _ \<Rightarrow> False)"

lemma provision_outcome:
  assumes h: "holds w (aMachineID a) m" "State m = StateSpeculative" "aSourceProfile a = Some p"
    and E: "calls_in (keeps_away (aMachineID a)) E" "configure_acks E" "create_acks E"
    and r: "execute_provision E a w = (err, w')"
  shows "\<exists>m'. holds w' (aMachineID a) m'
    \<and> (case err of
         None \<Rightarrow> State m' \<in> {StateConfiguring, StateConfigured} \<and> bound_to a p m'
           \<or> State m' = StateCreating \<and> AssignedNeedFingerprint m' = fingerprint p \<and> AssignedGroup m' = aSourceGroup a
       | Some e \<Rightarrow> create_failure e (creating a p m) m'
           \<or> (\<exists>h mp pr ip. after_failure a e (bootstrapping a p (created (creating a p m) h mp pr ip)) m'))"
proof -
  let ?k = "aMachineID a" and ?mut = "Some (\<lambda>m. m\<lparr>AssignedNeedFingerprint := fingerprint p,
    AssignedGroup := aSourceGroup a\<rparr>)"
  obtain e w1 where t: "apply_transition ?k StateCreating ?mut w = (e, w1)"
    by (cases "apply_transition ?k StateCreating ?mut w")
  let ?m1 = "m\<lparr>State := StateCreating, AssignedNeedFingerprint := fingerprint p, AssignedGroup := aSourceGroup a\<rparr>"
  have ks: "pred_option keeps_state ?mut" by (simp add: keeps_state_def)
  have "wf_machine ?m1" using holds_wf [OF h(1)] h(2) by (simp add: wf_machine_def)
  then have e: "e = None" using holds_transition(3) [OF h(1) ks t] h(2) by simp
  have h1: "holds w1 ?k ?m1" using holds_transition(1) [OF h(1) ks t e] by simp
  have g: "inv_get (wInv w) ?k = Inr m" using h(1) by (simp add: holds_def inv_get_def)
  obtain x w2 where c: "eeCreate E ?k w1 = (x, w2)" by (cases "eeCreate E ?k w1")
  have "keeps_away ?k w1 w2" using E(1) c unfolding calls_in_def by (metis snd_conv)
  then have h2: "holds w2 ?k ?m1" by (rule holds_call [OF h1])
  have failed: ?thesis if "err = Some ee" "x \<noteq> ''''"
    "w' = snd (apply_transition ?k StateFailed (Some (\<lambda>m. m\<lparr>LastError := x\<rparr>)) w2)"
    "create_failure ee (creating a p m) ((creating a p m)\<lparr>State := StateFailed, LastError := x\<rparr>)" for x ee
    using fail_transition [OF h2 _ that(2)] that by (auto simp: creating_def)
  show ?thesis
  proof (cases x)
    case (Inl er)
    then show ?thesis using r g h(2,3) t e c
      by (intro failed [of "ERpc ''provision: provider.Create'' er" "''create: '' @ rpc_error_text er"])
        (auto simp: execute_provision_def create_failure_def)
  next
    case (Inr ack)
    have st: "State ack \<in> {StateCreating, StateIdle}" using E(3) c Inr unfolding create_acks_def by (metis fst_conv)
    show ?thesis
    proof (cases "invariant (unassigned ack)")
      case (Some v)
      then show ?thesis using r g h(2,3) t e c Inr
        by (intro failed [of "EAckRejected v" "''create: ack rejected: ''
            @ machine_error_text (eeFmt E (rejected_value v (unassigned ack))) v"])
          (auto simp: execute_provision_def Let_def create_failure_def)
    next
      case None
      then have wf: "wf_machine (unassigned ack)" by (simp add: invariant_none_iff)
      let ?f = "\<lambda>m. m\<lparr>Host := Host ack, MProfile := MProfile ack, PricePerHour := PricePerHour ack,
        InterruptionProbability := InterruptionProbability ack\<rparr>"
      have ks2: "pred_option keeps_state (Some ?f)" by (simp add: keeps_state_def)
      obtain e3 w3 where t3: "apply_transition ?k (State ack) (Some ?f) w2 = (e3, w3)"
        by (cases "apply_transition ?k (State ack) (Some ?f) w2")
      let ?m2 = "?f (?m1\<lparr>State := State ack\<rparr>)"
      have "wf_machine ?m2" using wf st holds_wf [OF h(1)] h(2) by (auto simp: wf_machine_def)
      then have e3: "e3 = None" using holds_transition(3) [OF h2 ks2 t3] st by auto
      have h3: "holds w3 ?k ?m2" using holds_transition(1) [OF h2 ks2 t3 e3] by simp
      show ?thesis
      proof (cases "State ack = StateIdle")
        case True
        then have b: "execute_bootstrap E a w3 = (err, w')"
          using r g h(2,3) t e c Inr None t3 e3 by (simp add: execute_provision_def Let_def)
        have m2: "?m2 = created (creating a p m) (Host ack) (MProfile ack) (PricePerHour ack) (InterruptionProbability ack)"
          using True by (simp add: created_def creating_def)
        show ?thesis using bootstrap_outcome [OF h3 _ h(3) E(1,2) b] True unfolding m2
          by (cases err) (auto simp: created_def)
      next
        case False
        then have "err = None" "w' = w3"
          using r g h(2,3) t e c Inr None t3 e3 by (simp_all add: execute_provision_def Let_def)
        then show ?thesis using h3 False st by auto
      qed
    qed
  qed
qed

text \<open>C22: An action touches its own machine only. Whatever the provider and the operator answer, and
  whatever the other goroutines do to other machines while the calls are out, the inventory stays
  well formed, the machine moves along the transition table, and every machine that the others
  leave alone is as it was.\<close>

theorem execute_own_machine:
  assumes "inv_ok (wInv w)" "calls_in (keeps_away (aMachineID a)) E"
    and "execute_action E a w = (err, w')"
  shows "inv_ok (wInv w')
    \<and> (\<forall>s. state_in (wInv w) (aMachineID a) = Some s \<longrightarrow>
        (\<exists>s'. state_in (wInv w') (aMachineID a) = Some s' \<and> can_transition\<^sup>*\<^sup>* s s'))
    \<and> (\<forall>j. j \<noteq> aMachineID a \<longrightarrow> calls_in (leaves_alone j (aMachineID a)) E \<longrightarrow>
        gm_get (byID (wInv w')) j = gm_get (byID (wInv w)) j)"
proof -
  have "calls_in (moves (aMachineID a)) E" using calls_in_mono [OF assms(2)] keeps_away_moves by blast
  note m = moving.execute [OF this, of w]
  have f: "gm_get (byID (wInv w')) j = gm_get (byID (wInv w)) j"
    if "j \<noteq> aMachineID a" "calls_in (leaves_alone j (aMachineID a)) E" for j
    using frame.execute [OF that(2), of w] that(1) assms(1,3) unfolding leaves_alone_def by simp
  show ?thesis using m f assms(1,3) unfolding moves_def by simp
qed

text \<open>C20: Acquiring a machine ends well defined. When a Bootstrap of an Idle machine, or a Provision of
  a Speculative one, reports success, the machine is bound to the action's cluster with the need's
  priority, penalties, fingerprint and gang (or is still being created, stamped for its need). When
  it fails, the error says what became of it: a blob that timed out or that no session could be
  asked for leaves it Idle and unbound; any other failure of the blob, a failed Configure or Create
  and a rejected acknowledgement leave it Failed with the text of that error; only when the
  inventory refuses the outcome of an accepted Configure does it stay Configuring. Nothing else of
  it changes, and while the others keep away from it, no other error is reported.\<close>

theorem acquire_outcome:
  assumes "holds w (aMachineID a) m" "aSourceProfile a = Some p"
    and "calls_in (keeps_away (aMachineID a)) E" "configure_acks E" "create_acks E"
    and "aKind a = ActionKindBootstrap \<and> State m = StateIdle
      \<or> aKind a = ActionKindProvision \<and> State m = StateSpeculative"
    and "execute_action E a w = (err, w')"
  shows "\<exists>m'. holds w' (aMachineID a) m'
    \<and> (case err of
         None \<Rightarrow> State m' \<in> {StateConfiguring, StateConfigured} \<and> bound_to a p m'
           \<or> aKind a = ActionKindProvision \<and> State m' = StateCreating
             \<and> AssignedNeedFingerprint m' = fingerprint p \<and> AssignedGroup m' = aSourceGroup a
       | Some e \<Rightarrow>
           if aKind a = ActionKindBootstrap then after_failure a e (bootstrapping a p m) m'
           else create_failure e (creating a p m) m'
             \<or> (\<exists>h mp pr ip. after_failure a e (bootstrapping a p (created (creating a p m) h mp pr ip)) m'))"
proof (cases "aKind a = ActionKindBootstrap")
  case True
  then have r: "execute_bootstrap E a w = (err, w')" using assms(7) by (simp add: execute_action_def)
  show ?thesis using bootstrap_outcome [OF assms(1) _ assms(2-4) r] assms(6) True
    by (cases err) auto
next
  case False
  then have r: "execute_provision E a w = (err, w')" using assms(6,7) by (simp add: execute_action_def)
  show ?thesis using provision_outcome [OF assms(1) _ assms(2-5) r] assms(6) False
    by (cases err) auto
qed

text \<open>C21: Giving a machine up ends well defined. A Reclaim or Preempt of a Configured machine leaves it
  Idle, unbound and with no assignment, and the cluster that owned it is told so if it has a session;
  or, while the provider still drains, exactly as it was but Draining; or Failed with an error. A
  Delete of an Idle machine leaves a Speculative slot without host or cluster, or the machine
  unchanged but Deleting, or Failed with an error.\<close>

theorem release_outcome:
  assumes "holds w (aMachineID a) m" "calls_in (keeps_away (aMachineID a)) E" "delete_acks E"
    and "aKind a \<in> {ActionKindReclaim, ActionKindPreempt} \<and> State m = StateConfigured
      \<or> aKind a = ActionKindDelete \<and> State m = StateIdle"
    and "execute_action E a w = (err, w')"
  shows "\<exists>m'. holds w' (aMachineID a) m'
    \<and> (if err \<noteq> None then State m' = StateFailed \<and> LastError m' \<noteq> ''''
       else if aKind a = ActionKindDelete
       then m' = m\<lparr>State := StateDeleting\<rparr>
         \<or> m' = m\<lparr>State := StateSpeculative, Host := no_host, Cluster := ''''\<rparr>
       else m' = m\<lparr>State := StateDraining\<rparr>
         \<or> State m' = StateIdle \<and> unbound m'
           \<and> (Cluster m \<in> set (wSessions w') \<longrightarrow> (Cluster m, NodeStateUpdate (node_update_of m')) \<in> set (wSent w')))"
proof (cases "aKind a = ActionKindDelete")
  case True
  then have r: "execute_delete E a w = (err, w')" using assms(5) by (simp add: execute_action_def)
  show ?thesis using delete_outcome [OF assms(1) _ assms(2,3) r] assms(4) True by auto
next
  case False
  then have r: "execute_drain E a w = (err, w')" using assms(4,5) by (auto simp: execute_action_def)
  show ?thesis using drain_outcome [OF assms(1) _ assms(2) r] assms(4) False by auto
qed

section \<open>Concrete runs\<close>

text \<open>A provider that completes every operation at once, while nobody else does anything.\<close>

definition sample_env :: exec_env where
  "sample_env = \<lparr>eeFmt = (\<lambda>_. ''0''), eeMeta = (\<lambda>_. ''0''), eeLocalBootstrap = False,
     eeBlob = (\<lambda>c rs w. (Inr ''blob'', w)),
     eeCreate = (\<lambda>k w. (Inr (sample_machine k StateIdle '''' ''z1''), w)),
     eeConfigure = (\<lambda>k c b md w. (Inr ((sample_machine k StateConfigured c ''z1'')\<lparr>ShardMetadata := md\<rparr>), w)),
     eeDrain = (\<lambda>k g w. (Inr (sample_machine k StateIdle '''' ''z1''), w)),
     eeDelete = (\<lambda>k w. (Inr (sample_machine k StateSpeculative '''' ''z1''), w))\<rparr>"

definition sample_world :: world where
  "sample_world = \<lparr>wInv = sample_inventory, wSessions = [''c1''], wSent = [],
     wObserved = [(''c1'', [(''p'', 3)])], wNow = 100\<rparr>"

lemma sample_env_calls:
  "(\<And>w. R w w) \<Longrightarrow> calls_in R sample_env" "configure_acks sample_env" "create_acks sample_env"
  "delete_acks sample_env"
  by (simp_all add: calls_in_def sample_env_def configure_acks_def create_acks_def delete_acks_def
      sample_machine_def)

lemma sample_env_quiet: "calls_in (keeps_away k) sample_env" "calls_in (leaves_alone j k) sample_env"
  by (rule sample_env_calls; simp add: keeps_away_def leaves_alone_def)+

lemma sample_world_holds:
  "holds sample_world ''b'' (sample_machine ''b'' StateIdle '''' ''z1'')"
  "holds sample_world ''a'' (sample_machine ''a'' StateConfigured ''c1'' ''z1'')"
  using sample_inventory_ok by (simp_all add: holds_def sample_world_def) (simp_all add: sample_inventory_def)

lemma sample_machine_state [simp]: "State (sample_machine k st c z) = st"
  by (simp add: sample_machine_def)

definition sample_bootstrap :: action where
  "sample_bootstrap = bootstrap_action (sample_need ''c1'' ''4'') ''b''"

definition sample_delete :: action where
  "sample_delete = delete_action (sample_machine ''b'' StateIdle '''' ''z1'')"

lemma sample_actions:
  "aMachineID sample_bootstrap = ''b''" "aKind sample_bootstrap = ActionKindBootstrap"
  "aSourceProfile sample_bootstrap = Some (sample_profile 7)" "aCluster sample_bootstrap = ''c1''"
  "aMachineID sample_delete = ''b''" "aKind sample_delete = ActionKindDelete"
  by (simp_all add: sample_bootstrap_def bootstrap_action_def sample_need_def sample_delete_def delete_action_def
      sample_machine_def)

lemma sample_succeeds:
  "fst (execute_action sample_env sample_bootstrap sample_world) = None"
  "fst (execute_action sample_env sample_delete sample_world) = None"
  by code_simp+

theorem execute_own_machine_witness:
  "inv_ok (wInv (snd (execute_action sample_env sample_bootstrap sample_world)))
    \<and> gm_get (byID (wInv (snd (execute_action sample_env sample_bootstrap sample_world)))) ''a''
      = Some (sample_machine ''a'' StateConfigured ''c1'' ''z1'')"
proof -
  have ok: "inv_ok (wInv sample_world)" using sample_world_holds(1) by (simp add: holds_def)
  note T = execute_own_machine [OF ok sample_env_quiet(1), of sample_bootstrap, OF prod.collapse [symmetric]]
  have "gm_get (byID (wInv sample_world)) ''a'' = Some (sample_machine ''a'' StateConfigured ''c1'' ''z1'')"
    using sample_world_holds(2) by (simp add: holds_def)
  then show ?thesis using T sample_env_quiet(2) sample_actions(1) by simp
qed

theorem acquire_outcome_witness:
  "\<exists>m. holds (snd (execute_action sample_env sample_bootstrap sample_world)) ''b'' m
    \<and> State m \<in> {StateConfiguring, StateConfigured} \<and> Cluster m = ''c1'' \<and> AssignedPriority m = 7"
proof -
  note T = acquire_outcome [OF sample_world_holds(1) [folded sample_actions(1)] sample_actions(3)
      sample_env_quiet(1) sample_env_calls(2,3) _ prod.collapse [symmetric]]
  have p: "priority (sample_profile 7) = 7" by (simp add: sample_profile_def new_profile_def Let_def)
  obtain m where m: "holds (snd (execute_action sample_env sample_bootstrap sample_world)) ''b'' m"
    "State m \<in> {StateConfiguring, StateConfigured} \<and> bound_to sample_bootstrap (sample_profile 7) m"
    using T sample_succeeds(1) sample_actions by auto
  then show ?thesis using sample_actions(4) p by (auto simp: bound_to_def)
qed

theorem release_outcome_witness:
  "\<exists>m. holds (snd (execute_action sample_env sample_delete sample_world)) ''b'' m
    \<and> State m \<in> {StateDeleting, StateSpeculative}"
proof -
  obtain m where "holds (snd (execute_action sample_env sample_delete sample_world)) ''b'' m"
    "m = (sample_machine ''b'' StateIdle '''' ''z1'')\<lparr>State := StateDeleting\<rparr>
      \<or> m = (sample_machine ''b'' StateIdle '''' ''z1'')\<lparr>State := StateSpeculative, Host := no_host, Cluster := ''''\<rparr>"
    using release_outcome [OF sample_world_holds(1) [folded sample_actions(5)] sample_env_quiet(1)
        sample_env_calls(4) _ prod.collapse [symmetric]] sample_succeeds(2) sample_actions by auto
  then show ?thesis by auto
qed

end
