(* ===== verification/Reconcile.thy ===== *)
theory Reconcile
  imports Execute
begin

text \<open>
  Reconciling the inventory with the provider's view (\<open>pkg/shard/reconcile.go\<close>): the full and
  the incremental pass, the merge of one record, and the rebuild of a restarted shard from the
  metadata the provider echoes.
\<close>

section \<open>One record\<close>

text \<open>A state change keeps the assignment only while the machine stays bound.\<close>

definition keep_assignment :: "machine \<Rightarrow> machine \<Rightarrow> machine" where
  "keep_assignment existing dm =
    (if State dm = StateConfigured \<or> State dm = StateConfiguring \<or> State dm = StateDraining
     then dm\<lparr>AssignedPriority := AssignedPriority existing,
             AssignedInterruptionPenalty := AssignedInterruptionPenalty existing,
             AssignedReclamationPenalty := AssignedReclamationPenalty existing,
             AssignedNeedFingerprint := AssignedNeedFingerprint existing,
             AssignedGroup := AssignedGroup existing\<rparr>
     else dm)"

definition apply_reconciled_machine ::
    "(string \<Rightarrow> f64 option) \<Rightarrow> string list \<Rightarrow> machine \<Rightarrow> world \<Rightarrow> world" where
  "apply_reconciled_machine parseF pend dm w =
    (if ID dm \<in> set pend then w
     else case inv_get (wInv w) (ID dm) of
       Inr existing \<Rightarrow>
         if State existing = State dm then w
         else if invariant dm \<noteq> None then w
         else
           let dm = (keep_assignment existing dm)\<lparr>ShardMetadata := []\<rparr>
           in (case inv_apply (wNow w) (wInv w) dm of
                 (Some _, _) \<Rightarrow> w
               | (None, i) \<Rightarrow> notify_node_state dm (Cluster existing) (w\<lparr>wInv := i\<rparr>))
     | Inl _ \<Rightarrow>
         if invariant dm \<noteq> None then w
         else
           let dm = (fst (decode_shard_metadata parseF dm))\<lparr>ShardMetadata := []\<rparr>
           in (case inv_insert (wNow w) (wInv w) dm of
                 (Some _, _) \<Rightarrow> w
               | (None, i) \<Rightarrow> notify_node_state dm '''' (w\<lparr>wInv := i\<rparr>)))"

section \<open>The passes\<close>

text \<open>The provider's List, given a cursor or none, answers machines and the next cursor.\<close>

type_synonym list_call = "string option \<Rightarrow> world \<Rightarrow> (rpc_error + machine list \<times> string) \<times> world"

definition remove_unseen :: "string list \<Rightarrow> world \<Rightarrow> world" where
  "remove_unseen seen w =
    foldl (\<lambda>w m. if ID m \<in> set seen then w else w\<lparr>wInv := snd (inv_remove (wInv w) (ID m))\<rparr>)
      w (snMachines (snapshot_of (wInv w)))"

definition reconcile_full ::
    "(string \<Rightarrow> f64 option) \<Rightarrow> string list \<Rightarrow> list_call \<Rightarrow> world \<Rightarrow> rpc_error option \<times> world" where
  "reconcile_full parseF pend lst w =
    (case lst None w of
       (Inl e, w) \<Rightarrow> (Some e, w)
     | (Inr (ms, _), w) \<Rightarrow>
         (None, remove_unseen (map ID ms) (foldl (\<lambda>w dm. apply_reconciled_machine parseF pend dm w) w ms)))"

definition reconcile_incremental ::
    "(string \<Rightarrow> f64 option) \<Rightarrow> string list \<Rightarrow> list_call \<Rightarrow> string \<Rightarrow> world
      \<Rightarrow> rpc_error option \<times> string \<times> world" where
  "reconcile_incremental parseF pend lst cursor w =
    (case lst (Some cursor) w of
       (Inl e, w) \<Rightarrow> (Some e, cursor, w)
     | (Inr (ms, cursor), w) \<Rightarrow>
         (None, cursor, foldl (\<lambda>w dm. apply_reconciled_machine parseF pend dm w) w ms))"

definition reconcile ::
    "bool \<Rightarrow> (string \<Rightarrow> f64 option) \<Rightarrow> string list \<Rightarrow> list_call \<Rightarrow> string \<Rightarrow> world
      \<Rightarrow> rpc_error option \<times> string \<times> world" where
  "reconcile incremental parseF pend lst cursor w =
    (if incremental then reconcile_incremental parseF pend lst cursor w
     else case reconcile_full parseF pend lst w of (e, w) \<Rightarrow> (e, cursor, w))"

section \<open>What a pass computes\<close>

text \<open>
  The record a machine has after its provider record was merged, from the one it had: a machine
  that is taken over is the provider's in everything but its assignment, which is the shard's own
  while the machine is bound, and its metadata.
\<close>

definition taken_over :: "machine \<Rightarrow> machine \<Rightarrow> machine" where
  "taken_over m dm =
    (let bound = State dm \<in> {StateConfiguring, StateConfigured, StateDraining}; src = (if bound then m else dm)
     in dm\<lparr>AssignedPriority := AssignedPriority src,
           AssignedInterruptionPenalty := AssignedInterruptionPenalty src,
           AssignedReclamationPenalty := AssignedReclamationPenalty src,
           AssignedNeedFingerprint := AssignedNeedFingerprint src,
           AssignedGroup := AssignedGroup src, ShardMetadata := []\<rparr>)"

definition reconciled :: "(string \<Rightarrow> f64 option) \<Rightarrow> machine option \<Rightarrow> machine \<Rightarrow> machine option" where
  "reconciled parseF old dm =
    (case old of
       Some m \<Rightarrow> Some (if can_transition (State m) (State dm) \<and> State m \<noteq> State dm \<and> wf_machine dm
                      then taken_over m dm else m)
     | None \<Rightarrow> if wf_machine dm
              then Some ((fst (decode_shard_metadata parseF dm))\<lparr>ShardMetadata := []\<rparr>) else None)"

lemma taken_over_eq: "taken_over m dm = (keep_assignment m dm)\<lparr>ShardMetadata := []\<rparr>"
  by (simp add: taken_over_def keep_assignment_def Let_def)

lemmas reconciled_alt = reconciled_def [unfolded taken_over_eq]

lemma keep_assignment_fields [simp]:
  "ID (keep_assignment m dm) = ID dm" "State (keep_assignment m dm) = State dm"
  "Cluster (keep_assignment m dm) = Cluster dm" "Host (keep_assignment m dm) = Host dm"
  by (simp_all add: keep_assignment_def)

lemma merged_wf:
  "wf_machine ((keep_assignment m dm)\<lparr>ShardMetadata := []\<rparr>) \<longleftrightarrow> wf_machine dm"
  "wf_machine ((fst (decode_shard_metadata parseF dm))\<lparr>ShardMetadata := []\<rparr>) \<longleftrightarrow> wf_machine dm"
proof -
  show "wf_machine ((keep_assignment m dm)\<lparr>ShardMetadata := []\<rparr>) \<longleftrightarrow> wf_machine dm"
    by (cases "State dm") (simp_all add: wf_machine_def keep_assignment_def)
  show "wf_machine ((fst (decode_shard_metadata parseF dm))\<lparr>ShardMetadata := []\<rparr>) \<longleftrightarrow> wf_machine dm"
    by (cases "State dm") (simp_all add: wf_machine_def decode_frame)
qed

lemma reconciled_step:
  fixes parseF :: "string \<Rightarrow> f64 option" and pend :: "string list" and dm :: machine
  assumes "inv_ok (wInv w)"
  defines "w' \<equiv> apply_reconciled_machine parseF pend dm w"
  shows "inv_ok (wInv w')"
    and "gm_get (byID (wInv w')) k = (if k = ID dm \<and> k \<notin> set pend
           then reconciled parseF (gm_get (byID (wInv w)) k) dm else gm_get (byID (wInv w)) k)"
    and "wNow w' = wNow w"
proof -
  note d = apply_reconciled_machine_def inv_get_def Let_def
  show "inv_ok (wInv w')"
    using assms(1) inv_ok_apply [OF assms(1), of "wNow w"] inv_ok_insert [OF assms(1), of "wNow w"]
    unfolding w'_def d by (auto split: option.splits prod.splits) (metis snd_conv)+
  show "wNow w' = wNow w" unfolding w'_def d by (auto split: option.splits prod.splits)
  show "gm_get (byID (wInv w')) k = (if k = ID dm \<and> k \<notin> set pend
      then reconciled parseF (gm_get (byID (wInv w)) k) dm else gm_get (byID (wInv w)) k)"
  proof (cases "ID dm \<in> set pend")
    case False
    show ?thesis
    proof (cases "gm_get (byID (wInv w)) (ID dm)")
      case None
      then show ?thesis using False merged_wf(2) [of parseF dm, folded invariant_none_iff]
        unfolding w'_def d reconciled_alt invariant_none_iff [symmetric]
        by (auto simp: inv_insert_def Let_def decode_frame split: option.splits)
    next
      case (Some m)
      then show ?thesis using False merged_wf(1) [of m dm, folded invariant_none_iff]
        unfolding w'_def d reconciled_alt invariant_none_iff [symmetric]
        by (auto simp: inv_apply_def Let_def check_transition_def split: option.splits)
    qed
  qed (auto simp: w'_def d)
qed

lemma reconciled_fold:
  assumes "inv_ok (wInv w)" "distinct (map ID ms)"
  shows "inv_ok (wInv (foldl (\<lambda>w dm. apply_reconciled_machine parseF pend dm w) w ms))
    \<and> gm_get (byID (wInv (foldl (\<lambda>w dm. apply_reconciled_machine parseF pend dm w) w ms))) k
      = (case map_of (map (\<lambda>m. (ID m, m)) ms) k of
           None \<Rightarrow> gm_get (byID (wInv w)) k
         | Some dm \<Rightarrow> if k \<in> set pend then gm_get (byID (wInv w)) k
                     else reconciled parseF (gm_get (byID (wInv w)) k) dm)"
  using assms
proof (induction ms arbitrary: w)
  case (Cons dm ms)
  note s = reconciled_step [OF Cons.prems(1), of parseF pend dm]
  have "map_of (map (\<lambda>m. (ID m, m)) ms) (ID dm) = None"
    using Cons.prems(2) by (auto simp: map_of_eq_None_iff)
  then show ?case using Cons.IH [OF s(1)] Cons.prems(2) s(2) [of k] by (cases "k = ID dm") (auto split: option.split)
qed simp

lemma remove_unseen_fold:
  fixes seen :: "string list"
  assumes "inv_ok (wInv w)"
  defines "f \<equiv> \<lambda>w m. if ID m \<in> set seen then w else w\<lparr>wInv := snd (inv_remove (wInv w) (ID m))\<rparr>"
  shows "inv_ok (wInv (foldl f w ms)) \<and> gm_get (byID (wInv (foldl f w ms))) k
    = (if k \<in> ID ` set ms \<and> k \<notin> set seen then None else gm_get (byID (wInv w)) k)"
  using assms(1)
proof (induction ms arbitrary: w)
  case (Cons m ms)
  have ok: "inv_ok (wInv (f w m))" using Cons.prems inv_ok_remove by (simp add: f_def)
  have "gm_get (byID (wInv (f w m))) k = (if k = ID m \<and> k \<notin> set seen then None else gm_get (byID (wInv w)) k)"
    by (auto simp: f_def inv_remove_def split: option.splits)
  then show ?case using Cons.IH [OF ok] by auto
qed simp

lemma remove_unseen_spec:
  assumes "inv_ok (wInv w)"
  shows "inv_ok (wInv (remove_unseen seen w)) \<and> gm_get (byID (wInv (remove_unseen seen w))) k
    = (if k \<in> set seen then gm_get (byID (wInv w)) k else None)"
proof -
  have "k \<in> ID ` set (snMachines (snapshot_of (wInv w))) \<longleftrightarrow> gm_get (byID (wInv w)) k \<noteq> None"
  proof
    assume "k \<in> ID ` set (snMachines (snapshot_of (wInv w)))"
    then show "gm_get (byID (wInv w)) k \<noteq> None"
      unfolding snapshot_lists(1) [OF assms] by (auto simp: set_inv_machines [OF assms] simp del: map_of_eq_Some_iff)
  next
    assume "gm_get (byID (wInv w)) k \<noteq> None"
    then obtain m where m: "gm_get (byID (wInv w)) k = Some m" by blast
    then have "ID m = k" by (rule inv_okD(3) [OF assms])
    then show "k \<in> ID ` set (snMachines (snapshot_of (wInv w)))"
      using m unfolding snapshot_lists(1) [OF assms] by (metis imageI set_inv_machines [OF assms])
  qed
  then show ?thesis
    using remove_unseen_fold [OF assms, of seen "snMachines (snapshot_of (wInv w))" k]
    unfolding remove_unseen_def by auto
qed

section \<open>Properties\<close>

text \<open>C23: A full reconcile makes the inventory the provider's view, and nothing else. Every machine the
  provider does not list is gone; a listed machine a worker holds is untouched; any other listed
  machine follows \<open>reconciled\<close>: a legal and well-formed state change is taken over (with the shard's
  own assignment while it stays bound), a new well-formed machine enters with the assignment its
  metadata carries, and a rejected record leaves what the shard knew. When the List fails, nothing
  changes.\<close>

theorem reconcile_exact:
  assumes "inv_ok (wInv w)" "lst None w = (r, w)" "\<forall>ms cur. r = Inr (ms, cur) \<longrightarrow> distinct (map ID ms)"
    and "reconcile_full parseF pend lst w = (err, w')"
  shows "inv_ok (wInv w')
    \<and> (case r of
         Inl e \<Rightarrow> err = Some e \<and> w' = w
       | Inr (ms, _) \<Rightarrow> err = None
           \<and> (\<forall>k. k \<notin> ID ` set ms \<longrightarrow> gm_get (byID (wInv w')) k = None)
           \<and> (\<forall>dm\<in>set ms. gm_get (byID (wInv w')) (ID dm) =
                (if ID dm \<in> set pend then gm_get (byID (wInv w)) (ID dm)
                 else reconciled parseF (gm_get (byID (wInv w)) (ID dm)) dm)))"
proof (cases r)
  case (Inl e)
  then show ?thesis using assms by (simp add: reconcile_full_def)
next
  case (Inr x)
  obtain ms cur where x: "x = (ms, cur)" by (cases x)
  let ?v = "foldl (\<lambda>w dm. apply_reconciled_machine parseF pend dm w) w ms"
  have r: "err = None" "w' = remove_unseen (map ID ms) ?v"
    using assms(2,4) Inr x by (simp_all add: reconcile_full_def)
  have dist: "distinct (map ID ms)" using assms(3) Inr x by simp
  note F = reconciled_fold [OF assms(1) dist, of parseF pend]
  note V = remove_unseen_spec [of ?v, OF F [THEN conjunct1], of "map ID ms"]
  have l: "map_of (map (\<lambda>m. (ID m, m)) ms) (ID dm) = Some dm" if "dm \<in> set ms" for dm
    using dist that by (intro map_of_is_SomeI) (simp_all add: comp_def)
  show ?thesis using V F [THEN conjunct2] r Inr x l by auto
qed

text \<open>
  What the provider documents of the metadata: the record it keeps of the Configure it accepted
  carries the metadata it was sent, and every later read of the machine echoes it.
\<close>

definition stored_by :: "exec_env \<Rightarrow> machine \<Rightarrow> bool" where
  "stored_by E kept \<longleftrightarrow> (\<forall>k c b md w ack. fst (eeConfigure E k c b md w) = Inr ack \<longrightarrow>
     ack = kept \<and> ID kept = k \<and> Cluster kept = c \<and> ShardMetadata kept = md)"

lemma bootstrap_configures:
  assumes "execute_bootstrap E a w = (None, w')" "aSourceProfile a = Some p"
    and "inv_get (wInv w) (aMachineID a) = Inr m" "State m = StateIdle"
  shows "\<exists>b v ack. fst (eeConfigure E (aMachineID a) (aCluster a) b (encode_shard_metadata (eeMeta E)
    (priority p) (int_penalty p) (rec_penalty p) (fingerprint p) (aSourceGroup a)) v) = Inr ack"
proof -
  obtain b v where c: "configure_machine E a p b v = (None, w')"
    using assms by (auto simp: execute_bootstrap_def split: option.splits sum.splits prod.splits)
  let ?call = "eeConfigure E (aMachineID a) (aCluster a) b (encode_shard_metadata (eeMeta E)
    (priority p) (int_penalty p) (rec_penalty p) (fingerprint p) (aSourceGroup a)) v"
  have "\<exists>ack. fst ?call = Inr ack"
  proof (cases "fst ?call")
    case (Inl e)
    then obtain u where "?call = (Inl e, u)" by (cases ?call) auto
    then show ?thesis using c by (simp add: configure_machine_def Let_def)
  qed simp
  then show ?thesis by blast
qed

lemma decode_encoded:
  assumes "in_i32 prio" "parseF (fmtF ip) = Some ip" "parseF (fmtF rp) = Some rp"
    and "ShardMetadata dm = encode_shard_metadata fmtF prio ip rp fp g" "dm = unassigned lr"
  shows "fst (decode_shard_metadata parseF dm) = lr\<lparr>AssignedPriority := prio, AssignedInterruptionPenalty := ip,
    AssignedReclamationPenalty := rp, AssignedNeedFingerprint := fp, AssignedGroup := g\<rparr>"
  using assms by (simp add: decode_shard_metadata_def Let_def decode_key_def parse_dec_int unassigned_def)

text \<open>C24: A restarted shard regains the assignment. Let a shard bootstrap an Idle machine for a need
  with success, and let the provider keep what that Configure sent and echo it. Then the record a
  fresh shard builds of the machine from the provider's list, in its first full reconcile, has the
  priority, penalties, fingerprint and gang that the old shard's record has, which are the need's,
  and is in all else what the provider lists.\<close>

theorem restart_rebuilds:
  assumes "holds w (aMachineID a) m" "State m = StateIdle" "aSourceProfile a = Some p" "aKind a = ActionKindBootstrap"
    and "calls_in (keeps_away (aMachineID a)) E" "configure_acks E" "stored_by E kept"
    and "execute_action E a w = (None, w')"
    and "in_i32 (priority p)" "parseF (eeMeta E (int_penalty p)) = Some (int_penalty p)"
    and "parseF (eeMeta E (rec_penalty p)) = Some (rec_penalty p)"
    and "ID lr = ID kept" "ShardMetadata lr = ShardMetadata kept" "wf_machine lr"
    and "machine_from_proto (Some (machine_to_proto lr)) = Inr dm"
    and "wInv v = new_inventory" "lst None v = (Inr (ms, cur), v)" "distinct (map ID ms)" "dm \<in> set ms"
    and "reconcile_full parseF [] lst v = (err, v')"
  shows "\<exists>m'. holds w' (aMachineID a) m' \<and> bound_to a p m'
    \<and> gm_get (byID (wInv v')) (aMachineID a) = Some (lr\<lparr>AssignedPriority := AssignedPriority m',
        AssignedInterruptionPenalty := AssignedInterruptionPenalty m',
        AssignedReclamationPenalty := AssignedReclamationPenalty m',
        AssignedNeedFingerprint := AssignedNeedFingerprint m', AssignedGroup := AssignedGroup m',
        ShardMetadata := []\<rparr>)"
proof -
  have eb: "execute_bootstrap E a w = (None, w')" using assms(4,8) by (simp add: execute_action_def)
  have g: "inv_get (wInv w) (aMachineID a) = Inr m" using assms(1) by (simp add: holds_def inv_get_def)
  obtain b u ack where "fst (eeConfigure E (aMachineID a) (aCluster a) b (encode_shard_metadata (eeMeta E)
      (priority p) (int_penalty p) (rec_penalty p) (fingerprint p) (aSourceGroup a)) u) = Inr ack"
    using bootstrap_configures [OF eb assms(3) g assms(2)] by blast
  then have k: "ID kept = aMachineID a" "ShardMetadata kept = encode_shard_metadata (eeMeta E)
      (priority p) (int_penalty p) (rec_penalty p) (fingerprint p) (aSourceGroup a)"
    using assms(7) unfolding stored_by_def by blast+
  have dm: "dm = unassigned lr" using assms(15) by (simp add: machine_roundtrip)
  then have d: "ID dm = aMachineID a" "ShardMetadata dm = ShardMetadata kept" "wf_machine dm"
    using assms(12-14) k(1) by (cases "State lr"; simp add: wf_machine_def)+
  have "inv_ok (wInv v)" using assms(16) by (simp add: inv_ok_new)
  note R = reconcile_exact [OF this assms(17) _ assms(20), unfolded sum.case prod.case]
  have "gm_get (byID (wInv v')) (ID dm) = reconciled parseF (gm_get (byID (wInv v)) (ID dm)) dm"
    using R assms(18,19) by simp
  then have f: "gm_get (byID (wInv v')) (aMachineID a) = Some ((fst (decode_shard_metadata parseF dm))\<lparr>ShardMetadata := []\<rparr>)"
    using d assms(16) by (simp add: reconciled_def new_inventory_def)
  obtain m' where m': "holds w' (aMachineID a) m'" "bound_to a p m'"
    using bootstrap_outcome [OF assms(1-3,5,6) eb] by auto
  show ?thesis
    using m' f unfolding decode_encoded [OF assms(9-11) d(2) [unfolded k(2)] dm] by (auto simp: bound_to_def)
qed

section \<open>Concrete runs\<close>

definition sample_list :: list_call where
  "sample_list cur w = (Inr ([sample_machine ''b'' StateIdle '''' ''z1'',
     sample_machine ''e'' StateIdle '''' ''z1''], ''rev1''), w)"

theorem reconcile_exact_witness:
  "gm_get (byID (wInv (snd (reconcile_full (\<lambda>_. None) [] sample_list sample_world)))) ''d'' = None
    \<and> gm_get (byID (wInv (snd (reconcile_full (\<lambda>_. None) [] sample_list sample_world)))) ''e''
        = Some (sample_machine ''e'' StateIdle '''' ''z1'')"
proof -
  let ?ms = "[sample_machine ''b'' StateIdle '''' ''z1'', sample_machine ''e'' StateIdle '''' ''z1'']"
  have i: "ID (sample_machine k st c z) = k" "ShardMetadata (sample_machine k st c z) = []" for k st c z
    by (simp_all add: sample_machine_def zero_machine_def)
  have ok: "inv_ok (wInv sample_world)" using sample_world_holds(1) by (simp add: holds_def)
  note T = reconcile_exact [OF ok, where lst = sample_list and r = "Inr (?ms, ''rev1'')" and parseF = "\<lambda>_. None"
      and pend = "[]", OF _ _ prod.collapse [symmetric]]
  have e: "gm_get (byID (wInv sample_world)) ''e'' = None" by (simp add: sample_world_def sample_inventory_def)
  have wf: "wf_machine (sample_machine ''e'' StateIdle '''' ''z1'')" by (simp add: sample_wf)
  have n: "reconciled (\<lambda>_. None) None (sample_machine ''e'' StateIdle '''' ''z1'')
      = Some (sample_machine ''e'' StateIdle '''' ''z1'')"
    using wf by (simp add: reconciled_alt decode_shard_metadata_def Let_def i sample_machine_def zero_machine_def)
  show ?thesis using T by (simp add: sample_list_def i e n)
qed

text \<open>A provider that accepts one Configure and keeps its record, which it lists afterwards.\<close>

definition sample_kept :: machine where
  "sample_kept = (sample_machine ''b'' StateConfigured ''c1'' ''z1'')\<lparr>ShardMetadata :=
     encode_shard_metadata (\<lambda>_. ''0'') 7 (int_penalty (sample_profile 7)) (rec_penalty (sample_profile 7))
       (fingerprint (sample_profile 7)) ''''\<rparr>"

definition keeping_env :: exec_env where
  "keeping_env = sample_env\<lparr>eeConfigure := (\<lambda>k c b md w.
     (if k = ID sample_kept \<and> c = Cluster sample_kept \<and> md = ShardMetadata sample_kept then Inr sample_kept
      else Inl (RpcError ''rejected''), w))\<rparr>"

definition kept_list :: list_call where
  "kept_list cur w = (Inr ([unassigned sample_kept], ''rev1''), w)"

lemma keeping_env_ok:
  "calls_in (keeps_away k) keeping_env" "configure_acks keeping_env" "stored_by keeping_env sample_kept"
proof -
  have "calls_in (keeps_away k) sample_env" by (rule sample_env_quiet(1))
  then show "calls_in (keeps_away k) keeping_env" by (simp add: calls_in_def keeping_env_def keeps_away_def)
  show "configure_acks keeping_env"
    by (auto simp: configure_acks_def keeping_env_def sample_kept_def sample_machine_def)
  show "stored_by keeping_env sample_kept" by (auto simp: stored_by_def keeping_env_def split: if_splits)
qed

lemma keeping_succeeds: "fst (execute_action keeping_env sample_bootstrap sample_world) = None"
  by code_simp

lemma kept_fields:
  "priority (sample_profile 7) = 7" "rec_penalty (sample_profile 7) = int_penalty (sample_profile 7)"
  "aSourceGroup sample_bootstrap = ''''" "aCluster sample_bootstrap = ''c1''"
  "eeMeta keeping_env = (\<lambda>_. ''0'')" "wf_machine sample_kept" "in_i32 7"
proof -
  show "wf_machine sample_kept"
    using sample_wf [of StateConfigured "''c1''" "''b''" "''z1''"] by (simp add: sample_kept_def wf_machine_def)
qed (simp_all add: sample_profile_def new_profile_def Let_def int_penalty_def rec_penalty_def
    sample_bootstrap_def bootstrap_action_def sample_need_def keeping_env_def sample_env_def in_i32_def)

theorem restart_rebuilds_witness:
  "\<exists>m. gm_get (byID (wInv (snd (reconcile_full (\<lambda>_. Some (int_penalty (sample_profile 7))) [] kept_list
      (sample_world\<lparr>wInv := new_inventory\<rparr>))))) ''b'' = Some m
    \<and> AssignedPriority m = 7 \<and> AssignedNeedFingerprint m = fingerprint (sample_profile 7)"
proof -
  let ?v = "sample_world\<lparr>wInv := new_inventory\<rparr>" and ?b = "sample_machine ''b'' StateIdle '''' ''z1''"
  have h: "holds sample_world (aMachineID sample_bootstrap) ?b" "State ?b = StateIdle"
    using sample_world_holds(1) by (simp_all add: sample_actions sample_machine_def)
  have r: "execute_action keeping_env sample_bootstrap sample_world
      = (None, snd (execute_action keeping_env sample_bootstrap sample_world))"
    using keeping_succeeds by (metis prod.collapse)
  have l: "kept_list None ?v = (Inr ([unassigned sample_kept], ''rev1''), ?v)" by (simp add: kept_list_def)
  have n: "in_i32 (priority (sample_profile 7))" using kept_fields(1,7) by simp
  have q: "Some (int_penalty (sample_profile 7)) = Some (rec_penalty (sample_profile 7))"
    by (simp only: kept_fields(2))
  note T = restart_rebuilds [where parseF = "\<lambda>_. Some (int_penalty (sample_profile 7))"
      and lst = kept_list and v = ?v and lr = sample_kept and kept = sample_kept, OF h sample_actions(3,2) keeping_env_ok r n refl q refl refl kept_fields(6)
      machine_roundtrip _ l _ _ prod.collapse [symmetric]]
  have "wInv ?v = new_inventory" "distinct (map ID [unassigned sample_kept])"
    "unassigned sample_kept \<in> set [unassigned sample_kept]" by simp_all
  from T [OF this] show ?thesis using kept_fields(1) by (auto simp: bound_to_def sample_actions(1))
qed

end
