(* ===== verification/Safety.thy ===== *)
theory Safety
  imports Phases "HOL-Library.Sublist"
begin

text \<open>
  The safety rails of the shard (\<open>pkg/shard/safety.go\<close>): the quarantine of roll-ups that would
  wipe most of a cluster's demand, and the cap on how many machines one cycle takes from a
  cluster.
\<close>

section \<open>The roll-up guard\<close>

abbreviation (input) rollup_guard_min_rows :: nat where "rollup_guard_min_rows \<equiv> 10"
abbreviation (input) rollup_guard_consecutive :: nat where "rollup_guard_consecutive \<equiv> 3"

text \<open>The constant 0.1 as a float.\<close>

definition rollup_guard_retain :: f64 where
  "rollup_guard_retain = f64_round (1 / 10)"

record guard_entry =
  geAccepted :: nat
  geHeld :: nat

record guard_verdict =
  gvAccepted :: bool
  gvHeld :: nat
  gvPrevRows :: nat
  gvConfirmed :: bool

type_synonym guard = "(string, guard_entry) gomap"

definition zero_entry :: guard_entry where
  "zero_entry = \<lparr>geAccepted = 0, geHeld = 0\<rparr>"

definition suspicious :: "nat \<Rightarrow> nat \<Rightarrow> bool" where
  "suspicious prev n \<longleftrightarrow> prev \<ge> rollup_guard_min_rows
     \<and> f64_lt (f64_of_int (int n)) (f64_mul rollup_guard_retain (f64_of_int (int prev)))"

definition admit :: "guard \<Rightarrow> string \<Rightarrow> nat \<Rightarrow> guard_verdict \<times> guard" where
  "admit g c n =
    (let e = gm_at zero_entry g c; prev = geAccepted e in
     if \<not> suspicious prev n
     then (\<lparr>gvAccepted = True, gvHeld = 0, gvPrevRows = prev, gvConfirmed = False\<rparr>,
           gm_set c \<lparr>geAccepted = n, geHeld = 0\<rparr> g)
     else
       let held = geHeld e + 1 in
       if held \<ge> rollup_guard_consecutive
       then (\<lparr>gvAccepted = True, gvHeld = 0, gvPrevRows = prev, gvConfirmed = True\<rparr>,
             gm_set c \<lparr>geAccepted = n, geHeld = 0\<rparr> g)
       else (\<lparr>gvAccepted = False, gvHeld = held, gvPrevRows = prev, gvConfirmed = False\<rparr>,
             gm_set c (e\<lparr>geHeld := held\<rparr>) g))"

section \<open>The reclaim cap\<close>

definition reclaim_cap :: "f64 \<Rightarrow> nat \<Rightarrow> int" where
  "reclaim_cap fraction configured =
    (let c = f64_to_int (f64_mul fraction (f64_of_int (int configured))) in if c < 1 then 1 else c)"

definition is_reclaim :: "action \<Rightarrow> bool" where
  "is_reclaim a \<longleftrightarrow> aKind a = ActionKindReclaim"

text \<open>The loop that keeps the head of each cluster's reclaims.\<close>

definition cap_step ::
    "(string, int) gomap \<Rightarrow> action list \<times> (string, int) gomap \<times> nat \<Rightarrow> action
      \<Rightarrow> action list \<times> (string, int) gomap \<times> nat" where
  "cap_step allowed s a =
    (case s of (kept, taken, capped) \<Rightarrow>
       if is_reclaim a then
         if gm_at 0 taken (aCluster a) \<ge> gm_at 0 allowed (aCluster a) then (kept, taken, capped + 1)
         else (kept @ [a], gm_set (aCluster a) (gm_at 0 taken (aCluster a) + 1) taken, capped)
       else (kept @ [a], taken, capped))"

definition cap_reclaims :: "snapshot \<Rightarrow> action list \<Rightarrow> f64 \<Rightarrow> action list \<times> nat" where
  "cap_reclaims snap actions fraction =
    (if f64_le fraction f64_zero then (actions, 0)
     else
       let per = foldl (\<lambda>m a. if is_reclaim a then gm_set (aCluster a) (gm_at 0 m (aCluster a) + 1) m else m)
                   ([] :: (string, int) gomap) actions;
           allowed = map (\<lambda>(c, n). (c, reclaim_cap fraction (snap_count_by_cluster_state snap c StateConfigured))) per
       in if \<not> list_ex (\<lambda>(c, n). n > gm_at 0 allowed c) per then (actions, 0)
          else case foldl (cap_step allowed) ([], [], 0) actions of (kept, taken, capped) \<Rightarrow> (kept, capped))"


section \<open>What the guard accepts\<close>

lemma retain_value: "rollup_guard_retain = FFin (3602879701896397 / 36028797018963968)"
proof -
  have "ilog2 (1 / 10) = - 4" by (rule ilog2_unique) (simp_all add: power_int_def power_divide)
  then have "f64_exp (1 / 10) = - 56" by (simp add: f64_exp_def)
  moreover have "\<lfloor>36028797018963968 / 5 :: rat\<rfloor> = 7205759403792793" by (rule floor_unique) simp_all
  then have "rne (1 / 10 / (2 powi - 56)) = 7205759403792794"
    by (simp add: power_int_def power_divide rne_def Let_def)
  ultimately have "round_mag (1 / 10) = 3602879701896397 / 36028797018963968"
    by (simp add: round_mag_def power_int_def power_divide)
  then show ?thesis
    by (simp add: rollup_guard_retain_def f64_round_def Let_def f64_limit_def)
qed

text \<open>Below \<open>2 ^ 50\<close> rows the float comparison is the exact one, up to the boundary.\<close>

lemma suspicious_bounds:
  assumes "prev < 2 ^ 50"
  shows "suspicious prev n \<Longrightarrow> 10 \<le> prev \<and> 10 * n \<le> prev"
    and "10 \<le> prev \<Longrightarrow> 10 * (n + 1) \<le> prev \<Longrightarrow> suspicious prev n"
proof -
  let ?r = "3602879701896397 / 36028797018963968 :: rat"
  define x where "x = (of_nat prev :: rat)"
  have lt: "x < 1125899906842624" "0 \<le> x"
    using assms by (simp_all add: x_def)
  have p: "f64_of_int (int prev) = FFin (of_nat prev)"
    using assms f64_round_int [of "int prev"] by (simp add: f64_of_int_def)
  have m: "f64_mul rollup_guard_retain (f64_of_int (int prev)) = f64_round (?r * x)"
    by (simp add: retain_value p x_def)
  have le: "f64_le (f64_round (?r * x)) (f64_of_int k)" if "?r * x \<le> of_int k" for k
    using that unfolding f64_of_int_def by (rule f64_round_mono)
  show "10 \<le> prev \<and> 10 * n \<le> prev" if s: "suspicious prev n"
  proof (rule ccontr)
    assume "\<not> ?thesis"
    then have "prev + 1 \<le> 10 * n" using s by (simp add: suspicious_def)
    then have "(of_nat (prev + 1) :: rat) \<le> of_nat (10 * n)" by (simp only: of_nat_le_iff)
    then have "x + 1 \<le> 10 * of_nat n" by (simp add: x_def)
    then have "?r * x \<le> of_int (int n)" using lt by linarith
    from le [OF this] have "\<not> f64_lt (f64_of_int (int n)) (f64_round (?r * x))"
      by (simp add: f64_le_iff)
    then show False using s by (simp add: suspicious_def m)
  qed
  show "suspicious prev n" if "10 \<le> prev" "10 * (n + 1) \<le> prev"
  proof -
    have "(of_nat (10 * (n + 1)) :: rat) \<le> of_nat prev" using that(2) by (simp only: of_nat_le_iff)
    then have "10 * (of_nat n + 1) \<le> x" by (simp add: x_def)
    moreover have "1 / 10 * x \<le> ?r * x" using lt(2) by (intro mult_right_mono) simp_all
    ultimately have "of_int (int n + 1) \<le> ?r * x" by simp
    then have "f64_le (f64_round (of_int (int n + 1))) (f64_round (?r * x))"
      by (rule f64_round_mono)
    moreover have "f64_lt (f64_of_int (int n)) (f64_round (of_int (int n + 1)))"
      using assms that f64_round_int [of "int n"] f64_round_int [of "int n + 1"]
      by (simp add: f64_of_int_def)
    ultimately show ?thesis
      using that(1) f64_lt_le_trans by (auto simp: suspicious_def m)
  qed
qed

text \<open>The guard over the reports of all clusters, oldest first, with the verdict of each.\<close>

type_synonym guard_log = "(string \<times> nat \<times> guard_verdict) list"

definition guard_step :: "guard_log \<times> guard \<Rightarrow> string \<times> nat \<Rightarrow> guard_log \<times> guard" where
  "guard_step s r = (case (s, r) of ((hs, g), c, n) \<Rightarrow>
     case admit g c n of (v, g') \<Rightarrow> (hs @ [(c, n, v)], g'))"

definition guard_run :: "(string \<times> nat) list \<Rightarrow> guard_log" where
  "guard_run rs = fst (foldl guard_step ([], []) rs)"

definition of_cluster :: "string \<Rightarrow> guard_log \<Rightarrow> guard_log" where
  "of_cluster c hs = filter (\<lambda>e. fst e = c) hs"

definition held_back :: "string \<times> nat \<times> guard_verdict \<Rightarrow> bool" where
  "held_back e \<longleftrightarrow> \<not> gvAccepted (snd (snd e))"

text \<open>The rows of the last accepted report, and how many were held since.\<close>

definition baseline :: "guard_log \<Rightarrow> nat" where
  "baseline hs = (case dropWhile held_back (rev hs) of [] \<Rightarrow> 0 | e # _ \<Rightarrow> fst (snd e))"

definition held_since :: "guard_log \<Rightarrow> nat" where
  "held_since hs = length (takeWhile held_back (rev hs))"

lemma baseline_snoc [simp]:
  "baseline [] = 0" "baseline (hs @ [e]) = (if held_back e then baseline hs else fst (snd e))"
  by (simp_all add: baseline_def)

lemma held_since_snoc [simp]:
  "held_since [] = 0" "held_since (hs @ [e]) = (if held_back e then held_since hs + 1 else 0)"
  by (simp_all add: held_since_def)

lemma of_cluster_snoc [simp]:
  "of_cluster c [] = []"
  "of_cluster c (hs @ [e]) = (if fst e = c then of_cluster c hs @ [e] else of_cluster c hs)"
  by (simp_all add: of_cluster_def)

text \<open>The entry of a cluster is what the cluster's own hs says.\<close>

definition guard_tracks :: "guard_log \<Rightarrow> guard \<Rightarrow> bool" where
  "guard_tracks hs g \<longleftrightarrow> (\<forall>c. gm_at zero_entry g c =
     \<lparr>geAccepted = baseline (of_cluster c hs), geHeld = held_since (of_cluster c hs)\<rparr>)"

lemma guard_tracks_step:
  assumes "guard_tracks hs g"
  shows "guard_tracks (hs @ [(c, n, fst (admit g c n))]) (snd (admit g c n))"
proof -
  have e: "gm_at zero_entry g k =
      \<lparr>geAccepted = baseline (of_cluster k hs), geHeld = held_since (of_cluster k hs)\<rparr>" for k
    using assms by (simp add: guard_tracks_def)
  show ?thesis
    by (auto simp: guard_tracks_def admit_def Let_def e held_back_def)
qed

lemma guard_tracks_run: "guard_tracks (guard_run rs) (snd (foldl guard_step ([], []) rs))"
proof (induction rs rule: rev_induct)
  case Nil
  show ?case by (simp add: guard_tracks_def guard_run_def gm_at_def zero_entry_def)
next
  case (snoc r rs)
  obtain hs g c n where s: "foldl guard_step ([], []) rs = (hs, g)" "r = (c, n)"
    by (cases "foldl guard_step ([], []) rs"; cases r)
  then have "guard_tracks hs g" using snoc by (simp add: guard_run_def)
  moreover have "guard_step (hs, g) (c, n) = (hs @ [(c, n, fst (admit g c n))], snd (admit g c n))"
    by (simp add: guard_step_def case_prod_beta)
  ultimately show ?case using guard_tracks_step [of hs g c n] by (simp add: guard_run_def s)
qed

lemma guard_run_snoc:
  "\<exists>v. guard_run (rs @ [(c, n)]) = guard_run rs @ [(c, n, v)]
     \<and> gvPrevRows v = baseline (of_cluster c (guard_run rs))
     \<and> (gvAccepted v \<longleftrightarrow> \<not> suspicious (baseline (of_cluster c (guard_run rs))) n
          \<or> 2 \<le> held_since (of_cluster c (guard_run rs)))"
proof -
  obtain hs g where s: "foldl guard_step ([], []) rs = (hs, g)" by fastforce
  then have e: "gm_at zero_entry g c =
      \<lparr>geAccepted = baseline (of_cluster c hs), geHeld = held_since (of_cluster c hs)\<rparr>"
    using guard_tracks_run [of rs] by (simp add: guard_run_def guard_tracks_def)
  show ?thesis
    by (auto simp: guard_run_def s guard_step_def admit_def e Let_def split: prod.splits)
qed

text \<open>C33: a roll-up is measured against the last one of its own cluster that was accepted (none
  counts as zero rows), whatever the other clusters report in between, and replaces the cluster's
  demand exactly when it is not suspicious or the two reports of the cluster before it were held
  back in a row. A cluster with a demand of less than ten rows is never held back, nor a report
  that keeps more than a tenth of the rows; one that loses more than nine tenths (and a row) is
  suspicious.\<close>

theorem rollup_guard_exact:
  assumes "guard_run rs = before @ (c, n, v) # after"
  shows "gvPrevRows v = baseline (of_cluster c before)
    \<and> (gvAccepted v \<longleftrightarrow> \<not> suspicious (gvPrevRows v) n \<or> 2 \<le> held_since (of_cluster c before))
    \<and> (gvPrevRows v < 2 ^ 50 \<longrightarrow>
        (suspicious (gvPrevRows v) n \<longrightarrow> 10 \<le> gvPrevRows v \<and> 10 * n \<le> gvPrevRows v)
        \<and> (10 \<le> gvPrevRows v \<and> 10 * (n + 1) \<le> gvPrevRows v \<longrightarrow> suspicious (gvPrevRows v) n))"
proof -
  have "\<exists>r. case (r, c, n, v) of ((c', n'), c, n, v) \<Rightarrow> c = c' \<and> n = n'
      \<and> gvPrevRows v = baseline (of_cluster c before)
      \<and> (gvAccepted v \<longleftrightarrow> \<not> suspicious (baseline (of_cluster c before)) n
           \<or> 2 \<le> held_since (of_cluster c before))"
    by (rule run_entry [where run = guard_run, OF _ _ assms])
       (use guard_run_snoc in \<open>force simp: guard_run_def\<close>)+
  then show ?thesis using suspicious_bounds by auto
qed

lemma rollup_guard_exact_witness:
  "\<exists>hs v. guard_run [(''c'', 20), (''d'', 3), (''c'', 1)] = hs @ [(''c'', 1, v)]
     \<and> gvPrevRows v = 20 \<and> gvAccepted v = False"
proof -
  have s: "suspicious 20 (Suc 0)" "\<not> suspicious 0 20" "\<not> suspicious 0 3"
    using suspicious_bounds(2) [of 20 1] by (simp_all add: suspicious_def)
  let ?A = "\<lparr>gvAccepted = True, gvHeld = 0, gvPrevRows = 0, gvConfirmed = False\<rparr>"
  let ?B = "\<lparr>gvAccepted = False, gvHeld = 1, gvPrevRows = 20, gvConfirmed = False\<rparr>"
  have r: "guard_run [(''c'', 20), (''d'', 3), (''c'', 1)]
      = [(''c'', 20, ?A), (''d'', 3, ?A)] @ (''c'', 1, ?B) # []"
    by (simp add: guard_run_def guard_step_def admit_def Let_def gm_at_def zero_entry_def s)
  have b: "baseline (of_cluster ''c'' [(''c'', 20, ?A), (''d'', 3, ?A)]) = 20"
    "held_since (of_cluster ''c'' [(''c'', 20, ?A), (''d'', 3, ?A)]) = 0"
    by (simp_all add: of_cluster_def baseline_def held_since_def held_back_def)
  from rollup_guard_exact [OF r] b s have "gvPrevRows ?B = 20 \<and> gvAccepted ?B = False" by simp
  then show ?thesis using r by (metis (no_types, lifting))
qed

section \<open>What the cap keeps\<close>

text \<open>The reclaims of one cluster.\<close>

definition reclaims_of :: "string \<Rightarrow> action list \<Rightarrow> action list" where
  "reclaims_of c as = filter (\<lambda>a. is_reclaim a \<and> aCluster a = c) as"

lemma reclaims_of_simps [simp]:
  "reclaims_of c [] = []" "reclaims_of c (as @ bs) = reclaims_of c as @ reclaims_of c bs"
  "reclaims_of c [a] = (if is_reclaim a \<and> aCluster a = c then [a] else [])"
  by (simp_all add: reclaims_of_def)

lemma count_reclaims:
  "gm_at 0 (foldl (\<lambda>m a. if is_reclaim a then gm_set (aCluster a) (gm_at 0 m (aCluster a) + 1) m else m)
     ([] :: (string, int) gomap) as) c = int (length (reclaims_of c as))"
  by (induction as rule: rev_induct) (auto simp: gm_at_def [of 0 "[]"])

lemma count_reclaims_keys:
  "fst ` set (foldl (\<lambda>m a. if is_reclaim a then gm_set (aCluster a) (gm_at 0 m (aCluster a) + 1) m else m)
     ([] :: (string, int) gomap) as) = {c. reclaims_of c as \<noteq> []}"
  by (induction as rule: rev_induct) auto

text \<open>What the loop has after a prefix of the actions.\<close>

lemma cap_loop:
  assumes "\<And>c. 1 \<le> gm_at 0 allowed c \<or> reclaims_of c as = []"
    and "foldl (cap_step allowed) ([], [], 0) as = (kept, taken, capped)"
  shows "filter (\<lambda>a. \<not> is_reclaim a) kept = filter (\<lambda>a. \<not> is_reclaim a) as
    \<and> (\<forall>c. reclaims_of c kept = take (nat (gm_at 0 allowed c)) (reclaims_of c as))
    \<and> (\<forall>c. gm_at 0 taken c = int (length (reclaims_of c kept)))
    \<and> subseq kept as \<and> length kept + capped = length as"
  using assms
proof (induction as arbitrary: kept taken capped rule: rev_induct)
  case Nil
  then show ?case by (auto simp: gm_at_def intro: list_emb.intros)
next
  case (snoc a as)
  obtain k t n where s: "foldl (cap_step allowed) ([], [], 0) as = (k, t, n)"
    by (cases "foldl (cap_step allowed) ([], [], 0) as")
  have ih: "filter (\<lambda>a. \<not> is_reclaim a) k = filter (\<lambda>a. \<not> is_reclaim a) as"
    "\<And>c. reclaims_of c k = take (nat (gm_at 0 allowed c)) (reclaims_of c as)"
    "\<And>c. gm_at 0 t c = int (length (reclaims_of c k))" "subseq k as" "length k + n = length as"
    using snoc.IH [OF _ s] snoc.prems(1) by (auto split: if_splits)
  have a: "cap_step allowed (k, t, n) a = (kept, taken, capped)" using snoc.prems(2) s by simp
  let ?c = "aCluster a"
  consider (other) "\<not> is_reclaim a" "kept = k @ [a]" "taken = t" "capped = n"
    | (over) "is_reclaim a" "gm_at 0 allowed ?c \<le> gm_at 0 t ?c" "kept = k" "taken = t" "capped = n + 1"
    | (room) "is_reclaim a" "gm_at 0 t ?c < gm_at 0 allowed ?c" "kept = k @ [a]"
        "taken = gm_set ?c (gm_at 0 t ?c + 1) t" "capped = n"
    using a by (auto simp: cap_step_def split: if_splits)
  then show ?case
  proof cases
    case other
    then show ?thesis using ih by (simp add: subseq_rev_drop_many)
  next
    case over
    have "length (reclaims_of ?c as) \<ge> nat (gm_at 0 allowed ?c)"
      using over(2) ih(3) [of ?c] unfolding ih(2) by simp
    then show ?thesis using over ih by (simp add: subseq_rev_drop_many)
  next
    case room
    then have "length (reclaims_of ?c as) < nat (gm_at 0 allowed ?c)"
      using ih(3) [of ?c] unfolding ih(2) by simp
    then show ?thesis using room ih by (simp add: Suc_le_eq)
  qed
qed

text \<open>A fraction of at most one never allows more than a cluster has, one machine apart.\<close>

lemma reclaim_cap_bounds:
  "1 \<le> reclaim_cap f k"
  "f64_le f (FFin 1) \<Longrightarrow> f64_nonneg f \<Longrightarrow> k < 2 ^ 53 \<Longrightarrow> reclaim_cap f k \<le> max 1 (int k)"
proof -
  show "1 \<le> reclaim_cap f k" by (simp add: reclaim_cap_def Let_def)
  assume f: "f64_le f (FFin 1)" "f64_nonneg f" and k: "k < 2 ^ 53"
  have e: "f64_of_int (int k) = FFin (of_nat k)"
    using k f64_round_int [of "int k"] by (simp add: f64_of_int_def)
  obtain q where q: "f = FFin q" "0 \<le> q" "q \<le> 1" using f by (cases f) auto
  have "f64_le (f64_round (q * of_nat k)) (f64_round (of_int (int k)))"
    using q by (intro f64_round_mono) (simp add: mult_left_le_one_le)
  moreover have "f64_round (of_int (int k)) = FFin (of_nat k)" using e by (simp add: f64_of_int_def)
  moreover have "f64_le f64_zero (f64_round (q * of_nat k))"
    using f64_nonneg_round [of "q * of_nat k"] q by (simp add: f64_nonneg_def)
  ultimately obtain r where r: "f64_round (q * of_nat k) = FFin r" "0 \<le> r" "r \<le> of_nat k"
    by (cases "f64_round (q * of_nat k)") auto
  then have "\<lfloor>r\<rfloor> \<le> int k" by (simp add: floor_le_iff less_le_trans)
  then show "reclaim_cap f k \<le> max 1 (int k)" by (auto simp: reclaim_cap_def Let_def q e r)
qed

text \<open>C34: with a positive fraction the cap takes nothing but reclaims out of the cycle's actions
  and reorders none: of each cluster's reclaims it keeps the first ones of the emission order, as
  many as the cluster's allowance, which is at least one, and at most the cluster's configured
  machines (or one) when the fraction is at most one; it counts every action it defers. With no
  fraction it is off.\<close>

theorem cap_reclaims_exact:
  "(let (kept, capped) = cap_reclaims snap as f;
        allow = (\<lambda>c. reclaim_cap f (snap_count_by_cluster_state snap c StateConfigured))
    in if f64_le f f64_zero then kept = as \<and> capped = 0
       else subseq kept as \<and> length kept + capped = length as
         \<and> filter (\<lambda>a. \<not> is_reclaim a) kept = filter (\<lambda>a. \<not> is_reclaim a) as
         \<and> (\<forall>c. reclaims_of c kept = take (nat (allow c)) (reclaims_of c as) \<and> 1 \<le> allow c))"
proof (cases "f64_le f f64_zero")
  case False
  define per where "per = foldl (\<lambda>m a. if is_reclaim a
    then gm_set (aCluster a) (gm_at 0 m (aCluster a) + 1) m else m) ([] :: (string, int) gomap) as"
  define cap where "cap = (\<lambda>c. reclaim_cap f (snap_count_by_cluster_state snap c StateConfigured))"
  define allowed where "allowed = map (\<lambda>(c, n :: int). (c, cap c)) per"
  have one: "1 \<le> cap c" for c by (simp add: cap_def reclaim_cap_bounds)
  have keys: "fst ` set per = {c. reclaims_of c as \<noteq> []}" unfolding per_def by (rule count_reclaims_keys)
  have counts: "gm_at 0 per c = int (length (reclaims_of c as))" for c
    unfolding per_def by (rule count_reclaims)
  have lk: "gm_get (map (\<lambda>(c, n :: int). (c, cap c)) m) c = map_option (\<lambda>_. cap c) (gm_get m c)" for m c
    by (induction m) auto
  have in_per: "gm_get per c = Some (int (length (reclaims_of c as)))" if "reclaims_of c as \<noteq> []" for c
  proof -
    have "c \<in> fst ` set per" using that by (simp add: keys)
    then obtain n where "gm_get per c = Some n" by (metis gm_get_none_iff option.exhaust)
    then show ?thesis using counts [of c] by (simp add: gm_at_def)
  qed
  then have al: "gm_at 0 allowed c = cap c" if "reclaims_of c as \<noteq> []" for c
    using that by (simp add: allowed_def gm_at_def lk)
  have cr: "cap_reclaims snap as f = (if \<not> list_ex (\<lambda>(c, n). n > gm_at 0 allowed c) per then (as, 0)
      else case foldl (cap_step allowed) ([], [], 0) as of (kept, taken, capped) \<Rightarrow> (kept, capped))"
    using False by (simp add: cap_reclaims_def Let_def per_def allowed_def cap_def)
  show ?thesis
  proof (cases "list_ex (\<lambda>(c, n). n > gm_at 0 allowed c) per")
    case False
    have "length (reclaims_of c as) \<le> nat (cap c)" for c
    proof (cases "reclaims_of c as = []")
      case ne: False
      from map_of_SomeD [OF in_per [OF ne]] al [OF ne] False show ?thesis
        by (force simp: list_ex_iff)
    qed simp
    then show ?thesis
      using \<open>\<not> f64_le f f64_zero\<close> False one by (simp add: cr cap_def)
  next
    case True
    obtain k t n where l: "foldl (cap_step allowed) ([], [], 0) as = (k, t, n)"
      by (cases "foldl (cap_step allowed) ([], [], 0) as")
    have a1: "1 \<le> gm_at 0 allowed c \<or> reclaims_of c as = []" for c using al one by auto
    have take: "take (nat (gm_at 0 allowed c)) (reclaims_of c as) = take (nat (cap c)) (reclaims_of c as)" for c
      using al [of c] by (cases "reclaims_of c as = []") simp_all
    from cap_loop [OF a1 l] show ?thesis
      using \<open>\<not> f64_le f f64_zero\<close> True one by (simp add: cr l take cap_def)
  qed
qed (simp add: cap_reclaims_def)

end
