(* ===== verification/Report.thy ===== *)
theory Report
  imports Phases
begin

text \<open>
  What a shard remembers of its cycles and tells others (\<open>pkg/shard/report.go\<close>,
  \<open>pkg/shard/needview.go\<close>, and the parking and metric helpers of \<open>pkg/shard/shard.go\<close>): the
  ledger of unresolved demand, the ages that park a co-located need, the verdicts of the last
  cycle, the inventory summary and the assigned domains. A metric that is published is the
  value of its gauge.
\<close>

section \<open>The inventory summary\<close>

record summary =
  smTotal :: int
  smFree :: int
  smTypes :: "(string, int) gomap"
  smZones :: "(string, int) gomap"

definition count_in :: "'k \<Rightarrow> ('k, int) gomap \<Rightarrow> ('k, int) gomap" where
  "count_in k m = gm_set k (gm_at 0 m k + 1) m"

definition summarise :: "snapshot \<Rightarrow> summary" where
  "summarise snap =
    foldl (\<lambda>s m.
        let s = (if State m = StateIdle \<or> State m = StateSpeculative then s\<lparr>smFree := smFree s + 1\<rparr> else s);
            s = (if InstanceType (MProfile m) \<noteq> ''''
                 then s\<lparr>smTypes := count_in (InstanceType (MProfile m)) (smTypes s)\<rparr> else s)
        in if Zone (MProfile m) \<noteq> '''' then s\<lparr>smZones := count_in (Zone (MProfile m)) (smZones s)\<rparr> else s)
      \<lparr>smTotal = int (snap_len snap), smFree = 0, smTypes = [], smZones = []\<rparr> (snMachines snap)"

section \<open>The shortfall ledger\<close>

record shortfall_entry =
  seProfile :: profile
  seDeficit :: "resource_qty list"
  seAgeCycles :: int
  sePenaltyBucket :: penalty_bucket

record shortfall_seed =
  ssProfile :: profile
  ssDeficit :: "resource_qty list"

type_synonym ledger = "(string, shortfall_entry) gomap"

definition seeds_of :: "unsatisfied_need list \<Rightarrow> shortfall_seed list" where
  "seeds_of us = map (\<lambda>u. \<lparr>ssProfile = nProfile (unNeed u), ssDeficit = unDeficit u\<rparr>) us"

definition seed_fp :: "shortfall_seed \<Rightarrow> string" where
  "seed_fp u = fingerprint (ssProfile u)"

definition sum_seeds :: "'q qlib \<Rightarrow> shortfall_seed list \<Rightarrow> (string, shortfall_seed) gomap" where
  "sum_seeds Q us =
    foldl (\<lambda>cyc u. case gm_get cyc (seed_fp u) of
        Some agg \<Rightarrow> gm_set (seed_fp u) (agg\<lparr>ssDeficit := add_resources Q (ssDeficit agg) (ssDeficit u)\<rparr>) cyc
      | None \<Rightarrow> gm_set (seed_fp u) u cyc) [] us"

definition record_seed :: "ledger \<Rightarrow> string \<times> shortfall_seed \<Rightarrow> ledger" where
  "record_seed l e =
    (case e of (fp, u) \<Rightarrow>
       (case gm_get l fp of
          Some s \<Rightarrow> gm_set fp (s\<lparr>seDeficit := ssDeficit u, seAgeCycles := seAgeCycles s + 1\<rparr>) l
        | None \<Rightarrow> gm_set fp \<lparr>seProfile = ssProfile u, seDeficit = ssDeficit u, seAgeCycles = 1,
                     sePenaltyBucket = interruptionPenaltyBucket (ssProfile u)\<rparr> l))"

definition record_shortfalls :: "'q qlib \<Rightarrow> shortfall_seed list \<Rightarrow> ledger \<Rightarrow> ledger" where
  "record_shortfalls Q us l =
    (let cyc = sum_seeds Q us
     in filter (\<lambda>(fp, _). gm_get cyc fp \<noteq> None) (foldl record_seed l cyc))"

definition shortfall_less :: "shortfall_entry \<Rightarrow> shortfall_entry \<Rightarrow> bool" where
  "shortfall_less a b \<longleftrightarrow>
    (if priority (seProfile a) \<noteq> priority (seProfile b) then priority (seProfile a) > priority (seProfile b)
     else seAgeCycles a > seAgeCycles b)"

definition shortfalls :: "ledger \<Rightarrow> shortfall_entry list" where
  "shortfalls l = take 100 (sort_less shortfall_less (map snd l))"

section \<open>Parking\<close>

abbreviation (input) park_after_cycles :: int where "park_after_cycles \<equiv> 8"
abbreviation (input) reprobe_every_cycles :: int where "reprobe_every_cycles \<equiv> 32"

definition unsat_same_key :: "need \<Rightarrow> string" where
  "unsat_same_key n = nCluster n @ [CHR 0x00] @ Group n @ [CHR 0x00] @ fingerprint (nProfile n)"

definition age_step ::
    "string list \<times> (string, int) gomap \<Rightarrow> unsatisfied_need \<Rightarrow> string list \<times> (string, int) gomap" where
  "age_step s u =
    (case s of (seen, ages) \<Rightarrow>
       if same_requirement_key (nProfile (unNeed u)) = None then (seen, ages)
       else
         let k = unsat_same_key (unNeed u)
         in if unAcquired u > 0 \<or> unSameSatisfiable u then (seen, gm_del k ages)
            else (seen @ [k], gm_set k (gm_at 0 ages k + 1) ages))"

definition record_unsat_same_ages :: "unsatisfied_need list \<Rightarrow> (string, int) gomap \<Rightarrow> (string, int) gomap" where
  "record_unsat_same_ages us ages =
    (case foldl age_step ([], ages) us of (seen, ages) \<Rightarrow> filter (\<lambda>(k, _). k \<in> set seen) ages)"

definition stamp_parked_needs :: "(string, int) gomap \<Rightarrow> need list \<Rightarrow> need list" where
  "stamp_parked_needs ages demand =
    (if length ages = 0 then demand
     else map (\<lambda>n. if same_requirement_key (nProfile n) = None then n
                   else let age = gm_at 0 ages (unsat_same_key n)
                        in if age \<ge> park_after_cycles \<and> age mod reprobe_every_cycles \<noteq> 0
                           then n\<lparr>AcquisitionParked := True\<rparr> else n) demand)"

section \<open>The verdicts of a cycle\<close>

datatype unmet_reason =
    NeedReasonUnspecified
  | NeedReasonPriorityStarved
  | NeedReasonNoMatchingSupply
  | NeedReasonTopologyUnsatisfiable
  | NeedReasonPreemptionExhausted

definition profile_has_same :: "profile \<Rightarrow> bool" where
  "profile_has_same p \<longleftrightarrow> list_ex (\<lambda>r. rOperator r = OperatorSame) (requirements p)"

definition derive_unmet_reason :: "need \<Rightarrow> need_verdict \<Rightarrow> bool \<Rightarrow> bool \<Rightarrow> unmet_reason" where
  "derive_unmet_reason n v inUnresolved preempted =
    (if nvSatisfied v then NeedReasonUnspecified
     else if profile_has_same (nProfile n)
        \<and> (\<not> nvSameSatisfiable v \<or> AcquisitionParked n \<or> nvSameDomain v = '''')
     then NeedReasonTopologyUnsatisfiable
     else if \<not> nvMatchingSupplyExists v then NeedReasonNoMatchingSupply
     else if inUnresolved \<and> preempted then NeedReasonPreemptionExhausted
     else NeedReasonPriorityStarved)"

record need_view =
  vwCluster :: string
  vwProfile :: profile
  vwAggregate :: "resource_qty list"
  vwMinUnit :: "resource_qty list"
  vwArrival :: int
  vwGroup :: string
  vwSatisfied :: bool
  vwDeficit :: "resource_qty list"
  vwClaimedCount :: nat
  vwBootstrapCount :: nat
  vwProvisionCount :: nat
  vwSameDomain :: string
  vwSameSatisfiable :: bool
  vwParked :: bool
  vwAgeUnmet :: int
  vwReason :: unmet_reason
  vwSupply :: matching_supply
  vwVictimsFound :: nat
  vwCapacityFreed :: "resource_qty list"
  vwCandidates :: "domain_coverage list"
  vwParkedAge :: int

record need_views =
  ndCycle :: int
  ndComputedAt :: int
  ndByCluster :: "(string, need_view list) gomap"
  ndTotal :: nat

text \<open>Phase 2's unresolved needs by identity; of two with one identity the later counts.\<close>

definition unresolved_by_key ::
    "unsatisfied_need list \<Rightarrow> (string \<times> string \<times> string, unsatisfied_need) gomap" where
  "unresolved_by_key us =
    foldl (\<lambda>m u. gm_set (nCluster (unNeed u), fingerprint (nProfile (unNeed u)), Group (unNeed u)) u m) [] us"

definition view_of ::
    "ledger \<Rightarrow> (string, int) gomap \<Rightarrow> unsatisfied_need list \<Rightarrow> need \<Rightarrow> need_verdict \<Rightarrow> need_view" where
  "view_of l ages us n v =
    (let fp = fingerprint (nProfile n);
         found = gm_get (unresolved_by_key us) (nCluster n, fp, Group n);
         unmet = \<not> nvSatisfied v
     in \<lparr>vwCluster = nCluster n, vwProfile = nProfile n, vwAggregate = AggregateResources n,
         vwMinUnit = MinUnit n, vwArrival = ArrivalUnixNanos n, vwGroup = Group n,
         vwSatisfied = nvSatisfied v,
         vwDeficit = (if unmet then nvDeficit v else []),
         vwClaimedCount = nvClaimedCount v, vwBootstrapCount = nvBootstrapCount v,
         vwProvisionCount = nvProvisionCount v, vwSameDomain = nvSameDomain v,
         vwSameSatisfiable = nvSameSatisfiable v, vwParked = AcquisitionParked n,
         vwAgeUnmet = (if unmet then (case gm_get l fp of None \<Rightarrow> 0 | Some e \<Rightarrow> seAgeCycles e) else 0),
         vwReason = derive_unmet_reason n v (found \<noteq> None)
           (case found of None \<Rightarrow> False | Some u \<Rightarrow> unPreempted u),
         vwSupply = nvMatchingSupply v,
         vwVictimsFound = (if unmet then (case found of None \<Rightarrow> 0 | Some u \<Rightarrow> unVictimsFound u) else 0),
         vwCapacityFreed = (if unmet then (case found of None \<Rightarrow> [] | Some u \<Rightarrow> unCapacityFreed u) else []),
         vwCandidates = nvSameCandidates v,
         vwParkedAge = (if unmet \<and> AcquisitionParked n then gm_at 0 ages (unsat_same_key n) else 0)\<rparr>)"

text \<open>A verdict points at its need in the cycle's demand \<open>ns\<close>.\<close>

definition record_need_views ::
    "int \<Rightarrow> int \<Rightarrow> need list \<Rightarrow> ledger \<Rightarrow> (string, int) gomap \<Rightarrow> need_verdict list
      \<Rightarrow> unsatisfied_need list \<Rightarrow> need_views" where
  "record_need_views cycle now ns l ages vs us =
    (let views = map (\<lambda>v. view_of l ages us (ns ! nvNeed v) v) vs
     in \<lparr>ndCycle = cycle, ndComputedAt = now,
         ndByCluster = foldl (\<lambda>m w. gm_append (vwCluster w) w m) [] views, ndTotal = length views\<rparr>)"

definition view_less :: "need_view \<Rightarrow> need_view \<Rightarrow> bool" where
  "view_less a b \<longleftrightarrow>
    (if priority (vwProfile a) \<noteq> priority (vwProfile b) then priority (vwProfile a) > priority (vwProfile b)
     else if vwArrival a \<noteq> vwArrival b then vwArrival a < vwArrival b
     else vwCluster a < vwCluster b)"

record need_view_result =
  rsCycle :: int
  rsComputedAt :: int
  rsTotal :: nat
  rsViews :: "need_view list"

definition query_need_views :: "need_views option \<Rightarrow> string \<Rightarrow> int \<Rightarrow> need_view_result" where
  "query_need_views snap cluster limit =
    (case snap of
       None \<Rightarrow> \<lparr>rsCycle = 0, rsComputedAt = 0, rsTotal = 0, rsViews = []\<rparr>
     | Some s \<Rightarrow>
         let views = (if cluster \<noteq> '''' then gm_at [] (ndByCluster s) cluster
                      else concat (map snd (ndByCluster s)));
             sorted = sort_less view_less views
         in \<lparr>rsCycle = ndCycle s, rsComputedAt = ndComputedAt s, rsTotal = length views,
             rsViews = (if limit > 0 \<and> int (length sorted) > limit then take (nat limit) sorted else sorted)\<rparr>)"

section \<open>Assigned domains\<close>

type_synonym domains = "(string \<times> string) list"

definition assign_domain :: "string \<Rightarrow> string \<Rightarrow> domains \<Rightarrow> domains" where
  "assign_domain k v ds = (if (k, v) \<in> set ds then ds else ds @ [(k, v)])"

definition unassign_domain :: "string \<Rightarrow> string \<Rightarrow> domains \<Rightarrow> domains" where
  "unassign_domain k v ds = filter (\<lambda>d. d \<noteq> (k, v)) ds"

definition domain_less :: "string \<times> string \<Rightarrow> string \<times> string \<Rightarrow> bool" where
  "domain_less a b \<longleftrightarrow> (if fst a \<noteq> fst b then fst a < fst b else snd a < snd b)"

definition assigned_domains :: "domains \<Rightarrow> (string \<times> string) list" where
  "assigned_domains ds = sort_less domain_less ds"

section \<open>Gauges\<close>

definition age_bucket :: "int \<Rightarrow> string" where
  "age_bucket age =
    (if age \<ge> 300 then ''300+'' else if age \<ge> 60 then ''60-299'' else if age \<ge> 10 then ''10-59'' else ''1-9'')"

definition priority_class :: "int \<Rightarrow> string" where
  "priority_class p =
    (if p \<ge> 1000000 then ''critical'' else if p \<ge> 1000 then ''service''
     else if p \<ge> 100 then ''batch'' else ''other'')"

text \<open>The counts a key function gives over a list.\<close>

definition tally :: "('a \<Rightarrow> 'k) \<Rightarrow> 'a list \<Rightarrow> ('k, int) gomap" where
  "tally f xs = foldl (\<lambda>m x. count_in (f x) m) [] xs"

definition emit_aged_shortfalls :: "shortfall_entry list \<Rightarrow> (string, int) gomap \<Rightarrow> (string, int) gomap" where
  "emit_aged_shortfalls sfs gauge =
    (let counts = foldl (\<lambda>m e. count_in (age_bucket (seAgeCycles e)) m)
                    [(''1-9'', 0), (''10-59'', 0), (''60-299'', 0), (''300+'', 0)] sfs
     in foldl (\<lambda>g (k, n). gm_set k n g) gauge counts)"

definition emit_shortfalls_by_priority ::
    "shortfall_entry list \<Rightarrow> (string, int) gomap \<Rightarrow> (string, int) gomap" where
  "emit_shortfalls_by_priority sfs gauge =
    (let counts = tally (\<lambda>e. priority_class (priority (seProfile e))) sfs
     in foldl (\<lambda>g c. gm_set c (gm_at 0 counts c) g) gauge [''batch'', ''service'', ''critical'', ''other''])"

definition emit_demand :: "need list \<Rightarrow> (string, int) gomap \<Rightarrow> (string, int) gomap" where
  "emit_demand rows gauge =
    (let counts = tally (\<lambda>n. interruptionPenaltyBucket (nProfile n)) rows
     in foldl (\<lambda>g b. gm_set (bucket_label b) (gm_at 0 counts b) g) gauge [bucket_unspecified..<bucket_pinned + 1])"

type_synonym inventory_label = "state \<times> capacity_type \<times> penalty_bucket"

definition emit_inventory ::
    "snapshot \<Rightarrow> (inventory_label, int) gomap \<Rightarrow> (inventory_label, int) gomap" where
  "emit_inventory snap gauge =
    (let counts = tally (\<lambda>m. (State m, CapacityType (MProfile m),
                     bucket_for_dollars (AssignedInterruptionPenalty m))) (snMachines snap)
     in foldl (\<lambda>g (k, n). gm_set k n g) gauge counts)"


section \<open>What the ledger says\<close>

interpretation shortfall_cmp: comparator shortfall_less "\<lambda>_. True"
  by unfold_locales (auto simp: shortfall_less_def split: if_splits)

interpretation view_cmp: comparator view_less "\<lambda>_. True"
  by unfold_locales (auto simp: view_less_def split: if_splits)

lemma sum_seeds_get:
  "gm_get (sum_seeds Q us) fp = (case filter (\<lambda>u. seed_fp u = fp) us of [] \<Rightarrow> None
     | u # rest \<Rightarrow> Some (u\<lparr>ssDeficit := foldl (\<lambda>d u. add_resources Q d (ssDeficit u)) (ssDeficit u) rest\<rparr>))"
proof (induction us rule: rev_induct)
  case (snoc x us)
  then show ?case
    by (cases "filter (\<lambda>u. seed_fp u = fp) us"; cases "gm_get (sum_seeds Q us) (seed_fp x)")
       (auto simp: sum_seeds_def split: option.splits)
qed (simp add: sum_seeds_def)

lemma sum_seeds_ok: "gm_ok (sum_seeds Q us)"
  by (induction us rule: rev_induct) (auto simp: sum_seeds_def split: option.split intro: distinct_update)

text \<open>One cycle's entry of the ledger, from the entry before it and the summed seed.\<close>

lemma record_seeds_get:
  assumes "gm_ok cyc"
  shows "gm_get (foldl record_seed l cyc) fp = (case gm_get cyc fp of None \<Rightarrow> gm_get l fp
    | Some u \<Rightarrow> Some (case gm_get l fp of
        None \<Rightarrow> \<lparr>seProfile = ssProfile u, seDeficit = ssDeficit u, seAgeCycles = 1,
                 sePenaltyBucket = interruptionPenaltyBucket (ssProfile u)\<rparr>
      | Some s \<Rightarrow> s\<lparr>seDeficit := ssDeficit u, seAgeCycles := seAgeCycles s + 1\<rparr>))"
  using assms
proof (induction cyc arbitrary: l)
  case (Cons e cyc)
  obtain k u where e: "e = (k, u)" by (cases e)
  then have "gm_get cyc k = None" using Cons.prems by (auto simp: gm_get_none_iff)
  then show ?case
    using Cons e by (auto simp: record_seed_def split: option.splits)
qed simp

lemma gm_get_filter_keys: "gm_get (filter (\<lambda>(k, _). P k) m) k = (if P k then gm_get m k else None)"
  by (induction m) auto

lemma gm_ok_record_seeds: "gm_ok l \<Longrightarrow> gm_ok (foldl record_seed l cyc)"
  by (induction cyc arbitrary: l)
     (auto simp: record_seed_def split: option.splits prod.splits intro: distinct_update)

definition ledger_after :: "'q qlib \<Rightarrow> shortfall_seed list list \<Rightarrow> ledger" where
  "ledger_after Q cycles = foldl (\<lambda>l us. record_shortfalls Q us l) [] cycles"

text \<open>For how many of the last cycles, without a gap, a fingerprint had a seed.\<close>

definition seen_for :: "shortfall_seed list list \<Rightarrow> string \<Rightarrow> nat" where
  "seen_for cycles fp = length (takeWhile (\<lambda>us. fp \<in> seed_fp ` set us) (rev cycles))"

lemma seen_for_snoc [simp]:
  "seen_for [] fp = 0"
  "seen_for (cycles @ [us]) fp = (if fp \<in> seed_fp ` set us then seen_for cycles fp + 1 else 0)"
  by (simp_all add: seen_for_def)

lemma ledger_after_ok: "gm_ok (ledger_after Q cycles)"
  by (induction cycles rule: rev_induct)
     (auto simp: ledger_after_def record_shortfalls_def Let_def distinct_map_filter gm_ok_record_seeds)

lemma ledger_after_snoc:
  "gm_get (ledger_after Q (cs @ [us])) fp = (case filter (\<lambda>u. seed_fp u = fp) us of [] \<Rightarrow> None
    | u # rest \<Rightarrow> let d = foldl (\<lambda>d u. add_resources Q d (ssDeficit u)) (ssDeficit u) rest in
        Some (case gm_get (ledger_after Q cs) fp of
          None \<Rightarrow> \<lparr>seProfile = ssProfile u, seDeficit = d, seAgeCycles = 1,
                   sePenaltyBucket = interruptionPenaltyBucket (ssProfile u)\<rparr>
        | Some s \<Rightarrow> s\<lparr>seDeficit := d, seAgeCycles := seAgeCycles s + 1\<rparr>))"
  by (simp add: ledger_after_def record_shortfalls_def Let_def gm_get_filter_keys
      record_seeds_get [OF sum_seeds_ok] sum_seeds_get split: list.split option.split)

lemma ledger_entry:
  "case gm_get (ledger_after Q cs) fp of None \<Rightarrow> seen_for cs fp = 0
   | Some e \<Rightarrow> fingerprint (seProfile e) = fp \<and> seAgeCycles e = int (seen_for cs fp)
       \<and> sePenaltyBucket e = interruptionPenaltyBucket (seProfile e)"
proof (induction cs rule: rev_induct)
  case (snoc us cs)
  have mem: "fp \<in> seed_fp ` set us \<longleftrightarrow> filter (\<lambda>u. seed_fp u = fp) us \<noteq> []"
    by (auto simp: filter_empty_conv)
  show ?case
  proof (cases "filter (\<lambda>u. seed_fp u = fp) us")
    case Nil
    then show ?thesis by (simp add: ledger_after_snoc mem del: image_iff)
  next
    case (Cons u rest)
    then have "seed_fp u = fp" using filter_eq_Cons_iff [of "\<lambda>u. seed_fp u = fp"] by fastforce
    then show ?thesis
      using snoc Cons by (cases "gm_get (ledger_after Q cs) fp")
        (simp_all add: ledger_after_snoc mem Let_def seed_fp_def [of u] del: image_iff)
  qed
qed (simp add: ledger_after_def)

lemma top_entries:
  assumes "\<And>xs :: 'a list. sorted_wrt R (f xs)" "\<And>xs. mset (f xs) = mset xs"
  shows "sorted_wrt R (take n (f xs)) \<and> length (take n (f xs)) = min n (length xs)
    \<and> (\<exists>omitted. mset (take n (f xs)) + mset omitted = mset xs
         \<and> (\<forall>o' r. o' \<in> set omitted \<and> r \<in> set (take n (f xs)) \<longrightarrow> R r o'))"
proof -
  have s: "sorted_wrt R (take n (f xs) @ drop n (f xs))" using assms(1) by simp
  moreover have "length (f xs) = length xs" by (metis assms(2) size_mset)
  moreover have "mset (take n (f xs)) + mset (drop n (f xs)) = mset xs"
    by (metis append_take_drop_id assms(2) mset_append)
  ultimately show ?thesis unfolding sorted_wrt_append by (auto intro!: exI [of _ "drop n (f xs)"])
qed

text \<open>C40: the ledger holds the demand that is unmet now. After any sequence of cycles a fingerprint
  has an entry exactly when the last cycle left a need of that fingerprint unresolved; its deficit is
  the sum of the last cycle's deficits of that fingerprint, and its age the number of cycles it has
  been unresolved without a gap, each cycle counted once however many needs share the fingerprint.
  The report lists at most a hundred entries, those of highest priority first and the older first
  among equals, and leaves none out that ranks before one it lists.\<close>

theorem shortfall_ledger_exact:
  fixes Q :: "'q qlib" and cycles :: "shortfall_seed list list" and us :: "shortfall_seed list"
  defines "l \<equiv> ledger_after Q (cycles @ [us])"
  shows "(\<forall>fp. case filter (\<lambda>u. seed_fp u = fp) us of
        [] \<Rightarrow> gm_get l fp = None
      | u # rest \<Rightarrow> \<exists>e. gm_get l fp = Some e \<and> fingerprint (seProfile e) = fp
          \<and> seDeficit e = foldl (\<lambda>d u. add_resources Q d (ssDeficit u)) (ssDeficit u) rest
          \<and> seAgeCycles e = int (seen_for (cycles @ [us]) fp)
          \<and> sePenaltyBucket e = interruptionPenaltyBucket (seProfile e))
    \<and> sorted_wrt (\<lambda>a b. \<not> shortfall_less b a) (shortfalls l)
    \<and> length (shortfalls l) = min 100 (length l)
    \<and> (\<exists>omitted. mset (shortfalls l) + mset omitted = mset (map snd l)
         \<and> (\<forall>o' r. o' \<in> set omitted \<and> r \<in> set (shortfalls l) \<longrightarrow> \<not> shortfall_less o' r))"
proof -
  have "case filter (\<lambda>u. seed_fp u = fp) us of
        [] \<Rightarrow> gm_get l fp = None
      | u # rest \<Rightarrow> \<exists>e. gm_get l fp = Some e \<and> fingerprint (seProfile e) = fp
          \<and> seDeficit e = foldl (\<lambda>d u. add_resources Q d (ssDeficit u)) (ssDeficit u) rest
          \<and> seAgeCycles e = int (seen_for (cycles @ [us]) fp)
          \<and> sePenaltyBucket e = interruptionPenaltyBucket (seProfile e)" for fp
    using ledger_entry [where Q = Q and cs = "cycles @ [us]" and fp = fp]
      ledger_after_snoc [where Q = Q and cs = cycles and us = us and fp = fp]
    by (cases "filter (\<lambda>u. seed_fp u = fp) us"; cases "gm_get (ledger_after Q cycles) fp")
       (auto simp: l_def Let_def)
  moreover note top_entries [of "\<lambda>a b. \<not> shortfall_less b a" "sort_less shortfall_less" 100 "map snd l",
      folded shortfalls_def, unfolded length_map]
  ultimately show ?thesis using shortfall_cmp.sort_sorted by simp
qed


theorem shortfall_ledger_exact_witness:
  "let s = \<lparr>ssProfile = sample_profile 7, ssDeficit = [\<lparr>rqName = ''cpu'', rqQuantity = ''2''\<rparr>]\<rparr>
   in \<exists>e. gm_get (ledger_after int_lib [[s], [s]]) (fingerprint (sample_profile 7)) = Some e
     \<and> seAgeCycles e = 2 \<and> length (shortfalls (ledger_after int_lib [[s], [s]])) \<le> 100"
proof -
  let ?s = "\<lparr>ssProfile = sample_profile 7, ssDeficit = [\<lparr>rqName = ''cpu'', rqQuantity = ''2''\<rparr>]\<rparr>"
  let ?f = "fingerprint (sample_profile 7)"
  note T = shortfall_ledger_exact [of int_lib "[[?s]]" "[?s]", unfolded append.simps]
  have l: "length (shortfalls (ledger_after int_lib [[?s], [?s]])) \<le> 100" using T by simp
  have "seen_for [[?s], [?s]] ?f = 2" by (simp add: seed_fp_def seen_for_def)
  moreover have "filter (\<lambda>u. seed_fp u = ?f) [?s] = [?s]" by (simp add: seed_fp_def)
  ultimately obtain e where "gm_get (ledger_after int_lib [[?s], [?s]]) ?f = Some e" "seAgeCycles e = 2"
    using T [THEN conjunct1, THEN spec, of ?f] by auto
  then show ?thesis using l by (simp add: Let_def)
qed

section \<open>Parking over the cycles\<close>

text \<open>Whether a cycle stalled a class: unsatisfied, nothing acquired, no domain that could satisfy it.\<close>

definition stalls :: "string \<Rightarrow> unsatisfied_need \<Rightarrow> bool" where
  "stalls k u \<longleftrightarrow> same_requirement_key (nProfile (unNeed u)) \<noteq> None \<and> unsat_same_key (unNeed u) = k
     \<and> \<not> (unAcquired u > 0 \<or> unSameSatisfiable u)"

definition class_of :: "unsatisfied_need list \<Rightarrow> string list" where
  "class_of us = map (\<lambda>u. unsat_same_key (unNeed u))
     (filter (\<lambda>u. same_requirement_key (nProfile (unNeed u)) \<noteq> None) us)"

definition ages_after :: "unsatisfied_need list list \<Rightarrow> (string, int) gomap" where
  "ages_after cycles = foldl (\<lambda>ages us. record_unsat_same_ages us ages) [] cycles"

definition stalled_for :: "unsatisfied_need list list \<Rightarrow> string \<Rightarrow> nat" where
  "stalled_for cycles k = length (takeWhile (\<lambda>us. list_ex (stalls k) us) (rev cycles))"

lemma stalled_for_snoc [simp]:
  "stalled_for [] k = 0"
  "stalled_for (cycles @ [us]) k = (if list_ex (stalls k) us then stalled_for cycles k + 1 else 0)"
  by (simp_all add: stalled_for_def)

lemma age_step_cases:
  "same_requirement_key (nProfile (unNeed u)) = None \<Longrightarrow> age_step s u = s"
  "same_requirement_key (nProfile (unNeed u)) \<noteq> None \<Longrightarrow> unAcquired u > 0 \<or> unSameSatisfiable u
    \<Longrightarrow> age_step (seen, ages) u = (seen, gm_del (unsat_same_key (unNeed u)) ages)"
  "same_requirement_key (nProfile (unNeed u)) \<noteq> None \<Longrightarrow> \<not> (unAcquired u > 0 \<or> unSameSatisfiable u)
    \<Longrightarrow> age_step (seen, ages) u = (seen @ [unsat_same_key (unNeed u)],
          gm_set (unsat_same_key (unNeed u)) (gm_at 0 ages (unsat_same_key (unNeed u)) + 1) ages)"
  by (auto simp: age_step_def Let_def split: prod.splits)

lemma class_of_snoc:
  "class_of [] = []"
  "class_of (us @ [u]) = (if same_requirement_key (nProfile (unNeed u)) = None then class_of us
     else class_of us @ [unsat_same_key (unNeed u)])"
  by (simp_all add: class_of_def)

lemma stalls_class: "list_ex (stalls k) us \<Longrightarrow> k \<in> set (class_of us)"
  by (auto simp: list_ex_iff stalls_def class_of_def)

lemma age_fold:
  assumes "distinct (class_of us)" "gm_ok ages" "foldl age_step ([], ages) us = (seen, ages')"
  shows "gm_ok ages' \<and> (\<forall>k. (k \<in> set seen \<longleftrightarrow> list_ex (stalls k) us)
    \<and> (k \<in> set seen \<longrightarrow> gm_get ages' k = Some (gm_at 0 ages k + 1))
    \<and> (k \<notin> set (class_of us) \<longrightarrow> gm_at 0 ages' k = gm_at 0 ages k))"
  using assms
proof (induction us arbitrary: seen ages' rule: rev_induct)
  case Nil
  then show ?case by auto
next
  case (snoc u us)
  obtain sn ag where f: "foldl age_step ([], ages) us = (sn, ag)" by fastforce
  let ?k = "unsat_same_key (unNeed u)"
  have d: "distinct (class_of us)" using snoc.prems(1) by (simp add: class_of_snoc split: if_splits)
  note ih = snoc.IH [OF d snoc.prems(2) f]
  have step: "age_step (sn, ag) u = (seen, ages')" using snoc.prems(3) f by simp
  consider (other) "same_requirement_key (nProfile (unNeed u)) = None"
    | (progress) "same_requirement_key (nProfile (unNeed u)) \<noteq> None" "unAcquired u > 0 \<or> unSameSatisfiable u"
    | (stall) "same_requirement_key (nProfile (unNeed u)) \<noteq> None" "\<not> (unAcquired u > 0 \<or> unSameSatisfiable u)"
    by blast
  then show ?case
  proof cases
    case other
    then have "seen = sn" "ages' = ag" "\<And>k. \<not> stalls k u" "class_of (us @ [u]) = class_of us"
      using step by (simp_all add: age_step_cases stalls_def class_of_snoc)
    then show ?thesis using ih by simp
  next
    case progress
    then have r: "seen = sn" "ages' = gm_del ?k ag" "\<And>k. \<not> stalls k u" "class_of (us @ [u]) = class_of us @ [?k]"
      using step by (simp_all add: age_step_cases stalls_def class_of_snoc)
    then have k: "?k \<notin> set (class_of us)" using snoc.prems(1) by simp
    then have "?k \<notin> set sn" using ih stalls_class by blast
    then show ?thesis using ih by (auto simp: r distinct_delete simp del: map_of_eq_Some_iff)
  next
    case stall
    then have r: "seen = sn @ [?k]" "ages' = gm_set ?k (gm_at 0 ag ?k + 1) ag" "\<And>k. stalls k u \<longleftrightarrow> k = ?k"
      "class_of (us @ [u]) = class_of us @ [?k]"
      using step by (auto simp: age_step_cases stalls_def class_of_snoc)
    then have k: "?k \<notin> set (class_of us)" using snoc.prems(1) by simp
    then have "?k \<notin> set sn" using ih stalls_class by blast
    then show ?thesis using ih k by (auto simp: r distinct_update simp del: map_of_eq_Some_iff)
  qed
qed

lemma ages_exact:
  assumes "list_all (\<lambda>us. distinct (class_of us)) cycles"
  shows "gm_ok (ages_after cycles) \<and> gm_at 0 (ages_after cycles) k = int (stalled_for cycles k)"
  using assms
proof (induction cycles arbitrary: k rule: rev_induct)
  case Nil
  show ?case by (simp add: ages_after_def gm_at_def)
next
  case (snoc us cycles)
  obtain seen ages where f: "foldl age_step ([], ages_after cycles) us = (seen, ages)" by fastforce
  have a: "ages_after (cycles @ [us]) = filter (\<lambda>(k, _). k \<in> set seen) ages"
    using f by (simp add: ages_after_def record_unsat_same_ages_def)
  have ih: "gm_ok (ages_after cycles)" "gm_at 0 (ages_after cycles) k = int (stalled_for cycles k)" for k
    using snoc by auto
  have F: "gm_ok ages" "k \<in> set seen \<longleftrightarrow> list_ex (stalls k) us"
    "k \<in> set seen \<Longrightarrow> gm_get ages k = Some (gm_at 0 (ages_after cycles) k + 1)"
    using age_fold [OF _ ih(1) f] snoc.prems by auto
  then show ?case
    using ih(2)
    by (simp add: a gm_at_def [of _ "filter _ _"] gm_get_filter_keys distinct_map_filter del: map_of_eq_Some_iff)
qed

text \<open>A co-located class is parked exactly while it has stalled for long: after any sequence of
  cycles in each of which a class occurs once, the next cycle's demand is the given one with those
  needs parked whose class was unsatisfied, acquired nothing and had no domain that could satisfy it
  in each of the last \<open>a\<close> cycles, where \<open>a\<close> is at least eight and no multiple of thirty-two. One cycle
  of progress, or a satisfiable domain, unparks the class; and of thirty-two cycles in a row at least
  one leaves it free to acquire.\<close>

theorem parking_exact:
  assumes "list_all (\<lambda>us. distinct (class_of us)) cycles"
  shows "stamp_parked_needs (ages_after cycles) demand
      = map (\<lambda>n. if same_requirement_key (nProfile n) \<noteq> None
                   \<and> 8 \<le> stalled_for cycles (unsat_same_key n) \<and> stalled_for cycles (unsat_same_key n) mod 32 \<noteq> 0
                 then n\<lparr>AcquisitionParked := True\<rparr> else n) demand
    \<and> (\<forall>a. \<exists>i<32. (a + i) mod 32 = (0 :: nat))"
proof -
  have k: "gm_at 0 (ages_after cycles) k = int (stalled_for cycles k)" for k using ages_exact [OF assms] by blast
  have p: "8 \<le> int a \<and> int a mod 32 \<noteq> 0 \<longleftrightarrow> 8 \<le> a \<and> a mod 32 \<noteq> 0" for a :: nat by presburger
  have "\<exists>i<32. (a + i) mod 32 = 0" for a :: nat by presburger
  moreover have "stamp_parked_needs (ages_after cycles) demand
      = map (\<lambda>n. if same_requirement_key (nProfile n) \<noteq> None
                   \<and> 8 \<le> stalled_for cycles (unsat_same_key n) \<and> stalled_for cycles (unsat_same_key n) mod 32 \<noteq> 0
                 then n\<lparr>AcquisitionParked := True\<rparr> else n) demand"
  proof (cases "ages_after cycles = []")
    case True
    then have "stalled_for cycles k = 0" for k using k [of k] by (simp add: gm_at_def)
    then show ?thesis using True by (simp add: stamp_parked_needs_def)
  next
    case False
    have q: "8 \<le> gm_at 0 (ages_after cycles) k \<and> gm_at 0 (ages_after cycles) k mod 32 \<noteq> 0
        \<longleftrightarrow> 8 \<le> stalled_for cycles k \<and> stalled_for cycles k mod 32 \<noteq> 0" for k
      unfolding k by (rule p)
    show ?thesis using False unfolding stamp_parked_needs_def Let_def q by auto
  qed
  ultimately show ?thesis by blast
qed

section \<open>A gauge that keeps stale values\<close>

text \<open>The inventory gauge is only set for the labels that occur now.\<close>

lemma inventory_gauge_stale:
  "gm_get (emit_inventory empty_snapshot gauge) k = gm_get gauge k"
  by (simp add: emit_inventory_def tally_def empty_snapshot_def)

definition sample_stalled :: unsatisfied_need where
  "sample_stalled = (sample_short 7)\<lparr>unNeed := (sample_need ''c1'' ''4'')\<lparr>nProfile := new_profile
     [\<lparr>rKey = zone_key, rOperator = OperatorSame, rValues = []\<rparr>] [] 7 bucket_zero bucket_zero\<rparr>,
     unAcquired := 0, unSameSatisfiable := False\<rparr>"

lemma sample_stalled_same: "same_requirement_key (nProfile (unNeed sample_stalled)) = Some zone_key"
  by code_simp

theorem parking_exact_witness:
  "stamp_parked_needs (ages_after (replicate 9 [sample_stalled])) [unNeed sample_stalled]
    = [(unNeed sample_stalled)\<lparr>AcquisitionParked := True\<rparr>]"
proof -
  have d: "list_all (\<lambda>us. distinct (class_of us)) (replicate 9 [sample_stalled])"
    by (simp add: list_all_length class_of_def)
  have "list_ex (stalls (unsat_same_key (unNeed sample_stalled))) [sample_stalled]"
    using sample_stalled_same by (simp add: stalls_def sample_stalled_def)
  then have "stalled_for (replicate 9 [sample_stalled]) (unsat_same_key (unNeed sample_stalled)) = 9"
    by (simp add: stalled_for_def)
  then show ?thesis using parking_exact [OF d, of "[unNeed sample_stalled]"] sample_stalled_same by simp
qed

end
