(* ===== verification/Capacity.thy ===== *)
theory Capacity
  imports Execute
begin

text \<open>
  The capacity hints a shard sends to operators (\<open>pkg/shard/available_capacity.go\<close>): what a hint
  says of a profile, and when one is sent.
\<close>

section \<open>The emit cache\<close>

record ac_value =
  acCount :: int
  acConfidence :: confidence
  acCost :: f64

record ac_entry =
  aeValue :: ac_value
  aeLastEmit :: int

type_synonym ac_entries = "(string \<times> string, ac_entry) gomap"

text \<open>Struct equality of the source, in which a NaN cost differs from itself.\<close>

definition same_value :: "ac_value \<Rightarrow> ac_value \<Rightarrow> bool" where
  "same_value a b \<longleftrightarrow> acCount a = acCount b \<and> acConfidence a = acConfidence b \<and> f64_eq (acCost a) (acCost b)"

definition default_ac_interval :: int where
  "default_ac_interval = 5 * 1000000000"

definition ac_interval :: "int \<Rightarrow> int" where
  "ac_interval interval = (if interval \<le> 0 then default_ac_interval else interval)"

definition should_emit ::
    "int \<Rightarrow> int \<Rightarrow> string \<Rightarrow> string \<Rightarrow> ac_value \<Rightarrow> ac_entries \<Rightarrow> bool \<times> ac_entries" where
  "should_emit minInterval now cluster fp v es =
    (let send_it = (True, gm_set (cluster, fp) \<lparr>aeValue = v, aeLastEmit = now\<rparr> es)
     in case gm_get es (cluster, fp) of
          None \<Rightarrow> send_it
        | Some prev \<Rightarrow>
            if same_value (aeValue prev) v then (False, es)
            else if now - aeLastEmit prev < minInterval then (False, es)
            else send_it)"

definition forget :: "string \<Rightarrow> ac_entries \<Rightarrow> ac_entries" where
  "forget cluster es = filter (\<lambda>(k, _). fst k \<noteq> cluster) es"

section \<open>The hint\<close>

definition pinned_types_ac :: "profile \<Rightarrow> string list" where
  "pinned_types_ac p =
    (case find (\<lambda>r. rKey r = instance_type_key) (requirements p) of
       None \<Rightarrow> []
     | Some r \<Rightarrow> if rOperator r = OperatorIn \<and> length (rValues r) > 0 then rValues r else [])"

text \<open>One pinned type: its idle and speculative machines, and the price of its cheapest idle one.\<close>

definition hint_step :: "snapshot \<Rightarrow> nat \<times> nat \<times> f64 \<Rightarrow> string \<Rightarrow> nat \<times> nat \<times> f64" where
  "hint_step snap s t =
    (case s of (idle, spec, cheapest) \<Rightarrow>
       (idle + snap_count_by_type snap StateIdle t,
        spec + snap_count_by_type snap StateSpeculative t,
        (case snap_by_type snap StateIdle t of
           [] \<Rightarrow> cheapest
         | m # _ \<Rightarrow> if f64_eq cheapest f64_zero \<or> f64_lt (PricePerHour m) cheapest
                   then PricePerHour m else cheapest)))"

definition build_available_capacity :: "snapshot \<Rightarrow> profile \<Rightarrow> string \<Rightarrow> capacity_update" where
  "build_available_capacity snap p fp =
    (let types = pinned_types_ac p in
     case (if length types = 0 then (snap_count_by_state snap StateIdle, snap_count_by_state snap StateSpeculative, f64_zero)
           else foldl (hint_step snap) (0, 0, f64_zero) types) of
       (idle, spec, cheapest) \<Rightarrow>
         \<lparr>cuSupersedesKey = ''available:'' @ fp, cuRequirements = requirements_to_proto (requirements p),
          cuCount = i32 (int (idle + spec)),
          cuConfidence = (if idle > 0 then ConfidenceHigh else if spec > 0 then ConfidenceMedium else ConfidenceNone),
          cuCost = cheapest\<rparr>)"

section \<open>Emission\<close>

text \<open>The distinct profiles each cluster asks for; of equal fingerprints the last one counts.\<close>

definition demanded :: "need list \<Rightarrow> (string, (string, profile) gomap) gomap" where
  "demanded demand =
    foldl (\<lambda>m n. gm_set (nCluster n)
        (gm_set (fingerprint (nProfile n)) (nProfile n) (gm_at [] m (nCluster n))) m) [] demand"

definition emit_one ::
    "int \<Rightarrow> snapshot \<Rightarrow> string \<Rightarrow> ac_entries \<times> world \<Rightarrow> string \<times> profile \<Rightarrow> ac_entries \<times> world" where
  "emit_one minInterval snap cluster s e =
    (case (s, e) of ((es, w), fp, p) \<Rightarrow>
       let upd = build_available_capacity snap p fp;
           v = \<lparr>acCount = cuCount upd, acConfidence = cuConfidence upd, acCost = cuCost upd\<rparr>
       in case should_emit minInterval (wNow w) cluster fp v es of
            (False, es) \<Rightarrow> (es, w)
          | (True, es) \<Rightarrow> (es, send cluster (AvailableCapacityUpdate upd) w))"

definition emit_cluster ::
    "int \<Rightarrow> snapshot \<Rightarrow> ac_entries \<times> world \<Rightarrow> string \<times> (string, profile) gomap \<Rightarrow> ac_entries \<times> world" where
  "emit_cluster minInterval snap s e =
    (case e of (cluster, fps) \<Rightarrow>
       if cluster \<notin> set (wSessions (snd s)) then s else foldl (emit_one minInterval snap cluster) s fps)"

definition emit_available_capacity ::
    "int \<Rightarrow> snapshot \<Rightarrow> need list \<Rightarrow> ac_entries \<times> world \<Rightarrow> ac_entries \<times> world" where
  "emit_available_capacity minInterval snap demand s =
    (if length demand = 0 then s else foldl (emit_cluster minInterval snap) s (demanded demand))"

section \<open>How often\<close>

text \<open>The emit decisions over time, and the losses of a session.\<close>

datatype ac_event = AcOffer int string string ac_value | AcForget string

fun ac_step :: "int \<Rightarrow> (ac_event \<times> bool) list \<times> ac_entries \<Rightarrow> ac_event \<Rightarrow> (ac_event \<times> bool) list \<times> ac_entries" where
  "ac_step i (h, es) (AcOffer now c fp v) =
    (case should_emit i now c fp v es of (b, es) \<Rightarrow> (h @ [(AcOffer now c fp v, b)], es))"
| "ac_step i (h, es) (AcForget c) = (h @ [(AcForget c, False)], forget c es)"

definition ac_run :: "int \<Rightarrow> ac_event list \<Rightarrow> (ac_event \<times> bool) list" where
  "ac_run i evs = fst (foldl (ac_step i) ([], []) evs)"

text \<open>The last frame sent for a key since its cluster was last forgotten.\<close>

fun sent_on :: "string \<Rightarrow> string \<Rightarrow> ac_event \<times> bool \<Rightarrow> bool" where
  "sent_on c fp (AcOffer t c' fp' v, b) \<longleftrightarrow> b \<and> c' = c \<and> fp' = fp"
| "sent_on c fp (AcForget c', b) \<longleftrightarrow> c' = c"

definition last_sent :: "string \<Rightarrow> string \<Rightarrow> (ac_event \<times> bool) list \<Rightarrow> (int \<times> ac_value) option" where
  "last_sent c fp h =
    (case find (sent_on c fp) (rev h) of Some (AcOffer t _ _ v, _) \<Rightarrow> Some (t, v) | _ \<Rightarrow> None)"

lemma last_sent_snoc:
  "last_sent c fp [] = None"
  "last_sent c fp (h @ [(AcOffer t c' fp' v, b)]) = (if b \<and> c' = c \<and> fp' = fp then Some (t, v) else last_sent c fp h)"
  "last_sent c fp (h @ [(AcForget c', b)]) = (if c' = c then None else last_sent c fp h)"
  by (simp_all add: last_sent_def)

text \<open>The cache is exactly that.\<close>

definition ac_tracks :: "(ac_event \<times> bool) list \<Rightarrow> ac_entries \<Rightarrow> bool" where
  "ac_tracks h es \<longleftrightarrow> gm_ok es
    \<and> (\<forall>c fp. map_option (\<lambda>e. (aeLastEmit e, aeValue e)) (gm_get es (c, fp)) = last_sent c fp h)"

lemma gm_get_forget: "gm_get (forget c es) k = (if fst k = c then None else gm_get es k)"
  by (induction es) (auto simp: forget_def)

lemma gm_ok_forget: "gm_ok es \<Longrightarrow> gm_ok (forget c es)"
  by (simp add: forget_def distinct_map_filter)

lemma ac_tracks_step:
  assumes "ac_tracks h es"
  shows "ac_tracks (fst (ac_step i (h, es) e)) (snd (ac_step i (h, es) e))"
proof (cases e)
  case (AcOffer t c fp v)
  then show ?thesis
    using assms by (auto simp: ac_tracks_def last_sent_snoc should_emit_def Let_def
        split: option.splits prod.splits if_splits intro: distinct_update)
next
  case (AcForget c)
  then show ?thesis using assms by (auto simp: ac_tracks_def last_sent_snoc gm_get_forget gm_ok_forget)
qed

lemma ac_tracks_run: "ac_tracks (ac_run i evs) (snd (foldl (ac_step i) ([], []) evs))"
proof (induction evs rule: rev_induct)
  case Nil
  show ?case by (simp add: ac_tracks_def ac_run_def last_sent_snoc)
next
  case (snoc e evs)
  obtain h es where s: "foldl (ac_step i) ([], []) evs = (h, es)" by fastforce
  then show ?case using ac_tracks_step [of h es i e] snoc by (simp add: ac_run_def)
qed

lemma ac_run_snoc:
  "ac_run i (evs @ [AcOffer t c fp v]) = ac_run i evs @ [(AcOffer t c fp v,
     case last_sent c fp (ac_run i evs) of None \<Rightarrow> True
     | Some (t', v') \<Rightarrow> \<not> same_value v' v \<and> i \<le> t - t')]"
  "ac_run i (evs @ [AcForget c]) = ac_run i evs @ [(AcForget c, False)]"
proof -
  obtain h es where s: "foldl (ac_step i) ([], []) evs = (h, es)" by fastforce
  then have "ac_tracks h es" using ac_tracks_run [of i evs] by (simp add: ac_run_def)
  then have e: "map_option (\<lambda>e. (aeLastEmit e, aeValue e)) (gm_get es (c, fp)) = last_sent c fp h"
    by (simp add: ac_tracks_def)
  show "ac_run i (evs @ [AcOffer t c fp v]) = ac_run i evs @ [(AcOffer t c fp v,
     case last_sent c fp (ac_run i evs) of None \<Rightarrow> True | Some (t', v') \<Rightarrow> \<not> same_value v' v \<and> i \<le> t - t')]"
    using e [symmetric] by (cases "gm_get es (c, fp)") (auto simp: ac_run_def s should_emit_def Let_def)
  show "ac_run i (evs @ [AcForget c]) = ac_run i evs @ [(AcForget c, False)]"
    by (simp add: ac_run_def s)
qed

text \<open>Hints are coalesced and rate limited per cluster and profile. Whatever was offered before,
  and however sessions came and went, a hint goes out exactly when none was sent for its key since
  the cluster was last forgotten, or when it says something new and the interval has passed since
  the last one; what was suppressed in between leaves no trace.\<close>

theorem capacity_rate:
  assumes "ac_run i evs = before @ (AcOffer t c fp v, b) # after"
  shows "b \<longleftrightarrow> (case last_sent c fp before of None \<Rightarrow> True
      | Some (t', v') \<Rightarrow> \<not> same_value v' v \<and> i \<le> t - t')"
proof -
  have "\<exists>e. case (e, AcOffer t c fp v, b) of
      (AcOffer t' c' fp' v', e, b) \<Rightarrow> e = AcOffer t' c' fp' v'
        \<and> (b \<longleftrightarrow> (case last_sent c' fp' before of None \<Rightarrow> True
             | Some (t'', v'') \<Rightarrow> \<not> same_value v'' v' \<and> i \<le> t' - t''))
    | (AcForget c', e, b) \<Rightarrow> e = AcForget c' \<and> \<not> b"
  proof (rule run_entry [where run = "ac_run i", OF _ _ assms])
    show "ac_run i [] = []" by (simp add: ac_run_def)
    fix es e
    show "\<exists>x. (case (e, x) of
        (AcOffer t' c' fp' v', e, b) \<Rightarrow> e = AcOffer t' c' fp' v'
          \<and> (b \<longleftrightarrow> (case last_sent c' fp' (ac_run i es) of None \<Rightarrow> True
               | Some (t'', v'') \<Rightarrow> \<not> same_value v'' v' \<and> i \<le> t' - t''))
      | (AcForget c', e, b) \<Rightarrow> e = AcForget c' \<and> \<not> b) \<and> ac_run i (es @ [e]) = ac_run i es @ [x]"
      by (cases e) (auto simp: ac_run_snoc)
  qed
  then obtain e where e: "case (e, AcOffer t c fp v, b) of
      (AcOffer t' c' fp' v', e, b) \<Rightarrow> e = AcOffer t' c' fp' v'
        \<and> (b \<longleftrightarrow> (case last_sent c' fp' before of None \<Rightarrow> True
             | Some (t'', v'') \<Rightarrow> \<not> same_value v'' v' \<and> i \<le> t' - t''))
    | (AcForget c', e, b) \<Rightarrow> e = AcForget c' \<and> \<not> b" ..
  then show ?thesis by (cases e) simp_all
qed

theorem capacity_rate_witness:
  "\<exists>h b. ac_run 5 [AcOffer 0 ''c'' ''f'' \<lparr>acCount = 1, acConfidence = ConfidenceHigh, acCost = FFin 1\<rparr>,
         AcOffer 3 ''c'' ''f'' \<lparr>acCount = 2, acConfidence = ConfidenceHigh, acCost = FFin 1\<rparr>]
     = h @ [(AcOffer 3 ''c'' ''f'' \<lparr>acCount = 2, acConfidence = ConfidenceHigh, acCost = FFin 1\<rparr>, b)] \<and> b = False"
proof -
  let ?e = "\<lambda>t n. AcOffer t ''c'' ''f'' \<lparr>acCount = n, acConfidence = ConfidenceHigh, acCost = FFin 1\<rparr>"
  have r: "ac_run 5 [?e 0 1, ?e 3 2] = [(?e 0 1, True)] @ (?e 3 2, False) # []"
    by (simp add: ac_run_def should_emit_def Let_def)
  from capacity_rate [OF r] show ?thesis using r by auto
qed

section \<open>The cheapest price\<close>

text \<open>Zero stands for no price yet, so a free type is forgotten for the next one, however dear.\<close>

lemma free_type_overwritten:
  assumes "snap_by_type snap StateIdle t = m # ms" "snap_by_type snap StateIdle u = m' # ms'"
    and "PricePerHour m = f64_zero"
  shows "snd (snd (foldl (hint_step snap) (0, 0, f64_zero) [t, u])) = PricePerHour m'"
  using assms by (simp add: hint_step_def f64_eq_def)

end
