(* ===== verification/Shard.thy ===== *)
theory Shard
  imports Reconcile Safety Report Capacity
begin

text \<open>
  The shard (\<open>pkg/shard/shard.go\<close>, \<open>pkg/shard/session.go\<close>): its state, the ingest of a cluster's
  roll-up, the operator sessions, one decision cycle from reconciliation to dispatch, and the pool
  of workers that executes what cycles dispatch, as a step relation of all the goroutines that
  share the state.
\<close>

section \<open>Configuration\<close>

text \<open>A duration of zero, or phase-2 options left at their zero value, take the default.\<close>

record shard_config =
  scID :: string
  scProvider :: bool
  scEpoch :: bool
  scCycleInterval :: int
  scExecuteTimeout :: int
  scBootstrapTimeout :: int
  scPhase2 :: "phase2_options option"
  scMaxActions :: int
  scConcurrency :: int
  scAcInterval :: int
  scIncremental :: bool
  scPaused :: bool
  scDryRun :: bool
  scCapFraction :: f64
  scEmptyGuard :: bool
  scRelease :: "release_policy option"

datatype config_error = ErrNoID | ErrNoProvider | ErrNoEpoch

definition new_config :: "shard_config \<Rightarrow> config_error + shard_config" where
  "new_config cfg =
    (if scID cfg = '''' then Inl ErrNoID
     else if \<not> scProvider cfg then Inl ErrNoProvider
     else if \<not> scEpoch cfg then Inl ErrNoEpoch
     else Inr (cfg\<lparr>
       scCycleInterval := (if scCycleInterval cfg = 0 then 10 * 1000000000 else scCycleInterval cfg),
       scExecuteTimeout := (if scExecuteTimeout cfg = 0 then 30 * 1000000000 else scExecuteTimeout cfg),
       scBootstrapTimeout := (if scBootstrapTimeout cfg = 0 then 30 * 1000000000 else scBootstrapTimeout cfg),
       scPhase2 := (case scPhase2 cfg of None \<Rightarrow> Some default_phase2_options | Some o' \<Rightarrow> Some o')\<rparr>))"

definition phase2_opts :: "shard_config \<Rightarrow> phase2_options" where
  "phase2_opts cfg = (case scPhase2 cfg of None \<Rightarrow> default_phase2_options | Some o' \<Rightarrow> o')"

definition release_opts :: "shard_config \<Rightarrow> release_policy" where
  "release_opts cfg = (case scRelease cfg of None \<Rightarrow> default_release_policy | Some p \<Rightarrow> p)"

text \<open>Twice the number of workers, and at least one worker.\<close>

definition queue_capacity :: "shard_config \<Rightarrow> nat" where
  "queue_capacity cfg = (let conc = (if scConcurrency cfg \<le> 0 then 1 else scConcurrency cfg) in nat (conc * 2))"

section \<open>State\<close>

text \<open>
  The sessions by cluster (a session is a number; \<open>wSessions\<close> of the world lists the clusters),
  the action queue with the machines that have an action in it or with a worker, and the rest of
  the fields of the shard.
\<close>

record shard =
  shWorld :: world
  shTable :: needs_table
  shSessions :: "(string, nat) gomap"
  shClosed :: "nat list"
  shWakeup :: bool
  shLedger :: ledger
  shViews :: "need_views option"
  shDomains :: domains
  shCursor :: string
  shAges :: "(string, int) gomap"
  shCycles :: int
  shReconciled :: bool
  shAc :: ac_entries
  shQueue :: "action list"
  shPending :: "string list"
  shFirst :: "(string, bool) gomap"
  shGuard :: guard

definition new_shard :: "int \<Rightarrow> shard" where
  "new_shard now =
    \<lparr>shWorld = \<lparr>wInv = new_inventory, wSessions = [], wSent = [], wObserved = [], wNow = now\<rparr>,
     shTable = new_table, shSessions = [], shClosed = [], shWakeup = False, shLedger = [],
     shViews = None, shDomains = [], shCursor = '''', shAges = [], shCycles = 0,
     shReconciled = False, shAc = [], shQueue = [], shPending = [], shFirst = [], shGuard = []\<rparr>"

definition trigger_cycle :: "shard \<Rightarrow> shard" where
  "trigger_cycle sh = sh\<lparr>shWakeup := True\<rparr>"

section \<open>Roll-ups\<close>

definition first_rollup_received :: "shard \<Rightarrow> string \<Rightarrow> bool" where
  "first_rollup_received sh c = gm_at False (shFirst sh) c"

definition mark_first_rollup :: "string \<Rightarrow> shard \<Rightarrow> shard" where
  "mark_first_rollup c sh = sh\<lparr>shFirst := gm_set c True (shFirst sh)\<rparr>"

definition apply_rollup :: "shard_config \<Rightarrow> string \<Rightarrow> need list \<Rightarrow> shard \<Rightarrow> bool \<times> shard" where
  "apply_rollup cfg c ns sh =
    (let replace_needs = (\<lambda>sh. sh\<lparr>shTable := table_replace (shTable sh) c ns\<rparr>) in
     if scEmptyGuard cfg then
       (case admit (shGuard sh) c (length ns) of
          (v, g) \<Rightarrow>
            if \<not> gvAccepted v then (False, mark_first_rollup c (sh\<lparr>shGuard := g\<rparr>))
            else (True, mark_first_rollup c (replace_needs (sh\<lparr>shGuard := g\<rparr>))))
     else (True, mark_first_rollup c (replace_needs sh)))"

definition observe_rolled_up_demand :: "string \<Rightarrow> need list \<Rightarrow> world \<Rightarrow> world" where
  "observe_rolled_up_demand cluster ns w =
    (let seen = map (\<lambda>n. fingerprint (nProfile n)) ns;
         tracked = gm_at [] (wObserved w) cluster;
         tracked = foldl (\<lambda>t fp. if gm_get t fp = None then gm_set fp (wNow w) t else t) tracked (remdups seen);
         tracked = filter (\<lambda>(fp, _). fp \<in> set seen) tracked
     in w\<lparr>wObserved := gm_set cluster tracked (wObserved w)\<rparr>)"

text \<open>What the roll-up worker of session \<open>k\<close> of a cluster does with one message.\<close>

definition handle_rollup :: "'q qlib \<Rightarrow> shard_config \<Rightarrow> string \<Rightarrow> nat \<Rightarrow> pb_rollup option \<Rightarrow> shard \<Rightarrow> shard" where
  "handle_rollup Q cfg c k msg sh =
    (if k \<in> set (shClosed sh) then sh
     else case needs_from_rollup Q msg of
       Inl _ \<Rightarrow> sh
     | Inr ns \<Rightarrow>
         let sh = (case apply_rollup cfg c ns sh of
                     (False, sh) \<Rightarrow> sh
                   | (True, sh) \<Rightarrow> trigger_cycle (sh\<lparr>shWorld := observe_rolled_up_demand c ns (shWorld sh)\<rparr>))
         in if k \<in> set (shClosed sh) then sh
            else sh\<lparr>shWorld := send c (Acknowledgement ''rollup'') (shWorld sh)\<rparr>)"

text \<open>The channel of a session holds one roll-up; a newer one takes its place.\<close>

definition enqueue_rollup :: "pb_rollup \<Rightarrow> pb_rollup option \<Rightarrow> pb_rollup option" where
  "enqueue_rollup r slot = Some r"

section \<open>Sessions\<close>

text \<open>
  The identity of a caller: the URIs of its verified certificate, each a scheme and the whole
  text, or none on a transport without certificates.
\<close>

datatype identity_error = NoIdentity | TwoIdentities string string

type_synonym peer = "(string \<times> string) list option"

fun only_bigfleet :: "string \<Rightarrow> (string \<times> string) list \<Rightarrow> identity_error + string" where
  "only_bigfleet uri [] = (if uri = '''' then Inl NoIdentity else Inr uri)"
| "only_bigfleet uri ((scheme, u) # us) =
    (if scheme \<noteq> ''bigfleet'' then only_bigfleet uri us
     else if uri \<noteq> '''' then Inl (TwoIdentities uri u)
     else only_bigfleet u us)"

definition peer_identity :: "peer \<Rightarrow> (identity_error + string) option" where
  "peer_identity p = map_option (only_bigfleet '''') p"

definition cluster_uri :: "string \<Rightarrow> string" where
  "cluster_uri c = ''bigfleet://cluster/'' @ c"

datatype session_error = ErrHello | ErrIdentity identity_error | ErrNotAuthorized string string

definition check_hello :: "peer \<Rightarrow> string option \<Rightarrow> session_error + string" where
  "check_hello p hello =
    (case hello of None \<Rightarrow> Inl ErrHello
     | Some c \<Rightarrow>
       if c = '''' then Inl ErrHello
       else (case peer_identity p of
               None \<Rightarrow> Inr c
             | Some (Inl e) \<Rightarrow> Inl (ErrIdentity e)
             | Some (Inr uri) \<Rightarrow> if uri \<noteq> cluster_uri c then Inl (ErrNotAuthorized uri c) else Inr c))"

definition close_session :: "nat \<Rightarrow> shard \<Rightarrow> shard" where
  "close_session k sh = (if k \<in> set (shClosed sh) then sh else sh\<lparr>shClosed := shClosed sh @ [k]\<rparr>)"

definition install_session :: "string \<Rightarrow> nat \<Rightarrow> shard \<Rightarrow> shard" where
  "install_session c k sh =
    (let sh = (case gm_get (shSessions sh) c of None \<Rightarrow> sh | Some prev \<Rightarrow> close_session prev sh);
         w = shWorld sh
     in sh\<lparr>shSessions := gm_set c k (shSessions sh),
           shWorld := w\<lparr>wSessions := (if c \<in> set (wSessions w) then wSessions w else wSessions w @ [c])\<rparr>\<rparr>)"

definition remove_session :: "string \<Rightarrow> nat \<Rightarrow> shard \<Rightarrow> shard" where
  "remove_session c k sh =
    (let sh = (if gm_get (shSessions sh) c = Some k
               then let w = shWorld sh in
                    sh\<lparr>shSessions := gm_del c (shSessions sh),
                       shWorld := w\<lparr>wSessions := filter (\<lambda>d. d \<noteq> c) (wSessions w)\<rparr>\<rparr>
               else sh);
         sh = close_session k sh
     in sh\<lparr>shAc := forget c (shAc sh)\<rparr>)"

definition resync_node_state :: "string \<Rightarrow> world \<Rightarrow> world" where
  "resync_node_state c w =
    foldl (\<lambda>w m. notify_node_state m '''' w) w (snap_by_cluster (snapshot_of (wInv w)) c)"

text \<open>Opening a session up to its message loop.\<close>

definition open_session :: "peer \<Rightarrow> string option \<Rightarrow> nat \<Rightarrow> shard \<Rightarrow> (session_error + string) \<times> shard" where
  "open_session p hello k sh =
    (case check_hello p hello of
       Inl e \<Rightarrow> (Inl e, sh)
     | Inr c \<Rightarrow>
         let sh = install_session c k sh;
             w = send c (Acknowledgement ''hello'') (shWorld sh)
         in (Inr c, sh\<lparr>shWorld := resync_node_state c w\<rparr>))"

section \<open>One cycle\<close>

definition is_pending :: "shard \<Rightarrow> string \<Rightarrow> bool" where
  "is_pending sh k \<longleftrightarrow> k \<in> set (shPending sh)"

definition action_still_applicable :: "world \<Rightarrow> action \<Rightarrow> bool" where
  "action_still_applicable w a =
    (case inv_get (wInv w) (aMachineID a) of
       Inl _ \<Rightarrow> True
     | Inr cur \<Rightarrow>
         (case aKind a of
            ActionKindBootstrap \<Rightarrow> State cur = StateIdle
          | ActionKindProvision \<Rightarrow> State cur = StateSpeculative
          | ActionKindReclaim \<Rightarrow> State cur = StateConfigured
          | ActionKindPreempt \<Rightarrow> State cur = StateConfigured
          | ActionKindDelete \<Rightarrow> State cur = StateIdle
          | _ \<Rightarrow> True))"

text \<open>Offering one action to the workers: deduplicated, dropped when the queue is full, or queued.\<close>

definition offer :: "shard_config \<Rightarrow> action \<Rightarrow> shard \<Rightarrow> shard" where
  "offer cfg a sh =
    (if \<not> action_still_applicable (shWorld sh) a then sh
     else if is_pending sh (aMachineID a) then sh
     else if length (shQueue sh) \<ge> queue_capacity cfg then sh
     else sh\<lparr>shQueue := shQueue sh @ [a], shPending := shPending sh @ [aMachineID a]\<rparr>)"

definition actuating :: "shard_config \<Rightarrow> bool" where
  "actuating cfg \<longleftrightarrow> \<not> scPaused cfg \<and> \<not> scDryRun cfg"

text \<open>The rails between decision and execution: the cap, then the limit, with the deferred surplus.\<close>

definition rails :: "shard_config \<Rightarrow> snapshot \<Rightarrow> action list \<Rightarrow> action list \<times> nat" where
  "rails cfg snap as =
    (let as = (if actuating cfg \<and> f64_gt (scCapFraction cfg) f64_zero
               then fst (cap_reclaims snap as (scCapFraction cfg)) else as);
         limit = scMaxActions cfg
     in if actuating cfg \<and> limit > 0 \<and> int (length as) > limit
        then (take (nat limit) as, length as - nat limit) else (as, 0))"

definition dispatch :: "shard_config \<Rightarrow> action list \<Rightarrow> shard \<Rightarrow> shard" where
  "dispatch cfg as sh = (if \<not> actuating cfg then sh else foldl (\<lambda>sh a. offer cfg a sh) sh as)"

text \<open>Without a pool (a single step of the simulator) the actions are executed in order.\<close>

definition execute_inline :: "exec_env \<Rightarrow> shard_config \<Rightarrow> action list \<Rightarrow> shard \<Rightarrow> shard" where
  "execute_inline E cfg as sh =
    (if \<not> actuating cfg then sh
     else sh\<lparr>shWorld := foldl (\<lambda>w a. snd (execute_action E a w)) (shWorld sh) as\<rparr>)"

record cycle_plan =
  cpDemand :: "need list"
  cpPhase1 :: phase1_result
  cpPhase2 :: phase2_result
  cpActions :: "action list"

text \<open>The decision, from one snapshot of the inventory and one of the demand; \<open>g\<close> and \<open>f\<close> are fuel.\<close>

definition decide ::
    "nat \<Rightarrow> nat \<Rightarrow> 'q qlib \<Rightarrow> shard_config \<Rightarrow> snapshot \<Rightarrow> need list \<Rightarrow> shard
      \<Rightarrow> cycle_plan run_result option" where
  "decide g f Q cfg snap rows sh =
    (let demand = stamp_parked_needs (shAges sh) (normalize_demand Q snap rows) in
     case phase1 g f Q snap demand of
       None \<Rightarrow> None
     | Some Blocked \<Rightarrow> Some Blocked
     | Some (Returned p1) \<Rightarrow>
         let p2 = phase2 Q snap (p1Unsatisfied p1) (phase2_opts cfg);
             p3 = phase3 snap (set (p1Claimed p1)) (first_rollup_received sh) (release_opts cfg) (wNow (shWorld sh))
         in Some (Returned \<lparr>cpDemand = demand, cpPhase1 = p1, cpPhase2 = p2,
                  cpActions = p1Actions p1 @ p2Actions p2 @ p3\<rparr>))"

definition reconcile_shard ::
    "(string \<Rightarrow> f64 option) \<Rightarrow> shard_config \<Rightarrow> list_call \<Rightarrow> shard \<Rightarrow> shard" where
  "reconcile_shard parseF cfg lst sh =
    (case reconcile (scIncremental cfg) parseF (shPending sh) lst (shCursor sh) (shWorld sh) of
       (err, cursor, w) \<Rightarrow>
         sh\<lparr>shWorld := w, shCursor := cursor, shReconciled := (err = None \<or> shReconciled sh)\<rparr>)"

text \<open>
  One cycle that nothing interleaves with; \<open>pool\<close> says whether workers take the actions.
\<close>

definition run_shard_cycle ::
    "nat \<Rightarrow> nat \<Rightarrow> 'q qlib \<Rightarrow> (string \<Rightarrow> f64 option) \<Rightarrow> exec_env \<Rightarrow> shard_config \<Rightarrow> list_call \<Rightarrow> bool
      \<Rightarrow> shard \<Rightarrow> (action list \<times> shard) run_result option" where
  "run_shard_cycle g f Q parseF E cfg lst pool sh =
    (let sh = reconcile_shard parseF cfg lst (sh\<lparr>shCycles := shCycles sh + 1\<rparr>);
         snap = snapshot_of (wInv (shWorld sh));
         (rows, table) = table_snapshot (shTable sh);
         sh = sh\<lparr>shTable := table\<rparr>
     in case decide g f Q cfg snap rows sh of
          None \<Rightarrow> None
        | Some Blocked \<Rightarrow> Some Blocked
        | Some (Returned plan) \<Rightarrow>
            let p1 = cpPhase1 plan; p2 = cpPhase2 plan;
                sh = sh\<lparr>shAges := record_unsat_same_ages (p1Unsatisfied p1) (shAges sh)\<rparr>;
                (ac, w) = emit_available_capacity (ac_interval (scAcInterval cfg)) snap (cpDemand plan)
                            (shAc sh, shWorld sh);
                sh = sh\<lparr>shAc := ac, shWorld := w\<rparr>;
                (as, deferred) = rails cfg snap (cpActions plan);
                sh = (if pool then dispatch cfg as sh else execute_inline E cfg as sh);
                sh = (if deferred > 0 then trigger_cycle sh else sh);
                sh = sh\<lparr>shLedger := record_shortfalls Q (seeds_of (p2Unresolved p2)) (shLedger sh)\<rparr>;
                sh = sh\<lparr>shViews := Some (record_need_views (shCycles sh) (wNow (shWorld sh)) (cpDemand plan)
                          (shLedger sh) (shAges sh) (p1Verdicts p1) (p2Unresolved p2))\<rparr>
            in Some (Returned (as, sh)))"

end
