(* ===== verification/Workers.thy ===== *)
theory Workers
  imports Shard
begin

text \<open>
  The goroutines of a shard that share its state (\<open>Run\<close>, \<open>executeWorker\<close>, the cycle and the
  sessions of \<open>pkg/shard/shard.go\<close> and \<open>session.go\<close>) as a step relation: every atomic section of
  one of them is a step, and a run is any interleaving of steps. A worker's execution of an action
  is a series of writes to its own machine and of messages, with steps of the others in between.
\<close>

section \<open>Steps\<close>

record workers =
  wkShard :: shard
  wkRunning :: "action list"

datatype actor = ActCycle | ActPrune string | ActWorker string | ActSession

abbreviation with_world :: "workers \<Rightarrow> (world \<Rightarrow> world) \<Rightarrow> workers" where
  "with_world p f \<equiv> p\<lparr>wkShard := (wkShard p)\<lparr>shWorld := f (shWorld (wkShard p))\<rparr>\<rparr>"

text \<open>A worker takes the head of the queue; when the execution returns it clears the machine.\<close>

definition pick_up :: "workers \<Rightarrow> workers option" where
  "pick_up p =
    (case shQueue (wkShard p) of
       [] \<Rightarrow> None
     | a # q \<Rightarrow> Some (p\<lparr>wkShard := (wkShard p)\<lparr>shQueue := q\<rparr>, wkRunning := wkRunning p @ [a]\<rparr>))"

definition clear_pending :: "string \<Rightarrow> shard \<Rightarrow> shard" where
  "clear_pending k sh = sh\<lparr>shPending := filter (\<lambda>x. x \<noteq> k) (shPending sh)\<rparr>"

text \<open>
  The end of a full pass (\<open>reconcileFull\<close>) removes the machines that the provider did not list, one
  \<open>Remove\<close> at a time and without looking at what is in flight: any machine may go at any moment, and
  the step names it.
\<close>

inductive pool_step :: "'q qlib \<Rightarrow> shard_config \<Rightarrow> actor \<Rightarrow> workers \<Rightarrow> workers \<Rightarrow> bool" for Q cfg where
  offers: "pool_step Q cfg ActCycle p (p\<lparr>wkShard := offer cfg a (wkShard p)\<rparr>)"
| merges: "pool_step Q cfg ActCycle p
    (with_world p (apply_reconciled_machine parseF (shPending (wkShard p)) dm))"
| prunes: "pool_step Q cfg (ActPrune j) p (with_world p (\<lambda>w. w\<lparr>wInv := snd (inv_remove (wInv w) j)\<rparr>))"
| hints: "pool_step Q cfg ActCycle p (with_world p (send c (AvailableCapacityUpdate u)))"
| picks: "pick_up p = Some p' \<Longrightarrow> pool_step Q cfg ActCycle p p'"
| writes: "a \<in> set (wkRunning p) \<Longrightarrow> pred_option keeps_state mut \<Longrightarrow>
    pool_step Q cfg (ActWorker (aMachineID a)) p
      (with_world p (\<lambda>w. snd (apply_transition (aMachineID a) t mut w)))"
| says: "a \<in> set (wkRunning p) \<Longrightarrow> pool_step Q cfg (ActWorker (aMachineID a)) p (with_world p (send c msg))"
| observes: "a \<in> set (wkRunning p) \<Longrightarrow>
    pool_step Q cfg (ActWorker (aMachineID a)) p (with_world p (\<lambda>w. w\<lparr>wObserved := ob\<rparr>))"
| returns: "wkRunning p = xs @ a # ys \<Longrightarrow>
    pool_step Q cfg (ActWorker (aMachineID a)) p
      (p\<lparr>wkShard := clear_pending (aMachineID a) (wkShard p), wkRunning := xs @ ys\<rparr>)"
| rollups: "pool_step Q cfg ActSession p (p\<lparr>wkShard := handle_rollup Q cfg c k msg (wkShard p)\<rparr>)"
| opens: "pool_step Q cfg ActSession p (p\<lparr>wkShard := snd (open_session peer hello k (wkShard p))\<rparr>)"
| closes: "pool_step Q cfg ActSession p (p\<lparr>wkShard := remove_session c k (wkShard p)\<rparr>)"
| ticks: "pool_step Q cfg ActSession p (with_world p (\<lambda>w. w\<lparr>wNow := t\<rparr>))"

inductive worker_run :: "'q qlib \<Rightarrow> shard_config \<Rightarrow> workers \<Rightarrow> workers \<Rightarrow> bool" for Q cfg where
  start: "worker_run Q cfg p p"
| more: "worker_run Q cfg p p' \<Longrightarrow> pool_step Q cfg act p' p'' \<Longrightarrow> worker_run Q cfg p p''"



section \<open>What sessions leave alone\<close>

lemma notify_world [simp]:
  "wInv (notify_node_state m c w) = wInv w" "wSessions (notify_node_state m c w) = wSessions w"
  by (simp_all add: notify_node_state_def send_def Let_def)

lemma resync_world [simp]: "wInv (resync_node_state c w) = wInv w"
proof -
  have "wInv (foldl (\<lambda>w m. notify_node_state m '''' w) w ms) = wInv w" for ms by (induction ms arbitrary: w) simp_all
  then show ?thesis by (simp add: resync_node_state_def)
qed

lemma handle_rollup_fields [simp]:
  "wInv (shWorld (handle_rollup Q cfg c k msg sh)) = wInv (shWorld sh)"
  "shQueue (handle_rollup Q cfg c k msg sh) = shQueue sh" "shPending (handle_rollup Q cfg c k msg sh) = shPending sh"
  by (auto simp: handle_rollup_def apply_rollup_def mark_first_rollup_def trigger_cycle_def send_def
      observe_rolled_up_demand_def Let_def split: sum.splits prod.splits bool.splits)

lemma session_fields [simp]:
  "wInv (shWorld (snd (open_session peer hello k sh))) = wInv (shWorld sh)"
  "shQueue (snd (open_session peer hello k sh)) = shQueue sh"
  "shPending (snd (open_session peer hello k sh)) = shPending sh"
  "wInv (shWorld (remove_session c k sh)) = wInv (shWorld sh)"
  "shQueue (remove_session c k sh) = shQueue sh" "shPending (remove_session c k sh) = shPending sh"
  by (auto simp: open_session_def install_session_def remove_session_def close_session_def send_def Let_def
      split: sum.splits option.splits)

section \<open>One worker per machine\<close>

text \<open>The machines in flight: each once, in the queue or with one worker.\<close>

definition in_flight :: "workers \<Rightarrow> string list" where
  "in_flight p = map aMachineID (shQueue (wkShard p) @ wkRunning p)"

definition workers_ok :: "shard_config \<Rightarrow> workers \<Rightarrow> bool" where
  "workers_ok cfg p \<longleftrightarrow> inv_ok (wInv (shWorld (wkShard p))) \<and> distinct (in_flight p)
     \<and> set (shPending (wkShard p)) = set (in_flight p)
     \<and> length (shQueue (wkShard p)) \<le> queue_capacity cfg"

lemma transition_ok: "inv_ok (wInv w) \<Longrightarrow> pred_option keeps_state mut \<Longrightarrow>
    inv_ok (wInv (snd (apply_transition k t mut w)))"
  using moving.transition [of mut k w t] by (simp add: moves_def)

lemma workers_ok_step:
  assumes "pool_step Q cfg act p p'" "workers_ok cfg p"
  shows "workers_ok cfg p'"
  using assms
proof (cases rule: pool_step.cases)
  case (offers a)
  then show ?thesis using assms(2) by (auto simp: workers_ok_def in_flight_def offer_def is_pending_def)
next
  case (merges parseF dm)
  then show ?thesis using assms(2) reconciled_step(1) by (auto simp: workers_ok_def in_flight_def)
next
  case (prunes j)
  then show ?thesis using assms(2) inv_ok_remove by (auto simp: workers_ok_def in_flight_def)
next
  case (picks)
  then have m: "mset (in_flight p') = mset (in_flight p)" and s: "wkShard p' = (wkShard p)\<lparr>shQueue := tl (shQueue (wkShard p))\<rparr>"
    by (auto simp: in_flight_def pick_up_def split: list.splits)
  from mset_eq_imp_distinct_iff [OF m] mset_eq_setD [OF m] show ?thesis
    using assms(2) unfolding workers_ok_def s by auto
next
  case (writes a mut t)
  then show ?thesis using assms(2) transition_ok by (auto simp: workers_ok_def in_flight_def)
next
  case (returns xs a ys)
  define A where "A = map aMachineID (shQueue (wkShard p) @ xs)"
  define B where "B = map aMachineID ys"
  have f: "in_flight p = A @ aMachineID a # B" "in_flight p' = A @ B"
    using returns by (simp_all add: in_flight_def A_def B_def clear_pending_def)
  show ?thesis using assms(2) returns unfolding workers_ok_def f by (auto simp: clear_pending_def)
qed (use assms(2) in \<open>auto simp: workers_ok_def in_flight_def send_def\<close>)

lemma workers_ok_run: "worker_run Q cfg p p' \<Longrightarrow> workers_ok cfg p \<Longrightarrow> workers_ok cfg p'"
  by (induction rule: worker_run.induct) (auto intro: workers_ok_step)

lemma workers_ok_new: "workers_ok cfg \<lparr>wkShard = new_shard now, wkRunning = []\<rparr>"
  by (simp add: workers_ok_def in_flight_def new_shard_def inv_ok_new)

text \<open>C35: however the cycle, the workers, the sessions, the provider's updates and the removals of a
  full reconcile interleave, a machine has at most one action in flight: no two queued or running
  actions are for one machine, the pending set is exactly the machines in flight, the queue never
  exceeds its capacity, and the inventory stays well formed.\<close>

theorem one_action_per_machine:
  assumes "worker_run Q cfg \<lparr>wkShard = new_shard now, wkRunning = []\<rparr> p"
  shows "distinct (map aMachineID (shQueue (wkShard p) @ wkRunning p))
    \<and> set (shPending (wkShard p)) = aMachineID ` set (shQueue (wkShard p) @ wkRunning p)
    \<and> length (shQueue (wkShard p)) \<le> queue_capacity cfg \<and> inv_ok (wInv (shWorld (wkShard p)))"
  using workers_ok_run [OF assms workers_ok_new] by (simp add: workers_ok_def in_flight_def image_Un)

section \<open>A machine in flight is left to its worker\<close>

text \<open>A full pass is a series of these removals.\<close>

lemma remove_unseen_steps:
  "(\<lambda>p p'. \<exists>j. j \<notin> set seen \<and> pool_step Q cfg (ActPrune j) p p')\<^sup>*\<^sup>* p (with_world p (remove_unseen seen))"
proof -
  define f :: "world \<Rightarrow> machine \<Rightarrow> world" where "f = (\<lambda>w m. if ID m \<in> set seen then w else w\<lparr>wInv := snd (inv_remove (wInv w) (ID m))\<rparr>)"
  have "(\<lambda>p p'. \<exists>j. j \<notin> set seen \<and> pool_step Q cfg (ActPrune j) p p')\<^sup>*\<^sup>* p (with_world p (\<lambda>w. foldl f w ms))" for ms
  proof (induction ms rule: rev_induct)
    case (snoc m ms)
    let ?p = "with_world p (\<lambda>w. foldl f w ms)"
    show ?case
    proof (cases "ID m \<in> set seen")
      case False
      then have "\<exists>j. j \<notin> set seen \<and> pool_step Q cfg (ActPrune j) ?p (with_world p (\<lambda>w. foldl f w (ms @ [m])))"
        using pool_step.prunes [of Q cfg "ID m" ?p] by (auto simp: f_def)
      with snoc show ?thesis by (rule rtranclp.rtrancl_into_rtrancl)
    qed (use snoc in \<open>simp add: f_def\<close>)
  qed simp
  then show ?thesis unfolding remove_unseen_def f_def .
qed



section \<open>An execution is a series of steps\<close>

text \<open>The writes of the worker of machine \<open>k\<close>, and the moves of the others between them.\<close>

inductive own_write :: "(world \<Rightarrow> world \<Rightarrow> bool) \<Rightarrow> string \<Rightarrow> world \<Rightarrow> world \<Rightarrow> bool" for others k where
  transition: "pred_option keeps_state mut \<Longrightarrow> own_write others k w (snd (apply_transition k t mut w))"
| sending: "own_write others k w (send c msg w)"
| observing: "own_write others k w (w\<lparr>wObserved := ob\<rparr>)"
| interference: "others w w' \<Longrightarrow> own_write others k w w'"

interpretation stepwise: worker_guarantee "\<lambda>k. (own_write others k)\<^sup>*\<^sup>*" for others
  by unfold_locales (auto intro: own_write.intros r_into_rtranclp)

lemma execution_is_steps:
  assumes "calls_in others E"
  shows "(own_write others (aMachineID a))\<^sup>*\<^sup>* w (snd (execute_action E a w))"
proof -
  have "calls_in ((own_write others (aMachineID a))\<^sup>*\<^sup>*) E"
    using assms by (rule calls_in_mono) (auto intro: own_write.intros)
  then show ?thesis by (rule stepwise.execute)
qed


section \<open>Dispatch\<close>

text \<open>What a dispatch leaves: the queue grows by a part of the actions, in their order.\<close>

definition dispatched :: "shard_config \<Rightarrow> shard \<Rightarrow> action list \<Rightarrow> action list \<Rightarrow> shard \<Rightarrow> bool" where
  "dispatched cfg sh as new sh' \<longleftrightarrow> subseq new as
     \<and> sh' = sh\<lparr>shQueue := shQueue sh @ new, shPending := shPending sh @ map aMachineID new\<rparr>
     \<and> (length (shQueue sh) \<le> queue_capacity cfg \<longrightarrow> length (shQueue sh') \<le> queue_capacity cfg)
     \<and> distinct (map aMachineID new) \<and> set (map aMachineID new) \<inter> set (shPending sh) = {}
     \<and> list_all (action_still_applicable (shWorld sh)) new
     \<and> (\<forall>a. a \<in> set as \<and> a \<notin> set new \<longrightarrow> \<not> action_still_applicable (shWorld sh) a
          \<or> aMachineID a \<in> set (shPending sh') \<or> queue_capacity cfg \<le> length (shQueue sh'))"

lemma offers_dispatched: "\<exists>new. dispatched cfg sh as new (foldl (\<lambda>sh a. offer cfg a sh) sh as)"
proof (induction as rule: rev_induct)
  case Nil
  show ?case by (rule exI [of _ "[]"]) (simp add: dispatched_def)
next
  case (snoc a as)
  define sh1 where "sh1 = foldl (\<lambda>sh a. offer cfg a sh) sh as"
  obtain new where n: "dispatched cfg sh as new sh1" using snoc by (auto simp: sh1_def)
  then have w: "shWorld sh1 = shWorld sh" by (simp add: dispatched_def)
  show ?case
  proof (cases "action_still_applicable (shWorld sh) a \<and> aMachineID a \<notin> set (shPending sh1)
      \<and> length (shQueue sh1) < queue_capacity cfg")
    case True
    then have "dispatched cfg sh (as @ [a]) (new @ [a]) (offer cfg a sh1)"
      using n w unfolding dispatched_def by (auto simp: offer_def is_pending_def)
    then show ?thesis by (auto simp: sh1_def)
  next
    case False
    then have "offer cfg a sh1 = sh1" using w by (auto simp: offer_def is_pending_def)
    moreover have "dispatched cfg sh (as @ [a]) new sh1"
      using n False w unfolding dispatched_def by (auto simp: subseq_rev_drop_many)
    ultimately show ?thesis by (auto simp: sh1_def)
  qed
qed

text \<open>A cycle hands its actions to the workers in order, each machine once, and only while they
  still make sense: each new entry of the queue starts from the state its machine is in now and its
  machine had nothing in flight; an action is left out only when its machine has moved on, has
  something in flight, or the queue is full, and the queue never exceeds its capacity. A paused or
  shadowing shard hands over nothing, and takes nothing out of its decision either; otherwise what
  is offered is a prefix, within the limit, of the capped decision.\<close>

theorem dispatch_exact:
  fixes cfg :: shard_config and sh :: shard and snap :: snapshot and as :: "action list"
  defines "railed \<equiv> rails cfg snap as"
  shows "if actuating cfg
     then (\<exists>new. dispatched cfg sh (fst railed) new (dispatch cfg (fst railed) sh))
       \<and> (\<exists>capped. prefix (fst railed) capped \<and> snd railed = length capped - length (fst railed)
            \<and> capped = (if f64_gt (scCapFraction cfg) f64_zero then fst (cap_reclaims snap as (scCapFraction cfg)) else as)
            \<and> (scMaxActions cfg \<le> 0 \<or> int (length (fst railed)) \<le> scMaxActions cfg))
     else dispatch cfg (fst railed) sh = sh \<and> railed = (as, 0)"
proof (cases "actuating cfg")
  case True
  let ?capped = "if f64_gt (scCapFraction cfg) f64_zero then fst (cap_reclaims snap as (scCapFraction cfg)) else as"
  have "prefix (fst railed) ?capped \<and> snd railed = length ?capped - length (fst railed)
      \<and> (scMaxActions cfg \<le> 0 \<or> int (length (fst railed)) \<le> scMaxActions cfg)"
    using True by (auto simp: railed_def rails_def Let_def take_is_prefix)
  then show ?thesis using True offers_dispatched by (auto simp: dispatch_def)
qed (simp add: railed_def rails_def dispatch_def Let_def)

section \<open>Roll-ups\<close>

text \<open>C37: a roll-up replaces its cluster's demand as a whole or not at all. One that does not decode
  changes nothing; one that decodes marks the cluster as heard of, and then either replaces the
  cluster's rows, records when each of its fingerprints was first seen (and forgets the others) and
  asks for a cycle, or, held back by the guard, leaves the demand of every cluster as it was. No
  other cluster's rows and no machine change either way.\<close>

theorem rollup_ingest_exact:
  assumes "k \<notin> set (shClosed sh)"
  shows "case needs_from_rollup Q msg of
      Inl e \<Rightarrow> handle_rollup Q cfg c k msg sh = sh
    | Inr ns \<Rightarrow>
        let sh' = handle_rollup Q cfg c k msg sh; v = fst (admit (shGuard sh) c (length ns)) in
        first_rollup_received sh' c
        \<and> (\<forall>d. d \<noteq> c \<longrightarrow> first_rollup_received sh' d = first_rollup_received sh d
             \<and> gm_at [] (byCluster (shTable sh')) d = gm_at [] (byCluster (shTable sh)) d)
        \<and> wInv (shWorld sh') = wInv (shWorld sh)
        \<and> (if scEmptyGuard cfg \<and> \<not> gvAccepted v
           then shTable sh' = shTable sh \<and> shWakeup sh' = shWakeup sh
             \<and> wObserved (shWorld sh') = wObserved (shWorld sh)
           else gm_at [] (byCluster (shTable sh')) c = ns \<and> shWakeup sh'
             \<and> (\<forall>fp. gm_get (gm_at [] (wObserved (shWorld sh')) c) fp =
                  (if fp \<notin> (\<lambda>n. fingerprint (nProfile n)) ` set ns then None
                   else case gm_get (gm_at [] (wObserved (shWorld sh)) c) fp of
                          None \<Rightarrow> Some (wNow (shWorld sh)) | Some t \<Rightarrow> Some t)))"
proof (cases "needs_from_rollup Q msg")
  case (Inl e)
  then show ?thesis by (simp add: handle_rollup_def)
next
  case (Inr ns)
  have seen: "gm_get (foldl (\<lambda>t fp. if gm_get t fp = None then gm_set fp now t else t) m fps) fp
      = (if fp \<in> set fps \<and> gm_get m fp = None then Some now else gm_get m fp)"
    for now :: int and m fps and fp :: string
    by (induction fps arbitrary: m) auto
  have filt: "gm_get (filter (\<lambda>(k, _). k \<in> A) m) fp = (if fp \<in> A then gm_get m fp else None)"
    for A and m :: "(string, int) gomap" and fp
    by (induction m) auto
  show ?thesis
    using assms Inr
    by (cases "admit (shGuard sh) c (length ns)")
       (auto simp: handle_rollup_def apply_rollup_def mark_first_rollup_def first_rollup_received_def
         trigger_cycle_def send_def observe_rolled_up_demand_def table_replace_def Let_def seen filt
         split: option.splits simp del: map_of_eq_Some_iff)
qed

section \<open>Sessions\<close>

text \<open>A session belongs to the cluster the caller proves to be. On a transport with certificates
  a Hello opens a session for a cluster only when the certificate carries exactly one identity and
  it is that cluster's; a refused Hello changes nothing. An accepted one becomes the cluster's
  session and closes the one before it; the end of a session that was replaced does not unregister
  its successor.\<close>

theorem session_identity:
  "case open_session (Some uris) hello k sh of
      (Inl e, sh') \<Rightarrow> sh' = sh
    | (Inr c, sh') \<Rightarrow> hello = Some c \<and> c \<noteq> ''''
        \<and> map snd (filter (\<lambda>u. fst u = ''bigfleet'' \<and> snd u \<noteq> '''') uris) = [cluster_uri c]
        \<and> gm_get (shSessions sh') c = Some k
        \<and> (\<forall>prev. gm_get (shSessions sh) c = Some prev \<longrightarrow> prev \<in> set (shClosed sh')
             \<and> (prev \<noteq> k \<longrightarrow> gm_get (shSessions (remove_session c prev sh')) c = Some k))"
proof -
  have ids: "only_bigfleet uri us = Inr x \<Longrightarrow> x \<noteq> '''' \<and>
      (if uri = '''' then map snd (filter (\<lambda>u. fst u = ''bigfleet'' \<and> snd u \<noteq> '''') us) = [x]
       else uri = x \<and> filter (\<lambda>u. fst u = ''bigfleet'') us = [])" for uri us x
    by (induction uri us rule: only_bigfleet.induct) (auto simp: filter_empty_conv split: if_splits)
  show ?thesis
    using ids [of "''''" uris]
    by (auto simp: open_session_def check_hello_def peer_identity_def install_session_def remove_session_def
        close_session_def send_def Let_def split: sum.splits option.splits if_splits)
qed


section \<open>Concrete runs\<close>

definition sample_config :: shard_config where
  "sample_config = \<lparr>scID = ''s1'', scProvider = True, scEpoch = True, scCycleInterval = 10000000000,
     scExecuteTimeout = 30000000000, scBootstrapTimeout = 30000000000, scPhase2 = None, scMaxActions = 0,
     scConcurrency = 2, scAcInterval = 0, scIncremental = False, scPaused = False, scDryRun = False,
     scCapFraction = FFin 0, scEmptyGuard = True, scRelease = None\<rparr>"

definition sample_start :: workers where
  "sample_start = \<lparr>wkShard = new_shard 0, wkRunning = []\<rparr>"

definition sample_seen :: workers where
  "sample_seen = with_world sample_start
     (apply_reconciled_machine (\<lambda>_. None) [] (sample_machine ''b'' StateIdle '''' ''z1''))"

definition sample_queued :: workers where
  "sample_queued = sample_seen\<lparr>wkShard := offer sample_config sample_bootstrap (wkShard sample_seen)\<rparr>"

definition sample_picked :: workers where
  "sample_picked = (case pick_up sample_queued of None \<Rightarrow> sample_queued | Some p \<Rightarrow> p)"


lemma sample_queue:
  "map aMachineID (shQueue (wkShard sample_queued)) = [''b'']" "map aMachineID (wkRunning sample_picked) = [''b'']"
  "shPending (wkShard sample_picked) = [''b'']"
  by code_simp+

lemma sample_picked_run: "worker_run int_lib sample_config sample_start sample_picked"
proof -
  have p: "shPending (wkShard sample_start) = []" by (simp add: sample_start_def new_shard_def)
  have "pool_step int_lib sample_config ActCycle sample_start sample_seen"
    using pool_step.merges [of int_lib sample_config sample_start] by (simp only: sample_seen_def p)
  moreover have "pool_step int_lib sample_config ActCycle sample_seen sample_queued"
    unfolding sample_queued_def by (rule pool_step.offers)
  moreover have "pool_step int_lib sample_config ActCycle sample_queued sample_picked"
    using sample_queue(1) by (intro pool_step.picks) (auto simp: sample_picked_def pick_up_def split: list.splits)
  ultimately show ?thesis by (blast intro: worker_run.intros)
qed

theorem one_action_per_machine_witness:
  "distinct (map aMachineID (shQueue (wkShard sample_picked) @ wkRunning sample_picked))
    \<and> aMachineID ` set (shQueue (wkShard sample_picked) @ wkRunning sample_picked) = {''b''}"
proof -
  note T = one_action_per_machine [OF sample_picked_run [unfolded sample_start_def]]
  have "set (shPending (wkShard sample_picked)) = {''b''}" by (simp add: sample_queue)
  then show ?thesis using T by simp
qed


theorem rollup_ingest_exact_witness:
  "first_rollup_received (handle_rollup int_lib sample_config ''c1'' 1 None (new_shard 0)) ''c1''
    \<and> shWakeup (handle_rollup int_lib sample_config ''c1'' 1 None (new_shard 0))"
proof -
  have n: "1 \<notin> set (shClosed (new_shard 0))" by (simp add: new_shard_def)
  have a: "gvAccepted (fst (admit (shGuard (new_shard 0)) ''c1'' (length ([] :: need list))))"
    by (simp add: new_shard_def admit_def Let_def suspicious_def gm_at_def zero_entry_def)
  have e: "needs_from_rollup int_lib None = Inr []" by (simp add: needs_from_rollup_def)
  show ?thesis
    using rollup_ingest_exact [OF n, where Q = int_lib and msg = None and cfg = sample_config and c = "''c1''",
        unfolded e] a
    by (simp add: Let_def)
qed

theorem session_identity_witness:
  "\<exists>sh. open_session (Some [(''spiffe'', ''x''), (''bigfleet'', cluster_uri ''c1'')]) (Some ''c1'') 2
        (install_session ''c1'' 3 (new_shard 0)) = (Inr ''c1'', sh)
     \<and> gm_get (shSessions sh) ''c1'' = Some 2 \<and> 3 \<in> set (shClosed sh)
     \<and> gm_get (shSessions (remove_session ''c1'' 3 sh)) ''c1'' = Some 2"
proof -
  let ?o = "open_session (Some [(''spiffe'', ''x''), (''bigfleet'', cluster_uri ''c1'')]) (Some ''c1'') 2
        (install_session ''c1'' 3 (new_shard 0))"
  have c: "fst ?o = Inr ''c1''"
    by (simp add: open_session_def check_hello_def peer_identity_def cluster_uri_def Let_def)
  have s: "gm_get (shSessions (install_session ''c1'' 3 (new_shard 0))) ''c1'' = Some 3"
    by (simp add: install_session_def Let_def new_shard_def)
  obtain sh where o: "?o = (Inr ''c1'', sh)" using c by (cases ?o) simp
  show ?thesis
    using session_identity [where uris = "[(''spiffe'', ''x''), (''bigfleet'', cluster_uri ''c1'')]"
        and hello = "Some ''c1''" and k = 2 and sh = "install_session ''c1'' 3 (new_shard 0)"] s by (simp add: o)
qed

end
