(* ===== verification/Coordinator.thy ===== *)
theory Coordinator
  imports Prelude
begin

text \<open>
  The replicated state of the coordinator (\<open>pkg/coordinator/state.go\<close>) and the commands that Raft
  commits on it (\<open>pkg/coordinator/fsm.go\<close>). Raft is not modelled: it delivers one log of encoded
  commands to every replica; the JSON codec is an argument. A time of zero is Go's zero time.
\<close>

section \<open>State\<close>

record registration =
  reID :: string
  reAddress :: string
  reRegisteredAt :: int
  reLastHeartbeat :: int

record coord_state =
  csShards :: "(string, registration) gomap"
  csClusters :: "(string, string) gomap"
  csDomains :: "(string \<times> string, string) gomap"

definition new_state :: coord_state where
  "new_state = \<lparr>csShards = [], csClusters = [], csDomains = []\<rparr>"

datatype coord_error =
    ErrIDRequired
  | ErrShardExists string
  | ErrShardNotFound string
  | ErrClusterAlreadyBound string string string
  | ErrDomainAlreadyAssigned "string \<times> string" string string
  | ErrPayloadMissing nat
  | ErrUnknownCommand nat
  | ErrDecodeCommand

definition add_shard :: "int \<Rightarrow> registration \<Rightarrow> coord_state \<Rightarrow> coord_error option \<times> coord_state" where
  "add_shard now e s =
    (if reID e = '''' then (Some ErrIDRequired, s)
     else if gm_get (csShards s) (reID e) \<noteq> None then (Some (ErrShardExists (reID e)), s)
     else
       let e = (if reRegisteredAt e = 0 then e\<lparr>reRegisteredAt := now\<rparr> else e)
       in (None, s\<lparr>csShards := gm_set (reID e) e (csShards s)\<rparr>))"

definition remove_shard :: "string \<Rightarrow> coord_state \<Rightarrow> coord_error option \<times> coord_state" where
  "remove_shard k s =
    (if gm_get (csShards s) k = None then (Some (ErrShardNotFound k), s)
     else (None, s\<lparr>csShards := gm_del k (csShards s),
                   csClusters := filter (\<lambda>(c, sh). sh \<noteq> k) (csClusters s),
                   csDomains := filter (\<lambda>(d, sh). sh \<noteq> k) (csDomains s)\<rparr>))"

definition mark_heartbeat :: "string \<Rightarrow> int \<Rightarrow> coord_state \<Rightarrow> coord_state" where
  "mark_heartbeat k t s =
    (case gm_get (csShards s) k of
       None \<Rightarrow> s
     | Some e \<Rightarrow> s\<lparr>csShards := gm_set k (e\<lparr>reLastHeartbeat := t\<rparr>) (csShards s)\<rparr>)"

definition list_shards :: "coord_state \<Rightarrow> registration list" where
  "list_shards s = sort_less (\<lambda>a b. reID a < reID b) (map snd (csShards s))"

definition bind_cluster :: "string \<Rightarrow> string \<Rightarrow> coord_state \<Rightarrow> coord_error option \<times> coord_state" where
  "bind_cluster c sh s =
    (if gm_get (csShards s) sh = None then (Some (ErrShardNotFound sh), s)
     else case gm_get (csClusters s) c of
       Some cur \<Rightarrow> if cur = sh then (None, s) else (Some (ErrClusterAlreadyBound c cur sh), s)
     | None \<Rightarrow> (None, s\<lparr>csClusters := gm_set c sh (csClusters s)\<rparr>))"

definition coord_assign_domain ::
    "string \<times> string \<Rightarrow> string \<Rightarrow> coord_state \<Rightarrow> coord_error option \<times> coord_state" where
  "coord_assign_domain d sh s =
    (if gm_get (csShards s) sh = None then (Some (ErrShardNotFound sh), s)
     else case gm_get (csDomains s) d of
       Some cur \<Rightarrow> if cur \<noteq> sh then (Some (ErrDomainAlreadyAssigned d cur sh), s)
                  else (None, s\<lparr>csDomains := gm_set d sh (csDomains s)\<rparr>)
     | None \<Rightarrow> (None, s\<lparr>csDomains := gm_set d sh (csDomains s)\<rparr>))"

definition coord_unassign_domain :: "string \<times> string \<Rightarrow> coord_state \<Rightarrow> coord_state" where
  "coord_unassign_domain d s = s\<lparr>csDomains := gm_del d (csDomains s)\<rparr>"

definition domains_for_shard :: "string \<Rightarrow> coord_state \<Rightarrow> (string \<times> string) list" where
  "domains_for_shard sh s =
    sort_less (\<lambda>a b. if fst a \<noteq> fst b then fst a < fst b else snd a < snd b)
      (map fst (filter (\<lambda>(d, own). own = sh) (csDomains s)))"

section \<open>Commands\<close>

abbreviation (input) cmd_add_shard :: nat where "cmd_add_shard \<equiv> 1"
abbreviation (input) cmd_remove_shard :: nat where "cmd_remove_shard \<equiv> 2"
abbreviation (input) cmd_bind_cluster :: nat where "cmd_bind_cluster \<equiv> 3"
abbreviation (input) cmd_assign_domain :: nat where "cmd_assign_domain \<equiv> 4"
abbreviation (input) cmd_unassign_domain :: nat where "cmd_unassign_domain \<equiv> 5"

record coord_command =
  ccKind :: nat
  ccAddShard :: "registration option"
  ccRemoveShard :: "string option"
  ccBindCluster :: "(string \<times> string) option"
  ccAssignDomain :: "((string \<times> string) \<times> string) option"
  ccUnassignDomain :: "(string \<times> string) option"

definition no_command :: coord_command where
  "no_command = \<lparr>ccKind = 0, ccAddShard = None, ccRemoveShard = None, ccBindCluster = None,
     ccAssignDomain = None, ccUnassignDomain = None\<rparr>"

definition make_add_shard :: "int \<Rightarrow> registration \<Rightarrow> coord_command" where
  "make_add_shard now e = no_command\<lparr>ccKind := cmd_add_shard,
     ccAddShard := Some (if reRegisteredAt e = 0 then e\<lparr>reRegisteredAt := now\<rparr> else e)\<rparr>"

definition make_remove_shard :: "string \<Rightarrow> coord_command" where
  "make_remove_shard k = no_command\<lparr>ccKind := cmd_remove_shard, ccRemoveShard := Some k\<rparr>"

definition make_bind_cluster :: "string \<Rightarrow> string \<Rightarrow> coord_command" where
  "make_bind_cluster c sh = no_command\<lparr>ccKind := cmd_bind_cluster, ccBindCluster := Some (c, sh)\<rparr>"

definition make_assign_domain :: "string \<times> string \<Rightarrow> string \<Rightarrow> coord_command" where
  "make_assign_domain d sh = no_command\<lparr>ccKind := cmd_assign_domain, ccAssignDomain := Some (d, sh)\<rparr>"

definition make_unassign_domain :: "string \<times> string \<Rightarrow> coord_command" where
  "make_unassign_domain d = no_command\<lparr>ccKind := cmd_unassign_domain, ccUnassignDomain := Some d\<rparr>"

definition apply_command :: "int \<Rightarrow> coord_command \<Rightarrow> coord_state \<Rightarrow> coord_error option \<times> coord_state" where
  "apply_command now cmd s =
    (if ccKind cmd = cmd_add_shard then
       (case ccAddShard cmd of None \<Rightarrow> (Some (ErrPayloadMissing cmd_add_shard), s) | Some e \<Rightarrow> add_shard now e s)
     else if ccKind cmd = cmd_remove_shard then
       (case ccRemoveShard cmd of None \<Rightarrow> (Some (ErrPayloadMissing cmd_remove_shard), s) | Some k \<Rightarrow> remove_shard k s)
     else if ccKind cmd = cmd_bind_cluster then
       (case ccBindCluster cmd of None \<Rightarrow> (Some (ErrPayloadMissing cmd_bind_cluster), s)
        | Some (c, sh) \<Rightarrow> bind_cluster c sh s)
     else if ccKind cmd = cmd_assign_domain then
       (case ccAssignDomain cmd of None \<Rightarrow> (Some (ErrPayloadMissing cmd_assign_domain), s)
        | Some (d, sh) \<Rightarrow> coord_assign_domain d sh s)
     else if ccKind cmd = cmd_unassign_domain then
       (case ccUnassignDomain cmd of None \<Rightarrow> (Some (ErrPayloadMissing cmd_unassign_domain), s)
        | Some d \<Rightarrow> (None, coord_unassign_domain d s))
     else (Some (ErrUnknownCommand (ccKind cmd)), s))"

text \<open>Raft hands a replica the bytes of a command.\<close>

definition fsm_apply ::
    "('b \<Rightarrow> coord_command option) \<Rightarrow> int \<Rightarrow> 'b \<Rightarrow> coord_state \<Rightarrow> coord_error option \<times> coord_state" where
  "fsm_apply dec now data s =
    (case dec data of None \<Rightarrow> (Some ErrDecodeCommand, s) | Some cmd \<Rightarrow> apply_command now cmd s)"

section \<open>Snapshots\<close>

record state_snapshot =
  spShards :: "registration list"
  spClusters :: "(string, string) gomap"
  spDomains :: "((string \<times> string) \<times> string) list"

definition take_snapshot :: "coord_state \<Rightarrow> state_snapshot" where
  "take_snapshot s = \<lparr>spShards = map snd (csShards s), spClusters = csClusters s, spDomains = csDomains s\<rparr>"

text \<open>Restoring replays the three parts on a fresh state and drops whatever is refused.\<close>

definition restore :: "int \<Rightarrow> state_snapshot \<Rightarrow> coord_state" where
  "restore now p =
    foldl (\<lambda>s (d, sh). snd (coord_assign_domain d sh s))
      (foldl (\<lambda>s (c, sh). snd (bind_cluster c sh s))
        (foldl (\<lambda>s e. snd (add_shard now e s)) new_state (spShards p))
        (spClusters p))
      (spDomains p)"

definition fsm_snapshot :: "(state_snapshot \<Rightarrow> 'b) \<Rightarrow> coord_state \<Rightarrow> 'b" where
  "fsm_snapshot enc s = enc (take_snapshot s)"

definition fsm_restore :: "('b \<Rightarrow> state_snapshot option) \<Rightarrow> int \<Rightarrow> 'b \<Rightarrow> coord_state \<Rightarrow> bool \<times> coord_state" where
  "fsm_restore dec now data s = (case dec data of None \<Rightarrow> (False, s) | Some p \<Rightarrow> (True, restore now p))"

section \<open>What a state satisfies\<close>

definition coord_ok :: "coord_state \<Rightarrow> bool" where
  "coord_ok s \<longleftrightarrow> gm_ok (csShards s) \<and> gm_ok (csClusters s) \<and> gm_ok (csDomains s)
     \<and> (\<forall>k e. gm_get (csShards s) k = Some e \<longrightarrow> reID e = k \<and> k \<noteq> '''')
     \<and> (\<forall>c sh. gm_get (csClusters s) c = Some sh \<longrightarrow> gm_get (csShards s) sh \<noteq> None)
     \<and> (\<forall>d sh. gm_get (csDomains s) d = Some sh \<longrightarrow> gm_get (csShards s) sh \<noteq> None)"

lemma gm_get_filter_val:
  "gm_ok m \<Longrightarrow> gm_get (filter (\<lambda>(k, v). P v) m) k = (case gm_get m k of None \<Rightarrow> None | Some v \<Rightarrow> if P v then Some v else None)"
  by (induction m) (auto simp: gm_get_none_iff [symmetric] split: option.splits)

lemma coord_ok_new: "coord_ok new_state"
  by (simp add: coord_ok_def new_state_def)

lemma coord_ok_ops:
  assumes "coord_ok s"
  shows "coord_ok (snd (add_shard now e s))" "coord_ok (snd (remove_shard k s))" "coord_ok (mark_heartbeat k t s)"
    "coord_ok (snd (bind_cluster c sh s))" "coord_ok (snd (coord_assign_domain d sh s))" "coord_ok (coord_unassign_domain d s)"
proof -
  note ok = assms [unfolded coord_ok_def]
  show "coord_ok (snd (add_shard now e s))"
    using ok by (auto simp: add_shard_def coord_ok_def Let_def distinct_update simp del: map_of_eq_Some_iff)
  show "coord_ok (snd (remove_shard k s))"
    using ok by (auto simp: remove_shard_def coord_ok_def gm_get_filter_val distinct_delete distinct_map_filter
        split: option.splits if_splits simp del: map_of_eq_Some_iff)
  show "coord_ok (mark_heartbeat k t s)"
    using ok by (auto simp: mark_heartbeat_def coord_ok_def distinct_update split: option.splits if_splits
        simp del: map_of_eq_Some_iff)
  show "coord_ok (snd (bind_cluster c sh s))"
    using ok by (auto simp: bind_cluster_def coord_ok_def distinct_update split: option.splits if_splits
        simp del: map_of_eq_Some_iff)
  show "coord_ok (snd (coord_assign_domain d sh s))"
    using ok by (auto simp: coord_assign_domain_def coord_ok_def distinct_update split: option.splits if_splits
        simp del: map_of_eq_Some_iff)
  show "coord_ok (coord_unassign_domain d s)"
    using ok by (auto simp: coord_unassign_domain_def coord_ok_def distinct_delete split: if_splits
        simp del: map_of_eq_Some_iff)
qed

lemma coord_ok_apply: "coord_ok s \<Longrightarrow> coord_ok (snd (apply_command now cmd s))"
  by (auto simp: apply_command_def coord_ok_ops split: option.splits prod.splits)


section \<open>Replicas\<close>

text \<open>
  A replica applies the log at times of its own, stamps heartbeats on its state outside the log, and may at
  any point be restored from a snapshot of a replica that has applied the same log. The snapshot lists the
  entries of Go maps, in any order.
\<close>

abbreviation same_entries :: "coord_state \<Rightarrow> coord_state \<Rightarrow> bool" where
  "same_entries s t \<equiv> mset (csShards s) = mset (csShards t) \<and> mset (csClusters s) = mset (csClusters t)
     \<and> mset (csDomains s) = mset (csDomains t)"

inductive replica for dec sdec senc where
  fresh: "replica dec sdec senc [] [] new_state"
| applied: "replica dec sdec senc ds es s \<Longrightarrow> fsm_apply dec now d s = (e, s')
    \<Longrightarrow> replica dec sdec senc (ds @ [d]) (es @ [e]) s'"
| beat: "replica dec sdec senc ds es s \<Longrightarrow> replica dec sdec senc ds es (mark_heartbeat k t s)"
| restored: "replica dec sdec senc ds es s \<Longrightarrow> same_entries s t
    \<Longrightarrow> fsm_restore sdec now (fsm_snapshot senc t) any = (True, s') \<Longrightarrow> replica dec sdec senc ds es s'"

text \<open>The reference: the log, applied in order at no particular time.\<close>

fun run_log :: "('b \<Rightarrow> coord_command option) \<Rightarrow> 'b list \<Rightarrow> coord_state \<Rightarrow> coord_error option list \<times> coord_state" where
  "run_log dec [] s = ([], s)"
| "run_log dec (d # ds) s =
    (let (e, s) = fsm_apply dec 0 d s; (es, s) = run_log dec ds s in (e # es, s))"

abbreviation forget_beat :: "registration \<Rightarrow> registration" where
  "forget_beat e \<equiv> e\<lparr>reLastHeartbeat := 0\<rparr>"

definition agrees :: "coord_state \<Rightarrow> coord_state \<Rightarrow> bool" where
  "agrees s t \<longleftrightarrow> gm_get (csClusters s) = gm_get (csClusters t) \<and> gm_get (csDomains s) = gm_get (csDomains t)
     \<and> map_option forget_beat \<circ> gm_get (csShards s) = map_option forget_beat \<circ> gm_get (csShards t)"

definition stamped :: "coord_command \<Rightarrow> bool" where
  "stamped cmd \<longleftrightarrow> (\<forall>e. ccAddShard cmd = Some e \<longrightarrow> reRegisteredAt e \<noteq> 0)"

definition all_stamped :: "coord_state \<Rightarrow> bool" where
  "all_stamped s \<longleftrightarrow> (\<forall>k e. gm_get (csShards s) k = Some e \<longrightarrow> reRegisteredAt e \<noteq> 0)"

lemma run_log_snoc:
  "run_log dec (ds @ [d]) s =
    (let (es, s) = run_log dec ds s; (e, s) = fsm_apply dec 0 d s in (es @ [e], s))"
  by (induction ds arbitrary: s) (auto simp: Let_def split: prod.splits)

lemma agrees_iff:
  "agrees s t \<longleftrightarrow> (\<forall>c. gm_get (csClusters s) c = gm_get (csClusters t) c)
     \<and> (\<forall>d. gm_get (csDomains s) d = gm_get (csDomains t) d)
     \<and> (\<forall>k. map_option forget_beat (gm_get (csShards s) k) = map_option forget_beat (gm_get (csShards t) k))"
  by (auto simp: agrees_def fun_eq_iff simp del: map_of_eq_None_iff)

lemma agrees_sym: "agrees s t \<Longrightarrow> agrees t s" and agrees_trans: "agrees s t \<Longrightarrow> agrees t u \<Longrightarrow> agrees s u"
  by (simp_all add: agrees_def)

lemma agrees_shard: "agrees s t \<Longrightarrow> gm_get (csShards s) k = None \<longleftrightarrow> gm_get (csShards t) k = None"
  unfolding agrees_iff by (metis option.map_disc_iff)

lemma coord_ok_fsm: "coord_ok s \<Longrightarrow> coord_ok (snd (fsm_apply dec now d s))"
  by (simp add: fsm_apply_def coord_ok_apply split: option.split)

lemma all_stamped_ops:
  assumes "all_stamped s"
  shows "reRegisteredAt e \<noteq> 0 \<Longrightarrow> all_stamped (snd (add_shard now e s))" "coord_ok s \<Longrightarrow> all_stamped (snd (remove_shard k s))"
    "all_stamped (mark_heartbeat k t s)" "all_stamped (snd (bind_cluster c sh s))"
    "all_stamped (snd (coord_assign_domain d sh s))" "all_stamped (coord_unassign_domain d s)"
  using assms by (auto simp: all_stamped_def add_shard_def remove_shard_def mark_heartbeat_def bind_cluster_def
      coord_assign_domain_def coord_unassign_domain_def coord_ok_def split: option.splits if_splits
      simp del: map_of_eq_Some_iff map_of_eq_None_iff)

lemma all_stamped_apply:
  "all_stamped s \<Longrightarrow> coord_ok s \<Longrightarrow> stamped cmd \<Longrightarrow> all_stamped (snd (apply_command now cmd s))"
  by (auto simp: apply_command_def all_stamped_ops stamped_def split: option.splits prod.splits)

lemma agrees_beat: "agrees (mark_heartbeat k t s) s"
  by (auto simp: agrees_iff mark_heartbeat_def split: option.splits simp del: map_of_eq_Some_iff map_of_eq_None_iff)

lemma agrees_add_shard:
  assumes "agrees s t" and "reRegisteredAt e \<noteq> 0"
  shows "fst (add_shard now e s) = fst (add_shard now' e t)" "agrees (snd (add_shard now e s)) (snd (add_shard now' e t))"
  using assms(2) assms(1) [unfolded agrees_iff] agrees_shard [OF assms(1), of "reID e"]
  by (auto simp: add_shard_def agrees_iff simp del: map_of_eq_Some_iff map_of_eq_None_iff)

lemma agrees_remove_shard:
  assumes "agrees s t" and "coord_ok s" and "coord_ok t"
  shows "fst (remove_shard k s) = fst (remove_shard k t)" "agrees (snd (remove_shard k s)) (snd (remove_shard k t))"
  using assms(1) [unfolded agrees_iff] assms(2,3) agrees_shard [OF assms(1), of k]
  by (auto simp: remove_shard_def agrees_iff coord_ok_def gm_get_filter_val simp del: map_of_eq_Some_iff map_of_eq_None_iff)

lemma agrees_bind_cluster:
  assumes "agrees s t"
  shows "fst (bind_cluster c sh s) = fst (bind_cluster c sh t)" "agrees (snd (bind_cluster c sh s)) (snd (bind_cluster c sh t))"
  using assms [unfolded agrees_iff] agrees_shard [OF assms(1), of sh]
  by (auto simp: bind_cluster_def agrees_iff split: option.split simp del: map_of_eq_Some_iff map_of_eq_None_iff)

lemma agrees_assign_domain:
  assumes "agrees s t"
  shows "fst (coord_assign_domain d sh s) = fst (coord_assign_domain d sh t)"
    "agrees (snd (coord_assign_domain d sh s)) (snd (coord_assign_domain d sh t))"
  using assms [unfolded agrees_iff] agrees_shard [OF assms(1), of sh]
  by (auto simp: coord_assign_domain_def agrees_iff split: option.split simp del: map_of_eq_Some_iff map_of_eq_None_iff split_paired_All)

lemma agrees_unassign_domain: "agrees s t \<Longrightarrow> agrees (coord_unassign_domain d s) (coord_unassign_domain d t)"
  by (auto simp: coord_unassign_domain_def agrees_iff)

lemmas agrees_ops = agrees_add_shard agrees_remove_shard agrees_bind_cluster agrees_assign_domain agrees_unassign_domain

lemma agrees_apply:
  assumes "agrees s t" and "coord_ok s" and "coord_ok t" and "stamped cmd"
  shows "fst (apply_command now cmd s) = fst (apply_command now' cmd t)"
    "agrees (snd (apply_command now cmd s)) (snd (apply_command now' cmd t))"
  using assms agrees_add_shard [OF assms(1), where now = now and now' = now']
  by (auto simp: apply_command_def agrees_ops(3-) stamped_def split: option.splits prod.splits)

subsection \<open>Restoring a snapshot\<close>

lemma replay_entries:
  assumes "\<And>m k v. gm_get m k = None \<Longrightarrow> P k v \<Longrightarrow> f (upd m) (k, v) = upd (gm_set k v m)"
    and "gm_ok A" and "\<And>k v. (k, v) \<in> set A \<Longrightarrow> P k v \<and> gm_get m k = None"
  shows "foldl f (upd m) A = upd (foldl (\<lambda>m (k, v). gm_set k v m) m A)"
  using assms(2-)
proof (induction A arbitrary: m)
  case (Cons a A)
  obtain k v where a: "a = (k, v)" by (cases a)
  have "f (upd m) (k, v) = upd (gm_set k v m)" using Cons.prems a by (intro assms(1)) auto
  moreover have "foldl f (upd (gm_set k v m)) A = upd (foldl (\<lambda>m (k, v). gm_set k v m) (gm_set k v m) A)"
    using Cons.prems a by (intro Cons.IH) (auto simp del: map_of_eq_None_iff, force)
  ultimately show ?case using a by simp
qed simp

lemma gm_get_replayed:
  assumes "gm_ok A"
  shows "gm_get (foldl (\<lambda>m (k, e). gm_set k e m) m A) k = (case gm_get A k of None \<Rightarrow> gm_get m k | Some v \<Rightarrow> Some v)"
  using assms
proof (induction A arbitrary: m)
  case (Cons a A)
  then have "gm_get A (fst a) = None" by (simp add: gm_get_none_iff)
  with Cons show ?case by (cases a) (simp split: option.split)
qed simp

lemma restore_shards:
  assumes "gm_ok A" and "\<And>k e. (k, e) \<in> set A \<Longrightarrow> reID e = k \<and> k \<noteq> '''' \<and> reRegisteredAt e \<noteq> 0"
  shows "foldl (\<lambda>s e. snd (add_shard now e s)) new_state (map snd A) =
    new_state\<lparr>csShards := foldl (\<lambda>m (k, e). gm_set k e m) [] A\<rparr>"
proof -
  have "foldl (\<lambda>s (k, e). snd (add_shard now e s)) (new_state\<lparr>csShards := []\<rparr>) A =
      new_state\<lparr>csShards := foldl (\<lambda>m (k, e). gm_set k e m) [] A\<rparr>"
    by (rule replay_entries [where P = "\<lambda>k e. reID e = k \<and> k \<noteq> '''' \<and> reRegisteredAt e \<noteq> 0"])
      (auto simp: add_shard_def assms)
  moreover have "new_state\<lparr>csShards := []\<rparr> = new_state" by (simp add: new_state_def)
  ultimately show ?thesis by (simp add: foldl_map case_prod_unfold)
qed

lemma restore_clusters:
  assumes "gm_ok C" and "csClusters s = []" and "\<And>c sh. (c, sh) \<in> set C \<Longrightarrow> gm_get (csShards s) sh \<noteq> None"
  shows "foldl (\<lambda>s (c, sh). snd (bind_cluster c sh s)) s C =
    s\<lparr>csClusters := foldl (\<lambda>m (k, e). gm_set k e m) [] C\<rparr>"
proof -
  have "foldl (\<lambda>s (c, sh). snd (bind_cluster c sh s)) (s\<lparr>csClusters := []\<rparr>) C =
      s\<lparr>csClusters := foldl (\<lambda>m (k, e). gm_set k e m) [] C\<rparr>"
    by (rule replay_entries [where P = "\<lambda>c sh. gm_get (csShards s) sh \<noteq> None"])
      (auto simp: bind_cluster_def assms simp del: map_of_eq_None_iff)
  moreover have "s\<lparr>csClusters := []\<rparr> = s" using assms(2) by simp
  ultimately show ?thesis by simp
qed

lemma restore_domains:
  assumes "gm_ok D" and "csDomains s = []" and "\<And>d sh. (d, sh) \<in> set D \<Longrightarrow> gm_get (csShards s) sh \<noteq> None"
  shows "foldl (\<lambda>s (d, sh). snd (coord_assign_domain d sh s)) s D =
    s\<lparr>csDomains := foldl (\<lambda>m (k, e). gm_set k e m) [] D\<rparr>"
proof -
  have "foldl (\<lambda>s (d, sh). snd (coord_assign_domain d sh s)) (s\<lparr>csDomains := []\<rparr>) D =
      s\<lparr>csDomains := foldl (\<lambda>m (k, e). gm_set k e m) [] D\<rparr>"
    by (rule replay_entries [where P = "\<lambda>d sh. gm_get (csShards s) sh \<noteq> None"])
      (auto simp: coord_assign_domain_def assms simp del: map_of_eq_None_iff)
  moreover have "s\<lparr>csDomains := []\<rparr> = s" using assms(2) by simp
  ultimately show ?thesis by simp
qed

lemma same_entries_get:
  assumes "mset A = mset B" and "gm_ok A"
  shows "gm_ok B" "gm_get B k = gm_get A k" "set B = set A"
proof -
  show 1: "gm_ok B" using assms by (metis mset_eq_imp_distinct_iff mset_map)
  show 3: "set B = set A" using assms(1) by (metis mset_eq_setD)
  show "gm_get B k = gm_get A k" using map_of_inject_set [OF 1 assms(2)] 3 by simp
qed

text \<open>On a well-formed state, restoring its snapshot loses nothing, whatever the order of the entries.\<close>

lemma restore_snapshot:
  assumes "coord_ok s" and "all_stamped s" and "same_entries s t"
  shows "gm_get (csShards (restore now (take_snapshot t))) k = gm_get (csShards s) k"
    "gm_get (csClusters (restore now (take_snapshot t))) c = gm_get (csClusters s) c"
    "gm_get (csDomains (restore now (take_snapshot t))) d = gm_get (csDomains s) d"
proof -
  define S C D where "S = foldl (\<lambda>m (k, e). gm_set k e m) [] (csShards t)"
    and "C = foldl (\<lambda>m (k, e). gm_set k e m) [] (csClusters t)"
    and "D = foldl (\<lambda>m (k, e). gm_set k e m) [] (csDomains t)"
  note ok = assms(1) [unfolded coord_ok_def]
  note same = same_entries_get [of "csShards s" "csShards t"] same_entries_get [of "csClusters s" "csClusters t"]
    same_entries_get [of "csDomains s" "csDomains t"]
  have okt: "gm_ok (csShards t)" "gm_ok (csClusters t)" "gm_ok (csDomains t)" using same ok assms(3) by blast+
  have S: "gm_get S k = gm_get (csShards s) k" for k
    unfolding S_def gm_get_replayed [OF okt(1)] using same(2) ok assms(3) by (simp split: option.split)
  have C: "gm_get C k = gm_get (csClusters s) k" for k
    unfolding C_def gm_get_replayed [OF okt(2)] using same(5) ok assms(3) by (simp split: option.split)
  have D: "gm_get D k = gm_get (csDomains s) k" for k
    unfolding D_def gm_get_replayed [OF okt(3)] using same(8) ok assms(3) by (simp split: option.split)
  have shards: "foldl (\<lambda>s e. snd (add_shard now e s)) new_state (map snd (csShards t)) = new_state\<lparr>csShards := S\<rparr>"
    unfolding S_def using same(3) ok assms(2,3)
    by (intro restore_shards [OF okt(1)]) (auto simp: all_stamped_def gm_get_some_iff)
  have "foldl (\<lambda>s (c, sh). snd (bind_cluster c sh s)) (new_state\<lparr>csShards := S\<rparr>) (csClusters t) =
      new_state\<lparr>csShards := S, csClusters := C\<rparr>"
    unfolding C_def using same(6) ok assms(3)
    by (subst restore_clusters [OF okt(2)]) (auto simp: S new_state_def gm_get_some_iff simp del: map_of_eq_None_iff)
  moreover have "foldl (\<lambda>s (d, sh). snd (coord_assign_domain d sh s)) (new_state\<lparr>csShards := S, csClusters := C\<rparr>) (csDomains t) =
      new_state\<lparr>csShards := S, csClusters := C, csDomains := D\<rparr>"
    unfolding D_def using same(9) ok assms(3)
    by (subst restore_domains [OF okt(3)]) (auto simp: S new_state_def gm_get_some_iff simp del: map_of_eq_None_iff)
  ultimately have "restore now (take_snapshot t) = new_state\<lparr>csShards := S, csClusters := C, csDomains := D\<rparr>"
    by (simp add: restore_def take_snapshot_def shards)
  then show "gm_get (csShards (restore now (take_snapshot t))) k = gm_get (csShards s) k"
    "gm_get (csClusters (restore now (take_snapshot t))) c = gm_get (csClusters s) c"
    "gm_get (csDomains (restore now (take_snapshot t))) d = gm_get (csDomains s) d"
    by (simp_all add: S C D)
qed

lemma coord_ok_foldl:
  assumes "\<And>s x. coord_ok s \<Longrightarrow> coord_ok (f s x)" and "coord_ok s"
  shows "coord_ok (foldl f s xs)"
  using assms(2) by (induction xs arbitrary: s) (auto intro: assms(1))

lemma coord_ok_restore: "coord_ok (restore now p)"
  unfolding restore_def by (intro coord_ok_foldl) (auto simp: coord_ok_new coord_ok_ops)

section \<open>Every replica is where the log says\<close>

lemma replica_reference:
  assumes "replica dec sdec senc ds es s" and "\<And>p. sdec (senc p) = Some p"
    and "\<And>d cmd. d \<in> set ds \<Longrightarrow> dec d = Some cmd \<Longrightarrow> stamped cmd"
  shows "coord_ok s \<and> all_stamped s \<and> coord_ok (snd (run_log dec ds new_state))
    \<and> es = fst (run_log dec ds new_state) \<and> agrees s (snd (run_log dec ds new_state))"
  using assms(1,3)
proof (induction ds es s rule: replica.induct)
  case fresh
  show ?case by (simp add: coord_ok_new agrees_def all_stamped_def) (simp add: new_state_def)
next
  case (applied ds es s now d e s')
  define r where "r = run_log dec ds new_state"
  have IH: "coord_ok s" "all_stamped s" "coord_ok (snd r)" "es = fst r" "agrees s (snd r)"
    using applied.IH applied.prems unfolding r_def by auto
  have "fst (fsm_apply dec now d s) = fst (fsm_apply dec 0 d (snd r))
      \<and> agrees (snd (fsm_apply dec now d s)) (snd (fsm_apply dec 0 d (snd r)))
      \<and> all_stamped (snd (fsm_apply dec now d s))"
  proof (cases "dec d")
    case (Some cmd)
    then have "stamped cmd" using applied.prems by auto
    with Some show ?thesis
      using IH agrees_apply [OF IH(5,1,3), of cmd now 0] by (simp add: fsm_apply_def all_stamped_apply)
  qed (simp add: fsm_apply_def IH)
  then show ?case
    using coord_ok_fsm [OF IH(1), of dec now d] coord_ok_fsm [OF IH(3), of dec 0 d] IH(4) applied.hyps(2)
    unfolding run_log_snoc r_def [symmetric] by (auto simp: Let_def split: prod.splits)
next
  case (beat ds es s k t)
  have "agrees (mark_heartbeat k t s) (snd (run_log dec ds new_state))"
    using beat agrees_trans [OF agrees_beat] by auto
  with beat show ?case by (auto simp: coord_ok_ops all_stamped_ops)
next
  case (restored ds es s t now any s')
  have s': "s' = restore now (take_snapshot t)"
    using restored.hyps(3) by (simp add: fsm_restore_def fsm_snapshot_def assms(2))
  have IH: "coord_ok s" "all_stamped s" using restored.IH restored.prems by auto
  have get: "gm_get (csShards s') = gm_get (csShards s)" "gm_get (csClusters s') = gm_get (csClusters s)"
    "gm_get (csDomains s') = gm_get (csDomains s)"
    unfolding s' fun_eq_iff using restore_snapshot [OF IH restored.hyps(2)] by auto
  then have "agrees s' s" "all_stamped s'" using IH(2) by (simp_all add: agrees_def all_stamped_def)
  then show ?case
    using restored.IH restored.prems agrees_trans [of s' s] s' by (auto simp: coord_ok_restore)
qed

text \<open>C38: The coordinator's state is determined by the Raft log alone. Two replicas that applied the same
  commands, each at times of its own, with heartbeats stamped outside the log and snapshots restored at any
  point (in any order of the snapshot's entries), returned the same errors and hold the same clusters, domains
  and shards, but for the time of the last heartbeat; provided the registrations in the log carry their time,
  as MakeAddShardCommand ensures.\<close>
theorem replicas_agree:
  assumes "replica dec sdec senc ds es s" and "replica dec sdec senc ds es' s'"
    and "\<forall>p. sdec (senc p) = Some p"
    and "\<forall>d \<in> set ds. \<forall>cmd. dec d = Some cmd \<longrightarrow> stamped cmd"
  shows "es = es' \<and> agrees s s'"
  using replica_reference [OF assms(1)] replica_reference [OF assms(2)] assms(3,4)
  by (metis agrees_sym agrees_trans)

abbreviation witness_log :: "coord_command list" where
  "witness_log \<equiv> [make_add_shard 5 \<lparr>reID = ''s'', reAddress = '''', reRegisteredAt = 0, reLastHeartbeat = 0\<rparr>]"

lemma replica_one:
  "fsm_apply dec now d new_state = (e, s') \<Longrightarrow> replica dec sdec senc [d] [e] s'"
  using replica.applied [OF replica.fresh] by fastforce

theorem replicas_agree_witness:
  "\<exists>s s'. replica Some Some id witness_log [None] s \<and> replica Some Some id witness_log [None] s' \<and> s \<noteq> s'
     \<and> agrees s s'"
proof -
  define s where "s = snd (fsm_apply Some 7 (hd witness_log) new_state)"
  have one: "replica Some Some id witness_log [None] s"
    by (rule replica_one [where now = 7]) (simp add: s_def fsm_apply_def make_add_shard_def no_command_def apply_command_def
        add_shard_def new_state_def)
  then have two: "replica Some Some id witness_log [None] (mark_heartbeat ''s'' 9 s)" by (rule replica.beat)
  have "s \<noteq> mark_heartbeat ''s'' 9 s"
    by (simp add: s_def fsm_apply_def make_add_shard_def no_command_def apply_command_def add_shard_def new_state_def
        mark_heartbeat_def)
  moreover have "agrees s (mark_heartbeat ''s'' 9 s)"
    using replicas_agree [OF one two]
    by (simp add: stamped_def make_add_shard_def no_command_def)
  ultimately show ?thesis using one two by blast
qed

section \<open>Bindings are permanent\<close>

text \<open>What one command may change of a binding.\<close>

lemma ops_keep_binding:
  assumes "gm_get (csClusters s) c = Some sh"
  shows "gm_get (csClusters (snd (add_shard now e s))) c = Some sh"
    "k \<noteq> sh \<Longrightarrow> coord_ok s \<Longrightarrow> gm_get (csClusters (snd (remove_shard k s))) c = Some sh"
    "gm_get (csClusters (snd (bind_cluster c' sh' s))) c = Some sh"
    "gm_get (csClusters (snd (coord_assign_domain d sh' s))) c = Some sh"
    "gm_get (csClusters (coord_unassign_domain d s)) c = Some sh"
  using assms by (auto simp: add_shard_def remove_shard_def bind_cluster_def coord_assign_domain_def
      coord_unassign_domain_def Let_def coord_ok_def gm_get_filter_val split: option.split
      simp del: map_of_eq_Some_iff map_of_eq_None_iff)

definition removes :: "('b \<Rightarrow> coord_command option) \<Rightarrow> string \<Rightarrow> 'b \<Rightarrow> bool" where
  "removes dec sh d = (case dec d of None \<Rightarrow> False
     | Some cmd \<Rightarrow> ccKind cmd = cmd_remove_shard \<and> ccRemoveShard cmd = Some sh)"

lemma fsm_keeps_binding:
  "gm_get (csClusters s) c = Some sh \<Longrightarrow> coord_ok s \<Longrightarrow> \<not> removes dec sh d
    \<Longrightarrow> gm_get (csClusters (snd (fsm_apply dec now d s))) c = Some sh"
  by (auto simp: fsm_apply_def apply_command_def removes_def ops_keep_binding split: option.split)

lemma run_log_keeps_binding:
  "gm_get (csClusters s) c = Some sh \<Longrightarrow> coord_ok s \<Longrightarrow> \<forall>d \<in> set ds. \<not> removes dec sh d
    \<Longrightarrow> coord_ok (snd (run_log dec ds s)) \<and> gm_get (csClusters (snd (run_log dec ds s))) c = Some sh"
proof (induction ds arbitrary: s)
  case (Cons d ds)
  define s' where "s' = snd (fsm_apply dec 0 d s)"
  have "gm_get (csClusters s') c = Some sh" "coord_ok s'"
    unfolding s'_def using Cons.prems by (simp_all add: fsm_keeps_binding coord_ok_fsm)
  from Cons.IH [OF this] Cons.prems(3) show ?case by (simp add: s'_def case_prod_unfold Let_def)
qed simp

text \<open>C39: A cluster's shard is set on first contact and is permanent: whatever commands are committed after a
  successful BindCluster, as long as none removes that shard, the cluster stays bound to it, the shard is
  registered, binding it again there succeeds without effect and binding it to any other shard is refused.\<close>
theorem binding_permanent:
  assumes "coord_ok s" and "fst (bind_cluster c sh s) = None"
    and "\<forall>d \<in> set ds. \<not> removes dec sh d"
    and "s' = snd (run_log dec ds (snd (bind_cluster c sh s)))"
  shows "gm_get (csClusters s') c = Some sh \<and> gm_get (csShards s') sh \<noteq> None
    \<and> bind_cluster c sh s' = (None, s')
    \<and> (sh' \<noteq> sh \<longrightarrow> gm_get (csShards s') sh' \<noteq> None
        \<longrightarrow> bind_cluster c sh' s' = (Some (ErrClusterAlreadyBound c sh sh'), s'))"
proof -
  have "gm_get (csClusters (snd (bind_cluster c sh s))) c = Some sh"
    using assms(1,2) by (auto simp: bind_cluster_def split: if_splits option.splits
        simp del: map_of_eq_Some_iff map_of_eq_None_iff)
  then have *: "coord_ok s' \<and> gm_get (csClusters s') c = Some sh"
    unfolding assms(4) using assms(1,3) by (simp add: run_log_keeps_binding coord_ok_ops)
  then have "gm_get (csShards s') sh \<noteq> None" unfolding coord_ok_def by blast
  with * show ?thesis by (simp add: bind_cluster_def del: map_of_eq_Some_iff map_of_eq_None_iff)
qed

theorem binding_permanent_witness:
  "gm_get (csClusters (snd (run_log Some [make_bind_cluster ''c'' ''t'', make_remove_shard ''t'']
      (snd (bind_cluster ''c'' ''s'' (snd (add_shard 5 \<lparr>reID = ''s'', reAddress = '''', reRegisteredAt = 0, reLastHeartbeat = 0\<rparr> new_state))))))) ''c''
    = Some ''s''"
proof -
  define s where "s = snd (add_shard 5 \<lparr>reID = ''s'', reAddress = '''', reRegisteredAt = 0, reLastHeartbeat = 0\<rparr> new_state)"
  have "coord_ok s" unfolding s_def by (intro coord_ok_ops coord_ok_new)
  moreover have "fst (bind_cluster ''c'' ''s'' s) = None"
    by (simp add: s_def bind_cluster_def add_shard_def new_state_def)
  moreover have "\<forall>d \<in> set [make_bind_cluster ''c'' ''t'', make_remove_shard ''t'']. \<not> removes Some ''s'' d"
    by (simp add: removes_def make_bind_cluster_def make_remove_shard_def no_command_def)
  ultimately show ?thesis
    unfolding s_def [symmetric] by (intro conjunct1 [OF binding_permanent [OF _ _ _ refl]])
qed

end
