(* ===== verification/Delivery.thy ===== *)
theory Delivery
  imports Shard Coordinator Fencing
begin

text \<open>
  The coordinator's service (\<open>pkg/coordinator/grpc_server.go\<close>) and the shard's client of it
  (\<open>pkg/shard/coordclient/coordclient.go\<close>, \<open>adapter.go\<close>): reports go up, instructions come down and
  are acknowledged with the next report. Raft is an argument: who leads, in which term, and what
  becomes of a command. A call of the service is one step.
\<close>

section \<open>Messages\<close>

datatype instr_payload =
    AssignDomain string string
  | UnassignDomain string string
  | ReassignSpeculative "string list"
  | CrossShardDrain "string list" int
  | TransferOwnership "string list" string string
  | NoPayload

record instruction =
  inTerm :: int
  inSeq :: int
  inID :: string
  inPayload :: instr_payload

datatype ack_outcome = OutcomeAccepted | OutcomeRejectedStale | OutcomeRejectedInvalid | OutcomeFailed

record instruct_ack =
  iaID :: string
  iaOutcome :: ack_outcome
  iaReason :: string

record pb_summary =
  psTotal :: int
  psFree :: int
  psTypes :: "(string, int) gomap"
  psZones :: "(string, int) gomap"
  psProvider :: string

record pb_shortfall =
  pfRequirements :: "pb_requirement list"
  pfDeficit :: "(string, string) gomap option"
  pfPriority :: int
  pfAge :: int
  pfBucket :: int

record shard_report =
  rpShard :: string
  rpAddress :: string
  rpCycle :: int
  rpTimestamp :: int
  rpEpoch :: int
  rpSummary :: "pb_summary option"
  rpShortfalls :: "pb_shortfall list"
  rpAcks :: "instruct_ack list"

record report_ack =
  raTerm :: int
  raInstructions :: "instruction list"

section \<open>The service\<close>

datatype status_code =
    FailedPrecondition
  | InvalidArgument
  | PermissionDenied
  | Unavailable
  | AlreadyExists
  | NotFound

record summary_soft =
  soCycle :: int
  soReceivedAt :: int
  soSummary :: pb_summary

record shortfall_soft =
  sfPriority :: int
  sfDeficit :: "(string, string) gomap"
  sfAge :: int
  sfBucket :: int

record coord_server =
  gsState :: coord_state
  gsSummary :: "(string, summary_soft) gomap"
  gsShortfalls :: "(string, shortfall_soft list) gomap"
  gsPending :: "(string, (string, instruction) gomap) gomap"
  gsSeq :: int

definition new_server :: "coord_state \<Rightarrow> coord_server" where
  "new_server s = \<lparr>gsState = s, gsSummary = [], gsShortfalls = [], gsPending = [], gsSeq = 0\<rparr>"

text \<open>
  A command submitted to Raft is committed and applied, refused, or reported as failed although
  it is committed all the same (a timeout).
\<close>

datatype raft_outcome = Committed | Refused | CommittedLate

record raft_env =
  rfLeader :: bool
  rfTerm :: int
  rfCommit :: "coord_command \<Rightarrow> raft_outcome"
  rfNow :: int

datatype apply_error = RaftError | FsmError coord_error

definition coordinator_apply :: "raft_env \<Rightarrow> coord_command \<Rightarrow> coord_state \<Rightarrow> apply_error option \<times> coord_state" where
  "coordinator_apply R cmd s =
    (case rfCommit R cmd of
       Committed \<Rightarrow> (case apply_command (rfNow R) cmd s of (e, s') \<Rightarrow> (map_option FsmError e, s'))
     | Refused \<Rightarrow> (Some RaftError, s)
     | CommittedLate \<Rightarrow> (Some RaftError, snd (apply_command (rfNow R) cmd s)))"

definition next_sequence :: "coord_server \<Rightarrow> int \<times> coord_server" where
  "next_sequence g = (let n = i64 (gsSeq g + 1) in (n, g\<lparr>gsSeq := n\<rparr>))"

subsection \<open>Who may call\<close>

definition shard_uri :: "string \<Rightarrow> string" where
  "shard_uri k = ''bigfleet://shard/'' @ k"

definition admin_uri :: string where
  "admin_uri = ''bigfleet://admin''"

definition readonly_uri :: string where
  "readonly_uri = ''bigfleet://readonly''"

definition require_shard_identity :: "peer \<Rightarrow> string \<Rightarrow> status_code option" where
  "require_shard_identity p k =
    (case peer_identity p of None \<Rightarrow> None
     | Some (Inl e) \<Rightarrow> Some PermissionDenied
     | Some (Inr uri) \<Rightarrow> if uri \<noteq> shard_uri k then Some PermissionDenied else None)"

definition require_admin_identity :: "peer \<Rightarrow> status_code option" where
  "require_admin_identity p =
    (case peer_identity p of None \<Rightarrow> None
     | Some (Inl e) \<Rightarrow> Some PermissionDenied
     | Some (Inr uri) \<Rightarrow> if uri \<noteq> admin_uri then Some PermissionDenied else None)"

definition require_read_identity :: "peer \<Rightarrow> status_code option" where
  "require_read_identity p =
    (case peer_identity p of None \<Rightarrow> None
     | Some (Inl e) \<Rightarrow> Some PermissionDenied
     | Some (Inr uri) \<Rightarrow> if uri \<noteq> readonly_uri \<and> uri \<noteq> admin_uri then Some PermissionDenied else None)"

subsection \<open>Pending instructions\<close>

definition enqueue_instruction :: "raft_env \<Rightarrow> string \<Rightarrow> instruction option \<Rightarrow> coord_server \<Rightarrow> bool \<times> coord_server" where
  "enqueue_instruction R k instr g =
    (if \<not> rfLeader R then (False, g)
     else case instr of None \<Rightarrow> (False, g)
     | Some i \<Rightarrow>
         if inID i = '''' then (False, g)
         else (True, g\<lparr>gsPending := gm_set k (gm_set (inID i) i (gm_at [] (gsPending g) k)) (gsPending g)\<rparr>))"

definition pending_for_shard :: "string \<Rightarrow> coord_server \<Rightarrow> nat" where
  "pending_for_shard k g = length (gm_at [] (gsPending g) k)"

definition snapshot_pending :: "string \<Rightarrow> coord_server \<Rightarrow> instruction list" where
  "snapshot_pending k g = sort_less (\<lambda>a b. inSeq a < inSeq b) (map snd (gm_at [] (gsPending g) k))"

definition clear_acked :: "string \<Rightarrow> instruct_ack list \<Rightarrow> coord_server \<Rightarrow> coord_server" where
  "clear_acked k acks g =
    (if acks = [] then g
     else case gm_get (gsPending g) k of None \<Rightarrow> g
     | Some queue \<Rightarrow>
         let queue = foldl (\<lambda>q a. gm_del (iaID a) q) queue acks
         in if queue = [] then g\<lparr>gsPending := gm_del k (gsPending g)\<rparr>
            else g\<lparr>gsPending := gm_set k queue (gsPending g)\<rparr>)"

subsection \<open>Reports\<close>

definition register_shard :: "raft_env \<Rightarrow> shard_report \<Rightarrow> coord_server \<Rightarrow> status_code option \<times> coord_server" where
  "register_shard R req g =
    (if gm_get (csShards (gsState g)) (rpShard req) \<noteq> None then (None, g)
     else
       let e = \<lparr>reID = rpShard req, reAddress = rpAddress req, reRegisteredAt = 0, reLastHeartbeat = 0\<rparr>;
           (err, s) = coordinator_apply R (make_add_shard (rfNow R) e) (gsState g);
           g = g\<lparr>gsState := s\<rparr>
       in case err of None \<Rightarrow> (None, g)
          | Some (FsmError (ErrShardExists _)) \<Rightarrow> (None, g)
          | Some _ \<Rightarrow> (Some Unavailable, g))"

definition soft_shortfall :: "pb_shortfall \<Rightarrow> shortfall_soft" where
  "soft_shortfall f = \<lparr>sfPriority = pfPriority f,
     sfDeficit = (case pfDeficit f of None \<Rightarrow> [] | Some d \<Rightarrow> d), sfAge = pfAge f, sfBucket = pfBucket f\<rparr>"

definition store_report :: "int \<Rightarrow> shard_report \<Rightarrow> coord_server \<Rightarrow> coord_server" where
  "store_report now req g =
    (let k = rpShard req;
         g = (case rpSummary req of None \<Rightarrow> g
              | Some s \<Rightarrow> g\<lparr>gsSummary := gm_set k \<lparr>soCycle = rpCycle req, soReceivedAt = now, soSummary = s\<rparr> (gsSummary g)\<rparr>)
     in if rpShortfalls req = [] then g
        else g\<lparr>gsShortfalls := gm_set k (map soft_shortfall (rpShortfalls req)) (gsShortfalls g)\<rparr>)"

definition report_shard ::
    "raft_env \<Rightarrow> peer \<Rightarrow> shard_report option \<Rightarrow> coord_server \<Rightarrow> (status_code + report_ack) \<times> coord_server" where
  "report_shard R p req g =
    (if \<not> rfLeader R then (Inl FailedPrecondition, g)
     else case req of None \<Rightarrow> (Inl InvalidArgument, g)
     | Some r \<Rightarrow>
         if rpShard r = '''' then (Inl InvalidArgument, g)
         else (case require_shard_identity p (rpShard r) of Some e \<Rightarrow> (Inl e, g)
         | None \<Rightarrow>
             (case register_shard R r g of
                (Some e, g) \<Rightarrow> (Inl e, g)
              | (None, g) \<Rightarrow>
                  let g = g\<lparr>gsState := mark_heartbeat (rpShard r) (rfNow R) (gsState g)\<rparr>;
                      g = store_report (rfNow R) r g;
                      g = clear_acked (rpShard r) (rpAcks r) g
                  in (Inr \<lparr>raTerm = rfTerm R, raInstructions = snapshot_pending (rpShard r) g\<rparr>, g))))"

subsection \<open>The admin surface\<close>

definition assign_domain_rpc ::
    "raft_env \<Rightarrow> peer \<Rightarrow> (string \<times> string \<times> string) option \<Rightarrow> coord_server \<Rightarrow> status_code option \<times> coord_server" where
  "assign_domain_rpc R p req g =
    (if \<not> rfLeader R then (Some FailedPrecondition, g)
     else case require_admin_identity p of Some e \<Rightarrow> (Some e, g)
     | None \<Rightarrow>
         (case req of None \<Rightarrow> (Some InvalidArgument, g)
          | Some (k, v, sh) \<Rightarrow>
              if k = '''' \<or> v = '''' \<or> sh = '''' then (Some InvalidArgument, g)
              else case coordinator_apply R (make_assign_domain (k, v) sh) (gsState g) of
                (err, s) \<Rightarrow>
                  (case err of None \<Rightarrow> None
                   | Some (FsmError (ErrDomainAlreadyAssigned _ _ _)) \<Rightarrow> Some AlreadyExists
                   | Some (FsmError (ErrShardNotFound _)) \<Rightarrow> Some NotFound
                   | Some _ \<Rightarrow> Some Unavailable, g\<lparr>gsState := s\<rparr>)))"

definition unassign_domain_rpc ::
    "raft_env \<Rightarrow> peer \<Rightarrow> (string \<times> string) option \<Rightarrow> coord_server \<Rightarrow> status_code option \<times> coord_server" where
  "unassign_domain_rpc R p req g =
    (if \<not> rfLeader R then (Some FailedPrecondition, g)
     else case require_admin_identity p of Some e \<Rightarrow> (Some e, g)
     | None \<Rightarrow>
         (case req of None \<Rightarrow> (Some InvalidArgument, g)
          | Some (k, v) \<Rightarrow>
              if k = '''' \<or> v = '''' then (Some InvalidArgument, g)
              else case coordinator_apply R (make_unassign_domain (k, v)) (gsState g) of
                (err, s) \<Rightarrow> (map_option (\<lambda>_. Unavailable) err, g\<lparr>gsState := s\<rparr>)))"

definition remove_shard_rpc :: "raft_env \<Rightarrow> peer \<Rightarrow> string option \<Rightarrow> coord_server \<Rightarrow> status_code option \<times> coord_server" where
  "remove_shard_rpc R p req g =
    (if \<not> rfLeader R then (Some FailedPrecondition, g)
     else case require_admin_identity p of Some e \<Rightarrow> (Some e, g)
     | None \<Rightarrow>
         (case req of None \<Rightarrow> (Some InvalidArgument, g)
          | Some k \<Rightarrow>
              if k = '''' then (Some InvalidArgument, g)
              else case coordinator_apply R (make_remove_shard k) (gsState g) of
                (err, s) \<Rightarrow>
                  (case err of None \<Rightarrow> None
                   | Some (FsmError (ErrShardNotFound _)) \<Rightarrow> Some NotFound
                   | Some _ \<Rightarrow> Some Unavailable, g\<lparr>gsState := s\<rparr>)))"

definition list_shards_rpc :: "raft_env \<Rightarrow> peer \<Rightarrow> coord_server \<Rightarrow> status_code + registration list" where
  "list_shards_rpc R p g =
    (if \<not> rfLeader R then Inl FailedPrecondition
     else case require_read_identity p of Some e \<Rightarrow> Inl e | None \<Rightarrow> Inr (list_shards (gsState g)))"

text \<open>Adding a voter is Raft's; here only whether it did.\<close>

definition join_raft_cluster :: "raft_env \<Rightarrow> peer \<Rightarrow> (string \<times> string) option \<Rightarrow> bool \<Rightarrow> status_code option" where
  "join_raft_cluster R p req added =
    (if \<not> rfLeader R then Some FailedPrecondition
     else case require_admin_identity p of Some e \<Rightarrow> Some e
     | None \<Rightarrow>
         (case req of None \<Rightarrow> Some InvalidArgument
          | Some (node, addr) \<Rightarrow>
              if node = '''' \<or> addr = '''' then Some InvalidArgument
              else if \<not> added then Some Unavailable else None))"

definition list_domain_assignments :: "raft_env \<Rightarrow> peer \<Rightarrow> coord_server \<Rightarrow> status_code + (string \<times> string \<times> string) list" where
  "list_domain_assignments R p g =
    (if \<not> rfLeader R then Inl FailedPrecondition
     else case require_read_identity p of Some e \<Rightarrow> Inl e
     | None \<Rightarrow> Inr (concat (map (\<lambda>e. map (\<lambda>(k, v). (k, v, reID e)) (domains_for_shard (reID e) (gsState g)))
                     (list_shards (gsState g)))))"

record report_snapshot =
  rsShard :: string
  rsSummary :: "summary_soft option"
  rsShortfalls :: "shortfall_soft list"

definition list_shard_reports :: "raft_env \<Rightarrow> peer \<Rightarrow> string \<Rightarrow> coord_server \<Rightarrow> status_code + report_snapshot list" where
  "list_shard_reports R p want g =
    (if \<not> rfLeader R then Inl FailedPrecondition
     else case require_read_identity p of Some e \<Rightarrow> Inl e
     | None \<Rightarrow>
         let ids = remdups (map fst (gsSummary g) @ map fst (gsShortfalls g));
             ids = sort_less (<) (filter (\<lambda>k. want = '''' \<or> k = want) ids)
         in Inr (map (\<lambda>k. \<lparr>rsShard = k, rsSummary = gm_get (gsSummary g) k,
                           rsShortfalls = gm_at [] (gsShortfalls g) k\<rparr>) ids))"

subsection \<open>Authority\<close>

text \<open>What a report leaves alone.\<close>

definition others_kept :: "string \<Rightarrow> coord_server \<Rightarrow> coord_server \<Rightarrow> bool" where
  "others_kept j g g' \<longleftrightarrow> csClusters (gsState g') = csClusters (gsState g) \<and> csDomains (gsState g') = csDomains (gsState g)
     \<and> (\<forall>k. k \<noteq> j \<longrightarrow> gm_get (gsSummary g') k = gm_get (gsSummary g) k
          \<and> gm_get (gsShortfalls g') k = gm_get (gsShortfalls g) k \<and> gm_get (gsPending g') k = gm_get (gsPending g) k
          \<and> gm_get (csShards (gsState g')) k = gm_get (csShards (gsState g)) k)"

lemma others_kept_refl [simp]: "others_kept j g g"
  by (simp add: others_kept_def)

lemma others_kept_trans: "others_kept j g h \<Longrightarrow> others_kept j h h' \<Longrightarrow> others_kept j g h'"
  by (simp add: others_kept_def del: map_of_eq_Some_iff map_of_eq_None_iff)

lemma others_kept_steps:
  "others_kept (rpShard r) g (g\<lparr>gsState := mark_heartbeat (rpShard r) t (gsState g)\<rparr>)"
  "others_kept (rpShard r) g (store_report t r g)" "others_kept (rpShard r) g (clear_acked (rpShard r) acks g)"
  by (auto simp: others_kept_def mark_heartbeat_def store_report_def clear_acked_def Let_def split: option.split)

lemma others_kept_register: "others_kept (rpShard r) g (snd (register_shard R r g))"
proof -
  have "others_kept (rpShard r) g (g\<lparr>gsState := snd (apply_command t (make_add_shard t e) (gsState g))\<rparr>)" if "reID e = rpShard r" for t e
    using that by (simp add: others_kept_def apply_command_def make_add_shard_def no_command_def add_shard_def Let_def)
  then show ?thesis
    by (auto simp: register_shard_def coordinator_apply_def Let_def split: option.split apply_error.split coord_error.split
        prod.split raft_outcome.split) (metis registration.select_convs(1) snd_conv)+
qed

lemma report_kept: "others_kept (rpShard r) g (snd (report_shard R p (Some r) g))"
proof -
  have tail: "others_kept (rpShard r) g h \<Longrightarrow> others_kept (rpShard r) g
      (clear_acked (rpShard r) as (store_report t r (h\<lparr>gsState := mark_heartbeat (rpShard r) t (gsState h)\<rparr>)))" for h as t
    using others_kept_steps [of r] others_kept_trans by metis
  show ?thesis
    using others_kept_register [of r g R]
    by (auto simp: report_shard_def Let_def tail split: option.split prod.split)
qed

lemma admin_denied: "only_bigfleet '''' uris \<noteq> Inr admin_uri \<Longrightarrow> require_admin_identity (Some uris) = Some PermissionDenied"
  by (cases "only_bigfleet '''' uris") (auto simp: require_admin_identity_def peer_identity_def)

lemma admin_only:
  assumes "\<not> (rfLeader R \<and> only_bigfleet '''' uris = Inr admin_uri)"
  shows "snd (assign_domain_rpc R (Some uris) req g) = g" "snd (unassign_domain_rpc R (Some uris) req2 g) = g"
    "snd (remove_shard_rpc R (Some uris) req3 g) = g"
  using assms by (auto simp: assign_domain_rpc_def unassign_domain_rpc_def remove_shard_rpc_def admin_denied)

lemma report_authority:
  assumes "\<not> (rfLeader R \<and> only_bigfleet '''' uris = Inr (shard_uri (rpShard r)))"
  shows "snd (report_shard R (Some uris) (Some r) g) = g"
proof -
  have "only_bigfleet '''' uris \<noteq> Inr (shard_uri (rpShard r)) \<Longrightarrow> require_shard_identity (Some uris) (rpShard r) = Some PermissionDenied"
    by (cases "only_bigfleet '''' uris") (auto simp: require_shard_identity_def peer_identity_def)
  then show ?thesis using assms by (auto simp: report_shard_def)
qed

text \<open>C27: On a transport with certificates nobody changes the coordinator's state but by its own authority. A
  call that changes anything comes from the administrator's certificate, or is a report sent with the
  certificate of the shard it is about, and such a report changes no other shard's summary, shortfalls or
  pending instructions, and no binding or domain; a follower changes nothing.\<close>
theorem authority:
  "(snd (assign_domain_rpc R (Some uris) req g) \<noteq> g \<longrightarrow> rfLeader R \<and> only_bigfleet '''' uris = Inr admin_uri)
   \<and> (snd (unassign_domain_rpc R (Some uris) req2 g) \<noteq> g \<longrightarrow> rfLeader R \<and> only_bigfleet '''' uris = Inr admin_uri)
   \<and> (snd (remove_shard_rpc R (Some uris) req3 g) \<noteq> g \<longrightarrow> rfLeader R \<and> only_bigfleet '''' uris = Inr admin_uri)
   \<and> (let g' = snd (report_shard R (Some uris) (Some r) g) in g' \<noteq> g \<longrightarrow>
        rfLeader R \<and> only_bigfleet '''' uris = Inr (shard_uri (rpShard r))
        \<and> others_kept (rpShard r) g g')"
  using admin_only [of R uris] report_kept [of r g R "Some uris"] report_authority [of R uris r g]
  unfolding Let_def by metis

section \<open>The client\<close>

text \<open>
  The client keeps the number of its reports, the acknowledgements to send with the next one, the
  instructions it has executed, and the mark of coordinator terms. The shard behind it is a view: what
  it answers to an instruction (an error, or none) and the state it is then in.
\<close>

record coord_client =
  clCycle :: int
  clAcks :: "instruct_ack list"
  clDone :: "string list"
  clTerm :: int

type_synonym 's view = "instr_payload \<Rightarrow> 's \<Rightarrow> string option \<times> 's"

definition new_client :: coord_client where
  "new_client = \<lparr>clCycle = 0, clAcks = [], clDone = [], clTerm = new_coordinator_term\<rparr>"

definition queue_ack :: "string \<Rightarrow> ack_outcome \<Rightarrow> string \<Rightarrow> coord_client \<Rightarrow> coord_client" where
  "queue_ack k outcome reason c =
    c\<lparr>clAcks := clAcks c @ [\<lparr>iaID = k, iaOutcome = outcome, iaReason = reason\<rparr>]\<rparr>"

definition stale_text :: "int \<Rightarrow> int \<Rightarrow> string" where
  "stale_text t hwm = ''fencing: stale coordinator term: got '' @ dec_int t @ '', hwm '' @ dec_int hwm"

definition handle_instruction ::
    "'s view \<Rightarrow> instruction \<Rightarrow> coord_client \<times> 's \<Rightarrow> coord_client \<times> 's" where
  "handle_instruction V i cs =
    (case cs of (c, s) \<Rightarrow>
       if inID i = '''' then (c, s)
       else if inID i \<in> set (clDone c) then (queue_ack (inID i) OutcomeAccepted ''duplicate-redelivery'' c, s)
       else (case term_validate (clTerm c) (inTerm i) of
         (Some _, _) \<Rightarrow> (queue_ack (inID i) OutcomeRejectedStale (stale_text (inTerm i) (clTerm c)) c, s)
       | (None, hwm) \<Rightarrow>
           let c = c\<lparr>clTerm := hwm\<rparr> in
           if inPayload i = NoPayload then (queue_ack (inID i) OutcomeRejectedInvalid ''unknown payload'' c, s)
           else (case V (inPayload i) s of
             (Some e, s) \<Rightarrow> (queue_ack (inID i) OutcomeFailed e c, s)
           | (None, s) \<Rightarrow> (queue_ack (inID i) OutcomeAccepted '''' (c\<lparr>clDone := clDone c @ [inID i]\<rparr>), s))))"

subsection \<open>A report and its answer\<close>

definition begin_report :: "coord_client \<Rightarrow> instruct_ack list \<times> coord_client" where
  "begin_report c = (clAcks c, c\<lparr>clCycle := i64 (clCycle c + 1), clAcks := []\<rparr>)"

definition finish_report ::
    "'s view \<Rightarrow> instruct_ack list \<Rightarrow> report_ack option \<Rightarrow> coord_client \<times> 's \<Rightarrow> coord_client \<times> 's" where
  "finish_report V acks resp cs =
    (case cs of (c, s) \<Rightarrow>
       (case resp of None \<Rightarrow> (c\<lparr>clAcks := acks @ clAcks c\<rparr>, s)
       | Some ra \<Rightarrow>
           if raTerm ra > 0 then
             (case term_validate (clTerm c) (raTerm ra) of
                (Some _, _) \<Rightarrow> (c, s)
              | (None, hwm) \<Rightarrow> foldl (\<lambda>cs i. handle_instruction V i cs) (c\<lparr>clTerm := hwm\<rparr>, s) (raInstructions ra))
           else foldl (\<lambda>cs i. handle_instruction V i cs) (c, s) (raInstructions ra)))"

subsection \<open>The shard as a view\<close>

definition operator_string :: "int \<Rightarrow> string" where
  "operator_string n =
    (if n = 1 then ''In'' else if n = 2 then ''NotIn'' else if n = 3 then ''Exists''
     else if n = 4 then ''DoesNotExist'' else if n = 5 then ''Same'' else '''')"

definition parse_operator :: "string \<Rightarrow> int" where
  "parse_operator s =
    (if s = ''In'' then 1 else if s = ''NotIn'' then 2 else if s = ''Exists'' then 3
     else if s = ''DoesNotExist'' then 4 else if s = ''Same'' then 5 else 0)"

definition shard_view :: "shard view" where
  "shard_view p sh =
    (case p of
       AssignDomain k v \<Rightarrow> (None, sh\<lparr>shDomains := assign_domain k v (shDomains sh)\<rparr>)
     | UnassignDomain k v \<Rightarrow> (None, sh\<lparr>shDomains := unassign_domain k v (shDomains sh)\<rparr>)
     | _ \<Rightarrow> (None, sh))"

record shard_shortfall =
  hsRequirements :: "(string \<times> string \<times> string list) list"
  hsDeficit :: "(string, string) gomap"
  hsPriority :: int
  hsAge :: int
  hsBucket :: int

definition adapter_shortfalls :: "shortfall_entry list \<Rightarrow> shard_shortfall list" where
  "adapter_shortfalls es =
    map (\<lambda>e. \<lparr>hsRequirements = map (\<lambda>r. (rKey r, operator_string (int (op_code (rOperator r))), rValues r))
                                (requirements (seProfile e)),
              hsDeficit = foldl (\<lambda>m r. gm_set (rqName r) (rqQuantity r) m) [] (seDeficit e),
              hsPriority = priority (seProfile e), hsAge = i32 (seAgeCycles e),
              hsBucket = int (sePenaltyBucket e)\<rparr>) es"

definition shortfalls_to_proto :: "shard_shortfall list \<Rightarrow> pb_shortfall list" where
  "shortfalls_to_proto hs =
    map (\<lambda>h. \<lparr>pfRequirements = map (\<lambda>(k, op, vs). \<lparr>pbrKey = k, pbrOperator = parse_operator op, pbrValues = vs\<rparr>)
                                (hsRequirements h),
              pfDeficit = (if length (hsDeficit h) > 0 then Some (hsDeficit h) else None),
              pfPriority = hsPriority h, pfAge = hsAge h, pfBucket = hsBucket h\<rparr>) hs"

definition summary_to_proto :: "string \<Rightarrow> summary \<Rightarrow> pb_summary" where
  "summary_to_proto provider s =
    \<lparr>psTotal = smTotal s, psFree = smFree s, psTypes = smTypes s, psZones = smZones s, psProvider = provider\<rparr>"

text \<open>The detour over operator names loses nothing: a requirement is reported as \<open>conv\<close> would send it.\<close>

lemma reported_requirements:
  "pfRequirements (hd (shortfalls_to_proto (adapter_shortfalls (e # es)))) = requirements_to_proto (requirements (seProfile e))"
proof -
  have "parse_operator (operator_string (int (op_code x))) = operator_to_proto x" for x
    by (cases x) (simp_all add: parse_operator_def operator_string_def)
  then show ?thesis by (simp add: adapter_shortfalls_def shortfalls_to_proto_def requirements_to_proto_def)
qed

text \<open>The report of shard \<open>k\<close>, sent from an address, with a provider and an epoch.\<close>

definition build_report ::
    "string \<Rightarrow> string \<Rightarrow> string \<Rightarrow> int \<Rightarrow> int \<Rightarrow> instruct_ack list \<Rightarrow> int \<Rightarrow> shard \<Rightarrow> shard_report" where
  "build_report k addr provider epoch now acks cycle sh =
    \<lparr>rpShard = k, rpAddress = addr, rpCycle = cycle, rpTimestamp = now, rpEpoch = epoch,
     rpSummary = Some (summary_to_proto provider (summarise (snapshot_of (wInv (shWorld sh))))),
     rpShortfalls = shortfalls_to_proto (adapter_shortfalls (shortfalls (shLedger sh))), rpAcks = acks\<rparr>"

section \<open>Coordinator and client together\<close>

abbreviation pend :: "coord_server \<Rightarrow> string \<Rightarrow> (string, instruction) gomap" where
  "pend g k \<equiv> gm_at [] (gsPending g) k"

text \<open>What handling an instruction answers: the acknowledgements it queues.\<close>

definition answer :: "'s view \<Rightarrow> instruction \<Rightarrow> coord_client \<times> 's \<Rightarrow> (instruction \<times> instruct_ack) list" where
  "answer V i cs = map (Pair i) (drop (length (clAcks (fst cs))) (clAcks (fst (handle_instruction V i cs))))"

fun answers :: "'s view \<Rightarrow> instruction list \<Rightarrow> coord_client \<times> 's \<Rightarrow> (instruction \<times> instruct_ack) list" where
  "answers V [] cs = []"
| "answers V (i # ins) cs = answer V i cs @ answers V ins (handle_instruction V i cs)"

definition report_answers :: "'s view \<Rightarrow> report_ack \<Rightarrow> coord_client \<times> 's \<Rightarrow> (instruction \<times> instruct_ack) list" where
  "report_answers V ra cs =
    (case cs of (c, s) \<Rightarrow>
       if raTerm ra > 0 then
         (case term_validate (clTerm c) (raTerm ra) of (Some _, _) \<Rightarrow> []
          | (None, hwm) \<Rightarrow> answers V (raInstructions ra) (c\<lparr>clTerm := hwm\<rparr>, s))
       else answers V (raInstructions ra) (c, s))"

text \<open>
  What handling an instruction does to the shard: the calls it makes of the view, each with its
  payload and the error it answered. They are read off a run with the view that records its calls.
\<close>

type_synonym call = "instr_payload \<times> string option"

definition recorded :: "'s view \<Rightarrow> ('s \<times> call list) view" where
  "recorded V p st =
    (case st of (s, calls) \<Rightarrow> (case V p s of (e, s') \<Rightarrow> (e, (s', calls @ [(p, e)]))))"

definition view_calls :: "'s view \<Rightarrow> instruction \<Rightarrow> coord_client \<times> 's \<Rightarrow> (instruction \<times> call) list" where
  "view_calls V i cs = map (Pair i) (snd (snd (handle_instruction (recorded V) i (fst cs, (snd cs, [])))))"

fun all_calls :: "'s view \<Rightarrow> instruction list \<Rightarrow> coord_client \<times> 's \<Rightarrow> (instruction \<times> call) list" where
  "all_calls V [] cs = []"
| "all_calls V (i # ins) cs = view_calls V i cs @ all_calls V ins (handle_instruction V i cs)"

definition report_calls :: "'s view \<Rightarrow> report_ack \<Rightarrow> coord_client \<times> 's \<Rightarrow> (instruction \<times> call) list" where
  "report_calls V ra cs =
    (case cs of (c, s) \<Rightarrow>
       if raTerm ra > 0 then
         (case term_validate (clTerm c) (raTerm ra) of (Some _, _) \<Rightarrow> []
          | (None, hwm) \<Rightarrow> all_calls V (raInstructions ra) (c\<lparr>clTerm := hwm\<rparr>, s))
       else all_calls V (raInstructions ra) (c, s))"

text \<open>
  Everything that may happen between one coordinator, as long as it leads, and the client of shard
  \<open>k\<close>: \<open>hist\<close> is what the client answered so far, \<open>made\<close> the calls it made of its shard, with the
  instructions they were made for, and \<open>queued\<close> what was queued for the shard. A report may
  arrive and be answered, or the client may see an error, whether the report arrived or not; other
  shards report; the rest of the coordinator and of the shard moves as it likes.
\<close>

inductive link for V k where
  start: "link V k [] [] [] (new_server st) new_client s"
| enqueues: "link V k hist made queued g c s \<Longrightarrow> enqueue_instruction R k' i g = (ok, g')
    \<Longrightarrow> link V k hist made (if ok \<and> k' = k then queued @ [the i] else queued) g' c s"
| others: "link V k hist made queued g c s \<Longrightarrow> report_shard R p (Some r) g = (resp, g') \<Longrightarrow> rpShard r \<noteq> k
    \<Longrightarrow> link V k hist made queued g' c s"
| moves: "link V k hist made queued g c s \<Longrightarrow> gsPending g' = gsPending g \<Longrightarrow> link V k hist made queued g' c s'"
| answered: "link V k hist made queued g c s \<Longrightarrow> begin_report c = (acks, c1) \<Longrightarrow> rpShard r = k \<Longrightarrow> rpAcks r = acks
    \<Longrightarrow> report_shard R p (Some r) g = (Inr ra, g') \<Longrightarrow> finish_report V acks (Some ra) (c1, s) = (c', s')
    \<Longrightarrow> link V k (hist @ report_answers V ra (c1, s)) (made @ report_calls V ra (c1, s)) queued g' c' s'"
| unanswered: "link V k hist made queued g c s \<Longrightarrow> begin_report c = (acks, c1) \<Longrightarrow> rpShard r = k \<Longrightarrow> rpAcks r = acks
    \<Longrightarrow> g' = g \<or> report_shard R p (Some r) g = (resp, g') \<Longrightarrow> finish_report V acks None (c1, s) = (c', s')
    \<Longrightarrow> link V k hist made queued g' c' s'"

text \<open>A call that succeeded.\<close>

definition succeeded :: "instruction \<times> call \<Rightarrow> bool" where
  "succeeded x \<longleftrightarrow> snd (snd x) = None"

subsection \<open>The pending set\<close>

lemma gm_get_del_all: "gm_get (foldl (\<lambda>q a. gm_del (f a) q) q xs) x = (if x \<in> f ` set xs then None else gm_get q x)"
  by (induction xs arbitrary: q) auto

lemma gm_ok_del_all: "gm_ok q \<Longrightarrow> gm_ok (foldl (\<lambda>q a. gm_del (f a) q) q xs)"
  by (induction xs arbitrary: q) (auto simp: distinct_delete)

lemma pend_clear:
  "gm_get (pend (clear_acked k acks g) k') x = (if k' = k \<and> x \<in> iaID ` set acks then None else gm_get (pend g k') x)"
proof (cases "gm_get (gsPending g) k")
  case (Some q)
  then have "gm_at [] (gsPending g) k = q" by (simp add: gm_at_def)
  moreover have "foldl (\<lambda>q a. gm_del (iaID a) q) q acks = [] \<Longrightarrow> x \<notin> iaID ` set acks \<Longrightarrow> gm_get q x = None"
    using gm_get_del_all [of iaID q acks x] by (metis map_of.simps(1))
  ultimately show ?thesis using Some by (auto simp: clear_acked_def Let_def gm_get_del_all)
qed (auto simp: clear_acked_def gm_at_def)

lemma pend_clear_other: "k' \<noteq> k \<Longrightarrow> pend (clear_acked k' acks g) k = pend g k"
  by (cases "gm_get (gsPending g) k'"; simp add: clear_acked_def Let_def)

lemma pend_clear_ok: "gm_ok (pend g k') \<Longrightarrow> gm_ok (pend (clear_acked k acks g) k')"
  by (auto simp: clear_acked_def Let_def gm_ok_del_all gm_at_def split: option.split)

lemma pend_clear_empty: "(\<And>x. gm_get (pend (clear_acked k acks g) k) x = None) \<Longrightarrow> pend (clear_acked k acks g) k = []"
  by (metis list.exhaust map_of_Cons_code(2) option.distinct(1) surj_pair)

lemma report_pending:
  "report_shard R p (Some r) g = (resp, g') \<Longrightarrow>
    gsPending g' = gsPending g \<or> gsPending g' = gsPending (clear_acked (rpShard r) (rpAcks r) g)"
  "report_shard R p (Some r) g = (Inr ra, g') \<Longrightarrow>
    gsPending g' = gsPending (clear_acked (rpShard r) (rpAcks r) g) \<and> raInstructions ra = snapshot_pending (rpShard r) g'
      \<and> raTerm ra = rfTerm R"
proof -
  have reg: "gsPending (snd (register_shard R r g)) = gsPending g"
    by (auto simp: register_shard_def Let_def split: option.splits apply_error.splits coord_error.splits prod.splits)
  have st: "gsPending (store_report t r h) = gsPending h" for t h
    by (auto simp: store_report_def Let_def split: option.splits)
  have cl: "gsPending (clear_acked k as h) = gsPending (clear_acked k as h')" if "gsPending h = gsPending h'" for k as h h'
    using that by (auto simp: clear_acked_def Let_def split: option.splits)
  show "report_shard R p (Some r) g = (resp, g') \<Longrightarrow>
    gsPending g' = gsPending g \<or> gsPending g' = gsPending (clear_acked (rpShard r) (rpAcks r) g)"
    using reg by (auto simp: report_shard_def Let_def st split: if_splits option.splits prod.splits intro!: cl)
  show "report_shard R p (Some r) g = (Inr ra, g') \<Longrightarrow>
    gsPending g' = gsPending (clear_acked (rpShard r) (rpAcks r) g) \<and> raInstructions ra = snapshot_pending (rpShard r) g'
      \<and> raTerm ra = rfTerm R"
    using reg by (auto simp: report_shard_def Let_def st split: if_splits option.splits prod.splits intro!: cl)
qed

subsection \<open>Handling\<close>

lemma handle_cases:
  fixes V :: "'s view"
  obtains
    (empty) "inID i = ''''" "handle_instruction V i (c, s) = (c, s)" "answer V i (c, s) = []" "view_calls V i (c, s) = []"
  | (duplicate) a where "inID i \<noteq> ''''" "inID i \<in> set (clDone c)" "iaID a = inID i" "iaOutcome a = OutcomeAccepted" "iaReason a \<noteq> ''''"
      "handle_instruction V i (c, s) = (c\<lparr>clAcks := clAcks c @ [a]\<rparr>, s)" "answer V i (c, s) = [(i, a)]"
      "view_calls V i (c, s) = []"
  | (rejected) a t where "inID i \<noteq> ''''" "iaID a = inID i" "iaOutcome a \<in> {OutcomeRejectedStale, OutcomeRejectedInvalid}"
      "clTerm c \<le> t" "handle_instruction V i (c, s) = (c\<lparr>clTerm := t, clAcks := clAcks c @ [a]\<rparr>, s)" "answer V i (c, s) = [(i, a)]"
      "inTerm i < clTerm c \<or> inPayload i = NoPayload" "view_calls V i (c, s) = []"
  | (failed) a e s' where "inID i \<noteq> ''''" "inID i \<notin> set (clDone c)" "iaID a = inID i" "iaOutcome a = OutcomeFailed"
      "clTerm c \<le> inTerm i" "handle_instruction V i (c, s) = (c\<lparr>clTerm := inTerm i, clAcks := clAcks c @ [a]\<rparr>, s')"
      "answer V i (c, s) = [(i, a)]" "inPayload i \<noteq> NoPayload" "view_calls V i (c, s) = [(i, inPayload i, Some e)]"
  | (accepted) a s' where "inID i \<noteq> ''''" "inID i \<notin> set (clDone c)" "iaID a = inID i" "iaOutcome a = OutcomeAccepted"
      "clTerm c \<le> inTerm i" "V (inPayload i) s = (None, s')"
      "handle_instruction V i (c, s) = (c\<lparr>clTerm := inTerm i, clDone := clDone c @ [inID i], clAcks := clAcks c @ [a]\<rparr>, s')"
      "answer V i (c, s) = [(i, a)]" "inPayload i \<noteq> NoPayload" "view_calls V i (c, s) = [(i, inPayload i, None)]"
proof -
  consider "inID i = ''''" | "inID i \<noteq> ''''" "inID i \<in> set (clDone c)"
    | "inID i \<noteq> ''''" "inID i \<notin> set (clDone c)" "inTerm i < clTerm c"
    | "inID i \<noteq> ''''" "inID i \<notin> set (clDone c)" "clTerm c \<le> inTerm i" "inPayload i = NoPayload"
    | "inID i \<noteq> ''''" "inID i \<notin> set (clDone c)" "clTerm c \<le> inTerm i" "inPayload i \<noteq> NoPayload"
    by linarith
  then show thesis
  proof cases
    case 1
    then show ?thesis by (intro empty) (simp_all add: handle_instruction_def answer_def view_calls_def recorded_def)
  next
    case 2
    then show ?thesis
      by (intro duplicate [of "\<lparr>iaID = inID i, iaOutcome = OutcomeAccepted, iaReason = ''duplicate-redelivery''\<rparr>"])
        (simp_all add: handle_instruction_def answer_def view_calls_def recorded_def queue_ack_def)
  next
    case 3
    then show ?thesis
      by (intro rejected [of "\<lparr>iaID = inID i, iaOutcome = OutcomeRejectedStale, iaReason = stale_text (inTerm i) (clTerm c)\<rparr>" "clTerm c"])
        (simp_all add: handle_instruction_def answer_def view_calls_def recorded_def queue_ack_def term_validate_def)
  next
    case 4
    then show ?thesis
      by (intro rejected [of "\<lparr>iaID = inID i, iaOutcome = OutcomeRejectedInvalid, iaReason = ''unknown payload''\<rparr>" "inTerm i"])
        (auto simp: handle_instruction_def answer_def view_calls_def recorded_def queue_ack_def term_validate_def)
  next
    case 5
    obtain err s' where v: "V (inPayload i) s = (err, s')" by (cases "V (inPayload i) s")
    show ?thesis
    proof (cases err)
      case None
      with 5 v show ?thesis
        by (intro accepted [of "\<lparr>iaID = inID i, iaOutcome = OutcomeAccepted, iaReason = ''''\<rparr>" s'])
          (auto simp: handle_instruction_def answer_def view_calls_def recorded_def queue_ack_def term_validate_def)
    next
      case (Some e)
      with 5 v show ?thesis
        by (intro failed [of "\<lparr>iaID = inID i, iaOutcome = OutcomeFailed, iaReason = e\<rparr>" s' e])
          (auto simp: handle_instruction_def answer_def view_calls_def recorded_def queue_ack_def term_validate_def)
    qed
  qed
qed

definition client_ok ::
    "(instruction \<times> instruct_ack) list \<Rightarrow> (instruction \<times> call) list \<Rightarrow> coord_client \<Rightarrow> bool" where
  "client_ok hist made c \<longleftrightarrow>
     set (clDone c) = inID ` fst ` set (filter succeeded made)
     \<and> (\<forall>x \<in> set made. inTerm (fst x) \<le> clTerm c \<and> fst (snd x) = inPayload (fst x) \<and> inPayload (fst x) \<noteq> NoPayload)
     \<and> sorted (map (inTerm \<circ> fst) made)
     \<and> sorted_wrt (\<lambda>x y. succeeded x \<longrightarrow> inID (fst y) \<noteq> inID (fst x)) made
     \<and> fst ` set made \<subseteq> fst ` set hist
     \<and> (\<forall>x \<in> set hist. iaID (snd x) = inID (fst x)
          \<and> (iaOutcome (snd x) = OutcomeAccepted \<longrightarrow> inID (fst x) \<in> set (clDone c)))
     \<and> iaID ` set (clAcks c) \<subseteq> inID ` fst ` set hist"

lemma client_ok_snoc:
  assumes "client_ok hist made c" and "iaID a = inID i" "clTerm c \<le> clTerm c'" "clAcks c' = clAcks c @ [a]"
    and "new = [] \<and> clDone c' = clDone c \<and> (iaOutcome a = OutcomeAccepted \<longrightarrow> inID i \<in> set (clDone c))
      \<or> (\<exists>e. new = [(i, inPayload i, e)] \<and> inPayload i \<noteq> NoPayload \<and> inID i \<notin> set (clDone c)
          \<and> clTerm c \<le> inTerm i \<and> clTerm c' = inTerm i
          \<and> (if e = None then clDone c' = clDone c @ [inID i]
             else clDone c' = clDone c \<and> iaOutcome a \<noteq> OutcomeAccepted))"
  shows "client_ok (hist @ [(i, a)]) (made @ new) c'"
proof -
  note ok = assms(1) [unfolded client_ok_def]
  have old: "inTerm (fst x) \<le> clTerm c" if "x \<in> set made" for x using ok that by blast
  have fin: "inID (fst x) \<in> set (clDone c)" if "succeeded x" "x \<in> set made" for x using ok that by auto
  show ?thesis
  proof (cases "new = []")
    case True
    then show ?thesis using ok assms(2-5) old unfolding client_ok_def by (auto intro: order_trans)
  next
    case False
    then obtain e where e: "new = [(i, inPayload i, e)]" "inPayload i \<noteq> NoPayload" "inID i \<notin> set (clDone c)"
      "clTerm c \<le> inTerm i" "clTerm c' = inTerm i"
      "if e = None then clDone c' = clDone c @ [inID i] else clDone c' = clDone c \<and> iaOutcome a \<noteq> OutcomeAccepted"
      using assms(5) by auto
    have once: "sorted_wrt (\<lambda>x y. succeeded x \<longrightarrow> inID (fst y) \<noteq> inID (fst x)) (made @ new)"
      using ok fin e(3) unfolding e(1) by (auto simp: sorted_wrt_append)
    have terms: "sorted (map (inTerm \<circ> fst) (made @ new))"
      using ok old e(4) unfolding e(1) by (fastforce simp: sorted_append)
    have "set (clDone c') = inID ` fst ` set (filter succeeded (made @ new))"
      using ok e(6) unfolding e(1) by (auto simp: succeeded_def)
    moreover have "\<forall>x \<in> set (made @ new). inTerm (fst x) \<le> clTerm c' \<and> fst (snd x) = inPayload (fst x)
        \<and> inPayload (fst x) \<noteq> NoPayload"
      using ok old e(2,4,5) unfolding e(1) by fastforce
    moreover have "fst ` set (made @ new) \<subseteq> fst ` set (hist @ [(i, a)])" using ok unfolding e(1) by auto
    moreover have "\<forall>x \<in> set (hist @ [(i, a)]). iaID (snd x) = inID (fst x)
        \<and> (iaOutcome (snd x) = OutcomeAccepted \<longrightarrow> inID (fst x) \<in> set (clDone c'))"
      using ok e(6) assms(2) by (auto split: if_splits)
    moreover have "iaID ` set (clAcks c') \<subseteq> inID ` fst ` set (hist @ [(i, a)])" using ok assms(2,4) by auto
    ultimately show ?thesis using once terms unfolding client_ok_def by blast
  qed
qed

lemma client_ok_handle:
  "client_ok hist made c \<Longrightarrow> client_ok (hist @ answer V i (c, s)) (made @ view_calls V i (c, s))
    (fst (handle_instruction V i (c, s)))"
proof (cases rule: handle_cases [of i V c s])
  case (duplicate a)
  moreover assume "client_ok hist made c"
  ultimately show ?thesis using client_ok_snoc [of hist made c a i _ "[]"] by auto
next
  case (rejected a t)
  moreover assume "client_ok hist made c"
  ultimately show ?thesis using client_ok_snoc [of hist made c a i _ "[]"] by auto
qed (auto intro!: client_ok_snoc)

lemma handle_client:
  "clAcks (fst (handle_instruction V i (c, s))) = clAcks c @ map snd (answer V i (c, s))"
  "map fst (answer V i (c, s)) = (if inID i = '''' then [] else [i])"
  by (cases rule: handle_cases [of i V c s]; simp)+

lemma handle_all:
  defines "f \<equiv> \<lambda>V cs i. handle_instruction V i cs"
  shows "client_ok hist made (fst cs) \<Longrightarrow>
      client_ok (hist @ answers V ins cs) (made @ all_calls V ins cs) (fst (foldl (f V) cs ins))"
    "clAcks (fst (foldl (f V) cs ins)) = clAcks (fst cs) @ map snd (answers V ins cs)"
    "map fst (answers V ins cs) = filter (\<lambda>i. inID i \<noteq> '''') ins"
proof (induction ins arbitrary: hist made cs)
  case (Cons i ins)
  { case (1 hist made cs)
    obtain c s where "cs = (c, s)" by (cases cs)
    then show ?case using 1 Cons.IH(1) [OF client_ok_handle, of hist made c V i s] by (simp add: f_def)
  next
    case (2 cs)
    obtain c s where "cs = (c, s)" by (cases cs)
    then show ?case using Cons.IH(2) by (simp add: f_def handle_client)
  next
    case (3 cs)
    obtain c s where "cs = (c, s)" by (cases cs)
    then show ?case using Cons.IH(3) by (simp add: handle_client)
  }
qed simp_all

lemma client_ok_term: "client_ok hist made c \<Longrightarrow> clTerm c \<le> t \<Longrightarrow> client_ok hist made (c\<lparr>clTerm := t\<rparr>)"
  by (force simp: client_ok_def)

lemma finish_answered:
  assumes "finish_report V acks (Some ra) (c, s) = (c', s')"
  shows "client_ok hist made c \<Longrightarrow>
      client_ok (hist @ report_answers V ra (c, s)) (made @ report_calls V ra (c, s)) c'"
    "clAcks c' = clAcks c @ map snd (report_answers V ra (c, s))"
    "map fst (report_answers V ra (c, s)) = (if 0 < raTerm ra \<and> raTerm ra < clTerm c then []
       else filter (\<lambda>i. inID i \<noteq> '''') (raInstructions ra))"
proof -
  define c0 where "c0 = (if 0 < raTerm ra then c\<lparr>clTerm := raTerm ra\<rparr> else c)"
  have stale: "c' = c \<and> report_answers V ra (c, s) = [] \<and> report_calls V ra (c, s) = []" if "0 < raTerm ra \<and> raTerm ra < clTerm c"
    using assms that by (simp add: finish_report_def report_answers_def report_calls_def term_validate_def)
  have fresh: "c' = fst (foldl (\<lambda>cs i. handle_instruction V i cs) (c0, s) (raInstructions ra))
      \<and> report_answers V ra (c, s) = answers V (raInstructions ra) (c0, s)
      \<and> report_calls V ra (c, s) = all_calls V (raInstructions ra) (c0, s)" if "\<not> (0 < raTerm ra \<and> raTerm ra < clTerm c)"
    using assms that by (auto simp: finish_report_def report_answers_def report_calls_def term_validate_def c0_def)
  have c0: "clAcks c0 = clAcks c" "client_ok hist made c \<Longrightarrow> \<not> (0 < raTerm ra \<and> raTerm ra < clTerm c) \<Longrightarrow> client_ok hist made c0"
    by (auto simp: c0_def client_ok_term)
  note all = handle_all [where V = V and ins = "raInstructions ra" and cs = "(c0, s)"]
  show "client_ok hist made c \<Longrightarrow>
      client_ok (hist @ report_answers V ra (c, s)) (made @ report_calls V ra (c, s)) c'"
    using stale fresh c0 all(1) by (cases "0 < raTerm ra \<and> raTerm ra < clTerm c") simp_all
  show "clAcks c' = clAcks c @ map snd (report_answers V ra (c, s))"
    using stale fresh c0 all(2) by (cases "0 < raTerm ra \<and> raTerm ra < clTerm c") simp_all
  show "map fst (report_answers V ra (c, s)) = (if 0 < raTerm ra \<and> raTerm ra < clTerm c then []
       else filter (\<lambda>i. inID i \<noteq> '''') (raInstructions ra))"
    using stale fresh all(3) by (cases "0 < raTerm ra \<and> raTerm ra < clTerm c") auto
qed

text \<open>Running with the recording view changes nothing but the record, and the record is \<open>report_calls\<close>.\<close>

lemma handle_recorded:
  "handle_instruction (recorded V) i (c, (s, calls))
    = (fst (handle_instruction V i (c, s)),
       (snd (handle_instruction V i (c, s)), calls @ map snd (view_calls V i (c, s))))"
proof -
  obtain e t where t: "term_validate (clTerm c) (inTerm i) = (e, t)" by (rule prod.exhaust)
  obtain r s' where v: "V (inPayload i) s = (r, s')" by (rule prod.exhaust)
  show ?thesis
    by (cases e; cases r) (auto simp: handle_instruction_def view_calls_def recorded_def Let_def t v)
qed

lemma handle_term: "clTerm c \<le> clTerm (fst (handle_instruction V i (c, s)))"
  by (cases rule: handle_cases [of i V c s]) simp_all

lemma view_calls_term: "x \<in> set (view_calls V i (c, s)) \<Longrightarrow> clTerm c \<le> inTerm (fst x)"
  by (cases rule: handle_cases [of i V c s]) simp_all

lemma all_calls_term: "x \<in> set (all_calls V ins (c, s)) \<Longrightarrow> clTerm c \<le> inTerm (fst x)"
proof (induction ins arbitrary: c s)
  case (Cons i ins)
  obtain c' s' where h: "handle_instruction V i (c, s) = (c', s')" by (rule prod.exhaust)
  have "clTerm c \<le> clTerm c'" using handle_term [of c V i s] h by simp
  then show ?case using Cons view_calls_term [of x V i c s] h by (auto intro: order_trans)
qed simp

lemma report_calls_terms: "x \<in> set (report_calls V ra (c, s)) \<Longrightarrow> clTerm c \<le> inTerm (fst x)"
  using all_calls_term [of x V "raInstructions ra" c s]
    all_calls_term [of x V "raInstructions ra" "c\<lparr>clTerm := raTerm ra\<rparr>" s]
  by (auto simp: report_calls_def term_validate_def split: if_splits)

lemma foldl_recorded:
  "foldl (\<lambda>cs i. handle_instruction (recorded V) i cs) (c, (s, calls)) ins
    = (fst (foldl (\<lambda>cs i. handle_instruction V i cs) (c, s) ins),
       (snd (foldl (\<lambda>cs i. handle_instruction V i cs) (c, s) ins), calls @ map snd (all_calls V ins (c, s))))"
proof (induction ins arbitrary: c s calls)
  case (Cons i ins)
  obtain c' s' where "handle_instruction V i (c, s) = (c', s')" by (rule prod.exhaust)
  then show ?case using Cons.IH [of c' s'] by (simp add: handle_recorded)
qed simp

lemma finish_recorded:
  "snd (snd (finish_report (recorded V) acks (Some ra) (c, (s, [])))) = map snd (report_calls V ra (c, s))"
  by (simp add: finish_report_def report_calls_def term_validate_def foldl_recorded)

lemma snapshot_pending_set: "gm_ok (pend g k) \<Longrightarrow> set (snapshot_pending k g) = {i. \<exists>x. gm_get (pend g k) x = Some i}"
  by (auto simp: snapshot_pending_def gm_get_some_iff image_iff simp del: map_of_eq_Some_iff) force

subsection \<open>The invariant of the link\<close>

definition link_ok ::
    "string \<Rightarrow> (instruction \<times> instruct_ack) list \<Rightarrow> (instruction \<times> call) list \<Rightarrow> instruction list \<Rightarrow> coord_server \<Rightarrow> coord_client \<Rightarrow> bool" where
  "link_ok k hist made queued g c \<longleftrightarrow> client_ok hist made c \<and> gm_ok (pend g k)
     \<and> (\<forall>x i. gm_get (pend g k) x = Some i \<longrightarrow> i \<in> set queued \<and> inID i = x \<and> x \<noteq> '''')
     \<and> fst ` set hist \<subseteq> set queued
     \<and> (\<forall>i \<in> set queued. inID i \<in> inID ` fst ` set hist \<or> gm_get (pend g k) (inID i) \<noteq> None)"

lemma link_ok_clear:
  assumes "link_ok k hist made queued g c" and "client_ok hist made c'"
    and "pend g' k = pend (clear_acked k acks g) k" and "iaID ` set acks \<subseteq> inID ` fst ` set hist"
  shows "link_ok k hist made queued g' c'"
proof -
  note ok = assms(1) [unfolded link_ok_def]
  have get: "gm_get (pend g' k) x = (if x \<in> iaID ` set acks then None else gm_get (pend g k) x)" for x
    by (simp add: assms(3) pend_clear)
  have "gm_ok (pend g' k)" using ok assms(3) pend_clear_ok by metis
  moreover have "inID i \<in> inID ` fst ` set hist \<or> gm_get (pend g' k) (inID i) \<noteq> None" if "i \<in> set queued" for i
    using ok that assms(4) unfolding get by (metis subsetD)
  ultimately show ?thesis using ok assms(2) unfolding link_ok_def get by (metis option.distinct(1))
qed

lemma link_ok_answers:
  assumes "link_ok k hist made queued g c" and "client_ok (hist @ new) (made @ new') c'" and "fst ` set new \<subseteq> set queued"
  shows "link_ok k (hist @ new) (made @ new') queued g c'"
  using assms by (auto simp: link_ok_def image_Un simp del: map_of_eq_Some_iff map_of_eq_None_iff)

lemma client_ok_acks:
  "client_ok hist made c \<Longrightarrow> iaID ` set as \<subseteq> inID ` fst ` set hist \<Longrightarrow>
    client_ok hist made (c\<lparr>clCycle := n, clAcks := as\<rparr>)"
  unfolding client_ok_def by (elim conjE, intro conjI) simp_all

lemma client_ok_acked: "client_ok hist made c \<Longrightarrow> iaID ` set (clAcks c) \<subseteq> inID ` fst ` set hist"
  by (simp add: client_ok_def)

lemma link_invariant: "link V k hist made queued g c s \<Longrightarrow> link_ok k hist made queued g c"
proof (induction rule: link.induct)
  case (start st s)
  show ?case by (simp add: link_ok_def client_ok_def new_client_def new_server_def gm_at_def)
next
  case (enqueues hist made queued g c s R k' i ok g')
  then show ?case
    by (auto simp: link_ok_def enqueue_instruction_def distinct_update split: if_splits option.splits
        simp del: map_of_eq_Some_iff map_of_eq_None_iff; blast)
next
  case (others hist made queued g c s R p r resp g')
  have "pend g' k = pend g k"
    using report_pending(1) [OF others.hyps(2)] pend_clear_other [OF others.hyps(3), of "rpAcks r" g] by (auto simp: gm_at_def)
  then show ?case using others.IH by (simp add: link_ok_def del: map_of_eq_Some_iff map_of_eq_None_iff)
next
  case (moves hist made queued g c s g' s')
  then show ?case by (simp add: link_ok_def del: map_of_eq_Some_iff map_of_eq_None_iff)
next
  case (answered hist made queued g c s acks c1 r R p ra g' c' s')
  have c: "client_ok hist made c" using answered.IH by (simp add: link_ok_def)
  have "acks = clAcks c" "c1 = c\<lparr>clCycle := i64 (clCycle c + 1), clAcks := []\<rparr>"
    using answered.hyps(2) by (simp_all add: begin_report_def)
  with c have acks: "iaID ` set acks \<subseteq> inID ` fst ` set hist" "client_ok hist made c1"
    using client_ok_acked [OF c] client_ok_acks [OF c] by simp_all
  have g': "gsPending g' = gsPending (clear_acked k acks g)" "raInstructions ra = snapshot_pending k g'"
    using report_pending(2) [OF answered.hyps(5)] answered.hyps(3,4) by auto
  have ok: "link_ok k hist made queued g' c1" using link_ok_clear [OF answered.IH acks(2)] g'(1) acks(1) by simp
  have "set (raInstructions ra) \<subseteq> set queued"
    using ok g'(2) snapshot_pending_set [of g' k] by (auto simp: link_ok_def simp del: map_of_eq_Some_iff)
  then have "fst ` set (report_answers V ra (c1, s)) \<subseteq> set queued"
    using finish_answered(3) [OF answered.hyps(6)] by (metis (no_types, lifting) empty_subsetI filter_is_subset list.set(1) list.set_map order_trans)
  then show ?case using link_ok_answers [OF ok] finish_answered(1) [OF answered.hyps(6)] acks(2) by blast
next
  case (unanswered hist made queued g c s acks c1 r g' R p resp c' s')
  have c: "client_ok hist made c" using unanswered.IH by (simp add: link_ok_def)
  have c': "c' = c1\<lparr>clAcks := acks @ clAcks c1\<rparr>" using unanswered.hyps(6) by (simp add: finish_report_def)
  have "acks = clAcks c" "c1 = c\<lparr>clCycle := i64 (clCycle c + 1), clAcks := []\<rparr>"
    using unanswered.hyps(2) by (simp_all add: begin_report_def)
  with c have acks: "iaID ` set acks \<subseteq> inID ` fst ` set hist" "client_ok hist made c'"
    using client_ok_acked [OF c] client_ok_acks [OF c, of "clAcks c"] c' by simp_all
  have "gsPending g' = gsPending g \<or> gsPending g' = gsPending (clear_acked k acks g)"
    using unanswered.hyps(5) report_pending(1) [of R p r g resp g'] unanswered.hyps(3,4) by auto
  moreover have "link_ok k hist made queued g c'" using unanswered.IH acks(2) by (simp add: link_ok_def del: map_of_eq_Some_iff map_of_eq_None_iff)
  ultimately show ?case
  proof (elim disjE)
    assume "gsPending g' = gsPending g" "link_ok k hist made queued g c'"
    then show ?thesis by (simp add: link_ok_def del: map_of_eq_Some_iff map_of_eq_None_iff)
  next
    assume "gsPending g' = gsPending (clear_acked k acks g)"
    then show ?thesis using link_ok_clear [OF unanswered.IH acks(2) _ acks(1)] by simp
  qed
qed

text \<open>C25: An instruction takes effect at most once and in the order of terms. Whatever is queued, delivered,
  delivered again or lost, and whatever reports fail: the client calls its shard only for instructions
  queued for that shard, with their payload, and never again for an id whose call succeeded; the calls come
  in non-decreasing coordinator terms, none from a term older than one the client has seen by then; it
  answers \<open>accepted\<close> only for an id whose call succeeded. The calls are those of the recorded run of a
  report's answer.\<close>
theorem instruction_once:
  assumes "link V k hist made queued g c s"
  shows "fst ` set made \<subseteq> set queued \<and> (\<forall>x \<in> set made. fst (snd x) = inPayload (fst x))
    \<and> distinct (map (inID \<circ> fst) (filter succeeded made))
    \<and> (\<forall>before x after. made = before @ x # after \<and> succeeded x \<longrightarrow> inID (fst x) \<notin> inID ` fst ` set after)
    \<and> sorted (map (inTerm \<circ> fst) made) \<and> (\<forall>x \<in> set made. inTerm (fst x) \<le> clTerm c)
    \<and> (\<forall>ra. \<forall>x \<in> set (report_calls V ra (c, s)). clTerm c \<le> inTerm (fst x))
    \<and> (\<forall>x \<in> set hist. iaOutcome (snd x) = OutcomeAccepted \<longrightarrow>
         iaID (snd x) \<in> inID ` fst ` set (filter succeeded made))
    \<and> (\<forall>ra acks. snd (snd (finish_report (recorded V) acks (Some ra) (c, (s, []))))
         = map snd (report_calls V ra (c, s)))"
proof -
  have ok: "client_ok hist made c" "fst ` set hist \<subseteq> set queued"
    using link_invariant [OF assms] by (simp_all add: link_ok_def)
  note C = ok(1) [unfolded client_ok_def]
  then have once: "sorted_wrt (\<lambda>x y. succeeded x \<longrightarrow> inID (fst y) \<noteq> inID (fst x)) made" by blast
  then have "distinct (map (inID \<circ> fst) (filter succeeded made))"
    by (induction made) auto
  moreover have "\<forall>before x after. made = before @ x # after \<and> succeeded x \<longrightarrow> inID (fst x) \<notin> inID ` fst ` set after"
    using once by (fastforce simp: sorted_wrt_append)
  moreover have "\<forall>ra. \<forall>x \<in> set (report_calls V ra (c, s)). clTerm c \<le> inTerm (fst x)"
    by (intro allI ballI) (rule report_calls_terms)
  ultimately show ?thesis using C ok(2) finish_recorded [of V] by (auto simp: subset_iff)
qed

text \<open>C26: No instruction is lost while the coordinator leads, and every one is settled within two reports.
  At any time an instruction queued for the shard is still pending or has been answered by the client; if
  the next report is answered in a term that is not stale, the client answers everything that was
  pending after it, and the report after that, if it is answered, leaves nothing of it pending.\<close>
theorem instructions_settled:
  assumes "link V k hist made queued g c s"
    and "begin_report c = (acks, c1)" "rpShard r = k" "rpAcks r = acks"
    and "report_shard R p (Some r) g = (Inr ra, g1)" "finish_report V acks (Some ra) (c1, s) = (c2, s2)"
    and "clTerm c \<le> rfTerm R"
    and "begin_report c2 = (acks2, c3)" "rpShard r2 = k" "rpAcks r2 = acks2"
    and "report_shard R2 p2 (Some r2) g1 = (Inr ra2, g2)"
  shows "(\<forall>i \<in> set queued. inID i \<in> inID ` fst ` set hist \<or> gm_get (pend g k) (inID i) \<noteq> None)
    \<and> map fst (report_answers V ra (c1, s)) = raInstructions ra
    \<and> pend g2 k = [] \<and> raInstructions ra2 = []"
proof -
  have l1: "link_ok k (hist @ report_answers V ra (c1, s)) (made @ report_calls V ra (c1, s)) queued g1 c2"
    using link_invariant [OF link.answered [OF assms(1-6)]] .
  have g1: "gsPending g1 = gsPending (clear_acked k acks g)" "raInstructions ra = snapshot_pending k g1" "raTerm ra = rfTerm R"
    using report_pending(2) [OF assms(5)] assms(3,4) by auto
  have c1: "clTerm c1 = clTerm c" "clAcks c1 = []" using assms(2) by (auto simp: begin_report_def)
  have pend1: "set (snapshot_pending k g1) = {i. \<exists>x. gm_get (pend g1 k) x = Some i}"
    "\<And>x i. gm_get (pend g1 k) x = Some i \<Longrightarrow> inID i = x \<and> x \<noteq> ''''"
    using l1 snapshot_pending_set by (auto simp: link_ok_def simp del: map_of_eq_Some_iff)
  then have "list_all (\<lambda>i. inID i \<noteq> '''') (raInstructions ra)" by (auto simp: g1(2) list_all_iff simp del: map_of_eq_Some_iff)
  then have answered: "map fst (report_answers V ra (c1, s)) = raInstructions ra"
    using finish_answered(3) [OF assms(6)] assms(7) g1(3) c1(1) by (simp add: list_all_iff)
  have "acks2 = map snd (report_answers V ra (c1, s))"
    using finish_answered(2) [OF assms(6)] assms(8) c1(2) by (simp add: begin_report_def)
  moreover have "\<forall>x \<in> set (report_answers V ra (c1, s)). iaID (snd x) = inID (fst x)"
    using l1 by (auto simp: link_ok_def client_ok_def)
  ultimately have "iaID ` set acks2 = inID ` fst ` set (report_answers V ra (c1, s))" by (force simp: image_image)
  then have ids: "iaID ` set acks2 = inID ` set (raInstructions ra)" by (metis answered list.set_map)
  have g2: "gsPending g2 = gsPending (clear_acked k acks2 g1)" "raInstructions ra2 = snapshot_pending k g2"
    using report_pending(2) [OF assms(11)] assms(9,10) by auto
  have "gm_get (pend (clear_acked k acks2 g1) k) x = None" for x
    using pend1 unfolding pend_clear ids g1(2) by (cases "gm_get (pend g1 k) x") (auto simp del: map_of_eq_Some_iff map_of_eq_None_iff)
  then have "pend g2 k = []" unfolding g2(1) by (rule pend_clear_empty)
  moreover have "\<forall>i \<in> set queued. inID i \<in> inID ` fst ` set hist \<or> gm_get (pend g k) (inID i) \<noteq> None"
    using link_invariant [OF assms(1)] unfolding link_ok_def by blast
  ultimately show ?thesis using answered g2(2) by (simp add: snapshot_pending_def)
qed

section \<open>A concrete exchange\<close>

definition sample_raft :: raft_env where
  "sample_raft = \<lparr>rfLeader = True, rfTerm = 3, rfCommit = \<lambda>_. Committed, rfNow = 5\<rparr>"

definition sample_instruction :: instruction where
  "sample_instruction = \<lparr>inTerm = 3, inSeq = 2, inID = ''x'', inPayload = AssignDomain ''zone'' ''a''\<rparr>"

definition sample_report :: "instruct_ack list \<Rightarrow> shard_report" where
  "sample_report acks = \<lparr>rpShard = ''s'', rpAddress = '''', rpCycle = 2, rpTimestamp = 0, rpEpoch = 0,
     rpSummary = None, rpShortfalls = [], rpAcks = acks\<rparr>"

definition sample_ack :: instruct_ack where
  "sample_ack = \<lparr>iaID = ''x'', iaOutcome = OutcomeAccepted, iaReason = ''''\<rparr>"

definition sample_server :: coord_server where
  "sample_server = snd (enqueue_instruction sample_raft ''s'' (Some sample_instruction) (new_server new_state))"

definition sample_served :: coord_server where
  "sample_served = snd (report_shard sample_raft None (Some (sample_report [])) sample_server)"

definition sample_asked :: coord_client where
  "sample_asked = snd (begin_report new_client)"

definition sample_answered :: coord_client where
  "sample_answered = sample_asked\<lparr>clTerm := 3, clDone := [''x''], clAcks := [sample_ack]\<rparr>"

lemma sample_link: "link shard_view ''s'' [] [] [sample_instruction] sample_server new_client (new_shard 0)"
proof -
  have "enqueue_instruction sample_raft ''s'' (Some sample_instruction) (new_server new_state) = (True, sample_server)"
    by (simp add: sample_server_def enqueue_instruction_def sample_raft_def sample_instruction_def)
  from link.enqueues [OF link.start [of shard_view "''s''" new_state "new_shard 0"] this] show ?thesis by simp
qed

lemmas sample_eval = sample_server_def sample_served_def report_shard_def enqueue_instruction_def sample_raft_def
  sample_instruction_def sample_report_def peer_identity_def require_shard_identity_def register_shard_def new_server_def
  new_state_def coordinator_apply_def make_add_shard_def no_command_def apply_command_def add_shard_def mark_heartbeat_def
  store_report_def clear_acked_def snapshot_pending_def gm_at_def Let_def

lemma sample_reports:
  "report_shard sample_raft None (Some (sample_report [])) sample_server = (Inr \<lparr>raTerm = 3, raInstructions = [sample_instruction]\<rparr>, sample_served)"
  "\<exists>ra. report_shard sample_raft None (Some (sample_report [sample_ack])) sample_served
    = (Inr ra, snd (report_shard sample_raft None (Some (sample_report [sample_ack])) sample_served))"
  by (simp_all add: sample_eval)

lemma sample_finish:
  "\<exists>s. finish_report shard_view [] (Some \<lparr>raTerm = 3, raInstructions = [sample_instruction]\<rparr>) (sample_asked, new_shard 0)
    = (sample_answered, s)"
  by (simp add: finish_report_def sample_asked_def begin_report_def new_client_def new_coordinator_term_def term_validate_def
      handle_instruction_def sample_instruction_def shard_view_def queue_ack_def sample_answered_def sample_ack_def)

theorem instructions_settled_witness:
  "pend sample_served ''s'' = [(''x'', sample_instruction)]
   \<and> pend (snd (report_shard sample_raft None (Some (sample_report [sample_ack])) sample_served)) ''s'' = []"
proof -
  obtain s2 where f: "finish_report shard_view [] (Some \<lparr>raTerm = 3, raInstructions = [sample_instruction]\<rparr>) (sample_asked, new_shard 0)
      = (sample_answered, s2)" using sample_finish by blast
  obtain ra2 where r2: "report_shard sample_raft None (Some (sample_report [sample_ack])) sample_served
      = (Inr ra2, snd (report_shard sample_raft None (Some (sample_report [sample_ack])) sample_served))"
    using sample_reports(2) by blast
  have "begin_report new_client = ([], sample_asked)" "clTerm new_client \<le> rfTerm sample_raft"
    by (simp_all add: sample_asked_def begin_report_def new_client_def new_coordinator_term_def sample_raft_def)
  moreover have "begin_report sample_answered = ([sample_ack], snd (begin_report sample_answered))"
    by (simp add: begin_report_def sample_answered_def)
  moreover have "rpShard (sample_report as) = ''s''" "rpAcks (sample_report as) = as" for as by (simp_all add: sample_report_def)
  moreover have "pend sample_served ''s'' = [(''x'', sample_instruction)]" by (simp add: sample_eval)
  ultimately show ?thesis using instructions_settled [OF sample_link _ _ _ sample_reports(1) f _ _ _ _ r2] by blast
qed

theorem instruction_once_witness:
  "\<exists>hist made c. link shard_view ''s'' hist made [sample_instruction] sample_served c (new_shard 0)
     \<and> map fst made = [sample_instruction] \<and> distinct (map (inID \<circ> fst) (filter succeeded made))"
proof -
  let ?ra = "\<lparr>raTerm = 3, raInstructions = [sample_instruction]\<rparr>"
  obtain s2 where f: "finish_report shard_view [] (Some ?ra) (sample_asked, new_shard 0) = (sample_answered, s2)"
    using sample_finish by blast
  have "begin_report new_client = ([], sample_asked)" by (simp add: sample_asked_def begin_report_def new_client_def)
  then have "link shard_view ''s'' ([] @ report_answers shard_view ?ra (sample_asked, new_shard 0))
      ([] @ report_calls shard_view ?ra (sample_asked, new_shard 0)) [sample_instruction]
      sample_served sample_answered s2"
    using link.answered [OF sample_link _ _ _ sample_reports(1) f] by (simp add: sample_report_def)
  then have l: "link shard_view ''s'' ([] @ report_answers shard_view ?ra (sample_asked, new_shard 0))
      ([] @ report_calls shard_view ?ra (sample_asked, new_shard 0)) [sample_instruction]
      sample_served sample_answered (new_shard 0)" by (rule link.moves) simp
  have "map fst (report_calls shard_view ?ra (sample_asked, new_shard 0)) = [sample_instruction]"
    by (simp add: report_calls_def term_validate_def sample_asked_def begin_report_def new_client_def
        new_coordinator_term_def view_calls_def handle_instruction_def sample_instruction_def recorded_def shard_view_def)
  with l instruction_once [OF l] show ?thesis by (metis append_Nil)
qed

theorem authority_witness:
  "snd (remove_shard_rpc sample_raft (Some [(''bigfleet'', admin_uri)]) (Some ''s'') sample_served) \<noteq> sample_served
   \<and> only_bigfleet '''' [(''bigfleet'', admin_uri)] = Inr admin_uri"
proof -
  have "snd (remove_shard_rpc sample_raft (Some [(''bigfleet'', admin_uri)]) (Some ''s'') sample_served) \<noteq> sample_served"
    by (simp add: sample_eval remove_shard_rpc_def require_admin_identity_def admin_uri_def make_remove_shard_def remove_shard_def)
  then show ?thesis using authority [of sample_raft "[(''bigfleet'', admin_uri)]"] by blast
qed

end
