(* ===== verification/Operator.thy ===== *)
theory Operator
  imports Conv Samples
begin

text \<open>
  The operator's roll-up (\<open>pkg/operator/rollup.go\<close>): the capacity requests of a cluster become one
  message to the shard, and the requests it reports are acknowledged. The answers of the API server
  are arguments; so is the conversion of a quantity to a float.
\<close>

section \<open>Capacity requests\<close>

text \<open>The shape of node selector requirements and of label expressions.\<close>

record selector_expr =
  xeKey :: string
  xeOperator :: string
  xeValues :: "string list"

record label_selector =
  lsLabels :: "(string, string) gomap"
  lsExprs :: "selector_expr list"

record co_location =
  coTopologyKey :: string
  coSelector :: "label_selector option"

record cr_spread =
  xsTopologyKey :: string
  xsMaxSkew :: int
  xsWhenUnsatisfiable :: string

record 'q capacity_request =
  crNamespace :: string
  crName :: string
  crOwner :: string
  crRequirements :: "selector_expr list"
  crResources :: "(string, 'q) gomap"
  crPriority :: int
  crInterruptionPenalty :: "'q option"
  crReclamationPenalty :: "'q option"
  crSpread :: "cr_spread list"
  crCoLocation :: "co_location option"
  crPhase :: string

section \<open>Profiles of requests\<close>

definition requirement_operator_from_core :: "string \<Rightarrow> operator option" where
  "requirement_operator_from_core op =
    (if op = ''In'' then Some OperatorIn else if op = ''NotIn'' then Some OperatorNotIn
     else if op = ''Exists'' then Some OperatorExists
     else if op = ''DoesNotExist'' then Some OperatorDoesNotExist else None)"

definition when_unsatisfiable_from_core :: "string \<Rightarrow> when_unsatisfiable" where
  "when_unsatisfiable_from_core w =
    (if w = ''DoNotSchedule'' then WhenUnsatisfiableDoNotSchedule
     else if w = ''ScheduleAnyway'' then WhenUnsatisfiableScheduleAnyway
     else WhenUnsatisfiableUnspecified)"

definition expr_less :: "selector_expr \<Rightarrow> selector_expr \<Rightarrow> bool" where
  "expr_less a b \<longleftrightarrow>
    (if xeKey a \<noteq> xeKey b then xeKey a < xeKey b
     else if xeOperator a \<noteq> xeOperator b then xeOperator a < xeOperator b
     else join '','' (xeValues a) < join '','' (xeValues b))"

text \<open>The labels by sorted key, then the sorted expressions with sorted values.\<close>

definition canonical_label_selector :: "label_selector option \<Rightarrow> string" where
  "canonical_label_selector sel =
    (case sel of None \<Rightarrow> ''''
     | Some s \<Rightarrow>
         let keys = sort_less (<) (map fst (lsLabels s));
             exprs = sort_less expr_less (map (\<lambda>e. e\<lparr>xeValues := sort_less (<) (xeValues e)\<rparr>) (lsExprs s))
         in concat (map (\<lambda>k. k @ ''='' @ gm_at '''' (lsLabels s) k @ '','') keys) @ '';''
            @ concat (map (\<lambda>e. xeKey e @ '' '' @ xeOperator e @ '' '' @ join '','' (xeValues e) @ '';'') exprs))"

definition co_location_group :: "'q capacity_request \<Rightarrow> string" where
  "co_location_group cr =
    (case crCoLocation cr of None \<Rightarrow> ''''
     | Some t \<Rightarrow> if coTopologyKey t = '''' then ''''
               else coTopologyKey t @ [CHR 0x00] @ canonical_label_selector (coSelector t))"

definition with_same_requirement :: "profile \<Rightarrow> string \<Rightarrow> profile" where
  "with_same_requirement p key =
    (if list_ex (\<lambda>r. rOperator r = OperatorSame \<and> rKey r = key) (requirements p) then p
     else new_profile (requirements p @ [\<lparr>rKey = key, rOperator = OperatorSame, rValues = []\<rparr>]) (spread p)
            (priority p) (interruptionPenaltyBucket p) (reclamationPenaltyBucket p))"

fun core_requirements :: "selector_expr list \<Rightarrow> requirement list option" where
  "core_requirements [] = Some []"
| "core_requirements (e # es) =
    (case requirement_operator_from_core (xeOperator e) of None \<Rightarrow> None
     | Some op \<Rightarrow> map_option (\<lambda>rs. \<lparr>rKey = xeKey e, rOperator = op, rValues = xeValues e\<rparr> # rs) (core_requirements es))"

definition penalty_bucket_of :: "('q \<Rightarrow> f64) \<Rightarrow> 'q option \<Rightarrow> penalty_bucket" where
  "penalty_bucket_of approx q = (case q of None \<Rightarrow> 0 | Some q \<Rightarrow> bucket_for_dollars (approx q))"

definition profile_from_cr ::
    "'q qlib \<Rightarrow> ('q \<Rightarrow> f64) \<Rightarrow> 'q capacity_request \<Rightarrow> (profile \<times> resource_qty list) option" where
  "profile_from_cr Q approx cr =
    (case core_requirements (crRequirements cr) of None \<Rightarrow> None
     | Some reqs \<Rightarrow>
         let res = map (\<lambda>(k, q). \<lparr>rqName = k, rqQuantity = qString Q q\<rparr>) (crResources cr);
             spr = map (\<lambda>s. \<lparr>tsTopologyKey = xsTopologyKey s, tsMaxSkew = xsMaxSkew s,
                              tsWhenUnsatisfiable = when_unsatisfiable_from_core (xsWhenUnsatisfiable s)\<rparr>)
                     (filter (\<lambda>s. when_unsatisfiable_from_core (xsWhenUnsatisfiable s) \<noteq> WhenUnsatisfiableScheduleAnyway)
                       (crSpread cr))
         in Some (new_profile reqs spr (crPriority cr) (penalty_bucket_of approx (crInterruptionPenalty cr))
                    (penalty_bucket_of approx (crReclamationPenalty cr)), res))"

section \<open>The roll-up\<close>

definition resource_qty_map :: "resource_qty list \<Rightarrow> (string, string) gomap" where
  "resource_qty_map rs = foldl (\<lambda>m r. gm_set (rqName r) (rqQuantity r) m) [] rs"

fun when_unsatisfiable_to_proto :: "when_unsatisfiable \<Rightarrow> int" where
  "when_unsatisfiable_to_proto WhenUnsatisfiableDoNotSchedule = 1"
| "when_unsatisfiable_to_proto WhenUnsatisfiableScheduleAnyway = 2"
| "when_unsatisfiable_to_proto WhenUnsatisfiableUnspecified = 0"

definition need_to_capacity_need :: "need \<Rightarrow> pb_capacity_need" where
  "need_to_capacity_need n =
    (let p = nProfile n in
     \<lparr>pbnRequirements = requirements_to_proto (requirements p),
      pbnSpread = map (\<lambda>s. \<lparr>pbsTopologyKey = tsTopologyKey s, pbsMaxSkew = tsMaxSkew s,
                     pbsWhenUnsatisfiable = when_unsatisfiable_to_proto (tsWhenUnsatisfiable s)\<rparr>) (spread p),
      pbnPriority = priority p, pbnInterruptionBucket = int (interruptionPenaltyBucket p),
      pbnReclamationBucket = int (reclamationPenaltyBucket p),
      pbnAggregate = resource_qty_map (AggregateResources n), pbnMinUnit = resource_qty_map (MinUnit n),
      pbnGroup = Group n\<rparr>)"

text \<open>The need of one request; a request whose profile cannot be read is skipped.\<close>

definition raw_need :: "'q qlib \<Rightarrow> ('q \<Rightarrow> f64) \<Rightarrow> string \<Rightarrow> 'q capacity_request \<Rightarrow> need option" where
  "raw_need Q approx cluster cr =
    (case profile_from_cr Q approx cr of None \<Rightarrow> None
     | Some (p, res) \<Rightarrow>
         let group = co_location_group cr;
             p = (case crCoLocation cr of Some t \<Rightarrow> if group \<noteq> '''' then with_same_requirement p (coTopologyKey t) else p
                  | None \<Rightarrow> p)
         in Some \<lparr>nCluster = cluster, nProfile = p, AggregateResources = res, MinUnit = res,
                  ArrivalUnixNanos = 0, Group = group, AcquisitionParked = False\<rparr>)"

definition build_rollup ::
    "'q qlib \<Rightarrow> ('q \<Rightarrow> f64) \<Rightarrow> string \<Rightarrow> int \<Rightarrow> 'q capacity_request list \<Rightarrow> pb_rollup \<times> 'q capacity_request list" where
  "build_rollup Q approx cluster now crs =
    (\<lparr>pbCluster = cluster, pbTimestamp = now,
      pbNeeds = map need_to_capacity_need (aggregate Q (List.map_filter (raw_need Q approx cluster) crs))\<rparr>,
     filter (\<lambda>cr. raw_need Q approx cluster cr \<noteq> None \<and> (crPhase cr = '''' \<or> crPhase cr = ''Pending'')) crs)"

text \<open>
  The status of a request is written by a patch, which the API server takes, does not find, or
  refuses; what is written is the set of names acknowledged.
\<close>

datatype patch_answer = Patched | PatchNotFound | PatchFailed

definition mark_acknowledged ::
    "('q capacity_request \<Rightarrow> patch_answer) \<Rightarrow> 'q capacity_request \<Rightarrow> (string \<times> string) list \<Rightarrow> bool \<times> (string \<times> string) list" where
  "mark_acknowledged api cr written =
    (if crPhase cr = ''Acknowledged'' then (True, written)
     else case api cr of
       Patched \<Rightarrow> (True, written @ [(crNamespace cr, crName cr)])
     | PatchNotFound \<Rightarrow> (True, written)
     | PatchFailed \<Rightarrow> (False, written))"

definition acknowledge_all ::
    "('q capacity_request \<Rightarrow> patch_answer) \<Rightarrow> 'q capacity_request list \<Rightarrow> (string \<times> string) list" where
  "acknowledge_all api crs = foldl (\<lambda>w cr. snd (mark_acknowledged api cr w)) [] crs"

text \<open>One roll-up: what is listed, what lies in the slot for the stream, what is acknowledged.\<close>

definition run_rollup ::
    "'q qlib \<Rightarrow> ('q \<Rightarrow> f64) \<Rightarrow> string \<Rightarrow> int \<Rightarrow> 'q capacity_request list option
      \<Rightarrow> ('q capacity_request \<Rightarrow> patch_answer) \<Rightarrow> pb_rollup option \<Rightarrow> bool \<times> pb_rollup option \<times> (string \<times> string) list" where
  "run_rollup Q approx cluster now listed api slot =
    (case listed of None \<Rightarrow> (False, slot, [])
     | Some crs \<Rightarrow> (case build_rollup Q approx cluster now crs of
         (rollup, pending) \<Rightarrow> (True, Some rollup, acknowledge_all api pending)))"

section \<open>What the shard reads\<close>

lemma insort_sorted_head: "list_all (\<lambda>y. \<not> lt y x) xs \<Longrightarrow> insort_less lt x xs = x # xs"
  by (cases xs) auto

lemma sort_less_sorted: "sorted_wrt (\<lambda>a b. \<not> lt b a) xs \<Longrightarrow> sort_less lt xs = xs"
  by (induction xs) (simp_all add: insort_sorted_head list_all_iff)

definition canonical :: "profile \<Rightarrow> bool" where
  "canonical p \<longleftrightarrow> new_profile (requirements p) (spread p) (priority p) (interruptionPenaltyBucket p)
     (reclamationPenaltyBucket p) = p"

lemma sort_less_idem:
  assumes "comparator lt (\<lambda>_. True)"
  shows "sort_less lt (sort_less lt xs) = sort_less lt xs"
  using comparator.sort_sorted [OF assms, of xs] by (simp add: sort_less_sorted)

lemma canonical_new_profile: "canonical (new_profile reqs spr prio ib rb)"
proof -
  have v: "canon_req (canon_req r) = canon_req r" for r
    by (simp add: canon_req_def sort_less_idem str_cmp.comparator_axioms)
  have "map canon_req (sort_less req_less (map canon_req reqs)) = sort_less req_less (map canon_req reqs)"
    by (rule map_idI) (auto simp: v)
  then show ?thesis
    by (simp add: canonical_def new_profile_def Let_def sort_less_idem req_cmp.comparator_axioms spr_cmp.comparator_axioms)
qed

lemma new_profile_fields:
  "priority (new_profile reqs spr prio ib rb) = prio" "interruptionPenaltyBucket (new_profile reqs spr prio ib rb) = ib"
  "reclamationPenaltyBucket (new_profile reqs spr prio ib rb) = rb"
  by (simp_all add: new_profile_def Let_def)

lemma penalty_bucket_bound: "penalty_bucket_of approx q \<le> 27"
proof -
  have "bucket_walk d 3 (FFin 1) \<le> 27" for d
    using bucket_walk_least(2) [of 3 d, OF _ _ refl] by simp
  then show ?thesis by (simp add: penalty_bucket_of_def bucket_for_dollars_def split: option.split)
qed

text \<open>What the quantity library wrote, it reads.\<close>

definition prints_parse :: "'q qlib \<Rightarrow> bool" where
  "prints_parse Q \<longleftrightarrow> (\<forall>q. qParse Q (qString Q q) \<noteq> None)"

definition rv_printed :: "'q qlib \<Rightarrow> resource_qty list \<Rightarrow> bool" where
  "rv_printed Q v \<longleftrightarrow> rv_ok v \<and> list_all (\<lambda>r. qParse Q (rqQuantity r) \<noteq> None) v"

lemma rv_printed_combine: "prints_parse Q \<Longrightarrow> rv_printed Q (combine_resources Q fn a b)"
  by (simp add: rv_printed_def rv_ok_combine) (simp add: prints_parse_def combine_resources_def Let_def list_all_iff)

text \<open>The needs as the operator holds them: canonical profiles, known buckets, readable quantities.\<close>

definition wire_ready :: "'q qlib \<Rightarrow> string \<Rightarrow> need \<Rightarrow> bool" where
  "wire_ready Q c n \<longleftrightarrow> nCluster n = c \<and> canonical (nProfile n) \<and> interruptionPenaltyBucket (nProfile n) \<le> 27
     \<and> reclamationPenaltyBucket (nProfile n) \<le> 27 \<and> rv_printed Q (AggregateResources n)
     \<and> rv_printed Q (MinUnit n) \<and> \<not> AcquisitionParked n"

lemma canonical_with_same: "canonical p \<Longrightarrow> canonical (with_same_requirement p k)"
  by (simp add: with_same_requirement_def canonical_new_profile)

lemma with_same_buckets:
  "interruptionPenaltyBucket (with_same_requirement p k) = interruptionPenaltyBucket p"
  "reclamationPenaltyBucket (with_same_requirement p k) = reclamationPenaltyBucket p"
  by (simp_all add: with_same_requirement_def new_profile_fields)

lemma profile_from_cr_ready:
  assumes "profile_from_cr Q approx cr = Some (p, res)" and "prints_parse Q" and "gm_ok (crResources cr)"
  shows "canonical p" "interruptionPenaltyBucket p \<le> 27" "reclamationPenaltyBucket p \<le> 27" "rv_printed Q res"
proof -
  from assms(1) obtain reqs spr where
    p: "p = new_profile reqs spr (crPriority cr) (penalty_bucket_of approx (crInterruptionPenalty cr))
        (penalty_bucket_of approx (crReclamationPenalty cr))"
    and r: "res = map (\<lambda>(k, q). \<lparr>rqName = k, rqQuantity = qString Q q\<rparr>) (crResources cr)"
    by (auto simp: profile_from_cr_def Let_def split: option.splits)
  show "canonical p" "interruptionPenaltyBucket p \<le> 27" "reclamationPenaltyBucket p \<le> 27"
    by (simp_all add: p canonical_new_profile new_profile_fields penalty_bucket_bound)
  have "map rqName res = map fst (crResources cr)" by (simp add: r case_prod_unfold)
  then have "rv_ok res" using assms(3) by (simp add: rv_ok_def)
  then show "rv_printed Q res"
    using assms(2) by (auto simp: rv_printed_def r list_all_iff prints_parse_def)
qed

lemma wire_ready_raw:
  assumes "raw_need Q approx c cr = Some n" and "prints_parse Q" and "gm_ok (crResources cr)"
  shows "wire_ready Q c n"
proof -
  obtain p res where p: "profile_from_cr Q approx cr = Some (p, res)"
    using assms(1) by (auto simp: raw_need_def split: option.splits)
  note r = profile_from_cr_ready [OF p assms(2,3)]
  let ?p = "case crCoLocation cr of Some t \<Rightarrow> if co_location_group cr \<noteq> '''' then with_same_requirement p (coTopologyKey t) else p
      | None \<Rightarrow> p"
  have "canonical ?p" "interruptionPenaltyBucket ?p \<le> 27" "reclamationPenaltyBucket ?p \<le> 27"
    using r(1-3) by (simp_all add: canonical_with_same with_same_buckets split: option.split)
  then show ?thesis
    using assms(1) r(4) by (auto simp: raw_need_def p Let_def wire_ready_def)
qed

lemma wire_ready_merge: "prints_parse Q \<Longrightarrow> wire_ready Q c m \<Longrightarrow> wire_ready Q c (merge_need Q m n)"
  by (simp add: wire_ready_def merge_need_def Let_def add_resources_def max_resources_def rv_printed_combine)

lemma wire_ready_merge_all:
  "prints_parse Q \<Longrightarrow> ns \<noteq> [] \<Longrightarrow> list_all (wire_ready Q c) ns \<Longrightarrow> wire_ready Q c (merge_all Q ns)"
proof (induction ns rule: rev_induct)
  case (snoc n ns)
  then show ?case
    by (cases "ns = []") (simp_all add: merge_all_snoc wire_ready_merge, simp add: merge_all_def)
qed simp

lemma wire_ready_aggregate:
  assumes "prints_parse Q" and "list_all (wire_ready Q c) ns"
  shows "list_all (wire_ready Q c) (aggregate Q ns)"
  unfolding list_all_iff
proof
  fix r assume r: "r \<in> set (aggregate Q ns)"
  let ?g = "filter (\<lambda>n. need_key n = need_key r) ns"
  have "list_all (wire_ready Q c) ?g" using assms(2) by (simp add: list_all_iff)
  with wire_ready_merge_all [OF assms(1) aggregate_row(2) [OF r]]
  show "wire_ready Q c r" by (subst aggregate_row(1) [OF r]) simp
qed

subsection \<open>One row\<close>

lemma resource_qty_map_eq: "rv_ok v \<Longrightarrow> resource_qty_map v = map (\<lambda>r. (rqName r, rqQuantity r)) v"
proof (induction v rule: rev_induct)
  case (snoc r v)
  have ok: "rv_ok v" and new: "rqName r \<notin> rqName ` set v" using snoc.prems by (auto simp: rv_ok_def)
  have "gm_set (rqName r) (rqQuantity r) (map (\<lambda>r. (rqName r, rqQuantity r)) v)
      = map (\<lambda>r. (rqName r, rqQuantity r)) v @ [(rqName r, rqQuantity r)]"
    using new by (intro gm_set_new) (simp add: image_image)
  then show ?case using snoc.IH [OF ok] by (simp add: resource_qty_map_def)
qed (simp add: resource_qty_map_def)

lemma printed_vector:
  assumes "rv_printed Q v"
  shows "resource_qtys_from_proto Q bad (resource_qty_map v) = Inr v"
proof -
  have ok: "rv_ok v" and q: "quantities_parse Q (resource_qty_map v)"
    using assms by (auto simp: rv_printed_def quantities_parse_def resource_qty_map_eq list_all_iff)
  have "qtys_of (resource_qty_map v) = v"
    by (simp add: resource_qty_map_eq [OF ok] qtys_of_def map_idI)
  then show ?thesis using resource_qtys_gate(1) [OF q] by simp
qed

lemma requirements_roundtrip: "requirements_from_proto (requirements_to_proto rs) = Inr rs"
  by (induction rs) (simp_all add: requirements_to_proto_def)

lemma when_unsatisfiable_roundtrip [simp]: "when_unsatisfiable_from_proto (when_unsatisfiable_to_proto w) = w"
  by (cases w) (simp_all add: when_unsatisfiable_from_proto_def)

lemma capacity_need_roundtrip:
  assumes "wire_ready Q c n"
  shows "need_from_proto Q c ts (need_to_capacity_need n) = Inr (n\<lparr>ArrivalUnixNanos := ts\<rparr>)"
proof -
  note w = assms [unfolded wire_ready_def canonical_def]
  have s: "map spread_from_proto (pbnSpread (need_to_capacity_need n)) = spread (nProfile n)"
    by (simp add: need_to_capacity_need_def Let_def spread_from_proto_def comp_def map_idI)
  have "profile_from_proto (need_to_capacity_need n) = Inr (nProfile n)"
    using w s by (simp add: profile_from_proto_def need_to_capacity_need_def Let_def requirements_roundtrip bucket_gate)
  then show ?thesis
    using w by (simp add: need_from_proto_def) (simp add: need_to_capacity_need_def Let_def printed_vector)
qed

lemma needs_from_roundtrip:
  "list_all (wire_ready Q c) ns \<Longrightarrow>
    needs_from Q c ts i (map need_to_capacity_need ns) = Inr (map (\<lambda>n. n\<lparr>ArrivalUnixNanos := ts\<rparr>) ns)"
  by (induction ns arbitrary: i) (simp_all add: capacity_need_roundtrip)

lemma raw_needs_ready:
  assumes "prints_parse Q" and "list_all (\<lambda>cr. gm_ok (crResources cr)) crs"
  shows "list_all (wire_ready Q c) (List.map_filter (raw_need Q approx c) crs)"
  using assms(2) by (induction crs) (auto simp: List.map_filter_simps wire_ready_raw [OF _ assms(1)] split: option.split)

text \<open>Two pods of one workload, and one of another zone, with a quantity library of plain integers.\<close>

definition sample_qty_lib :: "int qlib" where
  "sample_qty_lib = int_lib\<lparr>qParse := parse_dec (\<lambda>_. True)\<rparr>"

definition sample_request :: "string \<Rightarrow> string \<Rightarrow> int \<Rightarrow> string \<Rightarrow> int capacity_request" where
  "sample_request name zone cpu phase =
    \<lparr>crNamespace = ''default'', crName = name, crOwner = ''pod'',
     crRequirements = [\<lparr>xeKey = ''zone'', xeOperator = ''In'', xeValues = [zone]\<rparr>],
     crResources = [(''cpu'', cpu), (''memory'', 2)], crPriority = 100, crInterruptionPenalty = None,
     crReclamationPenalty = None, crSpread = [],
     crCoLocation = Some \<lparr>coTopologyKey = ''zone'', coSelector = None\<rparr>, crPhase = phase\<rparr>"

lemma sample_lib_prints: "prints_parse sample_qty_lib"
  by (simp add: prints_parse_def sample_qty_lib_def int_lib_def parse_dec_int)

lemma sample_request_ok: "gm_ok (crResources (sample_request name zone cpu phase))"
  by (simp add: sample_request_def)

text \<open>C29:
  What the operator sends is what the shard takes: the roll-up of the listed requests passes the
  ingest gate whole, and reads back as exactly the aggregated needs, stamped with the roll-up's
  time. So no readable request is lost or changed between the cluster and the shard's table.
\<close>

theorem rollup_roundtrip:
  assumes "prints_parse Q" and "list_all (\<lambda>cr. gm_ok (crResources cr)) crs"
  shows "needs_from_rollup Q (Some (fst (build_rollup Q approx c now crs)))
    = Inr (map (\<lambda>n. n\<lparr>ArrivalUnixNanos := now\<rparr>) (aggregate Q (List.map_filter (raw_need Q approx c) crs)))"
  using needs_from_roundtrip [OF wire_ready_aggregate [OF assms(1) raw_needs_ready [OF assms]]]
  by (simp add: needs_from_rollup_def build_rollup_def)

theorem rollup_roundtrip_witness:
  "let crs = [sample_request ''a'' ''z1'' 1 '''', sample_request ''b'' ''z2'' 3 '''', sample_request ''c'' ''z1'' 4 '''']
   in needs_from_rollup sample_qty_lib (Some (fst (build_rollup sample_qty_lib (\<lambda>_. f64_zero) ''c1'' 7 crs)))
     = Inr (map (\<lambda>n. n\<lparr>ArrivalUnixNanos := 7\<rparr>)
         (aggregate sample_qty_lib (List.map_filter (raw_need sample_qty_lib (\<lambda>_. f64_zero) ''c1'') crs)))"
  unfolding Let_def by (rule rollup_roundtrip) (simp_all add: sample_lib_prints sample_request_ok)

section \<open>Acknowledgement\<close>

lemma aggregate_covers_keys: "n \<in> set ns \<Longrightarrow> need_key n \<in> need_key ` set (aggregate Q ns)"
proof -
  assume "n \<in> set ns"
  then have "need_key n \<in> fst ` set (group_by need_key ns)" by (simp add: gm_keys_group_by)
  then obtain g where g: "(need_key n, g) \<in> set (group_by need_key ns)" by auto
  note ge = group_by_entry [OF g]
  have "hd g \<in> set (filter (\<lambda>x. need_key x = need_key n) ns)" using ge by (metis hd_in_set)
  then have "need_key (merge_all Q g) = need_key n" using merge_all_key [OF ge(2)] by simp
  moreover have "merge_all Q g \<in> set (aggregate Q ns)" using g by (force simp: aggregate_refines aggregate_spec_def)
  ultimately show ?thesis by (metis image_eqI)
qed

lemma acknowledge_all_mem:
  assumes "x \<in> set (acknowledge_all api crs)"
  obtains cr where "cr \<in> set crs" "x = (crNamespace cr, crName cr)" "crPhase cr \<noteq> ''Acknowledged''" "api cr = Patched"
proof -
  have "x \<in> set (foldl (\<lambda>w cr. snd (mark_acknowledged api cr w)) w crs) \<Longrightarrow> x \<in> set w \<or>
    (\<exists>cr\<in>set crs. x = (crNamespace cr, crName cr) \<and> crPhase cr \<noteq> ''Acknowledged'' \<and> api cr = Patched)" for w
  proof (induction crs arbitrary: w)
    case (Cons cr crs)
    from Cons.IH [of "snd (mark_acknowledged api cr w)"] Cons.prems show ?case
      by (auto simp: mark_acknowledged_def split: if_splits patch_answer.splits)
  qed simp
  from this [of "[]"] assms that show thesis by (auto simp: acknowledge_all_def)
qed

text \<open>A request is acknowledged only once it is reported: when a roll-up writes Acknowledged to a
  request, that request was listed and pending, and the needs the shard reads from the message left
  for the stream have a row of its cluster, profile and co-location group.
\<close>

theorem acknowledged_was_reported:
  assumes "prints_parse Q" and "list_all (\<lambda>cr. gm_ok (crResources cr)) crs"
    and "run_rollup Q approx c now (Some crs) api slot = (ok, sent, acked)" and "(ns, nm) \<in> set acked"
  shows "\<exists>cr\<in>set crs. crNamespace cr = ns \<and> crName cr = nm \<and> (crPhase cr = '''' \<or> crPhase cr = ''Pending'')
    \<and> (\<exists>n rows. raw_need Q approx c cr = Some n \<and> needs_from_rollup Q sent = Inr rows
         \<and> need_key n \<in> need_key ` set rows)"
proof -
  let ?raw = "List.map_filter (raw_need Q approx c) crs"
  have sent: "sent = Some (fst (build_rollup Q approx c now crs))"
    and acked: "acked = acknowledge_all api (snd (build_rollup Q approx c now crs))"
    using assms(3) by (auto simp: run_rollup_def split: prod.splits)
  obtain cr where cr: "cr \<in> set (snd (build_rollup Q approx c now crs))" "(ns, nm) = (crNamespace cr, crName cr)"
    using assms(4) acknowledge_all_mem unfolding acked by metis
  then obtain n where n: "cr \<in> set crs" "raw_need Q approx c cr = Some n" "crPhase cr = '''' \<or> crPhase cr = ''Pending''"
    by (auto simp: build_rollup_def)
  have "n \<in> set ?raw" using n(1,2) by (force simp: List.map_filter_def)
  then have k: "need_key n \<in> need_key ` set (aggregate Q ?raw)" by (rule aggregate_covers_keys)
  have key: "need_key (m\<lparr>ArrivalUnixNanos := now\<rparr>) = need_key m" for m by (simp add: need_key_def)
  have "needs_from_rollup Q sent = Inr (map (\<lambda>n. n\<lparr>ArrivalUnixNanos := now\<rparr>) (aggregate Q ?raw))"
    unfolding sent using needs_from_roundtrip [OF wire_ready_aggregate [OF assms(1) raw_needs_ready [OF assms(1,2)]]]
    by (simp add: needs_from_rollup_def build_rollup_def)
  moreover have "need_key n \<in> need_key ` set (map (\<lambda>n. n\<lparr>ArrivalUnixNanos := now\<rparr>) (aggregate Q ?raw))"
    using k by (simp add: image_image key)
  ultimately show ?thesis using n cr(2) by blast
qed

lemma sample_raw_need: "raw_need sample_qty_lib approx c (sample_request name zone cpu phase) \<noteq> None"
  by (simp add: raw_need_def profile_from_cr_def sample_request_def requirement_operator_from_core_def Let_def)

theorem acknowledged_was_reported_witness:
  "\<exists>cr\<in>set [sample_request ''a'' ''z1'' 1 ''Pending'']. crNamespace cr = ''default'' \<and> crName cr = ''a''
    \<and> (crPhase cr = '''' \<or> crPhase cr = ''Pending'')
    \<and> (\<exists>n rows. raw_need sample_qty_lib (\<lambda>_. f64_zero) ''c1'' cr = Some n
         \<and> needs_from_rollup sample_qty_lib (fst (snd (run_rollup sample_qty_lib (\<lambda>_. f64_zero) ''c1'' 7
               (Some [sample_request ''a'' ''z1'' 1 ''Pending'']) (\<lambda>_. Patched) None))) = Inr rows
         \<and> need_key n \<in> need_key ` set rows)"
proof -
  let ?run = "run_rollup sample_qty_lib (\<lambda>_. f64_zero) ''c1'' 7
    (Some [sample_request ''a'' ''z1'' 1 ''Pending'']) (\<lambda>_. Patched) None"
  have p: "crPhase (sample_request ''a'' ''z1'' 1 ''Pending'') = ''Pending''"
    "(crNamespace (sample_request ''a'' ''z1'' 1 ''Pending''), crName (sample_request ''a'' ''z1'' 1 ''Pending''))
      = (''default'', ''a'')" by (simp_all add: sample_request_def)
  have "snd (snd ?run) = [(''default'', ''a'')]"
    using sample_raw_need p
    by (simp add: run_rollup_def build_rollup_def acknowledge_all_def mark_acknowledged_def)
  then have mem: "(''default'', ''a'') \<in> set (snd (snd ?run))" by simp
  have run: "?run = (fst ?run, fst (snd ?run), snd (snd ?run))" by simp
  show ?thesis
    by (rule acknowledged_was_reported [OF sample_lib_prints _ run mem]) (simp add: sample_request_ok)
qed

end
