(* ===== verification/Nodes.thy ===== *)
theory Nodes
  imports Execute Operator "HOL-Library.Sublist"
begin

text \<open>
  How the operator shows machines to its cluster (\<open>pkg/operator/stream.go\<close>,
  \<open>pkg/operator/upcoming.go\<close>): node updates are coalesced, the latest of each machine, with one
  worker per machine; a worker writes the machine's upcoming node. The API server is a store and
  the faults its calls meet.
\<close>

section \<open>The coalescer\<close>

record taint =
  tKey :: string
  tValue :: string
  tEffect :: string

text \<open>The message of the wire; the shard's own sender sets neither of the two fields added here.\<close>

record operator_update = node_update +
  nuNodeName :: string
  nuTaints :: "taint list"

record coalescer =
  nodeStatePending :: "(string, operator_update) gomap"
  nodeStateInFlight :: "(string, bool) gomap"

definition coalesce_node_state_update :: "operator_update \<Rightarrow> coalescer \<Rightarrow> coalescer \<times> bool" where
  "coalesce_node_state_update u c =
    (let k = nuMachine u; c = c\<lparr>nodeStatePending := gm_set k u (nodeStatePending c)\<rparr>
     in if gm_at False (nodeStateInFlight c) k then (c, False)
        else (c\<lparr>nodeStateInFlight := gm_set k True (nodeStateInFlight c)\<rparr>, True))"

definition take_next_node_state_update :: "string \<Rightarrow> coalescer \<Rightarrow> coalescer \<times> operator_update option" where
  "take_next_node_state_update k c =
    (case gm_get (nodeStatePending c) k of
       None \<Rightarrow> (c\<lparr>nodeStateInFlight := gm_del k (nodeStateInFlight c)\<rparr>, None)
     | Some u \<Rightarrow> (c\<lparr>nodeStatePending := gm_del k (nodeStatePending c)\<rparr>, Some u))"

text \<open>
  The receive loop and the workers it starts. A worker is at the head of its loop or holds the
  update it is handling; each critical section of \<open>nodeStateMu\<close> is one step. The last two fields
  record what was received and what was handled to its end.
\<close>

record stream_state =
  ssCoalescer :: coalescer
  ssWorkers :: "(string \<times> operator_update option) list"
  ssReceived :: "operator_update list"
  ssHandled :: "operator_update list"

definition new_session :: stream_state where
  "new_session = \<lparr>ssCoalescer = \<lparr>nodeStatePending = [], nodeStateInFlight = []\<rparr>, ssWorkers = [],
     ssReceived = [], ssHandled = []\<rparr>"

definition recv_update :: "operator_update \<Rightarrow> stream_state \<Rightarrow> stream_state" where
  "recv_update u s =
    (case coalesce_node_state_update u (ssCoalescer s) of
       (c, spawn) \<Rightarrow> s\<lparr>ssCoalescer := c, ssReceived := ssReceived s @ [u],
          ssWorkers := (if spawn then ssWorkers s @ [(nuMachine u, None)] else ssWorkers s)\<rparr>)"

text \<open>One step of the worker at place \<open>i\<close>: take the next update or return, or finish handling.\<close>

definition worker_turn :: "nat \<Rightarrow> stream_state \<Rightarrow> stream_state" where
  "worker_turn i s =
    (case ssWorkers s ! i of
       (k, Some u) \<Rightarrow> s\<lparr>ssWorkers := (ssWorkers s)[i := (k, None)], ssHandled := ssHandled s @ [u]\<rparr>
     | (k, None) \<Rightarrow>
         (case take_next_node_state_update k (ssCoalescer s) of
            (c, None) \<Rightarrow> s\<lparr>ssCoalescer := c, ssWorkers := take i (ssWorkers s) @ drop (Suc i) (ssWorkers s)\<rparr>
          | (c, Some u) \<Rightarrow> s\<lparr>ssCoalescer := c, ssWorkers := (ssWorkers s)[i := (k, Some u)]\<rparr>))"

inductive turn_step :: "stream_state \<Rightarrow> stream_state \<Rightarrow> bool" where
  worker: "i < length (ssWorkers s) \<Longrightarrow> turn_step s (worker_turn i s)"

inductive stream_step :: "stream_state \<Rightarrow> stream_state \<Rightarrow> bool" where
  receive: "stream_step s (recv_update u s)"
| work: "turn_step s s' \<Longrightarrow> stream_step s s'"


text \<open>For one machine: what was received, and what was handled, is being handled, or waits.\<close>

definition received_of :: "stream_state \<Rightarrow> string \<Rightarrow> operator_update list" where
  "received_of s k = filter (\<lambda>u. nuMachine u = k) (ssReceived s)"

definition handled_of :: "stream_state \<Rightarrow> string \<Rightarrow> operator_update list" where
  "handled_of s k = filter (\<lambda>u. nuMachine u = k) (ssHandled s)"

definition held_by :: "(string \<times> operator_update option) list \<Rightarrow> string \<Rightarrow> operator_update list" where
  "held_by W k = (case map_of W k of Some (Some u) \<Rightarrow> [u] | _ \<Rightarrow> [])"

definition waiting_for :: "coalescer \<Rightarrow> string \<Rightarrow> operator_update list" where
  "waiting_for c k = (case gm_get (nodeStatePending c) k of None \<Rightarrow> [] | Some u \<Rightarrow> [u])"

definition trail :: "stream_state \<Rightarrow> string \<Rightarrow> operator_update list" where
  "trail s k = handled_of s k @ held_by (ssWorkers s) k @ waiting_for (ssCoalescer s) k"

definition workers_ok :: "stream_state \<Rightarrow> bool" where
  "workers_ok s \<longleftrightarrow> distinct (map fst (ssWorkers s))
    \<and> (\<forall>k. gm_at False (nodeStateInFlight (ssCoalescer s)) k \<longleftrightarrow> k \<in> fst ` set (ssWorkers s))
    \<and> (\<forall>k u. gm_get (nodeStatePending (ssCoalescer s)) k = Some u \<longrightarrow> nuMachine u = k \<and> k \<in> fst ` set (ssWorkers s))
    \<and> (\<forall>k u. (k, Some u) \<in> set (ssWorkers s) \<longrightarrow> nuMachine u = k)"

definition trail_ok :: "operator_update list \<Rightarrow> operator_update list \<Rightarrow> bool" where
  "trail_ok t r \<longleftrightarrow> subseq t r \<and> (r \<noteq> [] \<longrightarrow> t \<noteq> [] \<and> last t = last r)"

definition stream_ok :: "stream_state \<Rightarrow> bool" where
  "stream_ok s \<longleftrightarrow> workers_ok s \<and> (\<forall>k. trail_ok (trail s k) (received_of s k))"

lemma map_of_update_nth:
  assumes "distinct (map fst W)" and "i < length W" and "fst (W ! i) = k"
  shows "map_of (W[i := (k, v)]) = (map_of W)(k \<mapsto> v)"
  using assms
proof (induction W arbitrary: i)
  case (Cons x W)
  show ?case
  proof (cases i)
    case 0
    then show ?thesis using Cons.prems by (cases x) auto
  next
    case (Suc j)
    then have "fst x \<noteq> k" using Cons.prems by (force simp: in_set_conv_nth)
    then show ?thesis using Cons.IH [of j] Cons.prems Suc by (cases x) (auto simp: fun_upd_twist)
  qed
qed simp

lemma map_of_remove_nth:
  assumes "distinct (map fst W)" and "i < length W" and "fst (W ! i) = k"
  shows "map_of (take i W @ drop (Suc i) W) = (map_of W)(k := None)"
  using assms
proof (induction W arbitrary: i)
  case (Cons x W)
  show ?case
  proof (cases i)
    case 0
    then show ?thesis using Cons.prems by (cases x) (auto simp: map_of_eq_None_iff)
  next
    case (Suc j)
    then have "fst x \<noteq> k" using Cons.prems by (force simp: in_set_conv_nth)
    then show ?thesis using Cons.IH [of j] Cons.prems Suc by (cases x) (auto simp: fun_upd_twist)
  qed
qed simp

lemma remove_nth_keys:
  assumes "distinct (map fst W)" and "i < length W"
  shows "distinct (map fst (take i W @ drop (Suc i) W))"
    and "fst ` set (take i W @ drop (Suc i) W) = fst ` set W - {fst (W ! i)}"
proof -
  have W: "W = take i W @ W ! i # drop (Suc i) W" using assms(2) by (simp add: id_take_nth_drop)
  then have d: "distinct (map fst (take i W @ W ! i # drop (Suc i) W))" using assms(1) by simp
  then show "distinct (map fst (take i W @ drop (Suc i) W))" by simp
  have "fst ` set W = insert (fst (W ! i)) (fst ` set (take i W @ drop (Suc i) W))" by (subst W) auto
  moreover have "fst (W ! i) \<notin> fst ` set (take i W @ drop (Suc i) W)" using d by auto
  ultimately show "fst ` set (take i W @ drop (Suc i) W) = fst ` set W - {fst (W ! i)}" by blast
qed


lemma held_by_snoc: "held_by (W @ [(k, None)]) k' = held_by W k'"
  by (cases "map_of W k'") (simp_all add: held_by_def map_add_def)

lemma held_by_remove:
  assumes "distinct (map fst W)" and "i < length W" and "W ! i = (k, None)"
  shows "held_by (take i W @ drop (Suc i) W) k' = held_by W k'"
proof -
  have "map_of W k = Some None" using assms by (metis map_of_is_SomeI nth_mem)
  moreover have "map_of (take i W @ drop (Suc i) W) = (map_of W)(k := None)"
    using assms by (intro map_of_remove_nth) simp_all
  ultimately show ?thesis by (simp add: held_by_def del: map_of_append)
qed

lemma trail_snoc: "trail_ok t r \<Longrightarrow> subseq t' t \<Longrightarrow> trail_ok (t' @ [u]) (r @ [u])"
  unfolding trail_ok_def by (auto intro: list_emb_append_mono subseq_order.trans)

lemma recv_update_ok: "stream_ok s \<Longrightarrow> stream_ok (recv_update u s)"
proof -
  assume ok: "stream_ok s"
  let ?k = "nuMachine u" and ?c = "ssCoalescer s" and ?W = "ssWorkers s"
  have w: "workers_ok s" using ok by (simp add: stream_ok_def)
  have held: "held_by (ssWorkers (recv_update u s)) k = held_by ?W k" for k
    by (simp add: recv_update_def coalesce_node_state_update_def Let_def held_by_snoc)
  have "workers_ok (recv_update u s)"
    using w by (auto simp: workers_ok_def recv_update_def coalesce_node_state_update_def Let_def)
  moreover have "trail_ok (trail (recv_update u s) k) (received_of (recv_update u s) k)" for k
  proof -
    have t: "trail_ok (trail s k) (received_of s k)" using ok by (simp add: stream_ok_def)
    have h: "handled_of (recv_update u s) k = handled_of s k"
      by (simp add: handled_of_def recv_update_def split: prod.split)
    have r: "received_of (recv_update u s) k = received_of s k @ (if ?k = k then [u] else [])"
      by (simp add: received_of_def recv_update_def split: prod.split)
    have p: "waiting_for (ssCoalescer (recv_update u s)) k = (if ?k = k then [u] else waiting_for ?c k)"
      by (simp add: waiting_for_def recv_update_def coalesce_node_state_update_def Let_def)
    show ?thesis
    proof (cases "?k = k")
      case True
      have "subseq (handled_of s k @ held_by ?W k) (trail s k)"
        unfolding trail_def append_assoc [symmetric] by (intro list_emb_prefix subseq_order.order_refl)
      then show ?thesis
        using trail_snoc [OF t, of "handled_of s k @ held_by ?W k" u] True by (simp add: trail_def h r p held)
    qed (use t in \<open>simp add: trail_def h r p held\<close>)
  qed
  ultimately show ?thesis by (simp add: stream_ok_def)
qed

text \<open>The three things a worker does.\<close>

lemma worker_turn_cases:
  assumes "i < length (ssWorkers s)"
  obtains (finish) k u where "ssWorkers s ! i = (k, Some u)"
      "worker_turn i s = s\<lparr>ssWorkers := (ssWorkers s)[i := (k, None)], ssHandled := ssHandled s @ [u]\<rparr>"
  | (leave) k where "ssWorkers s ! i = (k, None)" "gm_get (nodeStatePending (ssCoalescer s)) k = None"
      "worker_turn i s = s\<lparr>ssCoalescer := (ssCoalescer s)\<lparr>nodeStateInFlight := gm_del k (nodeStateInFlight (ssCoalescer s))\<rparr>,
         ssWorkers := take i (ssWorkers s) @ drop (Suc i) (ssWorkers s)\<rparr>"
  | (take) k u where "ssWorkers s ! i = (k, None)" "gm_get (nodeStatePending (ssCoalescer s)) k = Some u"
      "worker_turn i s = s\<lparr>ssCoalescer := (ssCoalescer s)\<lparr>nodeStatePending := gm_del k (nodeStatePending (ssCoalescer s))\<rparr>,
         ssWorkers := (ssWorkers s)[i := (k, Some u)]\<rparr>"
proof (cases "ssWorkers s ! i")
  case (Pair k h)
  show ?thesis
  proof (cases h)
    case (Some u)
    then show ?thesis using finish Pair by (simp add: worker_turn_def)
  next
    case None
    then show ?thesis using leave take Pair
      by (cases "gm_get (nodeStatePending (ssCoalescer s)) k")
        (simp_all add: worker_turn_def take_next_node_state_update_def)
  qed
qed

lemma worker_turn_ok:
  assumes ok: "stream_ok s" and i: "i < length (ssWorkers s)"
  shows "stream_ok (worker_turn i s)"
proof -
  let ?W = "ssWorkers s"
  have w: "workers_ok s" and t: "\<And>k. trail_ok (trail s k) (received_of s k)" using ok by (simp_all add: stream_ok_def)
  have dist: "distinct (map fst ?W)" and mach: "\<And>k u. (k, Some u) \<in> set ?W \<Longrightarrow> nuMachine u = k"
    using w by (simp_all add: workers_ok_def)
  have mem: "?W ! i \<in> set ?W" using i by simp
  have keys: "fst ` set (?W[i := (k, v)]) = fst ` set ?W" if "fst (?W ! i) = k" for k v
    using that i by (metis fst_conv list.set_map list_update_id map_update)
  have dist': "distinct (map fst (?W[i := (k, v)]))" if "fst (?W ! i) = k" for k v
    using that dist i by (simp add: map_update) (metis list_update_id nth_map)
  have at_i: "map_of ?W (fst (?W ! i)) = Some (snd (?W ! i))"
    using dist mem by (metis map_of_is_SomeI prod.collapse)
  from i show ?thesis
  proof (cases rule: worker_turn_cases)
    case (finish k u)
    have k: "fst (?W ! i) = k" "nuMachine u = k" using finish(1) mach mem by auto
    have "trail (worker_turn i s) k' = trail s k'" for k'
      using at_i k finish(1)
      by (auto simp: finish(2) trail_def handled_of_def held_by_def map_of_update_nth [OF dist i k(1)])
    moreover have "workers_ok (worker_turn i s)"
      using w dist' [OF k(1)] keys [OF k(1)]
      by (auto simp: finish(2) workers_ok_def dest!: set_update_subset_insert [THEN subsetD])
    ultimately show ?thesis using t by (simp add: stream_ok_def finish(2) received_of_def)
  next
    case (leave k)
    have k: "fst (?W ! i) = k" using leave(1) by simp
    note rm = remove_nth_keys [OF dist i]
    have "trail (worker_turn i s) k' = trail s k'" for k'
      by (simp add: leave(3) trail_def handled_of_def waiting_for_def held_by_remove [OF dist i leave(1)])
    moreover have "workers_ok (worker_turn i s)"
    proof -
      have sub: "set (take i ?W @ drop (Suc i) ?W) \<subseteq> set ?W" by (auto dest: in_set_takeD in_set_dropD)
      have rest: "k' \<in> fst ` set ?W - {k}" if "gm_get (nodeStatePending (ssCoalescer s)) k' = Some u" for k' u
        using w that leave(2) by (auto simp: workers_ok_def)
      have "gm_get (nodeStatePending (ssCoalescer s)) k' = Some u \<Longrightarrow> nuMachine u = k'" for k' u
        using w by (simp add: workers_ok_def)
      with rest have "\<forall>k' u. gm_get (nodeStatePending (ssCoalescer s)) k' = Some u \<longrightarrow> nuMachine u = k' \<and> k' \<in> fst ` set ?W - {k}"
        by blast
      moreover have "\<forall>k' u. (k', Some u) \<in> set (take i ?W @ drop (Suc i) ?W) \<longrightarrow> nuMachine u = k'" using mach sub by blast
      moreover have "\<forall>k'. gm_at False (gm_del k (nodeStateInFlight (ssCoalescer s))) k' \<longleftrightarrow> k' \<in> fst ` set ?W - {k}"
        using w by (simp add: workers_ok_def)
      ultimately show ?thesis unfolding workers_ok_def leave(3) using rm k by simp
    qed
    ultimately show ?thesis using t by (simp add: stream_ok_def leave(3) received_of_def)
  next
    case (take k u)
    have k: "fst (?W ! i) = k" using take(1) by simp
    have u: "nuMachine u = k" using w take(2) by (simp add: workers_ok_def)
    have "trail (worker_turn i s) k' = trail s k'" for k'
      using at_i k take(1,2)
      by (auto simp: take(3) trail_def handled_of_def held_by_def waiting_for_def map_of_update_nth [OF dist i k])
    moreover have "workers_ok (worker_turn i s)"
      using w dist' [OF k] keys [OF k] u
      by (auto simp: take(3) workers_ok_def dest!: set_update_subset_insert [THEN subsetD])
    ultimately show ?thesis using t by (simp add: stream_ok_def take(3) received_of_def)
  qed
qed


lemma stream_reachable: "stream_step\<^sup>*\<^sup>* new_session s \<Longrightarrow> stream_ok s"
proof (induction rule: rtranclp_induct)
  case base
  show ?case
    by (simp add: stream_ok_def workers_ok_def new_session_def trail_ok_def trail_def received_of_def handled_of_def
        held_by_def waiting_for_def gm_at_def)
next
  case (step s s')
  from step.hyps(2) show ?case
    by cases (auto simp: recv_update_ok step.IH elim!: turn_step.cases intro: worker_turn_ok)
qed

lemma stream_ok_handled:
  assumes "stream_ok s"
  shows "subseq (handled_of s k) (received_of s k)"
    and "k \<notin> fst ` set (ssWorkers s) \<Longrightarrow> received_of s k \<noteq> [] \<Longrightarrow>
      handled_of s k \<noteq> [] \<and> last (handled_of s k) = last (received_of s k)"
proof -
  have t: "trail_ok (trail s k) (received_of s k)" using assms by (simp add: stream_ok_def)
  have "subseq (handled_of s k) (trail s k)" unfolding trail_def by (intro list_emb_prefix subseq_order.order_refl)
  then show "subseq (handled_of s k) (received_of s k)"
    using t unfolding trail_ok_def by (meson subseq_order.order_trans)
  assume k: "k \<notin> fst ` set (ssWorkers s)" "received_of s k \<noteq> []"
  have "map_of (ssWorkers s) k = None" using k(1) by (simp add: map_of_eq_None_iff)
  then have "held_by (ssWorkers s) k = []" by (simp add: held_by_def)
  moreover have "waiting_for (ssCoalescer s) k = []"
  proof (cases "gm_get (nodeStatePending (ssCoalescer s)) k")
    case (Some u)
    then have "k \<in> fst ` set (ssWorkers s)"
      using assms unfolding stream_ok_def workers_ok_def by blast
    then show ?thesis using k(1) by contradiction
  qed (simp add: waiting_for_def)
  ultimately show "handled_of s k \<noteq> [] \<and> last (handled_of s k) = last (received_of s k)"
    using t k(2) by (simp add: trail_ok_def trail_def)
qed

text \<open>C31:
  Coalescing loses only what is superseded: however receiving and handling interleave, each machine
  has at most one worker, its updates are handled in the order they came, some skipped, and whenever
  it has no worker the last update received is the last one handled.
\<close>

theorem latest_update_wins:
  assumes "stream_step\<^sup>*\<^sup>* new_session s"
  shows "distinct (map fst (ssWorkers s)) \<and> subseq (handled_of s k) (received_of s k)
    \<and> (k \<notin> fst ` set (ssWorkers s) \<longrightarrow> received_of s k \<noteq> [] \<longrightarrow>
        handled_of s k \<noteq> [] \<and> last (handled_of s k) = last (received_of s k))"
  using stream_ok_handled [OF stream_reachable [OF assms], of k] stream_reachable [OF assms]
  by (auto simp: stream_ok_def workers_ok_def)

text \<open>What is left to do: each waiting update is three steps, and each worker has one or two.\<close>

definition worker_cost :: "string \<times> operator_update option \<Rightarrow> nat" where
  "worker_cost w = (if snd w = None then 1 else 2)"

definition stream_work :: "stream_state \<Rightarrow> nat" where
  "stream_work s = 3 * length (nodeStatePending (ssCoalescer s)) + sum_list (map worker_cost (ssWorkers s))"

lemma gm_del_shorter: "gm_get m k = Some v \<Longrightarrow> length (gm_del k m) < length m"
proof -
  assume "gm_get m k = Some v"
  then have "(k, v) \<in> set m" by (rule map_of_SomeD)
  then show ?thesis by (simp add: AList.delete_eq length_filter_less)
qed

lemma sum_list_update_nat:
  "i < length xs \<Longrightarrow> sum_list (map f (xs[i := x])) + f (xs ! i) = sum_list (map f xs) + (f x :: nat)"
proof (induction xs arbitrary: i)
  case (Cons y xs)
  then show ?case by (cases i) auto
qed simp

lemma sum_list_remove_nat:
  "i < length xs \<Longrightarrow> sum_list (map f (take i xs @ drop (Suc i) xs)) + f (xs ! i) = (sum_list (map f xs) :: nat)"
proof -
  assume i: "i < length xs"
  have "sum_list (map f xs) = sum_list (map f (take i xs @ xs ! i # drop (Suc i) xs))"
    by (simp only: id_take_nth_drop [OF i, symmetric])
  then show ?thesis by simp
qed

lemma turn_step_work: "turn_step s s' \<Longrightarrow> stream_work s' < stream_work s"
proof (erule turn_step.cases)
  fix i s0 assume s: "s = s0" "s' = worker_turn i s0" and i: "i < length (ssWorkers s0)"
  from i have "stream_work (worker_turn i s0) < stream_work s0"
  proof (cases rule: worker_turn_cases)
    case (finish k u)
    then show ?thesis using sum_list_update_nat [OF i, of worker_cost "(k, None)"]
      by (simp add: stream_work_def worker_cost_def)
  next
    case (leave k)
    then show ?thesis using sum_list_remove_nat [OF i, of worker_cost]
      by (simp add: stream_work_def worker_cost_def)
  next
    case (take k u)
    then show ?thesis using sum_list_update_nat [OF i, of worker_cost "(k, Some u)"] gm_del_shorter [OF take(2)]
      by (simp add: stream_work_def worker_cost_def)
  qed
  then show ?thesis using s by simp
qed

lemma turn_steps_work: "(turn_step ^^ n) s s' \<Longrightarrow> n + stream_work s' \<le> stream_work s"
proof (induction n arbitrary: s')
  case (Suc n)
  then obtain m where "(turn_step ^^ n) s m" "turn_step m s'" by auto
  with Suc.IH [of m] turn_step_work [of m s'] show ?case by simp
qed simp

lemma turn_steps_reach: "(turn_step ^^ n) s s' \<Longrightarrow> stream_step\<^sup>*\<^sup>* s s'"
proof (induction n arbitrary: s')
  case (Suc n)
  then obtain m where "(turn_step ^^ n) s m" "turn_step m s'" by auto
  with Suc.IH [of m] stream_step.work [of m s'] show ?case by (meson rtranclp.rtrancl_into_rtrancl)
qed simp

lemma turn_step_received: "turn_step s s' \<Longrightarrow> ssReceived s' = ssReceived s"
  by (erule turn_step.cases)
    (auto simp: worker_turn_def take_next_node_state_update_def split: prod.split option.split)

text \<open>The workers catch up: once no update arrives, they stop within a number of steps the state bounds,
  and when none can move, the last update received of every machine has been handled, after all
  earlier ones of it.
\<close>

theorem updates_settle:
  assumes "stream_step\<^sup>*\<^sup>* new_session s" and "(turn_step ^^ n) s s'"
  shows "n \<le> stream_work s \<and> ((\<exists>t. turn_step s' t) \<or>
    (\<forall>k. received_of s k = [] \<or> handled_of s' k \<noteq> [] \<and> last (handled_of s' k) = last (received_of s k)))"
proof -
  have "stream_step\<^sup>*\<^sup>* s s'"
    using assms(2) by (rule turn_steps_reach)
  then have ok: "stream_ok s'" using assms(1) by (meson rtranclp_trans stream_reachable)
  have "turn_step s' (worker_turn 0 s')" if "ssWorkers s' \<noteq> []" using that by (intro worker) simp
  moreover have "ssReceived s' = ssReceived s" using assms(2)
  proof (induction n arbitrary: s')
    case (Suc n)
    then obtain m where "(turn_step ^^ n) s m" "turn_step m s'" by auto
    with Suc.IH [of m] turn_step_received [of m s'] show ?case by simp
  qed simp
  then have "received_of s' k = received_of s k" for k by (simp add: received_of_def)
  ultimately show ?thesis
    using turn_steps_work [OF assms(2)] stream_ok_handled(2) [OF ok] by (cases "ssWorkers s' = []") auto
qed

text \<open>A machine goes through three states while its worker is slow: the middle one is never handled.\<close>

definition sample_update :: "string \<Rightarrow> int \<Rightarrow> operator_update" where
  "sample_update k n = \<lparr>nuMachine = k, nuState = n, nuProviderId = ''host-1'', nuLastError = '''', nuLabels = [],
     nuResources = [], nuNodeName = '''', nuTaints = []\<rparr>"

lemma sample_update_machine [simp]: "nuMachine (sample_update k n) = k"
  by (simp add: sample_update_def)

definition sample_burst :: stream_state where
  "sample_burst = recv_update (sample_update ''m'' 5) (recv_update (sample_update ''m'' 4)
     (worker_turn 0 (recv_update (sample_update ''m'' 3) new_session)))"

lemma sample_burst_eq:
  "sample_burst = \<lparr>ssCoalescer = \<lparr>nodeStatePending = [(''m'', sample_update ''m'' 5)], nodeStateInFlight = [(''m'', True)]\<rparr>,
     ssWorkers = [(''m'', Some (sample_update ''m'' 3))],
     ssReceived = [sample_update ''m'' 3, sample_update ''m'' 4, sample_update ''m'' 5], ssHandled = []\<rparr>"
  by (simp add: sample_burst_def new_session_def recv_update_def coalesce_node_state_update_def
      worker_turn_def take_next_node_state_update_def gm_at_def Let_def)

lemma recv_reach: "stream_step\<^sup>*\<^sup>* s t \<Longrightarrow> stream_step\<^sup>*\<^sup>* s (recv_update u t)"
  by (erule rtranclp.rtrancl_into_rtrancl) (rule receive)

lemma turns_more: "(turn_step ^^ n) s t \<Longrightarrow> ssWorkers t \<noteq> [] \<Longrightarrow> (turn_step ^^ Suc n) s (worker_turn 0 t)"
  by (erule relpowp_Suc_I) (intro worker, simp)

lemma sample_burst_reached: "stream_step\<^sup>*\<^sup>* new_session sample_burst"
proof -
  let ?s1 = "recv_update (sample_update ''m'' 3) new_session"
  have "ssWorkers ?s1 = [(''m'', None)]"
    by (simp add: new_session_def recv_update_def coalesce_node_state_update_def gm_at_def Let_def)
  then have "(turn_step ^^ Suc 0) ?s1 (worker_turn 0 ?s1)" by (intro turns_more) simp_all
  then have "stream_step\<^sup>*\<^sup>* new_session (worker_turn 0 ?s1)"
    using turn_steps_reach recv_reach by (metis rtranclp.rtrancl_refl rtranclp_trans)
  then show ?thesis unfolding sample_burst_def by (intro recv_reach)
qed

definition sample_settled :: stream_state where
  "sample_settled = \<lparr>ssCoalescer = \<lparr>nodeStatePending = [], nodeStateInFlight = []\<rparr>, ssWorkers = [],
     ssReceived = [sample_update ''m'' 3, sample_update ''m'' 4, sample_update ''m'' 5],
     ssHandled = [sample_update ''m'' 3, sample_update ''m'' 5]\<rparr>"

lemma sample_settles: "(turn_step ^^ 4) sample_burst sample_settled"
proof -
  have turns: "worker_turn 0 (worker_turn 0 (worker_turn 0 (worker_turn 0 sample_burst))) = sample_settled"
    "ssWorkers sample_burst \<noteq> []" "ssWorkers (worker_turn 0 sample_burst) \<noteq> []"
    "ssWorkers (worker_turn 0 (worker_turn 0 sample_burst)) \<noteq> []"
    "ssWorkers (worker_turn 0 (worker_turn 0 (worker_turn 0 sample_burst))) \<noteq> []"
    by (simp_all add: sample_burst_eq sample_settled_def worker_turn_def take_next_node_state_update_def)
  have "(turn_step ^^ Suc (Suc (Suc (Suc 0)))) sample_burst
      (worker_turn 0 (worker_turn 0 (worker_turn 0 (worker_turn 0 sample_burst))))"
    by (rule turns_more, rule turns_more, rule turns_more, rule turns_more) (simp_all only: turns(2-5) relpowp.simps simp_thms)
  moreover have "Suc (Suc (Suc (Suc 0))) = 4" by simp
  ultimately show ?thesis by (metis turns(1))
qed

lemma sample_settled_reached: "stream_step\<^sup>*\<^sup>* new_session sample_settled"
  by (rule rtranclp_trans [OF sample_burst_reached turn_steps_reach [OF sample_settles]])

theorem latest_update_wins_witness:
  "handled_of sample_settled ''m'' \<noteq> [] \<and> last (handled_of sample_settled ''m'') = last (received_of sample_settled ''m'')"
  using latest_update_wins [OF sample_settled_reached, of "''m''"]
  by (simp add: sample_settled_def received_of_def)

theorem updates_settle_witness:
  "4 \<le> stream_work sample_burst \<and> last (handled_of sample_settled ''m'') = sample_update ''m'' 5"
proof -
  have "\<not> turn_step sample_settled t" for t by (auto simp: sample_settled_def elim: turn_step.cases)
  then show ?thesis
    using updates_settle [OF sample_burst_reached sample_settles] by (auto simp: sample_burst_eq received_of_def dest: spec [of _ "''m''"])
qed


section \<open>Upcoming nodes\<close>

datatype un_phase = UnUnset | UnProvisioning | UnLaunched | UnRegistered | UnReady | UnDraining | UnDrained | UnFailed

record 'q upcoming_spec =
  usLabels :: "(string, string) gomap"
  usResources :: "(string, 'q) gomap"
  usTaints :: "taint list"

record upcoming_status =
  utPhase :: un_phase
  utNodeRef :: "(string \<times> string) option"
  utProviderID :: string
  utProvisioningStart :: "int option"
  utLastError :: string

record 'q upcoming_node =
  unName :: string
  unSpec :: "'q upcoming_spec"
  unStatus :: upcoming_status

definition no_status :: upcoming_status where
  "no_status = \<lparr>utPhase = UnUnset, utNodeRef = None, utProviderID = '''', utProvisioningStart = None, utLastError = ''''\<rparr>"

definition upcoming_node_name :: "string \<Rightarrow> string" where
  "upcoming_node_name k = ''un-'' @ k"

definition upcoming_node_phase :: "int \<Rightarrow> un_phase" where
  "upcoming_node_phase n =
    (if n = 2 \<or> n = 1 then UnProvisioning else if n = 3 then UnLaunched else if n = 4 then UnRegistered
     else if n = 5 then UnReady else if n = 6 then UnDraining else if n = 8 then UnFailed else UnProvisioning)"

text \<open>A quantity that does not parse is left out.\<close>

definition upcoming_node_spec_from_update :: "'q qlib \<Rightarrow> operator_update \<Rightarrow> 'q upcoming_spec" where
  "upcoming_node_spec_from_update Q u =
    \<lparr>usLabels = (if length (nuLabels u) > 0 then foldl (\<lambda>m (k, v). gm_set k v m) [] (nuLabels u) else []),
     usResources = foldl (\<lambda>m (k, v). case qParse Q v of None \<Rightarrow> m | Some q \<Rightarrow> gm_set k q m) [] (nuResources u),
     usTaints = nuTaints u\<rparr>"

definition upcoming_spec_equal :: "'q qlib \<Rightarrow> 'q upcoming_spec \<Rightarrow> 'q upcoming_spec \<Rightarrow> bool" where
  "upcoming_spec_equal Q a b \<longleftrightarrow>
    length (usLabels a) = length (usLabels b)
    \<and> list_all (\<lambda>(k, v). gm_at '''' (usLabels b) k = v) (usLabels a)
    \<and> length (usResources a) = length (usResources b)
    \<and> list_all (\<lambda>(k, v). case gm_get (usResources b) k of None \<Rightarrow> False | Some bv \<Rightarrow> qCmp Q v bv = 0) (usResources a)
    \<and> length (usTaints a) = length (usTaints b) \<and> usTaints a = usTaints b"

text \<open>
  The API server, as the client library shows it: each call answers, and leaves the server in some
  state. A read may come from a cache.
\<close>

datatype api_answer = ApiOk | ApiConflict | ApiExists | ApiNotFound | ApiFailed

datatype 'q read_answer = ReadFailed | ReadMissing | ReadFound "'q upcoming_node"

record ('q, 's) node_api =
  naGet :: "string \<Rightarrow> 's \<Rightarrow> 'q read_answer \<times> 's"
  naCreate :: "'q upcoming_node \<Rightarrow> 's \<Rightarrow> api_answer \<times> 's"
  naPatchSpec :: "'q upcoming_node \<Rightarrow> 'q upcoming_node \<Rightarrow> 's \<Rightarrow> api_answer \<times> 's"
  naPatchStatus :: "'q upcoming_node \<Rightarrow> 'q upcoming_node \<Rightarrow> 's \<Rightarrow> api_answer \<times> 's"
  naDelete :: "string \<Rightarrow> 's \<Rightarrow> api_answer \<times> 's"
  naNow :: "'s \<Rightarrow> int"
  naRetries :: nat

datatype node_op = OpGet | OpCreate | OpRefetch | OpSpecPatch | OpDelete | OpStatusPatch

type_synonym node_result = "(node_op \<times> api_answer) option"

definition new_status :: "operator_update \<Rightarrow> un_phase \<Rightarrow> upcoming_status \<Rightarrow> upcoming_status" where
  "new_status u phase t =
    t\<lparr>utPhase := phase, utNodeRef := (if nuNodeName u \<noteq> '''' then Some (''Node'', nuNodeName u) else utNodeRef t),
      utProviderID := (if nuProviderId u \<noteq> '''' then nuProviderId u else utProviderID t),
      utLastError := (if nuLastError u \<noteq> '''' then nuLastError u else utLastError t)\<rparr>"

text \<open>What follows once the object is at hand: the terminal delete, or the status write.\<close>

definition finish_node_update ::
    "('q, 's) node_api \<Rightarrow> un_phase \<Rightarrow> operator_update \<Rightarrow> 'q upcoming_node \<Rightarrow> 's \<Rightarrow> node_result \<times> 's" where
  "finish_node_update A phase u existing s =
    (let t = unStatus existing;
         phase = (if phase = UnLaunched \<and> utPhase t = UnDraining then UnDrained else phase)
     in if phase = UnDrained
        then (case naDelete A (unName existing) s of
                (a, s) \<Rightarrow> if a \<noteq> ApiOk \<and> a \<noteq> ApiNotFound then (Some (OpDelete, a), s) else (None, s))
        else let t' = new_status u phase t
             in if t' = t \<and> utProvisioningStart t \<noteq> None then (None, s)
                else let t' = (if utProvisioningStart t = None then t'\<lparr>utProvisioningStart := Some (naNow A s)\<rparr> else t')
                     in case naPatchStatus A (existing\<lparr>unStatus := t'\<rparr>) existing s of
                          (a, s) \<Rightarrow> if a \<noteq> ApiOk then (Some (OpStatusPatch, a), s) else (None, s))"

definition handle_node_state_update_once ::
    "'q qlib \<Rightarrow> ('q, 's) node_api \<Rightarrow> string \<Rightarrow> un_phase \<Rightarrow> operator_update \<Rightarrow> 's \<Rightarrow> node_result \<times> 's" where
  "handle_node_state_update_once Q A name phase u s =
    (case naGet A name s of
       (ReadMissing, s) \<Rightarrow>
         let un = \<lparr>unName = name, unSpec = upcoming_node_spec_from_update Q u, unStatus = no_status\<rparr>
         in (case naCreate A un s of (a, s) \<Rightarrow>
              if a = ApiOk then finish_node_update A phase u un s
              else if a = ApiExists
              then (case naGet A name s of
                      (ReadFound e, s) \<Rightarrow> finish_node_update A phase u e s
                    | (ReadMissing, s) \<Rightarrow> (Some (OpRefetch, ApiNotFound), s)
                    | (ReadFailed, s) \<Rightarrow> (Some (OpRefetch, ApiFailed), s))
              else (Some (OpCreate, a), s))
     | (ReadFailed, s) \<Rightarrow> (Some (OpGet, ApiFailed), s)
     | (ReadFound e, s) \<Rightarrow>
         let fresh = upcoming_node_spec_from_update Q u
         in if upcoming_spec_equal Q (unSpec e) fresh then finish_node_update A phase u e s
            else (case naPatchSpec A (e\<lparr>unSpec := fresh\<rparr>) e s of (a, s) \<Rightarrow>
                   if a \<noteq> ApiOk then (Some (OpSpecPatch, a), s)
                   else finish_node_update A phase u (e\<lparr>unSpec := fresh\<rparr>) s))"

text \<open>The retry helper of the client library runs the body again after a conflict, at most \<open>naRetries\<close> times.\<close>

fun retry_on_conflict :: "nat \<Rightarrow> ('s \<Rightarrow> node_result \<times> 's) \<Rightarrow> 's \<Rightarrow> node_result \<times> 's" where
  "retry_on_conflict 0 f s = f s"
| "retry_on_conflict (Suc n) f s =
    (case f s of
       (Some (op, ApiConflict), s) \<Rightarrow> retry_on_conflict n f s
     | r \<Rightarrow> r)"

definition handle_node_state_update ::
    "'q qlib \<Rightarrow> ('q, 's) node_api \<Rightarrow> operator_update option \<Rightarrow> 's \<Rightarrow> node_result \<times> 's" where
  "handle_node_state_update Q A u s =
    (case u of None \<Rightarrow> (None, s)
     | Some u \<Rightarrow>
         if nuMachine u = '''' then (None, s)
         else retry_on_conflict (naRetries A)
                (handle_node_state_update_once Q A (upcoming_node_name (nuMachine u)) (upcoming_node_phase (nuState u)) u) s)"


subsection \<open>Against a quiet server\<close>

text \<open>
  What the API server does when nobody else writes and no call fails: reads are fresh, and a write
  changes one object; a status is written only by its own call.
\<close>

definition node_api_laws :: "('q, 's) node_api \<Rightarrow> ('s \<Rightarrow> string \<Rightarrow> 'q upcoming_node option) \<Rightarrow> bool" where
  "node_api_laws A view \<longleftrightarrow>
    (\<forall>k s n. view s k = Some n \<longrightarrow> unName n = k)
    \<and> (\<forall>k s. naGet A k s = (case view s k of None \<Rightarrow> ReadMissing | Some n \<Rightarrow> ReadFound n, s))
    \<and> (\<forall>n s. view s (unName n) = None \<longrightarrow> fst (naCreate A n s) = ApiOk
         \<and> view (snd (naCreate A n s)) = (view s)(unName n \<mapsto> n\<lparr>unStatus := no_status\<rparr>))
    \<and> (\<forall>m b s. view s (unName b) = Some b \<longrightarrow> fst (naPatchSpec A m b s) = ApiOk
         \<and> view (snd (naPatchSpec A m b s)) = (view s)(unName b \<mapsto> b\<lparr>unSpec := unSpec m\<rparr>))
    \<and> (\<forall>m b s. view s (unName b) = Some b \<longrightarrow> fst (naPatchStatus A m b s) = ApiOk
         \<and> view (snd (naPatchStatus A m b s)) = (view s)(unName b \<mapsto> b\<lparr>unStatus := unStatus m\<rparr>))
    \<and> (\<forall>k s. view s k \<noteq> None \<longrightarrow> fst (naDelete A k s) = ApiOk \<and> view (snd (naDelete A k s)) = (view s)(k := None))"

lemma node_api_lawsD:
  assumes "node_api_laws A view"
  shows "view s k = Some n \<Longrightarrow> unName n = k"
    and "naGet A k s = (case view s k of None \<Rightarrow> ReadMissing | Some n \<Rightarrow> ReadFound n, s)"
    and "view s (unName n) = None \<Longrightarrow>
      \<exists>s1. naCreate A n s = (ApiOk, s1) \<and> view s1 = (view s)(unName n \<mapsto> n\<lparr>unStatus := no_status\<rparr>)"
    and "view s (unName b) = Some b \<Longrightarrow>
      \<exists>s1. naPatchSpec A m b s = (ApiOk, s1) \<and> view s1 = (view s)(unName b \<mapsto> b\<lparr>unSpec := unSpec m\<rparr>)"
    and "view s (unName b) = Some b \<Longrightarrow>
      \<exists>s1. naPatchStatus A m b s = (ApiOk, s1) \<and> view s1 = (view s)(unName b \<mapsto> b\<lparr>unStatus := unStatus m\<rparr>)"
    and "view s k \<noteq> None \<Longrightarrow> \<exists>s1. naDelete A k s = (ApiOk, s1) \<and> view s1 = (view s)(k := None)"
proof -
  have pick: "fst p = a \<and> P (snd p) \<Longrightarrow> \<exists>x. p = (a, x) \<and> P x" for p :: "'x \<times> 'y" and a P
    by (cases p) simp
  note laws = assms [unfolded node_api_laws_def]
  show "view s k = Some n \<Longrightarrow> unName n = k" using laws by blast
  show "naGet A k s = (case view s k of None \<Rightarrow> ReadMissing | Some n \<Rightarrow> ReadFound n, s)" using laws by blast
  show "view s (unName n) = None \<Longrightarrow>
      \<exists>s1. naCreate A n s = (ApiOk, s1) \<and> view s1 = (view s)(unName n \<mapsto> n\<lparr>unStatus := no_status\<rparr>)"
    by (rule pick) (use laws in blast)
  show "view s (unName b) = Some b \<Longrightarrow>
      \<exists>s1. naPatchSpec A m b s = (ApiOk, s1) \<and> view s1 = (view s)(unName b \<mapsto> b\<lparr>unSpec := unSpec m\<rparr>)"
    by (rule pick) (use laws in blast)
  show "view s (unName b) = Some b \<Longrightarrow>
      \<exists>s1. naPatchStatus A m b s = (ApiOk, s1) \<and> view s1 = (view s)(unName b \<mapsto> b\<lparr>unStatus := unStatus m\<rparr>)"
    by (rule pick) (use laws in blast)
  show "view s k \<noteq> None \<Longrightarrow> \<exists>s1. naDelete A k s = (ApiOk, s1) \<and> view s1 = (view s)(k := None)"
    by (rule pick) (use laws in blast)
qed

text \<open>What one update makes of the machine's object.\<close>

definition finish_node :: "operator_update \<Rightarrow> int \<Rightarrow> 'q upcoming_node \<Rightarrow> 'q upcoming_node option" where
  "finish_node u now n =
    (let phase = upcoming_node_phase (nuState u); t = new_status u phase (unStatus n)
     in if phase = UnLaunched \<and> utPhase (unStatus n) = UnDraining then None
        else Some (n\<lparr>unStatus := (if utProvisioningStart t = None then t\<lparr>utProvisioningStart := Some now\<rparr> else t)\<rparr>))"

definition show_update :: "'q qlib \<Rightarrow> operator_update \<Rightarrow> int \<Rightarrow> 'q upcoming_node option \<Rightarrow> 'q upcoming_node option" where
  "show_update Q u now old =
    (let spec = upcoming_node_spec_from_update Q u
     in finish_node u now
          (case old of None \<Rightarrow> \<lparr>unName = upcoming_node_name (nuMachine u), unSpec = spec, unStatus = no_status\<rparr>
           | Some e \<Rightarrow> if upcoming_spec_equal Q (unSpec e) spec then e else e\<lparr>unSpec := spec\<rparr>))"

lemma new_status_fields [simp]:
  "utPhase (new_status u p t) = p" "utProvisioningStart (new_status u p t) = utProvisioningStart t"
  "new_status u p (new_status u p t) = new_status u p t"
  "new_status u p (t\<lparr>utProvisioningStart := x\<rparr>) = (new_status u p t)\<lparr>utProvisioningStart := x\<rparr>"
  by (simp_all add: new_status_def)

lemma upcoming_node_phase_live: "upcoming_node_phase n \<noteq> UnDrained"
  by (simp add: upcoming_node_phase_def)

lemma node_status_id: "t = unStatus e \<Longrightarrow> e\<lparr>unStatus := t\<rparr> = e"
  by (cases e) simp

lemma finish_node_update_quiet:
  fixes u :: operator_update
  assumes laws: "node_api_laws A view" and e: "view s (unName e) = Some e"
  defines "phase \<equiv> upcoming_node_phase (nuState u)"
  shows "\<exists>s'. finish_node_update A phase u e s = (None, s') \<and> view s' = (view s)(unName e := finish_node u (naNow A s) e)"
proof (cases "phase = UnLaunched \<and> utPhase (unStatus e) = UnDraining")
  case True
  from node_api_lawsD(6) [OF laws, of s "unName e"] e obtain s1 where
    "naDelete A (unName e) s = (ApiOk, s1)" "view s1 = (view s)(unName e := None)" by auto
  then show ?thesis using True
    by (intro exI [of _ s1]) (simp add: finish_node_update_def finish_node_def Let_def phase_def)
next
  case False
  define t where "t = new_status u phase (unStatus e)"
  note live = upcoming_node_phase_live [of "nuState u"]
  have phase: "(if phase = UnLaunched \<and> utPhase (unStatus e) = UnDraining then UnDrained else phase) = phase"
    "phase \<noteq> UnDrained" using False live by (auto simp: phase_def)
  show ?thesis
  proof (cases "t = unStatus e \<and> utProvisioningStart (unStatus e) \<noteq> None")
    case True
    have "finish_node_update A phase u e s = (None, s)"
      unfolding finish_node_update_def Let_def phase t_def [symmetric]
      using True phase(2) by (simp only: if_True if_False simp_thms not_None_eq)
    moreover have "finish_node u (naNow A s) e = Some (e\<lparr>unStatus := t\<rparr>)"
    proof -
      have "utProvisioningStart t \<noteq> None" using True by metis
      then show ?thesis unfolding finish_node_def Let_def phase_def [symmetric] t_def [symmetric]
        using False by (simp only: if_False simp_thms)
    qed
    moreover have "e\<lparr>unStatus := t\<rparr> = e"
      by (rule node_status_id [OF conjunct1 [OF True]])
    moreover have "(view s)(unName e \<mapsto> e) = view s" using fun_upd_triv [of "view s" "unName e"] e by simp
    ultimately show ?thesis by (intro exI [of _ s]) (simp only: simp_thms)
  next
    case noop: False
    define t' where "t' = (if utProvisioningStart (unStatus e) = None then t\<lparr>utProvisioningStart := Some (naNow A s)\<rparr> else t)"
    from node_api_lawsD(5) [OF laws e, of "e\<lparr>unStatus := t'\<rparr>"] obtain s1 where
      w: "naPatchStatus A (e\<lparr>unStatus := t'\<rparr>) e s = (ApiOk, s1)"
      "view s1 = (view s)(unName e \<mapsto> e\<lparr>unStatus := t'\<rparr>)" by auto
    have "finish_node_update A phase u e s = (None, s1)"
      unfolding finish_node_update_def Let_def phase t_def [symmetric] t'_def [symmetric]
      using noop phase(2) w(1) by (simp only: if_False if_not_P simp_thms prod.case)
    moreover have "finish_node u (naNow A s) e = Some (e\<lparr>unStatus := t'\<rparr>)"
      using False by (auto simp: finish_node_def Let_def t'_def t_def phase_def)
    ultimately show ?thesis using w(2) by (intro exI [of _ s1]) simp
  qed
qed

lemma handle_update_quiet:
  assumes laws: "node_api_laws A view" and u: "nuMachine u \<noteq> ''''"
  shows "\<exists>s' now. handle_node_state_update Q A (Some u) s = (None, s')
    \<and> view s' = (view s)(upcoming_node_name (nuMachine u) := show_update Q u now (view s (upcoming_node_name (nuMachine u))))"
proof -
  let ?name = "upcoming_node_name (nuMachine u)" and ?p = "upcoming_node_phase (nuState u)"
  let ?spec = "upcoming_node_spec_from_update Q u"
  have read: "naGet A ?name s = (case view s ?name of None \<Rightarrow> ReadMissing | Some n \<Rightarrow> ReadFound n, s)"
    by (rule node_api_lawsD(2) [OF laws])
  have retry: "handle_node_state_update Q A (Some u) s = (None, s')"
    if "handle_node_state_update_once Q A ?name ?p u s = (None, s')" for s'
    using that u by (cases "naRetries A") (simp_all add: handle_node_state_update_def)
  have fin: "\<exists>s' now. finish_node_update A ?p u n s1 = (None, s') \<and> view s' = (view s)(?name := show_update Q u now (view s ?name))"
    if n: "view s1 = (view s)(?name \<mapsto> n)" "unName n = ?name"
      and su: "\<And>now. show_update Q u now (view s ?name) = finish_node u now n" for n s1
  proof -
    have e: "view s1 (unName n) = Some n" using n by simp
    from finish_node_update_quiet [OF laws e, of u] obtain s' where
      "finish_node_update A ?p u n s1 = (None, s')" "view s' = (view s1)(?name := finish_node u (naNow A s1) n)"
      using n(2) by auto
    then show ?thesis using n su by (intro exI [of _ s'] exI [of _ "naNow A s1"]) simp
  qed
  have "\<exists>s' now. handle_node_state_update_once Q A ?name ?p u s = (None, s')
      \<and> view s' = (view s)(?name := show_update Q u now (view s ?name))"
  proof (cases "view s ?name")
    case None
    let ?un = "\<lparr>unName = ?name, unSpec = ?spec, unStatus = no_status\<rparr>"
    from node_api_lawsD(3) [OF laws, of s ?un] None obtain s1 where
      c: "naCreate A ?un s = (ApiOk, s1)" "view s1 = (view s)(?name \<mapsto> ?un)" by auto
    have "handle_node_state_update_once Q A ?name ?p u s = finish_node_update A ?p u ?un s1"
      using c(1) by (simp add: handle_node_state_update_once_def read None Let_def)
    then show ?thesis using fin [OF c(2)] None by (simp add: show_update_def Let_def)
  next
    case (Some e)
    then have name: "unName e = ?name" by (rule node_api_lawsD(1) [OF laws])
    show ?thesis
    proof (cases "upcoming_spec_equal Q (unSpec e) ?spec")
      case True
      have "view s = (view s)(?name \<mapsto> e)" using Some by (metis fun_upd_triv)
      from fin [OF this name] show ?thesis using True Some
        by (simp add: handle_node_state_update_once_def read Let_def show_update_def)
    next
      case False
      let ?e = "e\<lparr>unSpec := ?spec\<rparr>"
      from node_api_lawsD(4) [OF laws, of s e ?e] Some name obtain s1 where
        w: "naPatchSpec A ?e e s = (ApiOk, s1)" "view s1 = (view s)(?name \<mapsto> ?e)" by auto
      have "handle_node_state_update_once Q A ?name ?p u s = finish_node_update A ?p u ?e s1"
        using w(1) False by (simp add: handle_node_state_update_once_def read Some Let_def)
      then show ?thesis using fin [OF w(2)] name False Some by (simp add: show_update_def Let_def)
    qed
  qed
  then show ?thesis using retry by blast
qed


subsection \<open>Handling an update again\<close>

lemma copied_map_ok:
  "gm_ok m \<Longrightarrow> gm_ok (foldl (\<lambda>m (k, v). gm_set k v m) m xs)"
  "gm_ok n \<Longrightarrow> gm_ok (foldl (\<lambda>m (k, v). case f v of None \<Rightarrow> m | Some q \<Rightarrow> gm_set k q m) n xs)"
proof -
  show "gm_ok m \<Longrightarrow> gm_ok (foldl (\<lambda>m (k, v). gm_set k v m) m xs)"
    by (induction xs arbitrary: m) auto
  show "gm_ok n \<Longrightarrow> gm_ok (foldl (\<lambda>m (k, v). case f v of None \<Rightarrow> m | Some q \<Rightarrow> gm_set k q m) n xs)"
  proof (induction xs arbitrary: n)
    case (Cons x xs)
    have "gm_ok (case x of (k, v) \<Rightarrow> case f v of None \<Rightarrow> n | Some q \<Rightarrow> gm_set k q n)"
      using Cons.prems by (cases x) (auto split: option.split intro: distinct_update)
    then show ?case unfolding foldl_Cons by (rule Cons.IH)
  qed simp
qed

lemma upcoming_spec_equal_refl:
  assumes "quantity_laws Q val"
  shows "upcoming_spec_equal Q (upcoming_node_spec_from_update Q u) (upcoming_node_spec_from_update Q u)"
proof -
  have cmp: "qCmp Q x x = 0" for x using quantity_lawsD(4,5) [OF assms, of x x] by linarith
  let ?spec = "upcoming_node_spec_from_update Q u"
  have "gm_ok (usLabels ?spec)" "gm_ok (usResources ?spec)"
    by (simp_all add: upcoming_node_spec_from_update_def copied_map_ok)
  then have "(k, v) \<in> set (usLabels ?spec) \<Longrightarrow> gm_get (usLabels ?spec) k = Some v"
    "(k, q) \<in> set (usResources ?spec) \<Longrightarrow> gm_get (usResources ?spec) k = Some q" for k v q
    by (simp_all add: gm_get_some_iff)
  then show ?thesis
    by (auto simp: upcoming_spec_equal_def list_all_iff gm_at_def cmp simp del: map_of_eq_Some_iff)
qed

lemma finish_node_done:
  assumes "finish_node u now e = Some n"
  shows "unName n = unName e" "unSpec n = unSpec e" "utProvisioningStart (unStatus n) \<noteq> None"
    "new_status u (upcoming_node_phase (nuState u)) (unStatus n) = unStatus n"
    "utPhase (unStatus n) = upcoming_node_phase (nuState u)"
  using assms by (auto simp: finish_node_def Let_def split: if_splits)

text \<open>Handling is idempotent: when an update has been handled against a quiet server and the machine's
  object is there, handling the same update again succeeds and calls no write, so a replay after a
  reconnect costs the API server nothing.
\<close>

theorem node_update_idempotent:
  assumes laws: "node_api_laws A view" and Q: "quantity_laws Q val"
    and first: "handle_node_state_update Q A (Some u) s = (None, s1)"
    and there: "view s1 (upcoming_node_name (nuMachine u)) \<noteq> None"
  shows "handle_node_state_update Q A (Some u) s1 = (None, s1)"
proof (cases "nuMachine u = ''''")
  case True
  then show ?thesis by (simp add: handle_node_state_update_def)
next
  case False
  let ?name = "upcoming_node_name (nuMachine u)" and ?spec = "upcoming_node_spec_from_update Q u"
  define p where "p = upcoming_node_phase (nuState u)"
  have "\<exists>s' now. handle_node_state_update Q A (Some u) s = (None, s')
    \<and> view s' = (view s)(?name := show_update Q u now (view s ?name))"
    by (rule handle_update_quiet [OF laws False])
  then obtain now where v: "view s1 = (view s)(?name := show_update Q u now (view s ?name))" using first by auto
  with there obtain n where n: "show_update Q u now (view s ?name) = Some n" "view s1 ?name = Some n" by auto
  define base where "base = (case view s ?name of None \<Rightarrow> \<lparr>unName = ?name, unSpec = ?spec, unStatus = no_status\<rparr>
    | Some e \<Rightarrow> if upcoming_spec_equal Q (unSpec e) ?spec then e else e\<lparr>unSpec := ?spec\<rparr>)"
  have f: "finish_node u now base = Some n" using n(1) by (simp add: show_update_def base_def Let_def)
  note fin = finish_node_done [OF f, folded p_def]
  have "upcoming_spec_equal Q (unSpec base) ?spec"
    using upcoming_spec_equal_refl [OF Q] by (simp add: base_def split: option.split)
  then have spec: "upcoming_spec_equal Q (unSpec n) ?spec" using fin(2) by simp
  have phase: "(if p = UnLaunched \<and> utPhase (unStatus n) = UnDraining then UnDrained else p) = p" "p \<noteq> UnDrained"
    using fin(5) upcoming_node_phase_live by (auto simp: p_def)
  have "finish_node_update A p u n s1 = (None, s1)"
    unfolding finish_node_update_def Let_def phase fin(4) using phase(2) fin(3) by simp
  then have "handle_node_state_update_once Q A ?name p u s1 = (None, s1)"
    using spec by (simp add: handle_node_state_update_once_def node_api_lawsD(2) [OF laws] n(2) Let_def)
  then show ?thesis using False
    by (cases "naRetries A") (simp_all add: handle_node_state_update_def p_def)
qed

text \<open>A quiet server: a map from names to objects.\<close>

type_synonym node_map = "string \<Rightarrow> int upcoming_node option"

definition map_view :: "node_map \<Rightarrow> string \<Rightarrow> int upcoming_node option" where
  "map_view s k = map_option (\<lambda>n. n\<lparr>unName := k\<rparr>) (s k)"

definition map_patch :: "(int upcoming_node \<Rightarrow> int upcoming_node) \<Rightarrow> string \<Rightarrow> node_map \<Rightarrow> api_answer \<times> node_map" where
  "map_patch f k s = (case map_view s k of None \<Rightarrow> (ApiNotFound, s) | Some n \<Rightarrow> (ApiOk, s(k \<mapsto> f n)))"

definition sample_node_api :: "(int, node_map) node_api" where
  "sample_node_api =
    \<lparr>naGet = (\<lambda>k s. (case map_view s k of None \<Rightarrow> ReadMissing | Some n \<Rightarrow> ReadFound n, s)),
     naCreate = (\<lambda>n s. if s (unName n) = None then (ApiOk, s(unName n \<mapsto> n\<lparr>unStatus := no_status\<rparr>)) else (ApiExists, s)),
     naPatchSpec = (\<lambda>m b. map_patch (\<lambda>n. n\<lparr>unSpec := unSpec m\<rparr>) (unName b)),
     naPatchStatus = (\<lambda>m b. map_patch (\<lambda>n. n\<lparr>unStatus := unStatus m\<rparr>) (unName b)),
     naDelete = (\<lambda>k s. if s k = None then (ApiNotFound, s) else (ApiOk, s(k := None))),
     naNow = (\<lambda>_. 7), naRetries = 4\<rparr>"

lemma map_view_upd: "unName n = k \<Longrightarrow> map_view (s(k \<mapsto> n)) = (map_view s)(k \<mapsto> n)"
  by (cases n) (auto simp: map_view_def fun_eq_iff)

lemma sample_node_api_laws: "node_api_laws sample_node_api map_view"
proof -
  have patch: "fst (map_patch f (unName b) s) = ApiOk \<and> map_view (snd (map_patch f (unName b) s)) = (map_view s)(unName b \<mapsto> f b)"
    if "map_view s (unName b) = Some b" "unName (f b) = unName b" for f b s
    using that by (simp add: map_patch_def map_view_upd)
  show ?thesis
    unfolding node_api_laws_def sample_node_api_def node_api.select_convs
  proof (intro conjI allI impI)
    show "unName n = k" if "map_view s k = Some n" for k s n using that by (auto simp: map_view_def)
    show "map_view (snd (if s (unName n) = None then (ApiOk, s(unName n \<mapsto> n\<lparr>unStatus := no_status\<rparr>)) else (ApiExists, s)))
        = (map_view s)(unName n \<mapsto> n\<lparr>unStatus := no_status\<rparr>)" if "map_view s (unName n) = None" for n s
    proof -
      have "s (unName n) = None" using that by (simp add: map_view_def)
      then show ?thesis using map_view_upd [of "n\<lparr>unStatus := no_status\<rparr>" "unName n" s] by simp
    qed
  qed (use patch in \<open>auto simp: map_view_def fun_eq_iff\<close>)
qed


theorem node_update_idempotent_witness:
  "let s1 = snd (handle_node_state_update int_lib sample_node_api (Some (sample_update ''m'' 5)) (\<lambda>_. None))
   in map_view s1 ''un-m'' \<noteq> None
     \<and> handle_node_state_update int_lib sample_node_api (Some (sample_update ''m'' 5)) s1 = (None, s1)"
proof -
  let ?u = "sample_update ''m'' 5"
  obtain s1 now where h: "handle_node_state_update int_lib sample_node_api (Some ?u) (\<lambda>_. None) = (None, s1)"
    "map_view s1 = (map_view (\<lambda>_. None))(upcoming_node_name (nuMachine ?u) :=
        show_update int_lib ?u now (map_view (\<lambda>_. None) (upcoming_node_name (nuMachine ?u))))"
    using handle_update_quiet [OF sample_node_api_laws, of ?u int_lib "\<lambda>_. None"] by auto
  have "upcoming_node_phase (nuState ?u) = UnReady" by (simp add: sample_update_def upcoming_node_phase_def)
  then have there: "map_view s1 (upcoming_node_name (nuMachine ?u)) \<noteq> None"
    by (simp add: h(2) show_update_def finish_node_def Let_def)
  have "handle_node_state_update int_lib sample_node_api (Some ?u) s1 = (None, s1)"
    by (rule node_update_idempotent [where view = map_view and val = of_int, OF sample_node_api_laws int_lib_laws])
      (use h(1) there in auto)
  then show ?thesis using there by (simp add: h(1) upcoming_node_name_def)
qed

text \<open>
  A machine seen Ready that drains and is idle before its worker looks again: the coalescer hands
  over only the last update, and the object, whose deletion needs the Draining phase to have been
  seen, stays as Launched.
\<close>

lemma skipped_drain_keeps_node:
  assumes "nuState u = 3" and "utPhase (unStatus e) \<noteq> UnDraining"
  shows "\<exists>n. show_update Q u now (Some e) = Some n \<and> utPhase (unStatus n) = UnLaunched"
  using assms by (auto simp: show_update_def finish_node_def upcoming_node_phase_def Let_def)

end
