(* ===== verification/Pods.thy ===== *)
theory Pods
  imports Operator
begin

text \<open>
  The per-pod controller (\<open>pkg/controller/cr/controller.go\<close>): every pod gets one capacity request,
  with the resources the scheduler will ask for, the constraints of its spec and the penalties of its
  annotations; a pod that has ended gets none. The API server is an argument.
\<close>

section \<open>Pods\<close>

record 'q container =
  cRequests :: "(string, 'q) gomap"
  cRestartPolicy :: "string option"

text \<open>
  The required terms of the affinities: the match expressions of each node term, the selector and
  topology key of each pod term.
\<close>

record 'q pod =
  podNamespace :: string
  podName :: string
  podUID :: string
  podPhase :: string
  podAnnotations :: "(string, string) gomap"
  podContainers :: "'q container list"
  podInitContainers :: "'q container list"
  podOverhead :: "(string, 'q) gomap"
  podNodeSelector :: "(string, string) gomap"
  podNodeTerms :: "selector_expr list list option"
  podAffinityTerms :: "co_location list option"
  podPriorityValue :: "int option"
  podPriorityClassName :: string
  podSpread :: "cr_spread list"

section \<open>Resources\<close>

definition add_resource_list :: "'q qlib \<Rightarrow> (string, 'q) gomap \<Rightarrow> (string, 'q) gomap \<Rightarrow> (string, 'q) gomap" where
  "add_resource_list Q dst src = foldl (\<lambda>m (k, v). gm_set k (qAdd Q (gm_at (qZero Q) m k) v) m) dst src"

definition max_resource_list :: "'q qlib \<Rightarrow> (string, 'q) gomap \<Rightarrow> (string, 'q) gomap \<Rightarrow> (string, 'q) gomap" where
  "max_resource_list Q dst src =
    foldl (\<lambda>m (k, v). case gm_get m k of
       None \<Rightarrow> gm_set k v m
     | Some cur \<Rightarrow> if qCmp Q v cur > 0 then gm_set k v m else m) dst src"

definition is_sidecar :: "'q container \<Rightarrow> bool" where
  "is_sidecar c \<longleftrightarrow> cRestartPolicy c = Some ''Always''"

text \<open>One turn of the loop over the init containers: the requests, the sidecars so far, the peak.\<close>

definition init_turn ::
    "'q qlib \<Rightarrow> (string, 'q) gomap \<times> (string, 'q) gomap \<times> (string, 'q) gomap \<Rightarrow> 'q container
      \<Rightarrow> (string, 'q) gomap \<times> (string, 'q) gomap \<times> (string, 'q) gomap" where
  "init_turn Q s c =
    (case s of (reqs, restartable, peak) \<Rightarrow>
       if is_sidecar c
       then let reqs = add_resource_list Q reqs (cRequests c);
                restartable = add_resource_list Q restartable (cRequests c)
            in (reqs, restartable, max_resource_list Q peak restartable)
       else let stage = add_resource_list Q [] restartable;
                stage = add_resource_list Q stage (cRequests c)
            in (reqs, restartable, max_resource_list Q peak stage))"

definition resources_from_pod :: "'q qlib \<Rightarrow> 'q pod \<Rightarrow> (string, 'q) gomap" where
  "resources_from_pod Q p =
    (let reqs = foldl (\<lambda>m c. add_resource_list Q m (cRequests c)) [] (podContainers p)
     in case foldl (init_turn Q) (reqs, [], []) (podInitContainers p) of
          (reqs, _, peak) \<Rightarrow> add_resource_list Q (max_resource_list Q reqs peak) (podOverhead p))"

section \<open>The request of a pod\<close>

definition requirements_from_pod :: "'q pod \<Rightarrow> selector_expr list" where
  "requirements_from_pod p =
    (let out = (case podNodeTerms p of Some (t # _) \<Rightarrow> t | _ \<Rightarrow> []);
         out = out @ map (\<lambda>k. \<lparr>xeKey = k, xeOperator = ''In'', xeValues = [gm_at '''' (podNodeSelector p) k]\<rparr>)
                       (sort_less (<) (map fst (podNodeSelector p)))
     in if length out > 0 then out
        else if podNodeTerms p \<noteq> None then []
        else [\<lparr>xeKey = ''node.kubernetes.io/instance-type'', xeOperator = ''Exists'', xeValues = []\<rparr>])"

definition co_location_from_pod :: "'q pod \<Rightarrow> co_location option" where
  "co_location_from_pod p =
    (case podAffinityTerms p of Some (t # _) \<Rightarrow> Some t | _ \<Rightarrow> None)"

definition pod_priority :: "'q pod \<Rightarrow> int" where
  "pod_priority p = (case podPriorityValue p of Some n \<Rightarrow> n | None \<Rightarrow> 0)"

definition topology_spread_from_pod :: "'q pod \<Rightarrow> cr_spread list" where
  "topology_spread_from_pod p = filter (\<lambda>c. xsWhenUnsatisfiable c \<noteq> ''ScheduleAnyway'') (podSpread p)"

definition penalty_from_annotation :: "'q qlib \<Rightarrow> string \<Rightarrow> 'q option" where
  "penalty_from_annotation Q v = (if v = '''' then None else qParse Q v)"

text \<open>A class may set either penalty, or neither.\<close>

type_synonym 'q class_defaults = "(string, 'q option \<times> 'q option) gomap"

definition resolve_interruption_penalty :: "'q qlib \<Rightarrow> 'q class_defaults \<Rightarrow> 'q pod \<Rightarrow> 'q option" where
  "resolve_interruption_penalty Q ds p =
    (case penalty_from_annotation Q (gm_at '''' (podAnnotations p) ''bigfleet.lucy.sh/interruption-penalty'') of
       Some v \<Rightarrow> Some v
     | None \<Rightarrow> (case gm_get ds (podPriorityClassName p) of Some d \<Rightarrow> fst d | None \<Rightarrow> None))"

definition resolve_reclamation_penalty :: "'q qlib \<Rightarrow> 'q class_defaults \<Rightarrow> 'q pod \<Rightarrow> 'q option" where
  "resolve_reclamation_penalty Q ds p =
    (case penalty_from_annotation Q (gm_at '''' (podAnnotations p) ''bigfleet.lucy.sh/reclamation-penalty'') of
       Some v \<Rightarrow> Some v
     | None \<Rightarrow> (case gm_get ds (podPriorityClassName p) of Some d \<Rightarrow> snd d | None \<Rightarrow> None))"

text \<open>The name is a prefix here; the server appends a suffix.\<close>

definition build_cr_for_pod :: "'q qlib \<Rightarrow> 'q class_defaults \<Rightarrow> 'q pod \<Rightarrow> 'q capacity_request" where
  "build_cr_for_pod Q ds p =
    \<lparr>crNamespace = podNamespace p, crName = ''cr-pod-'' @ podName p @ ''-'', crOwner = podUID p,
     crRequirements = requirements_from_pod p, crResources = resources_from_pod Q p,
     crPriority = pod_priority p, crInterruptionPenalty = resolve_interruption_penalty Q ds p,
     crReclamationPenalty = resolve_reclamation_penalty Q ds p, crSpread = topology_spread_from_pod p,
     crCoLocation = co_location_from_pod p, crPhase = ''''\<rparr>"

section \<open>Reconciling\<close>









section \<open>What the scheduler asks for\<close>

text \<open>The number a list of resources holds in a dimension; the pods whose requests are proper.\<close>

definition qval :: "'q qlib \<Rightarrow> ('q \<Rightarrow> rat) \<Rightarrow> (string, 'q) gomap \<Rightarrow> string \<Rightarrow> rat" where
  "qval Q val m n = val (gm_at (qZero Q) m n)"

definition proper_list :: "'q qlib \<Rightarrow> ('q \<Rightarrow> rat) \<Rightarrow> (string, 'q) gomap \<Rightarrow> bool" where
  "proper_list Q val m \<longleftrightarrow> gm_ok m \<and> (\<forall>n. 0 \<le> qval Q val m n)"

definition pod_proper :: "'q qlib \<Rightarrow> ('q \<Rightarrow> rat) \<Rightarrow> 'q pod \<Rightarrow> bool" where
  "pod_proper Q val p \<longleftrightarrow> proper_list Q val (podOverhead p)
    \<and> list_all (\<lambda>c. proper_list Q val (cRequests c)) (podContainers p @ podInitContainers p)"

text \<open>
  The reference: the containers and sidecars together, or the largest init stage if that is more,
  and the overhead. A stage is an init container with the sidecars started before it.
\<close>

definition sidecar_sum :: "'q qlib \<Rightarrow> ('q \<Rightarrow> rat) \<Rightarrow> 'q container list \<Rightarrow> string \<Rightarrow> rat" where
  "sidecar_sum Q val cs n = sum_list (map (\<lambda>c. qval Q val (cRequests c) n) (filter is_sidecar cs))"

definition init_stages :: "'q qlib \<Rightarrow> ('q \<Rightarrow> rat) \<Rightarrow> 'q container list \<Rightarrow> string \<Rightarrow> rat list" where
  "init_stages Q val cs n =
    map (\<lambda>i. sidecar_sum Q val (take i cs) n + qval Q val (cRequests (cs ! i)) n) [0..<length cs]"

definition scheduler_request :: "'q qlib \<Rightarrow> ('q \<Rightarrow> rat) \<Rightarrow> 'q pod \<Rightarrow> string \<Rightarrow> rat" where
  "scheduler_request Q val p n =
    foldl max (sum_list (map (\<lambda>c. qval Q val (cRequests c) n) (podContainers p))
        + sidecar_sum Q val (podInitContainers p) n) (init_stages Q val (podInitContainers p) n)
      + qval Q val (podOverhead p) n"

lemma add_resource_list_ok: "gm_ok dst \<Longrightarrow> gm_ok (add_resource_list Q dst src)"
  unfolding add_resource_list_def by (induction src arbitrary: dst) (auto intro: distinct_update)

lemma max_resource_list_ok: "gm_ok dst \<Longrightarrow> gm_ok (max_resource_list Q dst src)"
  unfolding max_resource_list_def
proof (induction src arbitrary: dst)
  case (Cons x src)
  have "gm_ok (case x of (k, v) \<Rightarrow> case gm_get dst k of None \<Rightarrow> gm_set k v dst
      | Some cur \<Rightarrow> if qCmp Q v cur > 0 then gm_set k v dst else dst)"
    using Cons.prems by (cases x) (auto split: option.split intro: distinct_update)
  then show ?case unfolding foldl_Cons by (rule Cons.IH)
qed simp

lemma qval_snoc:
  assumes "gm_ok (src @ [(k, v)])"
  shows "qval Q val (src @ [(k, v)]) m = (if m = k then val v else qval Q val src m)"
proof -
  have "gm_get src k = None" using assms by (auto simp: gm_get_none_iff)
  then show ?thesis by (auto simp: qval_def gm_at_def map_add_def split: option.split)
qed

lemma qval_fresh: "quantity_laws Q val \<Longrightarrow> gm_ok (src @ [(k, v)]) \<Longrightarrow> qval Q val src k = 0"
proof -
  assume "quantity_laws Q val" "gm_ok (src @ [(k, v)])"
  moreover from this(2) have "gm_get src k = None" by (auto simp: gm_get_none_iff)
  ultimately show ?thesis using quantity_lawsD(1) by (simp add: qval_def gm_at_def)
qed

lemma qval_add:
  assumes Q: "quantity_laws Q val" and "gm_ok src"
  shows "qval Q val (add_resource_list Q dst src) n = qval Q val dst n + qval Q val src n"
  using assms(2)
proof (induction src rule: rev_induct)
  case Nil
  show ?case using quantity_lawsD(1) [OF Q] by (simp add: add_resource_list_def qval_def gm_at_def)
next
  case (snoc x src)
  obtain k v where x: "x = (k, v)" by (cases x)
  have IH: "qval Q val (add_resource_list Q dst src) n = qval Q val dst n + qval Q val src n"
    using snoc by simp
  note at = qval_snoc [OF snoc.prems [unfolded x], of Q val n, folded x]
  note zero = qval_fresh [OF Q snoc.prems [unfolded x]]
  show ?case
    using IH zero at quantity_lawsD(2) [OF Q]
    by (cases "n = k") (simp_all add: add_resource_list_def x qval_def)
qed

lemma qval_max:
  assumes Q: "quantity_laws Q val" and dst: "\<And>n. 0 \<le> qval Q val dst n" and src: "proper_list Q val src"
  shows "qval Q val (max_resource_list Q dst src) n = max (qval Q val dst n) (qval Q val src n)"
  using src
proof (induction src rule: rev_induct)
  case Nil
  show ?case using dst [of n] quantity_lawsD(1) [OF Q] by (simp add: max_resource_list_def qval_def gm_at_def)
next
  case (snoc x src)
  obtain k v where x: "x = (k, v)" by (cases x)
  have ok: "gm_ok (src @ [(k, v)])" using snoc.prems by (simp add: proper_list_def x)
  note at = qval_snoc [OF ok, of Q val, folded x]
  note zero = qval_fresh [OF Q ok]
  have v: "0 \<le> val v" using snoc.prems at [of k] unfolding proper_list_def by metis
  have nonneg: "0 \<le> qval Q val src m" for m
    using snoc.prems at [of m] zero unfolding proper_list_def by (cases "m = k") (auto, metis)
  then have "proper_list Q val src" using snoc.prems by (simp add: proper_list_def)
  then have IH: "qval Q val (max_resource_list Q dst src) n = max (qval Q val dst n) (qval Q val src n)"
    by (rule snoc.IH)
  let ?m = "max_resource_list Q dst src"
  have step: "max_resource_list Q dst (src @ [x]) = (case gm_get ?m k of None \<Rightarrow> gm_set k v ?m
      | Some cur \<Rightarrow> if qCmp Q v cur > 0 then gm_set k v ?m else ?m)"
    unfolding max_resource_list_def by (simp add: x)
  show ?case
  proof (cases "n = k")
    case False
    then have "qval Q val (max_resource_list Q dst (src @ [x])) n = qval Q val ?m n"
      unfolding step by (auto simp: qval_def split: option.split)
    then show ?thesis using IH at [of n] False by simp
  next
    case True
    have m: "qval Q val ?m k = qval Q val dst k" using IH True zero dst [of k] by simp
    have "qval Q val (max_resource_list Q dst (src @ [x])) k = max (qval Q val ?m k) (val v)"
    proof (cases "gm_get ?m k")
      case None
      then show ?thesis unfolding step using v quantity_lawsD(1) [OF Q] by (simp add: qval_def gm_at_def max_def)
    next
      case (Some cur)
      then show ?thesis unfolding step using quantity_lawsD(5) [OF Q, of v cur]
        by (simp add: qval_def gm_at_def max_def)
    qed
    then show ?thesis using m at [of k] True by simp
  qed
qed

lemma sidecar_sum_snoc:
  "sidecar_sum Q val (cs @ [c]) n = sidecar_sum Q val cs n + (if is_sidecar c then qval Q val (cRequests c) n else 0)"
  by (simp add: sidecar_sum_def)

lemma init_stages_snoc:
  "init_stages Q val (cs @ [c]) n = init_stages Q val cs n @ [sidecar_sum Q val cs n + qval Q val (cRequests c) n]"
  by (simp add: init_stages_def nth_append)

lemma qval_nil: "quantity_laws Q val \<Longrightarrow> qval Q val [] n = 0"
  using quantity_lawsD(1) by (simp add: qval_def gm_at_def)

lemma init_loop:
  assumes Q: "quantity_laws Q val" and cs: "list_all (\<lambda>c. proper_list Q val (cRequests c)) cs"
    and "foldl (init_turn Q) (reqs, [], []) cs = (reqs', restartable, peak)"
  shows "qval Q val reqs' n = qval Q val reqs n + sidecar_sum Q val cs n
    \<and> qval Q val restartable n = sidecar_sum Q val cs n \<and> gm_ok restartable
    \<and> qval Q val peak n = foldl max 0 (init_stages Q val cs n) \<and> gm_ok peak
    \<and> (\<forall>m. 0 \<le> qval Q val restartable m \<and> 0 \<le> qval Q val peak m) \<and> (gm_ok reqs \<longrightarrow> gm_ok reqs')"
  using cs assms(3)
proof (induction cs arbitrary: n reqs' restartable peak rule: rev_induct)
  case Nil
  then show ?case using qval_nil [OF Q] by (auto simp: sidecar_sum_def init_stages_def)
next
  case (snoc c cs)
  obtain r1 s1 p1 where st: "foldl (init_turn Q) (reqs, [], []) cs = (r1, s1, p1)" by (metis prod_cases3)
  have c: "proper_list Q val (cRequests c)" and "list_all (\<lambda>c. proper_list Q val (cRequests c)) cs"
    using snoc.prems(1) by simp_all
  note IH = snoc.IH [OF this(2) st]
  have cok: "gm_ok (cRequests c)" and cpos: "0 \<le> qval Q val (cRequests c) m" for m
    using c by (simp_all add: proper_list_def)
  have s1: "gm_ok s1" "0 \<le> qval Q val s1 m" and p1: "gm_ok p1" "0 \<le> qval Q val p1 m" for m using IH by blast+
  note add = qval_add [OF Q cok] and add1 = qval_add [OF Q s1(1)] and mx = qval_max [OF Q p1(2)]
  define stage where "stage = (if is_sidecar c then add_resource_list Q s1 (cRequests c)
    else add_resource_list Q (add_resource_list Q [] s1) (cRequests c))"
  have stage: "qval Q val stage m = qval Q val s1 m + qval Q val (cRequests c) m" "gm_ok stage" for m
    using add add1 qval_nil [OF Q] by (simp_all add: stage_def add_resource_list_ok s1)
  then have pstage: "proper_list Q val stage" using s1(2) cpos by (simp add: proper_list_def)
  have peak: "peak = max_resource_list Q p1 stage"
    "restartable = (if is_sidecar c then stage else s1)"
    "reqs' = (if is_sidecar c then add_resource_list Q r1 (cRequests c) else r1)"
  proof -
    have "init_turn Q (r1, s1, p1) c = (reqs', restartable, peak)" using snoc.prems(2) st by simp
    then show "peak = max_resource_list Q p1 stage" "restartable = (if is_sidecar c then stage else s1)"
      "reqs' = (if is_sidecar c then add_resource_list Q r1 (cRequests c) else r1)"
      by (auto simp: init_turn_def stage_def Let_def split: if_splits)
  qed
  have pk: "qval Q val peak m = max (qval Q val p1 m) (qval Q val stage m)" for m
    unfolding peak(1) by (rule mx [OF pstage])
  have r: "qval Q val restartable m = qval Q val s1 m + (if is_sidecar c then qval Q val (cRequests c) m else 0)" for m
    using stage(1) by (simp add: peak(2))
  have q: "qval Q val reqs' n = qval Q val r1 n + (if is_sidecar c then qval Q val (cRequests c) n else 0)"
    using add by (simp add: peak(3))
  have vals: "qval Q val reqs' n = qval Q val reqs n + sidecar_sum Q val (cs @ [c]) n"
    "qval Q val restartable n = sidecar_sum Q val (cs @ [c]) n"
    "qval Q val peak n = foldl max 0 (init_stages Q val (cs @ [c]) n)"
    using IH [of n] by (simp_all add: q r pk stage(1) sidecar_sum_snoc init_stages_snoc)
  have pos: "0 \<le> qval Q val restartable m" "0 \<le> qval Q val peak m" for m
    using s1(2) [of m] p1(2) [of m] cpos [of m] by (auto simp: r pk)
  have oks: "gm_ok restartable" "gm_ok peak" "gm_ok reqs \<longrightarrow> gm_ok reqs'"
    using IH [of n] stage(2) s1(1) p1(1) by (auto simp: peak add_resource_list_ok max_resource_list_ok)
  show ?case using vals pos oks by blast
qed

lemma foldl_max: "foldl max (max a b) xs = max a (foldl max b xs)" for a :: rat
  by (induction xs arbitrary: b) (simp_all add: max.assoc)

lemma container_sum:
  assumes Q: "quantity_laws Q val" and "list_all (\<lambda>c. proper_list Q val (cRequests c)) cs"
  shows "qval Q val (foldl (\<lambda>m c. add_resource_list Q m (cRequests c)) [] cs) n
    = sum_list (map (\<lambda>c. qval Q val (cRequests c) n) cs)"
  using assms(2)
  by (induction cs rule: rev_induct) (simp_all add: qval_nil [OF Q] qval_add [OF Q] proper_list_def)

lemma sum_proper_nonneg:
  "list_all (\<lambda>c. proper_list Q val (cRequests c)) cs \<Longrightarrow> 0 \<le> sum_list (map (\<lambda>c. qval Q val (cRequests c) n) cs)"
  by (induction cs) (auto simp: proper_list_def)

lemma resources_match_scheduler:
  assumes Q: "quantity_laws Q val" and p: "pod_proper Q val p"
  shows "qval Q val (crResources (build_cr_for_pod Q ds p)) n = scheduler_request Q val p n"
proof -
  let ?reqs = "foldl (\<lambda>m c. add_resource_list Q m (cRequests c)) [] (podContainers p)"
  have cs: "list_all (\<lambda>c. proper_list Q val (cRequests c)) (podContainers p)"
    "list_all (\<lambda>c. proper_list Q val (cRequests c)) (podInitContainers p)"
    and over: "gm_ok (podOverhead p)" using p by (simp_all add: pod_proper_def proper_list_def)
  obtain reqs restartable peak where
    loop: "foldl (init_turn Q) (?reqs, [], []) (podInitContainers p) = (reqs, restartable, peak)" by (metis prod_cases3)
  note L = init_loop [OF Q cs(2) loop]
  have run: "qval Q val reqs m = sum_list (map (\<lambda>c. qval Q val (cRequests c) m) (podContainers p))
      + sidecar_sum Q val (podInitContainers p) m" for m
    using L [of m] container_sum [OF Q cs(1), of m] by simp
  have "list_all (\<lambda>c. proper_list Q val (cRequests c)) (filter is_sidecar (podInitContainers p))"
    using cs(2) by (auto simp: list_all_iff)
  then have pos: "0 \<le> qval Q val reqs m" for m
    unfolding run sidecar_sum_def using sum_proper_nonneg cs(1) by (metis add_nonneg_nonneg)
  have peak: "proper_list Q val peak" unfolding proper_list_def using L by blast
  have "qval Q val (resources_from_pod Q p) n
      = max (qval Q val reqs n) (foldl max 0 (init_stages Q val (podInitContainers p) n)) + qval Q val (podOverhead p) n"
    using qval_max [OF Q pos peak] qval_add [OF Q over] L [of n]
    by (simp add: resources_from_pod_def Let_def loop)
  also have "max (qval Q val reqs n) (foldl max 0 (init_stages Q val (podInitContainers p) n))
      = foldl max (qval Q val reqs n) (init_stages Q val (podInitContainers p) n)"
    using foldl_max [of "qval Q val reqs n" 0] pos [of n] by (simp add: max_absorb1)
  finally show ?thesis by (simp add: build_cr_for_pod_def scheduler_request_def run)
qed

text \<open>A pod with a sidecar started first, a large init container after it, and an overhead.\<close>

definition sample_pod :: "int pod" where
  "sample_pod =
    \<lparr>podNamespace = ''default'', podName = ''web-0'', podUID = ''u1'', podPhase = ''Pending'', podAnnotations = [],
     podContainers = [\<lparr>cRequests = [(''cpu'', 2)], cRestartPolicy = None\<rparr>],
     podInitContainers = [\<lparr>cRequests = [(''cpu'', 1)], cRestartPolicy = Some ''Always''\<rparr>,
       \<lparr>cRequests = [(''cpu'', 5)], cRestartPolicy = None\<rparr>],
     podOverhead = [(''cpu'', 3)], podNodeSelector = [(''zone'', ''z1'')], podNodeTerms = None,
     podAffinityTerms = None, podPriorityValue = None, podPriorityClassName = '''', podSpread = []\<rparr>"

lemma sample_pod_proper: "pod_proper int_lib of_int sample_pod"
  by (simp add: pod_proper_def sample_pod_def proper_list_def qval_def gm_at_def int_lib_def)

section \<open>From the pod to the shard\<close>

lemma resources_from_pod_ok: "gm_ok (resources_from_pod Q p)"
proof -
  let ?reqs = "foldl (\<lambda>m c. add_resource_list Q m (cRequests c)) [] (podContainers p)"
  have base: "gm_ok (foldl (\<lambda>m c. add_resource_list Q m (cRequests c)) [] cs)" for cs :: "'a container list"
    by (induction cs rule: rev_induct) (simp_all add: add_resource_list_ok)
  have "gm_ok (fst (foldl (init_turn Q) (r, x) cs))" if "gm_ok r" for r x and cs :: "'a container list"
    using that
  proof (induction cs arbitrary: r x)
    case (Cons c cs)
    obtain r1 x1 where "init_turn Q (r, x) c = (r1, x1)" by (cases "init_turn Q (r, x) c") auto
    moreover from this have "gm_ok r1"
      using Cons.prems by (auto simp: init_turn_def Let_def add_resource_list_ok split: prod.splits if_splits)
    ultimately show ?case using Cons.IH by simp
  qed simp
  then have "gm_ok (fst (foldl (init_turn Q) (?reqs, [], []) (podInitContainers p)))" using base by blast
  then show ?thesis
    by (cases "foldl (init_turn Q) (?reqs, [], []) (podInitContainers p)")
      (simp add: resources_from_pod_def Let_def add_resource_list_ok max_resource_list_ok)
qed

text \<open>A printed vector denotes the numbers it was printed from.\<close>

lemma rval_printed:
  assumes Q: "quantity_laws Q val" and m: "gm_ok m" and cap: "\<bar>qval Q val m n\<bar> \<le> q_cap"
  shows "rval Q val (map (\<lambda>(k, q). \<lparr>rqName = k, rqQuantity = qString Q q\<rparr>) m) n = qval Q val m n"
proof (cases "gm_get m n")
  case None
  then have "n \<notin> rqName ` set (map (\<lambda>(k, q). \<lparr>rqName = k, rqQuantity = qString Q q\<rparr>) m)"
    by (auto simp: gm_get_none_iff image_iff)
  then show ?thesis using rval_absent [OF Q] quantity_lawsD(1) [OF Q] None by (simp add: qval_def gm_at_def)
next
  case (Some q)
  let ?v = "map (\<lambda>(k, q). \<lparr>rqName = k, rqQuantity = qString Q q\<rparr>) m" and ?r = "\<lparr>rqName = n, rqQuantity = qString Q q\<rparr>"
  have "map rqName ?v = map fst m" by (simp add: case_prod_unfold)
  then have ok: "rv_ok ?v" using m unfolding rv_ok_def by (rule ssubst)
  have "(n, q) \<in> set m" using Some by (rule map_of_SomeD)
  then have mem: "?r \<in> set ?v" by force
  have c: "\<bar>val q\<bar> \<le> q_cap" using cap Some by (simp add: qval_def gm_at_def)
  obtain y where "qParse Q (qString Q q) = Some y" "val y = val q" using quantity_string [OF Q c] .
  then show ?thesis using rval_mem [OF ok mem, where Q = Q and val = val] Some by (simp add: parse_or_zero_def qval_def gm_at_def)
qed

definition operators_known :: "selector_expr list \<Rightarrow> bool" where
  "operators_known es \<longleftrightarrow> list_all (\<lambda>e. requirement_operator_from_core (xeOperator e) \<noteq> None) es"

lemma core_requirements_known: "operators_known es \<longleftrightarrow> core_requirements es \<noteq> None"
  by (induction es) (auto simp: operators_known_def split: option.split)

text \<open>C28:
  A pod's demand arrives as the scheduler will ask for it: when the operators of its node affinity are
  among the four the operator knows, no request is negative and none exceeds what a quantity can say,
  the capacity request built for the pod enters the roll-up as one need of its cluster, whose
  aggregate and whose unit are in every dimension the scheduler's effective request of the pod: the
  containers and sidecars together, or the largest init stage if that is more, and the overhead.
\<close>

theorem pod_demand_reported:
  assumes Q: "quantity_laws Q val" and p: "pod_proper Q val p"
    and known: "operators_known (requirements_from_pod p)"
    and cap: "\<forall>d. scheduler_request Q val p d \<le> q_cap"
  shows "\<exists>n. raw_need Q approx c (build_cr_for_pod Q ds p) = Some n \<and> nCluster n = c
    \<and> priority (nProfile n) = pod_priority p
    \<and> (\<forall>d. rval Q val (AggregateResources n) d = scheduler_request Q val p d
          \<and> rval Q val (MinUnit n) d = scheduler_request Q val p d)"
proof -
  let ?cr = "build_cr_for_pod Q ds p"
  let ?res = "map (\<lambda>(k, q). \<lparr>rqName = k, rqQuantity = qString Q q\<rparr>) (resources_from_pod Q p)"
  have v: "qval Q val (resources_from_pod Q p) d = scheduler_request Q val p d" for d
    using resources_match_scheduler [OF Q p, of ds d] by (simp add: build_cr_for_pod_def)
  have "0 \<le> foldl max a xs" if "0 \<le> a" for a :: rat and xs using that by (induction xs arbitrary: a) auto
  moreover have "0 \<le> sum_list (map (\<lambda>c. qval Q val (cRequests c) d) (podContainers p))
      + sidecar_sum Q val (podInitContainers p) d" for d
    using p unfolding sidecar_sum_def pod_proper_def
    by (intro add_nonneg_nonneg sum_proper_nonneg) (auto simp: list_all_iff)
  ultimately have "0 \<le> scheduler_request Q val p d" for d
    using p unfolding scheduler_request_def pod_proper_def proper_list_def by (intro add_nonneg_nonneg) auto
  then have res: "rval Q val ?res d = scheduler_request Q val p d" for d
    using rval_printed [OF Q resources_from_pod_ok] cap v by simp
  obtain reqs where "core_requirements (requirements_from_pod p) = Some reqs"
    using known by (auto simp: core_requirements_known)
  then obtain prof where prof: "profile_from_cr Q approx ?cr = Some (prof, ?res)" "priority prof = pod_priority p"
    by (auto simp: profile_from_cr_def build_cr_for_pod_def Let_def new_profile_fields)
  have same: "priority (with_same_requirement prof k) = priority prof" for k
    by (simp add: with_same_requirement_def new_profile_fields)
  then show ?thesis
    by (intro exI [of _ "the (raw_need Q approx c ?cr)"]) (simp add: raw_need_def prof res Let_def split: option.split)
qed

theorem pod_demand_reported_witness:
  "\<exists>n. raw_need int_lib (\<lambda>_. f64_zero) ''c1'' (build_cr_for_pod int_lib [] sample_pod) = Some n \<and> nCluster n = ''c1''
    \<and> rval int_lib of_int (MinUnit n) ''cpu'' = 9"
proof -
  have s: "scheduler_request int_lib of_int sample_pod d = (if d = ''cpu'' then 9 else 0)" for d
    by (simp add: scheduler_request_def sample_pod_def init_stages_def sidecar_sum_def is_sidecar_def qval_def
        gm_at_def int_lib_def)
  have known: "operators_known (requirements_from_pod sample_pod)"
    by (simp add: operators_known_def requirements_from_pod_def sample_pod_def requirement_operator_from_core_def Let_def)
  have "\<forall>d. scheduler_request int_lib of_int sample_pod d \<le> q_cap" by (simp add: s q_cap_def)
  from pod_demand_reported [OF int_lib_laws sample_pod_proper known this, of "\<lambda>_. f64_zero" "''c1''" "[]"]
  show ?thesis using s by auto
qed

section \<open>One request for each pod\<close>


















end
