(* ===== verification/Spec2Isabelle.thy ===== *)
theory Spec2Isabelle
  imports CoreProps Phases Workers Delivery Nodes Pods
begin

text \<open>
  BigFleet keeps a fleet of machines assigned to clusters. Each cluster reports its needs
  (profile of the machines wanted, aggregate quantities, smallest unit, priority); a shard owns
  an inventory of machines and on every tick decides which to bootstrap, provision, preempt,
  reclaim and give back, and hands the actions to a pool of workers. A coordinator keeps the registry
  of shards, clusters and topology domains. In each cluster a controller writes one capacity request
  per pod and an operator rolls the requests up and shows the machines to come. This development
  models the way of demand from a pod over the roll-up to the executed action, the way back to the
  cluster, and the coordinator with its replicated state, and proves what makes them correct.

  How the theories follow the code (Go packages under \<open>src/pkg\<close>):

  \<^item> \<open>Prelude\<close>, \<open>Float64\<close>: Go maps as association lists (their order is the order a range over
    the map happens to take), sorting by a comparator (\<open>sort_less\<close>), machine integers, decimal
    text, and the part of IEEE 754 doubles the program uses.
  \<^item> \<open>Machine\<close> (\<open>machine\<close>): states, transition table, structural invariant, cost, metadata.
  \<^item> \<open>Fencing\<close> (\<open>fencing\<close>): terms, epochs, sequence numbers.
  \<^item> \<open>Resources\<close>, \<open>Needs\<close> (\<open>needs\<close>): quantity vectors, profiles and fingerprints, aggregation, the
    table of needs.
  \<^item> \<open>Inventory\<close> (\<open>inventory\<close>): the store and the snapshot with its index maps.
  \<^item> \<open>Match\<close>, \<open>Cost\<close> (\<open>decision\<close>): profile matching, victim scores, grace periods, holds, actions.
  \<^item> \<open>Claims\<close> (\<open>decision/occ\<close>, \<open>types.go\<close>, \<open>state.go\<close>, \<open>broker.go\<close>): the shared claim state and \<open>Propose\<close>.
  \<^item> \<open>Pool\<close> (\<open>poolcache.go\<close>, \<open>candidates.go\<close>): candidate pools and the three finders.
  \<^item> \<open>SameSupply\<close> (\<open>samesupply.go\<close>, \<open>samebucket.go\<close>): the choice of a domain for a gang.
  \<^item> \<open>Seed\<close> (\<open>seed.go\<close>): the pre-pass that credits machines bound already.
  \<^item> \<open>Cycle\<close>, \<open>CycleProps\<close> (\<open>cycle.go\<close>): the worker loop and the cycle.
  \<^item> \<open>Normalize\<close>, \<open>Phases\<close> (\<open>decision\<close>, \<open>normalize.go\<close>, \<open>phase1_assign.go\<close>, \<open>phase2_inversions.go\<close>,
    \<open>phase3_reclaim.go\<close>): folding of demand, assignment, preemption, reclamation and release.
  \<^item> \<open>Conv\<close> (\<open>conv\<close>): the protobuf messages and their conversion, both ways.
  \<^item> \<open>Execute\<close> (\<open>shard/execute.go\<close>): the executions, over a \<open>world\<close> of inventory, sessions and clock; the
    provider and the operators are functions from a world to an answer and a later world.
  \<^item> \<open>Reconcile\<close>, \<open>Safety\<close>, \<open>Capacity\<close>, \<open>Report\<close> (\<open>shard/reconcile.go\<close>, \<open>safety.go\<close>, \<open>available_capacity.go\<close>,
    \<open>report.go\<close>, \<open>needview.go\<close>): the provider's list, the roll-up guard and the reclaim cap, the hints,
    the ledger of shortfalls, parking and the per-need views.
  \<^item> \<open>Shard\<close>, \<open>Workers\<close> (\<open>shard/shard.go\<close>, \<open>session.go\<close>): the shard's state, sessions, one decision cycle, and
    the pool of workers as the step relation \<open>pool_step\<close> of everything that shares the state.
  \<^item> \<open>Coordinator\<close> (\<open>coordinator/state.go\<close>, \<open>fsm.go\<close>): the replicated state, its commands and snapshots, and
    \<open>replica\<close>, what a replica may have been through.
  \<^item> \<open>Delivery\<close> (\<open>coordinator/grpc_server.go\<close>, \<open>shard/coordclient\<close>): the coordinator's service, the shard's
    client of it, and \<open>link\<close>, everything that may happen between the two: reports and answers that get
    lost, other shards, the administrator.
  \<^item> \<open>Operator\<close> (\<open>operator/rollup.go\<close>): capacity requests, their roll-up into one message, acknowledgement.
  \<^item> \<open>Nodes\<close> (\<open>operator/stream.go\<close>, \<open>upcoming.go\<close>): the coalescing of node updates with its workers as the
    step relation \<open>stream_step\<close>, and the upcoming node a worker writes.
  \<^item> \<open>Pods\<close> (\<open>controller/cr/controller.go\<close>): the capacity request of a pod, and reconciling.
  \<^item> \<open>CoreProps\<close>: properties of the data layer (inventory, needs, metadata).
  \<^item> \<open>Samples\<close>: concrete machines, profiles and a quantity library the witnesses use.

  State. A \<open>shared_state\<close> holds the snapshot and the claim maps under the broker's lock; since
  \<open>Propose\<close> holds the lock throughout, it is one step, and the workers of a cycle are the steps of
  \<open>worker_step\<close> in any interleaving. \<open>run_queue\<close> is the same loop run by one worker.

  Parameters. The Kubernetes quantity library is the argument \<open>Q\<close> of the definitions; what the
  code relies on is \<open>quantity_laws\<close>, which \<open>int_lib\<close> of \<open>Samples\<close> satisfies. The clock, float text
  conversion and file system answers are arguments too; the provider and the
  operators are functions from a world to an answer and a later world (\<open>exec_env\<close>), so that whatever
  else happens during a call is part of the answer; Raft is one log delivered to every replica. The
  API server of a cluster is a record of calls on a state of its own (\<open>node_api\<close>, \<open>pod_api\<close>), and what it
  does while nothing fails and nobody else writes is a named hypothesis (\<open>node_api_laws\<close>,
  \<open>pod_api_laws\<close>), each with an instance.

  Fuel. \<open>need_loop\<close> and \<open>run_queue\<close> take fuel and answer None when it runs out; \<open>cycle_terminates\<close>
  gives an amount (one more than the machines of the snapshot for the inner loop, needs plus
  machines times needs for the queue) that is always enough, so nothing is conditional on the
  loops ending. The other loops are structural or have their measure.

  What is shown: the shared state stays consistent under every interleaving and is an
  implementation of an abstract versioned map; the finders return what covers the deficit under
  their topology constraints; the pre-pass keeps bound machines by priority; the cycle ends,
  allocates no machine twice and reports unmet needs exactly; the phases disturb only what they
  may and give back exactly the surplus; a dispatched action has its machine to itself until it
  ends, and ends in one of the outcomes listed, whatever provider and operators answer; the
  inventory follows the provider's list and an assignment survives a restart; the coordinator's
  replicas agree, and a binding is permanent; an instruction takes effect once and is settled within
  two reports; a pod's demand enters the roll-up as the scheduler's request and reads back at the
  shard unchanged; each pod owns one request; of a machine's updates the last one wins. Each interface a component relies
  on is a locale, interpreted in the theory of the component that provides it.

  Not modelled: metrics collectors, logging, gRPC and TLS transport, Raft, command lines, the
  operator's reclaim instructions (evictions and waiting on the API server), its available-capacity
  objects and bootstrap templates, the archive files of coordinator snapshots, the fake provider, the
  simulator and the scale tests (input and output, library code, or harnesses around the program).
\<close>

section \<open>Phase 1 claims\<close>

text \<open>C1: Whatever proposals the workers make and in whatever order the broker takes them, a
  claimed machine has exactly one owner: the forward map (machine to claim) and the reverse
  map (need to machines) of the shared state stay inverse to each other.\<close>

theorem claims_one_owner:
  assumes "claim_step\<^sup>*\<^sup>* (new_shared_state snap) s"
  shows "(\<forall>mid n. mid \<in> set (claimed_for s n)
      \<longleftrightarrow> (\<exists>c. gm_get (claimedBy s) mid = Some c \<and> cNeed c = n))
    \<and> (\<forall>n. distinct (claimed_for s n))
    \<and> (\<forall>n n'. n \<noteq> n' \<longrightarrow> set (claimed_for s n) \<inter> set (claimed_for s n') = {})"
proof -
  have ok: "claims_ok s" by (rule occ.steps_inv [OF assms claims_ok_new])
  have "mid \<in> set (claimed_for s n) \<longleftrightarrow> (\<exists>c. gm_get (claimedBy s) mid = Some c \<and> cNeed c = n)" for mid n
    using claims_okD(4) [OF ok] by (simp only: owned_def)
  moreover have "distinct (claimed_for s n)" for n by (rule claims_okD(3) [OF ok])
  moreover have "n = n'" if "mid \<in> set (claimed_for s n)" "mid \<in> set (claimed_for s n')" for mid n n'
    using owned_one [OF ok, unfolded owned_def] that .
  ultimately show ?thesis by blast
qed

definition sample_proposal :: "nat \<Rightarrow> int \<Rightarrow> nat \<Rightarrow> string list \<Rightarrow> proposal" where
  "sample_proposal n prio seq ms = \<lparr>pNeed = n, pBucket = zero_bucket, pMachines = ms,
     pObservedSeq = seq, pPrecedence = Precedence prio 1 1, pMode = ModeIncremental, pRetriesLeft = 3\<rparr>"

definition sample_claims :: shared_state where
  "sample_claims = snd (propose (sample_proposal 1 9 1 [''b'', ''d''])
     (snd (propose (sample_proposal 0 5 0 [''b'']) (new_shared_state empty_snapshot))))"

lemma propose_steps: "claim_step\<^sup>*\<^sup>* s0 s \<Longrightarrow> claim_step\<^sup>*\<^sup>* s0 (snd (propose p s))"
  by (rule rtranclp.rtrancl_into_rtrancl) (auto intro: cs_propose)

lemma sample_claims_steps: "claim_step\<^sup>*\<^sup>* (new_shared_state empty_snapshot) sample_claims"
  unfolding sample_claims_def by (intro propose_steps rtranclp.rtrancl_refl)

lemma sample_claims_value: "gm_get (claimedBy sample_claims) ''b''
    = Some \<lparr>cNeed = 1, cPrecedence = Precedence 9 1 1, cRetriesLeft = 3\<rparr>"
  by (simp add: sample_claims_def sample_proposal_def propose_def new_shared_state_def Let_def
      bucket_seq_def gm_at_def classify_machine_def evict_def take_machine_def own_def
      less_precedence_def prec_less_def del: prec_less_iff)

theorem claims_one_owner_witness:
  "''b'' \<in> set (claimed_for sample_claims 1) \<and> ''b'' \<notin> set (claimed_for sample_claims 0)"
proof -
  note c = claims_one_owner [OF sample_claims_steps]
  have "''b'' \<in> set (claimed_for sample_claims 1)" using c sample_claims_value by fastforce
  moreover have "set (claimed_for sample_claims 1) \<inter> set (claimed_for sample_claims 0) = {}"
    using c by (metis zero_neq_one)
  ultimately show ?thesis by blast
qed

text \<open>C2: No claim is lost to a race: once a machine is claimed it stays claimed for the rest of
  the cycle, the precedence of its claim never falls, and its owner changes only to a need of
  strictly higher precedence (at equal precedence the first mover keeps the machine).\<close>

theorem claim_only_outranked:
  assumes "claim_step\<^sup>*\<^sup>* (new_shared_state snap) s" "claim_step\<^sup>*\<^sup>* s s'"
    and "gm_get (claimedBy s) mid = Some c"
  shows "\<exists>c'. gm_get (claimedBy s') mid = Some c' \<and> cPrecedence c \<le> cPrecedence c'
    \<and> (cNeed c' \<noteq> cNeed c \<longrightarrow> prec_less (cPrecedence c) (cPrecedence c'))"
proof -
  have ok: "claims_ok s" by (rule occ.steps_inv [OF assms(1) claims_ok_new])
  show ?thesis using occ.steps_claim [OF assms(2) ok assms(3)] by (auto simp del: map_of_eq_Some_iff)
qed

theorem claim_only_outranked_witness:
  "\<exists>c'. gm_get (claimedBy (snd (propose (sample_proposal 2 8 2 [''b'']) sample_claims))) ''b'' = Some c'
    \<and> Precedence 9 1 1 \<le> cPrecedence c'"
  using claim_only_outranked [OF sample_claims_steps propose_steps [OF rtranclp.rtrancl_refl]
      sample_claims_value, of "sample_proposal 2 8 2 [''b'']"] by auto

text \<open>C3: The broker implements its specification: seen as a map from machines to claims with a
  version for each bucket, \<open>Propose\<close> takes exactly the machines of the proposal that are free or
  held by a strictly lower precedence, only when the version is current and, for an
  all-or-nothing proposal, only when it can take all of them; otherwise it changes nothing.\<close>

theorem broker_refines_spec:
  assumes "claim_step\<^sup>*\<^sup>* (new_shared_state snap) s"
  shows "abs_claims (snd (propose p s)) = abs_propose p (abs_claims s)
    \<and> (resStatus (fst (propose p s)) = StatusCommitted \<longleftrightarrow> abs_commits p (abs_claims s))"
proof -
  have ok: "claims_ok s" by (rule occ.steps_inv [OF assms claims_ok_new])
  have "resStatus (fst (propose p s)) = StatusCommitted \<longleftrightarrow> commits s p"
    using propose_commit(1) [OF ok, of p] propose_conflict [of s p] by (cases "commits s p") auto
  then show ?thesis using propose_refines [OF ok] by (simp only: abs_commits_iff)
qed

theorem broker_refines_spec_witness:
  "abs_claims (snd (propose (sample_proposal 2 8 2 [''b'', ''e'']) sample_claims))
    = abs_propose (sample_proposal 2 8 2 [''b'', ''e'']) (abs_claims sample_claims)"
  using broker_refines_spec [OF sample_claims_steps] by blast

section \<open>Candidate search\<close>

text \<open>C4: \<open>FindBasic\<close> returns distinct machines of the pool that match the profile, fit the
  largest unit of the need and may be claimed; together they cover the deficit in every
  dimension, or they are all the machines of the pool there are for the need. It takes a
  machine away from another need only after every free one.\<close>

theorem find_basic_covers:
  assumes "quantity_laws Q val" "capacity_ok Q val (plSrc p)" "distinct (map ID (plSrc p))"
    and "\<not> is_zero Q deficit"
  shows "\<exists>taken. caMachines (find_basic Q p s st prec deficit minUnit) = map ID taken
    \<and> distinct (map ID taken)
    \<and> (\<forall>m\<in>set taken. m \<in> set (plSrc p) \<and> eligible Q (plProfile p) s prec minUnit m)
    \<and> ((\<forall>n. rval Q val deficit n \<le> capacity_sum Q val taken n)
       \<or> (\<forall>m\<in>set (plSrc p). eligible Q (plProfile p) s prec minUnit m \<longrightarrow> m \<in> set taken))
    \<and> ((\<forall>m\<in>set taken. \<not> is_claimed s (ID m))
       \<or> (\<forall>m\<in>set (plSrc p). eligible Q (plProfile p) s prec minUnit m \<longrightarrow> \<not> is_claimed s (ID m)
            \<longrightarrow> m \<in> set taken))"
  using find_basic_taken [OF assms(1-3), where s = s and st = st and prec = prec and minUnit = minUnit
      and deficit = deficit] assms(4) by metis

text \<open>C5: \<open>FindSame\<close> never builds a group across domains: the machines it returns share one
  value of the Same key (the domain the pre-pass chose, when it chose one), each of them is
  eligible, and within that domain they cover the deficit or are all there is. It returns none
  only when no eligible machine has a value of the key at all (or, with a chosen domain, that
  value). Left to choose, it takes a domain whose eligible machines cover the deficit together
  when there is one, and otherwise a domain with as many eligible machines as any other.\<close>

theorem find_same_one_domain:
  assumes "quantity_laws Q val" "capacity_ok Q val (plSrc p)" "distinct (map ID (plSrc p))"
    and "\<not> is_zero Q deficit"
  shows "let r = find_same Q p s st prec deficit minUnit k domain;
      usable = (\<lambda>w. filter (\<lambda>m. eligible Q (plProfile p) s prec minUnit m \<and> lookup_attribute k m = Some w)
        (plSrc p));
      enough = (\<lambda>w. covers Q (group_capacity Q (usable w)) deficit)
    in \<exists>taken v. caMachines r = map ID taken \<and> distinct (map ID taken) \<and> (domain \<noteq> '''' \<longrightarrow> v = domain)
      \<and> set taken \<subseteq> set (usable v)
      \<and> ((\<forall>n. rval Q val deficit n \<le> capacity_sum Q val taken n) \<or> taken = usable v)
      \<and> (taken = [] \<longleftrightarrow> (\<forall>w. domain = '''' \<or> w = domain \<longrightarrow> usable w = []))
      \<and> (taken \<noteq> [] \<longrightarrow> bkSameKey (caBucket r) = k \<and> bkSameValue (caBucket r) = v)
      \<and> (domain = '''' \<longrightarrow> (\<forall>w. usable w \<noteq> [] \<longrightarrow>
            (enough w \<longrightarrow> enough v) \<and> (\<not> enough v \<longrightarrow> length (usable w) \<le> length (usable v))))"
  using find_same_taken [OF assms refl refl refl refl, of s st prec minUnit k domain]
  unfolding Let_def same_eligible_def .

text \<open>\<open>FindSpread\<close> returns distinct eligible machines whose numbers in any two eligible
  domains differ by at most the skew (at least 1), and it stops short of the deficit only when
  some domain has no machine left.\<close>

theorem find_spread_skew:
  assumes "quantity_laws Q val" "capacity_ok Q val (plSrc p)" "distinct (map ID (plSrc p))"
    and "\<not> is_zero Q deficit"
  shows "\<exists>taken. caMachines (find_spread Q p s st prec deficit minUnit k maxSkew) = map ID taken
    \<and> distinct (map ID taken)
    \<and> (\<forall>m\<in>set taken. m \<in> set (plSrc p) \<and> eligible Q (plProfile p) s prec minUnit m)
    \<and> (\<forall>v\<in>spread_domains Q p s prec minUnit k. \<forall>w\<in>spread_domains Q p s prec minUnit k.
         in_domain k v taken \<le> in_domain k w taken + max 1 maxSkew)
    \<and> ((\<forall>n. rval Q val deficit n \<le> capacity_sum Q val taken n)
       \<or> spread_domains Q p s prec minUnit k = {}
       \<or> (\<exists>v\<in>spread_domains Q p s prec minUnit k. \<forall>m\<in>set (plSrc p).
            same_eligible Q (plProfile p) s prec minUnit k v m \<longrightarrow> m \<in> set taken))"
proof (rule find_spread_taken [OF assms, where s = s and st = st and prec = prec and minUnit = minUnit
      and k = k and maxSkew = maxSkew], goal_cases)
  case (1 taken)
  then show ?case by (intro exI [of _ taken] conjI) blast+
qed

definition sample_pool :: pool where
  "sample_pool = \<lparr>plSrc = [sample_machine ''b'' StateIdle '''' ''z1'', sample_machine ''d'' StateIdle '''' ''z2''],
     plProfile = sample_profile 7\<rparr>"

definition sample_deficit :: "resource_qty list" where
  "sample_deficit = [\<lparr>rqName = ''cpu'', rqQuantity = ''6''\<rparr>]"

lemma sample_pool_ok:
  "capacity_ok int_lib of_int (plSrc sample_pool)" "distinct (map ID (plSrc sample_pool))"
  "\<not> is_zero int_lib sample_deficit"
proof -
  have v: "alloc_of (sample_machine k st c z) = [\<lparr>rqName = ''cpu'', rqQuantity = ''4''\<rparr>]" for k st c z
    by (simp add: alloc_of_def effective_allocatable_def sample_machine_def zero_machine_def
        resource_qtys_from_map_def)
  have p: "parse_or_zero int_lib ''4'' = 4" by code_simp
  have "rval int_lib of_int [\<lparr>rqName = ''cpu'', rqQuantity = ''4''\<rparr>] d \<ge> 0" for d
    by (simp add: rval_def to_qty_map_def gm_at_def p) (simp add: int_lib_def)
  then show "capacity_ok int_lib of_int (plSrc sample_pool)"
    by (simp add: capacity_ok_def sample_pool_def v)
  show "distinct (map ID (plSrc sample_pool))" by (simp add: sample_pool_def sample_machine_def)
  show "\<not> is_zero int_lib sample_deficit" by code_simp
qed

lemma ex_conj_weaken: "\<exists>x. P x \<and> Q x \<and> R x \<Longrightarrow> \<exists>x. P x \<and> Q x"
  by blast

theorem find_basic_covers_witness:
  "\<exists>taken :: machine list. caMachines (find_basic int_lib sample_pool sample_claims StateIdle (Precedence 10 1 1)
      sample_deficit []) = map ID taken \<and> distinct (map ID taken)"
  using find_basic_covers [OF int_lib_laws sample_pool_ok, of sample_claims StateIdle "Precedence 10 1 1" "[]"]
  by (rule ex_conj_weaken)

theorem find_same_one_domain_witness:
  "let r = find_same int_lib sample_pool (new_shared_state empty_snapshot) StateIdle (Precedence 10 1 1)
      sample_deficit [] zone_key ''z2''
   in caMachines r \<noteq> [] \<and> bkSameValue (caBucket r) = ''z2''"
proof -
  have "filter (\<lambda>m. eligible int_lib (plProfile sample_pool) (new_shared_state empty_snapshot)
      (Precedence 10 1 1) [] m \<and> lookup_attribute zone_key m = Some ''z2'') (plSrc sample_pool) \<noteq> []"
    by code_simp
  then show ?thesis
    using find_same_one_domain [OF int_lib_laws sample_pool_ok,
        of "new_shared_state empty_snapshot" StateIdle "Precedence 10 1 1" "[]" zone_key "''z2''"]
    unfolding Let_def by auto
qed

theorem find_spread_skew_witness:
  "\<exists>taken :: machine list. caMachines (find_spread int_lib sample_pool (new_shared_state empty_snapshot) StateIdle
      (Precedence 10 1 1) sample_deficit [] zone_key 1) = map ID taken \<and> distinct (map ID taken)"
  using find_spread_skew [OF int_lib_laws sample_pool_ok,
      of "new_shared_state empty_snapshot" StateIdle "Precedence 10 1 1" "[]" zone_key 1]
  by (rule ex_conj_weaken)

section \<open>The choice of a domain\<close>

text \<open>\<open>ChooseSameBucket\<close> is deterministic: with distinct domain values, the domain it picks
  does not depend on the order in which the buckets were collected (part of which is Go's random
  map order).\<close>

theorem same_choice_order_independent:
  assumes "set bs = set bs'" "inj_on sbValue (set bs)" "\<forall>b\<in>set bs. bucket_vecs_ok b"
    and "\<forall>x\<in>set deficit. x < 2 ^ 63"
  shows "choose_same_bucket bs deficit = choose_same_bucket bs' deficit"
  using assms by (intro choose_same_bucket_order)

text \<open>\<open>ChooseSameBucket\<close> follows its first two rules: when some domain with candidates covers
  the whole deficit, the chosen one does too, and no covering domain has more of the deficit
  already bound to the need's cluster.\<close>

theorem same_choice_covers:
  assumes "choose_same_bucket bs deficit = Some b" "\<forall>b\<in>set bs. bucket_vecs_ok b"
    and "\<forall>x\<in>set deficit. x < 2 ^ 63"
    and "b' \<in> set bs" "sbCount b' \<noteq> 0" "vec_covers (sbTotal b') deficit"
  shows "b \<in> set bs \<and> vec_covers (sbTotal b) deficit
    \<and> f64_le (same_bucket_score (sbCreditableTotal b') deficit True)
        (same_bucket_score (sbCreditableTotal b) deficit True)"
  using choose_same_bucket_sat [OF assms] choose_same_bucket_mem [OF assms(1)] by blast

definition sample_bucket :: "string \<Rightarrow> int \<Rightarrow> int \<Rightarrow> same_bucket" where
  "sample_bucket v tot cred = (zero_same_bucket v)\<lparr>sbCount := 2, sbTotal := [tot], sbCreditableTotal := [cred]\<rparr>"

lemma sample_bucket_ok:
  "0 \<le> t \<Longrightarrow> t < 2 ^ 63 \<Longrightarrow> 0 \<le> c \<Longrightarrow> c < 2 ^ 63 \<Longrightarrow> bucket_vecs_ok (sample_bucket v t c)"
  by (simp add: bucket_vecs_ok_def sample_bucket_def zero_same_bucket_def vec_ok_def)

definition sample_buckets :: "same_bucket list" where
  "sample_buckets = [sample_bucket ''r1'' 8000 4000, sample_bucket ''r2'' 9000 8000]"

lemma sample_buckets_ok: "\<forall>b\<in>set sample_buckets. bucket_vecs_ok b"
  using sample_bucket_ok [of 8000 4000 "''r1''"] sample_bucket_ok [of 9000 8000 "''r2''"]
  by (simp add: sample_buckets_def)

theorem same_choice_order_independent_witness:
  "choose_same_bucket sample_buckets [8000] = choose_same_bucket (rev sample_buckets) [8000]"
proof (rule same_choice_order_independent)
  show "\<forall>b\<in>set sample_buckets. bucket_vecs_ok b" by (rule sample_buckets_ok)
  show "inj_on sbValue (set sample_buckets)"
    by (simp add: sample_buckets_def sample_bucket_def zero_same_bucket_def)
qed simp_all

theorem same_choice_covers_witness:
  "\<exists>b. choose_same_bucket sample_buckets [8000] = Some b \<and> b \<in> set sample_buckets
    \<and> vec_covers (sbTotal b) [8000]"
proof -
  have r1: "sample_bucket ''r1'' 8000 4000 \<in> set sample_buckets" "sbCount (sample_bucket ''r1'' 8000 4000) \<noteq> 0"
    "vec_covers (sbTotal (sample_bucket ''r1'' 8000 4000)) [8000]"
    by (simp_all add: sample_buckets_def sample_bucket_def vec_covers_def)
  then obtain b where b: "choose_same_bucket sample_buckets [8000] = Some b"
    using choose_same_bucket_none by (metis not_None_eq)
  then show ?thesis using same_choice_covers [OF b sample_buckets_ok _ r1] by simp
qed

text \<open>The coverage reported for a candidate domain is between 0 and 1000, and it is 1000
  exactly when the domain covers the deficit, as long as a thousand times each demand still
  fits an \<open>int64\<close>.\<close>

theorem coverage_is_per_mille:
  assumes "\<forall>i. 0 \<le> vec_at have i" "\<forall>w\<in>set want. w * 1000 < 2 ^ 63"
  shows "0 \<le> coverage_per_mille have want \<and> coverage_per_mille have want \<le> 1000
    \<and> (coverage_per_mille have want = 1000 \<longleftrightarrow> vec_covers have want)"
  using coverage_per_mille_bounds [of "have" want] assms by (simp add: mille_ok_def)

theorem coverage_is_per_mille_witness:
  "coverage_per_mille [4000] [6000] \<le> 1000 \<and> coverage_per_mille [4000] [6000] \<noteq> 1000"
proof -
  have "\<not> vec_covers [4000] [6000]" by code_simp
  then show ?thesis using coverage_is_per_mille [of "[4000]" "[6000]"] by (auto simp: vec_at_def)
qed

text \<open>The integer vectors of the co-location path give the answer of the quantity arithmetic
  they replace: when quantities are whole milli-units that fit \<open>int64\<close>, \<open>VecCovers\<close> of the
  parsed vectors is \<open>needs.Covers\<close> of the quantities, whatever dimensions were interned before.\<close>

theorem vectors_mirror_quantities:
  assumes "quantity_laws Q val" "dims_ok dims" "rv_ok want" "rv_ok have"
    and "milli_fits Q val want" "milli_fits Q val have" "milli_exact Q val want" "milli_exact Q val have"
    and "\<forall>n. 0 \<le> rval Q val have n"
  shows "let (wv, dims1) = parse_vec Q dims want; (hv, dims2) = parse_vec Q dims1 have
    in vec_covers hv wv = covers Q have want"
proof -
  obtain wv d1 where w: "parse_vec Q dims want = (wv, d1)" by (rule prod.exhaust)
  obtain hv d2 where h: "parse_vec Q d1 have = (hv, d2)" by (rule prod.exhaust)
  note sw = parse_vec_spec [OF assms(1,2,3,5) w]
  note sh = parse_vec_spec [OF assms(1) sw(2) assms(4,6) h]
  show ?thesis using vec_covers_covers [OF assms(1) sw(2) sh(3,2) sw(1) assms(3,7) sh(1) assms(8,9)] w h by simp
qed

lemma int_lib_milli:
  assumes "\<forall>n. \<bar>rval int_lib of_int v n\<bar> \<le> 100"
  shows "milli_fits int_lib of_int v" "milli_exact int_lib of_int v"
proof -
  have i: "1000 * rval int_lib of_int v n = of_int (1000 * gm_at (qZero int_lib) (to_qty_map int_lib v) n)" for n
    by (simp add: rval_def)
  show "milli_exact int_lib of_int v" unfolding milli_exact_def i by simp
  have "- 100 \<le> gm_at (qZero int_lib) (to_qty_map int_lib v) n \<and> gm_at (qZero int_lib) (to_qty_map int_lib v) n \<le> 100" for n
    using spec [OF assms, of n] unfolding rval_def by linarith
  moreover have "- 100 \<le> x \<and> x \<le> 100 \<Longrightarrow> in_i64 (1000 * x)" for x :: int
    by (simp add: in_i64_def)
  ultimately show "milli_fits int_lib of_int v" unfolding milli_fits_def i ceiling_of_int by blast
qed

theorem vectors_mirror_quantities_witness:
  "let (wv, dims1) = parse_vec int_lib [] sample_deficit; (hv, dims2) = parse_vec int_lib dims1 sample_deficit
    in vec_covers hv wv = covers int_lib sample_deficit sample_deficit"
proof -
  have p: "parse_or_zero int_lib ''6'' = 6" by code_simp
  have r: "rval int_lib of_int sample_deficit n = (if n = ''cpu'' then 6 else 0)" for n
    by (simp add: rval_def to_qty_map_def gm_at_def p sample_deficit_def) (simp add: int_lib_def)
  then have "\<forall>n. \<bar>rval int_lib of_int sample_deficit n\<bar> \<le> 100" by simp
  note m = int_lib_milli [OF this]
  have "\<forall>n. 0 \<le> rval int_lib of_int sample_deficit n" using r by simp
  then show ?thesis
    by (intro vectors_mirror_quantities [OF int_lib_laws _ _ _ m(1) m(1) m(2) m(2)])
      (simp_all add: dims_ok_def rv_ok_def sample_deficit_def)
qed

section \<open>The pre-pass\<close>

text \<open>C6: The pre-pass credits a need only with supply that is already its own: every claim it
  makes is on a machine of the snapshot that matches the profile and is Configured or
  Configuring in the need's cluster, or is being created for that need; a co-located need is
  credited inside its recorded domain only. The deficit it reports is the demand less the
  claimed machines, and no shorter prefix of them covers the demand.\<close>

theorem seed_claims_justified:
  assumes "snapshot_ok snap" "seed_configured_supply Q ns retries (new_shared_state snap) = (s, defs)"
  shows "(\<forall>k c. gm_get (claimedBy s) k = Some c \<longrightarrow> cNeed c < length ns
      \<and> cPrecedence c = precedence_from_profile (nProfile (ns ! cNeed c))
      \<and> (\<exists>m. ID m = k \<and> credited snap (ns ! cNeed c) (gm_get (sameDomain s) (cNeed c)) m))
    \<and> (\<forall>n<length ns. \<exists>taken. claimed_for s n = map ID taken
      \<and> defs ! n = remaining_of Q (AggregateResources (ns ! n)) taken \<and> needed_all Q (ns ! n) taken)"
proof -
  note S = seed_configured_supply_ok [OF assms]
  have o: "set (seed_order ns) = {..<length ns}" using mset_eq_setD [OF seed_order_props(1)] by auto
  have i: "seeded_ok Q ns retries (seed_order ns) s defs" by (rule S(1))
  have "\<forall>k c. gm_get (claimedBy s) k = Some c \<longrightarrow> cNeed c < length ns
      \<and> cPrecedence c = precedence_from_profile (nProfile (ns ! cNeed c))
      \<and> (\<exists>m. ID m = k \<and> credited snap (ns ! cNeed c) (gm_get (sameDomain s) (cNeed c)) m)"
    using i unfolding seeded_ok_def o S(3) by blast
  moreover have "\<forall>n\<in>{..<length ns}. \<exists>taken. claimed_for s n = map ID taken
      \<and> defs ! n = remaining_of Q (AggregateResources (ns ! n)) taken \<and> needed_all Q (ns ! n) taken"
    using i unfolding seeded_ok_def o by blast
  ultimately show ?thesis by blast
qed

text \<open>C7: The pre-pass respects priorities: when it leaves a need (without a co-location
  requirement) short, every machine the need could have been credited with is claimed, by the
  need itself or by one of at least its priority.\<close>

theorem seed_respects_priority:
  assumes "snapshot_ok snap" "seed_configured_supply Q ns retries (new_shared_state snap) = (s, defs)"
    and "n < length ns" "same_requirement_key (nProfile (ns ! n)) = None" "\<not> is_zero Q (defs ! n)"
    and "plain_pass Q snap (ns ! n) m"
  shows "\<exists>c. gm_get (claimedBy s) (ID m) = Some c
    \<and> priority (nProfile (ns ! n)) \<le> priority (nProfile (ns ! cNeed c))"
proof -
  note S = seed_configured_supply_ok [OF assms(1,2)]
  have o: "set (seed_order ns) = {..<length ns}" using mset_eq_setD [OF seed_order_props(1)] by auto
  show ?thesis using S(1) assms(3-6) unfolding seeded_ok_def o S(3) by blast
qed

definition bound_inventory :: inventory where
  "bound_inventory = \<lparr>byID = [(''a'', sample_machine ''a'' StateConfigured ''c1'' ''z1'')], idleSince = []\<rparr>"

definition bound_snapshot :: snapshot where
  "bound_snapshot = snapshot_of bound_inventory"

definition plain_need :: "int \<Rightarrow> string \<Rightarrow> need" where
  "plain_need prio cpu = (sample_need ''c1'' cpu)\<lparr>nProfile := new_profile [] [] prio 1 1\<rparr>"

definition sample_seeded :: "shared_state \<times> resource_qty list list" where
  "sample_seeded = seed_configured_supply int_lib [plain_need 3 ''6''] 3 (new_shared_state bound_snapshot)"

lemma bound_snapshot_ok: "snapshot_ok bound_snapshot"
proof -
  have "wf_machine (sample_machine ''a'' StateConfigured ''c1'' ''z1'')" by (simp add: sample_wf)
  then have "inv_ok bound_inventory" unfolding inv_ok_def bound_inventory_def
    by (auto simp: sample_machine_def zero_machine_def split: if_splits)
  then show ?thesis unfolding snapshot_ok_def bound_snapshot_def by blast
qed

lemma sample_seeded_deficit: "snd sample_seeded = [[\<lparr>rqName = ''cpu'', rqQuantity = ''2''\<rparr>]]"
  by code_simp

theorem seed_claims_justified_witness:
  "\<exists>taken. claimed_for (fst sample_seeded) 0 = map ID taken
    \<and> [\<lparr>rqName = ''cpu'', rqQuantity = ''2''\<rparr>]
      = remaining_of int_lib (AggregateResources (plain_need 3 ''6'')) taken"
proof -
  have sd: "seed_configured_supply int_lib [plain_need 3 ''6''] 3 (new_shared_state bound_snapshot)
      = (fst sample_seeded, snd sample_seeded)" by (simp add: sample_seeded_def)
  show ?thesis
    using seed_claims_justified [OF bound_snapshot_ok sd, THEN conjunct2, rule_format, of 0]
      sample_seeded_deficit by auto
qed

lemma plain_pass_sample:
  "plain_pass int_lib bound_snapshot (plain_need 3 ''6'') (sample_machine ''a'' StateConfigured ''c1'' ''z1'')"
  by code_simp

theorem seed_respects_priority_witness:
  "\<exists>c. gm_get (claimedBy (fst sample_seeded)) ''a'' = Some c
    \<and> 3 \<le> priority (nProfile ([plain_need 3 ''6''] ! cNeed c))"
proof -
  have sd: "seed_configured_supply int_lib [plain_need 3 ''6''] 3 (new_shared_state bound_snapshot)
      = (fst sample_seeded, snd sample_seeded)" by (simp add: sample_seeded_def)
  have nk: "same_requirement_key (nProfile ([plain_need 3 ''6''] ! 0)) = None" by code_simp
  have nz: "\<not> is_zero int_lib (snd sample_seeded ! 0)" unfolding sample_seeded_deficit by code_simp
  have pp: "plain_pass int_lib bound_snapshot ([plain_need 3 ''6''] ! 0)
      (sample_machine ''a'' StateConfigured ''c1'' ''z1'')" using plain_pass_sample by simp
  have pr: "priority (nProfile ([plain_need 3 ''6''] ! 0)) = 3"
    by (simp add: plain_need_def sample_need_def new_profile_def)
  have i: "ID (sample_machine ''a'' StateConfigured ''c1'' ''z1'') = ''a''" by (simp add: sample_machine_def)
  from seed_respects_priority [OF bound_snapshot_ok sd _ nk nz pp] show ?thesis unfolding pr i by simp
qed

section \<open>The cycle\<close>

text \<open>C8: A gang is never split across domains, whatever the workers do: from the state the pre-pass
  leaves, after any number of proposals in any interleaving (each made from any earlier view of
  the claims), every machine claimed for a co-located need whose domain is recorded lies in
  that domain and matches the need.\<close>

theorem gang_stays_in_domain:
  assumes "snapshot_ok snap" "seed_configured_supply Q ns retries (new_shared_state snap) = (s0, defs)"
    and "worker_steps Q ns s0 s" "mid \<in> set (claimed_for s n)"
    and "same_requirement_key (nProfile (ns ! n)) = Some k" "same_domain_for s0 n \<noteq> ''''"
  shows "\<exists>m. snap_get snap mid = Some m \<and> match_profile (nProfile (ns ! n)) m
    \<and> lookup_attribute k m = Some (same_domain_for s0 n)"
proof -
  note V = seeded_claims_valid [OF assms(1,2)]
  note W = worker_steps_valid [OF assms(3) V(1)]
  have v: "claims_valid ns s" using W by blast
  obtain m c where c: "gm_get (claimedBy s) mid = Some c" "cNeed c = n" "claim_valid ns s mid c"
      "snap_get (ssSnap s) mid = Some m" "ID m = mid"
    by (rule claimed_get [OF v assms(4)])
  have sd: "same_domain_for s n = same_domain_for s0 n" "ssSnap s = snap"
    using W V(2) by (simp_all add: same_domain_for_def)
  show ?thesis using c assms(5,6) unfolding claim_valid_def sd by (metis option.inject sd(1))
qed


text \<open>C10: A cycle allocates no machine twice: over all results together no machine occurs twice, and
  what a result bootstraps is Idle, what it provisions Speculative, and both are claimed for it.\<close>

theorem cycle_allocates_once:
  assumes "snapshot_ok snap" "fp_unique ns"
    and "snap_len snap < f" "length ns + snap_len snap * length ns \<le> g"
    and "run_cycle g f Q snap ns retries = Some (Returned r)"
  shows "distinct (crClaimed r) \<and> crClaimed r = concat (map nrClaimedMachines (crResults r))
    \<and> (\<forall>x\<in>set (crResults r).
        nrBootstrapMachines x = filter (in_state snap StateIdle) (nrClaimedMachines x)
        \<and> nrProvisionMachines x = filter (in_state snap StateSpeculative) (nrClaimedMachines x))"
proof -
  obtain s where r: "r = cycle_results Q ns s" and s: "claims_valid ns s" "ssSnap s = snap"
    by (rule run_cycle_returned [OF assms(1-5)])
  have cl: "crClaimed r = concat (map nrClaimedMachines (crResults r))"
    by (simp add: r cycle_results_def)
  have "map nrClaimedMachines (crResults r) = map (claimed_for s) [0..<length ns]"
    by (simp add: r cycle_results_def need_result_for_def Let_def)
  moreover have "distinct (concat (map (claimed_for s) [0..<length ns]))"
    using s(1) by (intro claimed_disjoint) (simp_all add: claims_valid_def)
  ultimately have "distinct (crClaimed r)" unfolding cl by (simp only:)
  then show ?thesis
    using s(2) cl by (auto simp: r cycle_results_def need_result_for_def Let_def)
qed

text \<open>C11: The result of a need is marked unsatisfied exactly when the machines claimed for it do not
  cover its demand in some dimension (capacities are not negative and sums stay within the
  quantity range).\<close>

theorem cycle_unsatisfied_iff:
  assumes "snapshot_ok snap" "fp_unique ns"
    and "snap_len snap < f" "length ns + snap_len snap * length ns \<le> g"
    and "run_cycle g f Q snap ns retries = Some (Returned r)"
    and q: "quantity_laws Q val" "n < length ns"
    and "taken = map (\<lambda>k. the (snap_get snap k)) (nrClaimedMachines (crResults r ! n))"
    and "capacity_ok Q val taken" "\<forall>d. capacity_sum Q val taken d \<le> q_cap"
  shows "nrUnsatisfied (crResults r ! n)
    \<longleftrightarrow> (\<exists>d. capacity_sum Q val taken d < rval Q val (AggregateResources (ns ! n)) d)"
proof -
  obtain s where s: "r = cycle_results Q ns s" "claims_valid ns s" "ssSnap s = snap"
    by (rule run_cycle_returned [OF assms(1-5)])
  have x: "crResults r ! n = need_result_for Q ns s n"
    using s(1) assms(7) by (simp add: cycle_results_def)
  have t: "taken = claimed_machines s n"
    using assms(8) s(3) by (simp add: x claimed_machines_def need_result_for_def Let_def)
  have "nrUnsatisfied (crResults r ! n) \<longleftrightarrow> \<not> is_zero Q (compute_deficit Q ns n s)"
    by (simp add: x need_result_for_def Let_def)
  then show ?thesis using deficit_zero_iff [OF q(1) s(2)] assms(9,10) unfolding t
    by (auto simp: not_le)
qed

text \<open>A co-located need with one machine bound to its cluster.\<close>

definition gang_need :: need where
  "gang_need = (sample_need ''c1'' ''6'')\<lparr>AcquisitionParked := True\<rparr>"

definition gang_seeded :: "shared_state \<times> resource_qty list list" where
  "gang_seeded = seed_configured_supply int_lib [gang_need] 3 (new_shared_state bound_snapshot)"

lemma choose_single: "sbCount b \<noteq> 0 \<Longrightarrow> choose_same_bucket [b] d = Some b"
  using choose_same_bucket_none [of "[b]" d] choose_same_bucket_mem(1) [of "[b]" d]
  by (cases "choose_same_bucket [b] d") auto

lemma gang_seed:
  "\<exists>sat cov rm. seed_same_profile int_lib bound_snapshot gang_need 0 zone_key 3
      (new_shared_state bound_snapshot, new_supply_index, [])
    = ((seed_all 0 (Precedence 7 1 1) 3 [''a''] (same_recorded 0 ''z1'' sat cov (new_shared_state bound_snapshot)),
        new_supply_index\<lparr>siDims := [(''cpu'', 0)]\<rparr>, []), rm)"
proof -
  let ?a = "sample_machine ''a'' StateConfigured ''c1'' ''z1''"
  let ?b = "\<lparr>sbValue = ''z1'', sbCount = 1, sbCreditableCount = 1, sbTotal = [4000],
    sbCreditableTotal = [4000], sbCreditableOwnTotal = []\<rparr>"
  let ?c = "\<lparr>scId = ''a'', scAlloc = [\<lparr>rqName = ''cpu'', rqQuantity = ''4''\<rparr>], scOwn = False\<rparr>"
  have p1: "parse_vec int_lib (siDims new_supply_index) (MinUnit gang_need) = ([1000], [(''cpu'', 0)])" by code_simp
  have p2: "foldl (add_creditable int_lib (new_shared_state bound_snapshot) gang_need zone_key [1000]) ([], [(''cpu'', 0)])
      (creditable_machines bound_snapshot gang_need) = ([(''z1'', ?b, [?c])], [(''cpu'', 0)])" by code_simp
  have p4: "parse_vec int_lib [(''cpu'', 0)] (AggregateResources gang_need) = ([6000], [(''cpu'', 0)])" by code_simp
  have pk: "AcquisitionParked gang_need" by (simp add: gang_need_def)
  have pr: "precedence_from_profile (nProfile gang_need) = Precedence 7 1 1" by code_simp
  have nz: "\<not> is_zero int_lib (AggregateResources gang_need)" by code_simp
  show ?thesis
    using nz by (simp add: seed_same_profile_def Let_def p1 p2 p4 pk pr choose_single bucket_at_def
        gm_at_def incumbent_first_def same_recorded_def) blast
qed

lemma gang_seeded_value:
  "claimed_for (fst gang_seeded) 0 = [''a'']" "same_domain_for (fst gang_seeded) 0 = ''z1''"
  "same_requirement_key (nProfile gang_need) = Some zone_key"
proof -
  have o: "seed_order [gang_need] = [0]" by code_simp
  show k: "same_requirement_key (nProfile gang_need) = Some zone_key" by code_simp
  obtain sat cov rm where s: "seed_same_profile int_lib bound_snapshot gang_need 0 zone_key 3
      (new_shared_state bound_snapshot, new_supply_index, [])
    = ((seed_all 0 (Precedence 7 1 1) 3 [''a''] (same_recorded 0 ''z1'' sat cov (new_shared_state bound_snapshot)),
        new_supply_index\<lparr>siDims := [(''cpu'', 0)]\<rparr>, []), rm)" using gang_seed by blast
  have sn: "ssSnap (new_shared_state bound_snapshot) = bound_snapshot" by (simp add: new_shared_state_def)
  have e: "fst gang_seeded = seed_all 0 (Precedence 7 1 1) 3 [''a'']
      (same_recorded 0 ''z1'' sat cov (new_shared_state bound_snapshot))"
    by (simp add: gang_seeded_def seed_configured_supply_def o seed_need_def k s sn)
  have n: "claimed_for (new_shared_state bound_snapshot) 0 = []"
    "\<not> is_claimed (new_shared_state bound_snapshot) k" for k
    by (simp_all add: claimed_for_def is_claimed_def new_shared_state_def)
  show "claimed_for (fst gang_seeded) 0 = [''a'']"
    unfolding e by (subst claimed_for_seed_all)
      (simp_all add: n occ.steps_inv [OF same_recorded_steps claims_ok_new])
  show "same_domain_for (fst gang_seeded) 0 = ''z1''" unfolding e same_domain_for_def seed_all_fields by simp
qed

theorem gang_stays_in_domain_witness:
  "\<exists>m. snap_get bound_snapshot ''a'' = Some m \<and> lookup_attribute zone_key m = Some ''z1''"
proof -
  have sd: "seed_configured_supply int_lib [gang_need] 3 (new_shared_state bound_snapshot)
      = (fst gang_seeded, snd gang_seeded)" by (simp add: gang_seeded_def)
  have "''a'' \<in> set (claimed_for (fst gang_seeded) 0)" by (simp add: gang_seeded_value)
  moreover have "same_requirement_key (nProfile ([gang_need] ! 0)) = Some zone_key" by (simp add: gang_seeded_value)
  moreover have "same_domain_for (fst gang_seeded) 0 \<noteq> ''''" by (simp add: gang_seeded_value)
  ultimately show ?thesis
    using gang_stays_in_domain [OF bound_snapshot_ok sd rtranclp.rtrancl_refl, of "''a''" 0 zone_key]
    unfolding gang_seeded_value(2) by blast
qed

lemma gang_fp_unique: "fp_unique [gang_need]"
  by (simp add: fp_unique_def)

lemma bound_len: "snap_len bound_snapshot = 1"
  by code_simp

lemma single_fits: "channel_fits snap [nd] retries"
proof -
  have "displacements [nd] k = 0" for k
    using card_image_le [of "{..<1}" "need_prec [nd]"] by (simp add: displacements_def)
  then show ?thesis by (simp add: channel_fits_def queue_buf_def Let_def)
qed


theorem cycle_allocates_once_witness:
  "\<exists>r. run_cycle 2 2 int_lib bound_snapshot [gang_need] 3 = Some (Returned r) \<and> distinct (crClaimed r)"
proof -
  have b: "snap_len bound_snapshot < 2" "length [gang_need] + snap_len bound_snapshot * length [gang_need] \<le> 2"
    by (simp_all add: bound_len)
  obtain s where s: "run_cycle 2 2 int_lib bound_snapshot [gang_need] 3
      = Some (Returned (cycle_results int_lib [gang_need] s))"
    by (rule run_cycle_some [OF bound_snapshot_ok gang_fp_unique b single_fits])
  then show ?thesis using cycle_allocates_once [OF bound_snapshot_ok gang_fp_unique b s] by blast
qed

definition void_snapshot :: snapshot where
  "void_snapshot = snapshot_of \<lparr>byID = [], idleSince = []\<rparr>"

lemma void_snapshot_props: "snapshot_ok void_snapshot" "snap_get void_snapshot k = None" "snap_len void_snapshot = 0"
proof -
  have i: "inv_ok \<lparr>byID = [], idleSince = []\<rparr>" by (simp add: inv_ok_def)
  then show "snapshot_ok void_snapshot" unfolding snapshot_ok_def void_snapshot_def by blast
  show "snap_get void_snapshot k = None" by (simp add: void_snapshot_def snap_get_inv [OF i])
  show "snap_len void_snapshot = 0" by code_simp
qed

theorem cycle_unsatisfied_iff_witness:
  "\<exists>r. run_cycle 1 1 int_lib void_snapshot [plain_need 3 ''6''] 3 = Some (Returned r) \<and> nrUnsatisfied (crResults r ! 0)"
proof -
  note V = void_snapshot_props
  have u: "fp_unique [plain_need 3 ''6'']" by (simp add: fp_unique_def)
  have b: "snap_len void_snapshot < 1"
    "length [plain_need 3 ''6''] + snap_len void_snapshot * length [plain_need 3 ''6''] \<le> 1"
    by (simp_all add: V(3))
  obtain s where s: "run_cycle 1 1 int_lib void_snapshot [plain_need 3 ''6''] 3
      = Some (Returned (cycle_results int_lib [plain_need 3 ''6''] s))" (is "_ = Some (Returned ?r)")
    and v: "claims_valid [plain_need 3 ''6''] s" "ssSnap s = void_snapshot"
    by (rule run_cycle_some [OF V(1) u b single_fits])
  have "k \<notin> set (claimed_for s 0)" for k
    using claimed_get [OF v(1), of k 0] V(2) v(2) by (metis option.distinct(1))
  then have "claimed_for s 0 = []" by (metis all_not_in_conv set_empty)
  then have none: "nrClaimedMachines (crResults ?r ! 0) = []"
    by (simp add: cycle_results_def need_result_for_def Let_def)
  have p: "parse_or_zero int_lib ''6'' = 6" by code_simp
  have d: "rval int_lib of_int (AggregateResources ([plain_need 3 ''6''] ! 0)) ''cpu'' = 6"
    by (simp add: rval_def to_qty_map_def gm_at_def p plain_need_def sample_need_def)
  have "nrUnsatisfied (crResults ?r ! 0) \<longleftrightarrow> (\<exists>d. capacity_sum int_lib of_int [] d
      < rval int_lib of_int (AggregateResources ([plain_need 3 ''6''] ! 0)) d)"
    by (rule cycle_unsatisfied_iff [OF V(1) u b s int_lib_laws])
      (simp_all add: none capacity_ok_def q_cap_def)
  moreover have "capacity_sum int_lib of_int [] ''cpu'' < rval int_lib of_int (AggregateResources ([plain_need 3 ''6''] ! 0)) ''cpu''"
    unfolding d by simp
  ultimately show ?thesis using s by blast
qed

end
